(* ===== verification/Ptp_Prelude.thy ===== *)
theory Ptp_Prelude
  imports Main "HOL-Library.Word" "HOL-Library.Monad_Syntax"
begin

text \<open>
  Shared vocabulary of the development: machine integer types of the C++ sources, a small
  model of the memory operations they use (\<open>memcpy\<close>, \<open>memmove\<close>, \<open>realloc\<close>), the contract
  of a fixed-width integer codec, and the generic lemmas on bytes, lists and words the
  components share.

  An access outside an allocated object is undefined behaviour in C++. Every operation that
  touches memory returns an \<open>option\<close>, with \<open>None\<close> for such an access; a theorem that an
  operation returns \<open>Some\<close> is therefore a memory-safety theorem. Memory that has been
  allocated and not yet written has an unknown content, which the definitions take as a
  parameter \<open>garb\<close> and the theorems quantify over. Allocation itself is taken to succeed.
\<close>

unbundle bit_operations_syntax

named_theorems mem_simps \<open>rewrite rules for the memory operations\<close>
named_theorems unfold_ops \<open>definitions of straight-line operations, unfolded together\<close>

type_synonym byte = "8 word"
type_synonym bytes = "8 word list"
type_synonym u16 = "16 word"
type_synonym u32 = "32 word"
type_synonym u64 = "64 word"

subsection \<open>Memory\<close>

definition mem_read :: "bytes \<Rightarrow> nat \<Rightarrow> nat \<Rightarrow> bytes option" where
  "mem_read m off n = (if off + n \<le> length m then Some (take n (drop off m)) else None)"

definition mem_write :: "bytes \<Rightarrow> nat \<Rightarrow> bytes \<Rightarrow> bytes option" where
  "mem_write m off d =
     (if off + length d \<le> length m
      then Some (take off m @ d @ drop (off + length d) m) else None)"

definition realloc :: "(nat \<Rightarrow> byte) \<Rightarrow> bytes \<Rightarrow> nat \<Rightarrow> bytes" where
  "realloc garb m n = take n m @ map garb [length m..<n]"

definition alloc :: "(nat \<Rightarrow> byte) \<Rightarrow> nat \<Rightarrow> bytes" where
  "alloc garb n = map garb [0..<n]"

lemma length_realloc [simp]: "length (realloc garb m n) = n"
  by (auto simp: realloc_def)

lemma take_realloc [mem_simps]: "k \<le> length m \<Longrightarrow> k \<le> n \<Longrightarrow> take k (realloc garb m n) = take k m"
  by (simp add: realloc_def)

lemma length_alloc [simp]: "length (alloc garb n) = n"
  by (simp add: alloc_def)

lemma mem_write_Some_iff:
  "mem_write m off d = Some m' \<longleftrightarrow>
     off + length d \<le> length m \<and> m' = take off m @ d @ drop (off + length d) m"
  by (auto simp: mem_write_def)

lemma mem_write_length: "mem_write m off d = Some m' \<Longrightarrow> length m' = length m"
  by (auto simp: mem_write_def split: if_splits)

lemma mem_write_ok [mem_simps]:
  "off + length d \<le> length m \<Longrightarrow>
   mem_write m off d = Some (take off m @ d @ drop (off + length d) m)"
  by (simp add: mem_write_def)

lemma mem_read_ok [mem_simps]:
  "off + n \<le> length m \<Longrightarrow> mem_read m off n = Some (take n (drop off m))"
  by (simp add: mem_read_def)

lemma mem_read_after_write:
  "mem_write m off d = Some m' \<Longrightarrow> mem_read m' off (length d) = Some d"
  by (auto simp: mem_write_def mem_read_def split: if_splits)

lemma mem_read_other:
  assumes "mem_write m off d = Some m'" and "p + n \<le> off \<or> off + length d \<le> p"
  shows "mem_read m' p n = mem_read m p n"
proof -
  from assms(1) have m': "m' = take off m @ d @ drop (off + length d) m"
    and b: "off + length d \<le> length m"
    by (auto simp: mem_write_Some_iff)
  from assms(2) show ?thesis
  proof
    assume "p + n \<le> off"
    then have "take n (drop p m') = take n (drop p m)"
      using b by (auto simp: m' drop_take min_def)
    then show ?thesis using b by (simp add: mem_read_def m')
  next
    assume *: "off + length d \<le> p"
    then have "drop p m' = drop p m"
      using b by (simp add: m' min_def)
    then show ?thesis using b * by (simp add: mem_read_def m')
  qed
qed

subsection \<open>Fixed-width integer codecs\<close>

text \<open>
  The wire formats of the program are concatenations of fixed-width integers. A codec is an
  encoder to a fixed number of bytes with a decoder that inverts it; the lemmas of the
  locale are what the header and buffer proofs use of it.
\<close>

locale fixed_codec =
  fixes enc :: "'w \<Rightarrow> bytes" and dec :: "bytes \<Rightarrow> 'w" and width :: nat
  assumes enc_length: "length (enc w) = width"
    and dec_enc: "dec (enc w) = w"
begin

lemma dec_take: "dec (take width (enc w @ r)) = w"
  by (simp add: dec_enc enc_length)

lemma read_written:
  assumes "mem_write m off (enc w) = Some m'"
  shows "map_option dec (mem_read m' off width) = Some w"
  using mem_read_after_write [OF assms] by (simp add: enc_length dec_enc)

lemma write_ok: "off + width \<le> length m \<Longrightarrow> \<exists>m'. mem_write m off (enc w) = Some m'"
  by (simp add: mem_write_def enc_length)

lemma enc_inj: "enc v = enc w \<Longrightarrow> v = w"
  by (metis dec_enc)

end

subsection \<open>Byte queues\<close>

text \<open>
  The contract the connection layer relies on of its buffers: bytes are appended at the end
  and consumed from the front. \<open>room\<close> is the provider's condition for growing.
\<close>

locale byte_fifo =
  fixes wf :: "'q \<Rightarrow> bool" and contents :: "'q \<Rightarrow> bytes" and room :: "'q \<Rightarrow> nat \<Rightarrow> bool"
    and put :: "bytes \<Rightarrow> 'q \<Rightarrow> 'q option" and get :: "nat \<Rightarrow> 'q \<Rightarrow> (bytes \<times> 'q) option"
    and cap :: nat
  assumes put_spec: "wf q \<Longrightarrow> room q (length d) \<Longrightarrow>
       \<exists>q'. put d q = Some q' \<and> wf q' \<and> contents q' = contents q @ d"
    and get_spec: "wf q \<Longrightarrow> n < cap \<Longrightarrow>
       \<exists>q'. get n q = Some (take n (contents q), q') \<and> wf q' \<and> contents q' = drop n (contents q)"
begin

lemma put_then_get:
  assumes "wf q" and "room q (length d)" and "length (contents q) + length d < cap"
  shows "\<exists>q1 q2. put d q = Some q1
     \<and> get (length (contents q) + length d) q1 = Some (contents q @ d, q2)
     \<and> wf q2 \<and> contents q2 = []"
proof -
  from put_spec [OF assms(1,2)] obtain q1
    where "put d q = Some q1" "wf q1" "contents q1 = contents q @ d" by blast
  with get_spec [of q1 "length (contents q) + length d"] assms(3) show ?thesis by auto
qed

lemma get_twice:
  assumes "wf q" and "n < cap" and "k < cap"
  shows "\<exists>q1 q2. get n q = Some (take n (contents q), q1)
     \<and> get k q1 = Some (take k (drop n (contents q)), q2)
     \<and> wf q2 \<and> contents q2 = drop (n + k) (contents q)"
proof -
  from get_spec [OF assms(1,2)] obtain q1
    where 1: "get n q = Some (take n (contents q), q1)" "wf q1" "contents q1 = drop n (contents q)"
    by blast
  from get_spec [OF 1(2) assms(3)] 1(3) 1(1) show ?thesis by (auto simp: add.commute)
qed

end

subsection \<open>Words\<close>

lemma unat_add_nowrap:
  fixes a b :: "'a::len word"
  assumes "unat a + unat b < 2 ^ LENGTH('a)"
  shows "unat (a + b) = unat a + unat b"
  using assms by (simp add: unat_add_lem)

lemma unat_sub_le:
  fixes a b :: "'a::len word"
  assumes "unat b \<le> unat a"
  shows "unat (a - b) = unat a - unat b"
  using assms by (simp add: unat_sub word_le_nat_alt)

lemma unat_of_nat_lt: "n < 2 ^ LENGTH('a) \<Longrightarrow> unat (of_nat n :: 'a::len word) = n"
  by (simp add: unat_of_nat take_bit_nat_eq_self)

lemma unat_lt_32 [simp]: "unat (w :: u32) < 4294967296"
  using unsigned_less [of w] by simp

lemma unat_add_32: "unat (a + b :: u32) = (unat a + unat b) mod 4294967296"
  by (simp add: unat_word_ariths)

lemma unat_add_fits_32:
  fixes a b :: u32
  assumes "unat a + unat b < 4294967296"
  shows "unat (a + b) = unat a + unat b"
  using assms by (simp add: unat_add_32)

lemma unat_add_wrap_32:
  fixes a b :: u32
  assumes "4294967296 \<le> unat a + unat b"
  shows "unat (a + b) = unat a + unat b - 4294967296"
proof -
  have "unat a + unat b - 4294967296 < 4294967296"
    using unat_lt_32 [of a] unat_lt_32 [of b] by linarith
  with assms show ?thesis by (simp add: unat_add_32 le_mod_geq)
qed

lemma less_unat_32: "a < b \<longleftrightarrow> unat a < unat (b :: u32)"
  by (simp add: word_less_nat_alt)

lemma le_unat_32: "a \<le> b \<longleftrightarrow> unat a \<le> unat (b :: u32)"
  by (simp add: word_le_nat_alt)

lemma sint_small:
  assumes "unat (w :: u32) < 2147483648"
  shows "sint w = int (unat w)"
proof -
  have u: "uint w = int (unat w)" by simp
  with assms have "uint w < 2147483648" by linarith
  then have "signed_take_bit 31 (uint w) = uint w"
    by (intro signed_take_bit_int_eq_self) (simp_all add: order_trans [of _ 0])
  then have "sint w = uint w" by (simp add: sint_uint)
  with u show ?thesis by simp
qed

end
