(* ===== verification/Util_Pdu.thy ===== *)
theory Util_Pdu
  imports Ptp_Prelude
begin

text \<open>
  \<^verbatim>\<open>src/ptp_global/UtilPdu.h\<close> and \<^verbatim>\<open>src/ptp_global/UtilPdu.cpp\<close>: the exception the packet
  layer throws, the growable byte buffer \<open>CSimpleBuffer\<close>, the big-endian stream
  \<open>CByteStream\<close> over it or over a raw array, and the two base-36 helpers \<open>idtourl\<close> and
  \<open>urltoid\<close>.

  \<open>CSimpleBuffer\<close> is a record with the source's three members; \<open>m_buffer\<close> is the allocated
  object (the empty list for \<open>NULL\<close>), so its length is the number of bytes the program may
  touch. The 32-bit members are words, and their arithmetic wraps as the source's does. The
  main results are the refinement of \<open>CSimpleBuffer\<close> to a byte queue, the exact condition
  under which \<open>Write\<close> is memory safe, and the round trips of the integer codecs.
\<close>

section \<open>CPduException\<close>

record pdu_exception =
  m_service_id :: u32
  m_command_id :: u32
  m_error_code :: u32
  m_error_msg :: string

definition ERROR_CODE_PARSE_FAILED :: u32 where "ERROR_CODE_PARSE_FAILED = 1"
definition ERROR_CODE_ALLOC_FAILED :: u32 where "ERROR_CODE_ALLOC_FAILED = 4"

definition CPduException :: "u32 \<Rightarrow> string \<Rightarrow> pdu_exception" where
  "CPduException error_code error_msg =
     \<lparr>m_service_id = 0, m_command_id = 0, m_error_code = error_code, m_error_msg = error_msg\<rparr>"

definition CPduException3 :: "u32 \<Rightarrow> u32 \<Rightarrow> string \<Rightarrow> pdu_exception" where
  "CPduException3 command_id error_code error_msg =
     \<lparr>m_service_id = 0, m_command_id = command_id, m_error_code = error_code,
      m_error_msg = error_msg\<rparr>"

definition parse_failed :: pdu_exception where
  "parse_failed = CPduException ERROR_CODE_PARSE_FAILED ''parase packet failed!''"

section \<open>CSimpleBuffer\<close>

record simple_buffer =
  m_buffer :: bytes
  m_alloc_size :: u32
  m_write_offset :: u32

definition CSimpleBuffer :: simple_buffer where
  "CSimpleBuffer = \<lparr>m_buffer = [], m_alloc_size = 0, m_write_offset = 0\<rparr>"

definition sb_IncWriteOffset :: "u32 \<Rightarrow> simple_buffer \<Rightarrow> simple_buffer" where
  "sb_IncWriteOffset len b = b\<lparr>m_write_offset := m_write_offset b + len\<rparr>"

definition sb_Position :: "u32 \<Rightarrow> simple_buffer \<Rightarrow> simple_buffer" where
  "sb_Position offset b = b\<lparr>m_write_offset := offset\<rparr>"

definition sb_Extend :: "(nat \<Rightarrow> byte) \<Rightarrow> u32 \<Rightarrow> simple_buffer \<Rightarrow> simple_buffer" where
  "sb_Extend garb len b =
     (let alloc1 = m_write_offset b + len;
          alloc2 = alloc1 + drop_bit 2 alloc1
      in b\<lparr>m_alloc_size := alloc2, m_buffer := realloc garb (m_buffer b) (unat alloc2)\<rparr>)"

text \<open>\<open>Write\<close>: the source pointer is \<open>None\<close> for \<open>NULL\<close> (space is reserved, nothing copied).\<close>

definition sb_Write ::
  "(nat \<Rightarrow> byte) \<Rightarrow> bytes option \<Rightarrow> u32 \<Rightarrow> simple_buffer \<Rightarrow> (u32 \<times> simple_buffer) option" where
  "sb_Write garb buf len b =
     (let b1 = (if m_write_offset b + len > m_alloc_size b then sb_Extend garb len b else b)
      in do {
        m \<leftarrow> (case buf of
               None \<Rightarrow> Some (m_buffer b1)
             | Some d \<Rightarrow> do {
                 src \<leftarrow> mem_read d 0 (unat len);
                 mem_write (m_buffer b1) (unat (m_write_offset b1)) src });
        Some (len, b1\<lparr>m_buffer := m, m_write_offset := m_write_offset b1 + len\<rparr>) })"

definition sb_ReadBuffer :: "u32 \<Rightarrow> u32 \<Rightarrow> simple_buffer \<Rightarrow> bytes option" where
  "sb_ReadBuffer len offset b = mem_read (m_buffer b) (unat offset) (unat len)"

text \<open>
  \<open>Read\<close>: the first argument says whether the destination pointer is non-null; the bytes
  copied to it are the first component of the result.
\<close>

definition sb_Read :: "bool \<Rightarrow> u32 \<Rightarrow> simple_buffer \<Rightarrow> (bytes \<times> u32 \<times> simple_buffer) option" where
  "sb_Read to_buf len0 b =
     (let len = (if len0 > m_write_offset b then m_write_offset b else len0)
      in do {
        d \<leftarrow> (if to_buf then mem_read (m_buffer b) 0 (unat len) else Some []);
        let off = m_write_offset b - len;
        tail \<leftarrow> mem_read (m_buffer b) (unat len) (unat off);
        m \<leftarrow> mem_write (m_buffer b) 0 tail;
        Some (d, len, b\<lparr>m_buffer := m, m_write_offset := off\<rparr>) })"

text \<open>The abstract view: the bytes written and not yet read.\<close>

definition sb_contents :: "simple_buffer \<Rightarrow> bytes" where
  "sb_contents b = take (unat (m_write_offset b)) (m_buffer b)"

definition sb_wf :: "simple_buffer \<Rightarrow> bool" where
  "sb_wf b \<longleftrightarrow> length (m_buffer b) = unat (m_alloc_size b)
     \<and> unat (m_write_offset b) \<le> unat (m_alloc_size b)"

text \<open>The growth by a quarter that \<open>Extend\<close> computes stays below \<open>2 ^ 32\<close>.\<close>

definition sb_fits :: "simple_buffer \<Rightarrow> nat \<Rightarrow> bool" where
  "sb_fits b n \<longleftrightarrow>
     (let s = unat (m_write_offset b) + n in s + s div 4 < 4294967296)"

text \<open>The buffer through the interface of a byte queue.\<close>

definition sb_put :: "(nat \<Rightarrow> byte) \<Rightarrow> bytes \<Rightarrow> simple_buffer \<Rightarrow> simple_buffer option" where
  "sb_put garb d b = map_option snd (sb_Write garb (Some d) (of_nat (length d)) b)"

definition sb_get :: "nat \<Rightarrow> simple_buffer \<Rightarrow> (bytes \<times> simple_buffer) option" where
  "sb_get n b = map_option (\<lambda>(d, _, b'). (d, b')) (sb_Read True (of_nat n) b)"

section \<open>CByteStream\<close>

subsection \<open>The static integer accessors\<close>

text \<open>
  Integers are big-endian. Arithmetic happens in \<open>int\<close> after promotion: unsigned operands
  are zero-extended, signed ones sign-extended and shifted arithmetically. A pointer into an
  array is the array with an offset.
\<close>

definition be16 :: "bytes \<Rightarrow> u16" where
  "be16 b = ucast (push_bit 8 (ucast (b ! 0) :: u32) OR ucast (b ! 1))"

definition be32 :: "bytes \<Rightarrow> u32" where
  "be32 b = push_bit 24 (ucast (b ! 0)) OR push_bit 16 (ucast (b ! 1))
     OR push_bit 8 (ucast (b ! 2)) OR ucast (b ! 3)"

definition put_u16 :: "u16 \<Rightarrow> bytes" where
  "put_u16 data = [ucast (drop_bit 8 (ucast data :: u32)), ucast ((ucast data :: u32) AND 0xFF)]"

definition put_i16 :: "u16 \<Rightarrow> bytes" where
  "put_i16 data =
     [ucast (signed_drop_bit 8 (scast data :: u32)), ucast ((scast data :: u32) AND 0xFF)]"

definition put_u32 :: "u32 \<Rightarrow> bytes" where
  "put_u32 data =
     [ucast (drop_bit 24 data), ucast (drop_bit 16 data AND 0xFF),
      ucast (drop_bit 8 data AND 0xFF), ucast (data AND 0xFF)]"

definition put_i32 :: "u32 \<Rightarrow> bytes" where
  "put_i32 data =
     [ucast (signed_drop_bit 24 data), ucast (signed_drop_bit 16 data AND 0xFF),
      ucast (signed_drop_bit 8 data AND 0xFF), ucast (data AND 0xFF)]"

definition ReadInt16 :: "bytes \<Rightarrow> nat \<Rightarrow> u16 option" where
  "ReadInt16 buf p = map_option be16 (mem_read buf p 2)"

definition ReadUint16 :: "bytes \<Rightarrow> nat \<Rightarrow> u16 option" where
  "ReadUint16 buf p = map_option be16 (mem_read buf p 2)"

definition ReadInt32 :: "bytes \<Rightarrow> nat \<Rightarrow> u32 option" where
  "ReadInt32 buf p = map_option be32 (mem_read buf p 4)"

definition ReadUint32 :: "bytes \<Rightarrow> nat \<Rightarrow> u32 option" where
  "ReadUint32 buf p = map_option be32 (mem_read buf p 4)"

definition WriteInt16 :: "bytes \<Rightarrow> nat \<Rightarrow> u16 \<Rightarrow> bytes option" where
  "WriteInt16 buf p data = mem_write buf p (put_i16 data)"

definition WriteUint16 :: "bytes \<Rightarrow> nat \<Rightarrow> u16 \<Rightarrow> bytes option" where
  "WriteUint16 buf p data = mem_write buf p (put_u16 data)"

definition WriteInt32 :: "bytes \<Rightarrow> nat \<Rightarrow> u32 \<Rightarrow> bytes option" where
  "WriteInt32 buf p data = mem_write buf p (put_i32 data)"

definition WriteUint32 :: "bytes \<Rightarrow> nat \<Rightarrow> u32 \<Rightarrow> bytes option" where
  "WriteUint32 buf p data = mem_write buf p (put_u32 data)"

subsection \<open>The stream object\<close>

datatype backing = Null | Raw bytes | Simp simple_buffer

record byte_stream =
  bs_back :: backing
  m_len :: u32
  m_pos :: u32

type_synonym 'a stream_res = "(pdu_exception + 'a \<times> byte_stream) option"

definition stream_bind ::
  "'a stream_res \<Rightarrow> ('a \<Rightarrow> byte_stream \<Rightarrow> 'b stream_res) \<Rightarrow> 'b stream_res" where
  "stream_bind r f =
     (case r of None \<Rightarrow> None | Some (Inl e) \<Rightarrow> Some (Inl e) | Some (Inr (x, s)) \<Rightarrow> f x s)"

definition CByteStream_raw :: "bytes \<Rightarrow> u32 \<Rightarrow> byte_stream" where
  "CByteStream_raw buf len = \<lparr>bs_back = Raw buf, m_len = len, m_pos = 0\<rparr>"

definition CByteStream_simp :: "simple_buffer \<Rightarrow> u32 \<Rightarrow> byte_stream" where
  "CByteStream_simp b pos = \<lparr>bs_back = Simp b, m_len = 0, m_pos = pos\<rparr>"

definition bs_Skip :: "u32 \<Rightarrow> byte_stream \<Rightarrow> unit stream_res" where
  "bs_Skip len s =
     (let s' = s\<lparr>m_pos := m_pos s + len\<rparr>
      in if m_pos s' > m_len s' then Some (Inl parse_failed) else Some (Inr ((), s')))"

definition bs_ReadByte :: "u32 \<Rightarrow> byte_stream \<Rightarrow> bytes stream_res" where
  "bs_ReadByte len s =
     (if m_pos s + len > m_len s then Some (Inl parse_failed)
      else case bs_back s of
        Simp b \<Rightarrow> do {
          (d, n, b') \<leftarrow> sb_Read True len b;
          Some (Inr (d, s\<lparr>bs_back := Simp b', m_pos := m_pos s + len\<rparr>)) }
      | Raw m \<Rightarrow> do {
          d \<leftarrow> mem_read m (unat (m_pos s)) (unat len);
          Some (Inr (d, s\<lparr>m_pos := m_pos s + len\<rparr>)) }
      | Null \<Rightarrow> if len = 0 then Some (Inr ([], s)) else None)"

definition bs_WriteByte :: "(nat \<Rightarrow> byte) \<Rightarrow> bytes \<Rightarrow> u32 \<Rightarrow> byte_stream \<Rightarrow> byte_stream option" where
  "bs_WriteByte garb buf len s =
     (case bs_back s of
        Simp b \<Rightarrow> do {
          (n, b') \<leftarrow> sb_Write garb (Some buf) len b;
          Some (s\<lparr>bs_back := Simp b', m_pos := m_pos s + len\<rparr>) }
      | Raw m \<Rightarrow>
          if m_pos s + len > m_len s then Some s
          else do {
            src \<leftarrow> mem_read buf 0 (unat len);
            m' \<leftarrow> mem_write m (unat (m_pos s)) src;
            Some (s\<lparr>bs_back := Raw m', m_pos := m_pos s + len\<rparr>) }
      | Null \<Rightarrow> if len = 0 then Some s else None)"

text \<open>\<open>operator <<\<close> for the six integer types.\<close>

definition out_u8 :: "(nat \<Rightarrow> byte) \<Rightarrow> byte \<Rightarrow> byte_stream \<Rightarrow> byte_stream option" where
  "out_u8 garb data = bs_WriteByte garb [data] 1"

definition out_i16 :: "(nat \<Rightarrow> byte) \<Rightarrow> u16 \<Rightarrow> byte_stream \<Rightarrow> byte_stream option" where
  "out_i16 garb data = bs_WriteByte garb (put_i16 data) 2"

definition out_u16 :: "(nat \<Rightarrow> byte) \<Rightarrow> u16 \<Rightarrow> byte_stream \<Rightarrow> byte_stream option" where
  "out_u16 garb data = bs_WriteByte garb (put_u16 data) 2"

definition out_i32 :: "(nat \<Rightarrow> byte) \<Rightarrow> u32 \<Rightarrow> byte_stream \<Rightarrow> byte_stream option" where
  "out_i32 garb data = bs_WriteByte garb (put_i32 data) 4"

definition out_u32 :: "(nat \<Rightarrow> byte) \<Rightarrow> u32 \<Rightarrow> byte_stream \<Rightarrow> byte_stream option" where
  "out_u32 garb data = bs_WriteByte garb (put_u32 data) 4"

text \<open>
  \<open>operator >>\<close>: the local array is decoded after \<open>_ReadByte\<close> filled it; decoding an array
  that was filled only in part reads indeterminate bytes.
\<close>

definition decode_full :: "nat \<Rightarrow> (bytes \<Rightarrow> 'a) \<Rightarrow> bytes \<Rightarrow> byte_stream \<Rightarrow> 'a stream_res" where
  "decode_full n f d s = (if length d = n then Some (Inr (f d, s)) else None)"

definition in_u8 :: "byte_stream \<Rightarrow> byte stream_res" where
  "in_u8 s = stream_bind (bs_ReadByte 1 s) (decode_full 1 hd)"

definition in_u16 :: "byte_stream \<Rightarrow> u16 stream_res" where
  "in_u16 s = stream_bind (bs_ReadByte 2 s) (decode_full 2 be16)"

definition in_u32 :: "byte_stream \<Rightarrow> u32 stream_res" where
  "in_u32 s = stream_bind (bs_ReadByte 4 s) (decode_full 4 be32)"

text \<open>
  Length-prefixed strings and blobs. \<open>WriteString(const char*)\<close> takes the bytes before the
  terminating zero, or \<open>NULL\<close>; \<open>ReadString\<close> and \<open>ReadData\<close> return a pointer into the
  stream's own array (its offset) and the length.
\<close>

definition WriteData :: "(nat \<Rightarrow> byte) \<Rightarrow> bytes \<Rightarrow> u32 \<Rightarrow> byte_stream \<Rightarrow> byte_stream option" where
  "WriteData garb data len s = do { s1 \<leftarrow> out_u32 garb len s; bs_WriteByte garb data len s1 }"

definition WriteString_len :: "(nat \<Rightarrow> byte) \<Rightarrow> bytes \<Rightarrow> u32 \<Rightarrow> byte_stream \<Rightarrow> byte_stream option" where
  "WriteString_len garb str len s = do { s1 \<leftarrow> out_u32 garb len s; bs_WriteByte garb str len s1 }"

definition WriteString :: "(nat \<Rightarrow> byte) \<Rightarrow> bytes option \<Rightarrow> byte_stream \<Rightarrow> byte_stream option" where
  "WriteString garb str s =
     (let size = (case str of None \<Rightarrow> 0 | Some c \<Rightarrow> of_nat (length c)) :: u32
      in do { s1 \<leftarrow> out_u32 garb size s;
              bs_WriteByte garb (case str of None \<Rightarrow> [] | Some c \<Rightarrow> c) size s1 })"

definition ReadData :: "byte_stream \<Rightarrow> (nat \<times> u32) stream_res" where
  "ReadData s = stream_bind (in_u32 s) (\<lambda>len s1.
     stream_bind (bs_Skip len s1) (\<lambda>_ s2. Some (Inr ((unat (m_pos s1), len), s2))))"

definition ReadString :: "byte_stream \<Rightarrow> (nat \<times> u32) stream_res" where
  "ReadString s = stream_bind (in_u32 s) (\<lambda>len s1.
     stream_bind (bs_Skip len s1) (\<lambda>_ s2. Some (Inr ((unat (m_pos s1), len), s2))))"

text \<open>
  A raw stream is well formed when its array has the length it was given and the position is
  inside it.
\<close>

definition bs_wf :: "byte_stream \<Rightarrow> bool" where
  "bs_wf s \<longleftrightarrow> (case bs_back s of Raw m \<Rightarrow> unat (m_len s) \<le> length m | _ \<Rightarrow> False)
     \<and> unat (m_pos s) \<le> unat (m_len s)"

section \<open>idtourl and urltoid\<close>

definition url_digits :: string where
  "url_digits = ''0123456789abcdefghijklmnopqrstuvwxyz''"

text \<open>
  The \<open>do ... while (ptr > buf && value)\<close> loop: the first argument is \<open>ptr - buf\<close>, the bytes
  still free in the static array; the result carries what is left of it.
\<close>

fun idtourl_loop :: "nat \<Rightarrow> u32 \<Rightarrow> string \<Rightarrow> nat \<times> string" where
  "idtourl_loop 0 v acc = (0, acc)"
| "idtourl_loop (Suc n) v acc =
     (let acc' = url_digits ! unat (v mod 36) # acc; v' = v div 36
      in if 0 < n \<and> v' \<noteq> 0 then idtourl_loop n v' acc' else (n, acc'))"

definition idtourl :: "u32 \<Rightarrow> string option" where
  "idtourl uid =
     (let (room, acc) = idtourl_loop 63 (uid * 2 + 56) []
      in if room = 0 then None else Some (CHR ''1'' # acc))"

definition url_char_value :: "char \<Rightarrow> u32 option" where
  "url_char_value c =
     (let k = of_char c :: nat
      in if 48 \<le> k \<and> k \<le> 57 then Some (of_nat (k - 48))
         else if 97 \<le> k \<and> k \<le> 122 then Some (of_nat (k - 87))
         else if 65 \<le> k \<and> k \<le> 90 then Some (of_nat (k - 55))
         else None)"

definition urltoid_step :: "char \<Rightarrow> u32 \<Rightarrow> u32" where
  "urltoid_step c number =
     (case url_char_value c of None \<Rightarrow> number | Some d \<Rightarrow> number * 36 + d)"

definition urltoid :: "string \<Rightarrow> u32" where
  "urltoid url = drop_bit 1 (fold urltoid_step (tl url) 0 - 56)"

section \<open>Theorems\<close>

subsection \<open>Integer codecs\<close>

lemma and_255: "(x :: u32) AND 0xFF = take_bit 8 x"
  by (simp add: take_bit_eq_mask mask_eq_exp_minus_1)

lemma ucast_sdrop: "(ucast (take_bit 8 (signed_drop_bit k (x :: u32))) :: byte)
     = ucast (take_bit 8 (drop_bit k x))" if "k + 8 \<le> 32"
  using that by (intro bit_word_eqI) (auto simp: bit_simps not_less)

lemma ucast_sdrop24: "(ucast (signed_drop_bit 24 (x :: u32)) :: byte) = ucast (drop_bit 24 x)"
  by (rule bit_word_eqI) (auto simp: bit_simps not_less)

lemma put_i32_u32: "put_i32 data = put_u32 data"
  by (simp add: put_i32_def put_u32_def and_255 ucast_sdrop ucast_sdrop24)

lemma put_i16_u16: "put_i16 data = put_u16 data"
proof -
  have "(ucast (signed_drop_bit 8 (scast data :: u32)) :: byte) = ucast (drop_bit 8 (ucast data :: u32))"
  proof (rule bit_word_eqI)
    fix n assume "n < LENGTH(8)"
    then consider "n < 7" | "n = 7" by fastforce
    then show "bit (ucast (signed_drop_bit 8 (scast data :: u32)) :: byte) n
        \<longleftrightarrow> bit (ucast (drop_bit 8 (ucast data :: u32)) :: byte) n"
      by cases (auto simp: bit_simps min_def)
  qed
  moreover have "(ucast (take_bit 8 (scast data :: u32)) :: byte) = ucast (take_bit 8 (ucast data :: u32))"
    by (rule bit_word_eqI) (auto simp: bit_simps min_def)
  ultimately show ?thesis by (simp add: put_i16_def put_u16_def and_255)
qed

lemma be16_put: "be16 (put_u16 w) = w"
  by (rule bit_word_eqI) (auto simp: be16_def put_u16_def and_255 bit_simps)

lemma be32_put: "be32 (put_u32 w) = w"
proof (rule bit_word_eqI)
  fix n assume n: "n < LENGTH(32)"
  consider "n < 8" | "8 \<le> n" "n < 16" | "16 \<le> n" "n < 24" | "24 \<le> n" "n < 32"
    using n by fastforce
  then show "bit (be32 (put_u32 w)) n \<longleftrightarrow> bit w n"
    by cases (auto simp: be32_def put_u32_def and_255 bit_simps)
qed

interpretation c16: fixed_codec put_u16 be16 2
  by unfold_locales (simp_all add: be16_put, simp add: put_u16_def)

interpretation c32: fixed_codec put_u32 be32 4
  by unfold_locales (simp_all add: be32_put, simp add: put_u32_def)

subsection \<open>CSimpleBuffer as a byte queue\<close>

lemma sb_wf_empty [simp]: "sb_wf CSimpleBuffer" "sb_contents CSimpleBuffer = []"
  by (simp_all add: sb_wf_def CSimpleBuffer_def sb_contents_def)

lemma length_sb_contents: "sb_wf b \<Longrightarrow> length (sb_contents b) = unat (m_write_offset b)"
  by (simp add: sb_contents_def sb_wf_def)

lemma unat_grow:
  fixes a :: u32
  assumes "unat a + unat a div 4 < 4294967296"
  shows "unat (a + drop_bit 2 a) = unat a + unat a div 4"
proof -
  have q: "unat (drop_bit 2 a) = unat a div 4"
    by (simp add: drop_bit_eq_div unat_div)
  with assms have "unat a + unat (drop_bit 2 a) < 2 ^ LENGTH(32)" by simp
  from unat_add_nowrap [OF this] q show ?thesis by simp
qed

lemma sb_fits_sum:
  assumes "sb_fits b (unat len)"
  shows "unat (m_write_offset b + len) = unat (m_write_offset b) + unat len"
proof -
  from assms have "unat (m_write_offset b) + unat len < 2 ^ LENGTH(32)"
    by (simp add: sb_fits_def Let_def)
  then show ?thesis by (rule unat_add_nowrap)
qed

lemma sb_Extend_spec:
  assumes "sb_wf b" and fits: "sb_fits b (unat len)"
  shows "sb_wf (sb_Extend garb len b)"
    and "sb_contents (sb_Extend garb len b) = sb_contents b"
    and "unat (m_write_offset b) + unat len \<le> length (m_buffer (sb_Extend garb len b))"
    and "m_write_offset (sb_Extend garb len b) = m_write_offset b"
proof -
  let ?s = "m_write_offset b + len"
  from fits have sum: "unat ?s = unat (m_write_offset b) + unat len" by (rule sb_fits_sum)
  with fits have "unat (?s + drop_bit 2 ?s) = unat ?s + unat ?s div 4"
    by (intro unat_grow) (simp add: sb_fits_def Let_def)
  with sum have big: "unat (m_write_offset b) + unat len \<le> unat (?s + drop_bit 2 ?s)" by simp
  then show "unat (m_write_offset b) + unat len \<le> length (m_buffer (sb_Extend garb len b))"
    and "sb_wf (sb_Extend garb len b)" and "m_write_offset (sb_Extend garb len b) = m_write_offset b"
    by (simp_all add: sb_Extend_def sb_wf_def Let_def)
  from assms(1) big show "sb_contents (sb_Extend garb len b) = sb_contents b"
    by (simp add: sb_Extend_def sb_contents_def Let_def sb_wf_def take_realloc)
qed

lemma sb_ensure_room:
  assumes b1: "b1 = (if m_write_offset b + len > m_alloc_size b then sb_Extend garb len b else b)"
    and wf: "sb_wf b" and fits: "sb_fits b (unat len)"
  shows "sb_wf b1" and "sb_contents b1 = sb_contents b" and "m_write_offset b1 = m_write_offset b"
    and "unat (m_write_offset b) + unat len \<le> length (m_buffer b1)"
  using sb_Extend_spec [OF wf fits, of garb] wf sb_fits_sum [OF fits]
  by (auto simp: b1 less_unat_32 sb_wf_def)

lemma sb_Write_spec:
  assumes wf: "sb_wf b" and len: "length d = unat len" and fits: "sb_fits b (unat len)"
  shows "\<exists>b'. sb_Write garb (Some d) len b = Some (len, b') \<and> sb_wf b'
     \<and> sb_contents b' = sb_contents b @ d"
proof -
  define b1 where
    b1: "b1 = (if m_write_offset b + len > m_alloc_size b then sb_Extend garb len b else b)"
  let ?o = "unat (m_write_offset b)"
  note r = sb_ensure_room [OF b1 wf fits] and sum = sb_fits_sum [OF fits]
  have "sb_Write garb (Some d) len b = Some (len, b1\<lparr>m_buffer :=
      take ?o (m_buffer b1) @ d @ drop (?o + length d) (m_buffer b1),
      m_write_offset := m_write_offset b + len\<rparr>)" (is "_ = Some (len, ?b')")
    using r len by (simp add: sb_Write_def b1 [symmetric] mem_simps)
  moreover have "sb_wf ?b'" using r sum len by (simp add: sb_wf_def)
  moreover have "sb_contents ?b' = sb_contents b @ d"
    using r sum len wf by (simp add: sb_contents_def sb_wf_def)
  ultimately show ?thesis by blast
qed

lemma sb_Write_null_spec:
  assumes wf: "sb_wf b" and fits: "sb_fits b (unat len)"
  shows "\<exists>b' d. sb_Write garb None len b = Some (len, b') \<and> sb_wf b'
     \<and> length d = unat len \<and> sb_contents b' = sb_contents b @ d"
proof -
  define b1 where
    b1: "b1 = (if m_write_offset b + len > m_alloc_size b then sb_Extend garb len b else b)"
  let ?o = "unat (m_write_offset b)" and ?b' = "b1\<lparr>m_write_offset := m_write_offset b + len\<rparr>"
  note r = sb_ensure_room [OF b1 wf fits] and sum = sb_fits_sum [OF fits]
  have "sb_Write garb None len b = Some (len, ?b')"
    using r by (simp add: sb_Write_def b1 [symmetric])
  moreover have "sb_wf ?b'" using r sum by (simp add: sb_wf_def)
  moreover have "sb_contents ?b' = sb_contents b @ take (unat len) (drop ?o (m_buffer b1))"
    using sum r by (simp add: sb_contents_def take_add)
  moreover have "length (take (unat len) (drop ?o (m_buffer b1))) = unat len"
    using r by simp
  ultimately show ?thesis by blast
qed

lemma sb_Read_spec:
  assumes wf: "sb_wf b"
  shows "\<exists>b'. sb_Read to_buf len b =
       Some (if to_buf then take (unat len) (sb_contents b) else [],
             of_nat (min (unat len) (length (sb_contents b))), b')
     \<and> sb_wf b' \<and> sb_contents b' = drop (unat len) (sb_contents b)
     \<and> m_alloc_size b' = m_alloc_size b"
proof -
  define l where "l = (if len > m_write_offset b then m_write_offset b else len)"
  define q where "q = m_write_offset b - l"
  have ul: "unat l = min (unat len) (unat (m_write_offset b))"
    by (simp add: l_def less_unat_32)
  then have uq: "unat q = unat (m_write_offset b) - unat l"
    unfolding q_def by (intro unat_sub_le) simp
  from wf have lb: "unat (m_write_offset b) \<le> length (m_buffer b)" by (simp add: sb_wf_def)
  let ?t = "take (unat q) (drop (unat l) (m_buffer b))"
  let ?b' = "b\<lparr>m_buffer := ?t @ drop (unat q) (m_buffer b), m_write_offset := q\<rparr>"
  have t: "length ?t = unat q" using ul uq lb by simp
  have "sb_Read to_buf len b =
      Some (if to_buf then take (unat l) (m_buffer b) else [], l, ?b')"
    using ul uq lb t by (simp add: sb_Read_def l_def [symmetric] q_def [symmetric] mem_simps)
  moreover have "take (unat l) (m_buffer b) = take (unat len) (sb_contents b)"
    by (simp add: ul sb_contents_def)
  moreover have "l = of_nat (min (unat len) (length (sb_contents b)))"
    by (simp add: length_sb_contents [OF wf] ul [symmetric])
  moreover have "sb_wf ?b'" using wf t uq ul by (auto simp: sb_wf_def)
  moreover have "sb_contents ?b' = drop (unat len) (sb_contents b)"
    using t uq ul
    by (cases "unat len \<le> unat (m_write_offset b)") (auto simp: sb_contents_def drop_take min_def)
  ultimately show ?thesis by auto
qed

interpretation sbq: byte_fifo sb_wf sb_contents sb_fits "sb_put garb" sb_get 4294967296
  for garb :: "nat \<Rightarrow> byte"
proof unfold_locales
  fix q and d :: bytes assume wf: "sb_wf q" and fits: "sb_fits q (length d)"
  then have "unat (of_nat (length d) :: u32) = length d"
    by (intro unat_of_nat_lt) (simp add: sb_fits_def Let_def)
  with sb_Write_spec [OF wf, of d "of_nat (length d)" garb] fits
  show "\<exists>q'. sb_put garb d q = Some q' \<and> sb_wf q' \<and> sb_contents q' = sb_contents q @ d"
    by (auto simp: sb_put_def)
next
  fix q and n :: nat assume wf: "sb_wf q" and "n < 4294967296"
  then have "unat (of_nat n :: u32) = n" by (intro unat_of_nat_lt) simp
  with sb_Read_spec [OF wf, of True "of_nat n"]
  show "\<exists>q'. sb_get n q = Some (take n (sb_contents q), q') \<and> sb_wf q'
      \<and> sb_contents q' = drop n (sb_contents q)"
    by (auto simp: sb_get_def)
qed

lemma sb_Write_wrap:
  assumes wf: "sb_wf b" and len: "length d = unat len"
    and big: "4294967296 \<le> unat (m_write_offset b) + unat len"
  shows "sb_Write garb (Some d) len b = None"
proof -
  from big have "unat (m_write_offset b + len) = unat (m_write_offset b) + unat len - 4294967296"
    by (rule unat_add_wrap_32)
  then have "unat (m_write_offset b + len) \<le> unat (m_write_offset b)"
    using unat_lt_32 [of len] by linarith
  with wf have "\<not> m_write_offset b + len > m_alloc_size b"
    by (auto simp: less_unat_32 sb_wf_def)
  moreover have "length (m_buffer b) < 4294967296" using wf by (simp add: sb_wf_def)
  ultimately show ?thesis using big len by (simp add: sb_Write_def mem_read_ok mem_write_def)
qed

lemma sb_Write_grow_wrap:
  assumes wf: "sb_wf b" and len: "length d = unat len"
    and s: "s = unat (m_write_offset b) + unat len"
    and lo: "unat (m_alloc_size b) < s" "s < 4294967296" and big: "4294967296 \<le> s + s div 4"
  shows "sb_Write garb (Some d) len b = None"
proof -
  let ?w = "m_write_offset b + len"
  have w: "unat ?w = s" using lo s by (simp add: unat_add_fits_32)
  have q: "unat (drop_bit 2 ?w) = s div 4" by (simp add: drop_bit_eq_div unat_div w)
  have "unat (?w + drop_bit 2 ?w) = s + s div 4 - 4294967296"
    using big by (subst unat_add_wrap_32) (simp_all add: w q)
  with lo big have "unat (?w + drop_bit 2 ?w) < s" by simp
  moreover have "?w > m_alloc_size b" using lo w by (simp add: less_unat_32)
  ultimately show ?thesis using len s
    by (simp add: sb_Write_def sb_Extend_def Let_def mem_read_ok mem_write_def)
qed

text \<open>
  C40. \<open>CSimpleBuffer::Write\<close> stays inside the allocation exactly when the new size fits the
  current allocation or the size grown by a quarter does not overflow 32 bits; otherwise
  the wrapped size makes \<open>memcpy\<close> write outside the buffer.
\<close>

theorem sb_write_memory_safe_iff:
  assumes "sb_wf b" and "length d = unat len"
  shows "sb_Write garb (Some d) len b \<noteq> None \<longleftrightarrow>
     (let s = unat (m_write_offset b) + unat len
      in s \<le> unat (m_alloc_size b) \<or> s + s div 4 < 4294967296)"
proof -
  define s where s: "s = unat (m_write_offset b) + unat len"
  consider (room) "s \<le> unat (m_alloc_size b)" | (grow) "s + s div 4 < 4294967296"
    | (wrap) "4294967296 \<le> s"
    | (growwrap) "unat (m_alloc_size b) < s" "s < 4294967296" "4294967296 \<le> s + s div 4"
    by linarith
  then show ?thesis
  proof cases
    case room
    then have "s < 4294967296" using unat_lt_32 [of "m_alloc_size b"] by linarith
    then have sum: "unat (m_write_offset b + len) = s"
      using s by (simp add: unat_add_fits_32)
    with room assms s show ?thesis
      by (simp add: sb_Write_def less_unat_32 mem_read_ok mem_write_def sb_wf_def)
  next
    case grow
    with sb_Write_spec [OF assms, of garb] s show ?thesis by (auto simp: sb_fits_def Let_def)
  next
    case wrap
    then have "\<not> s \<le> unat (m_alloc_size b)"
      using unat_lt_32 [of "m_alloc_size b"] by linarith
    with wrap sb_Write_wrap [OF assms, of garb] s show ?thesis by (auto simp: Let_def)
  next
    case growwrap
    with sb_Write_grow_wrap [OF assms s, of garb] s show ?thesis by (auto simp: Let_def)
  qed
qed

theorem sb_write_memory_safe_iff_witness:
  "sb_Write (\<lambda>_. 0) (Some [1, 2, 3]) 3 CSimpleBuffer \<noteq> None"
  using sb_write_memory_safe_iff [of CSimpleBuffer "[1, 2, 3]" 3 "\<lambda>_. 0"]
  by (simp add: CSimpleBuffer_def sb_wf_def Let_def)

text \<open>
  \<open>CSimpleBuffer\<close> is a byte queue: after \<open>Write\<close> of \<open>d\<close>, \<open>Read\<close> of \<open>n\<close> bytes returns
  the first \<open>n\<close> bytes of the old contents followed by \<open>d\<close>, leaves the rest in order, and the
  buffer stays well formed.
\<close>

lemma sb_fifo:
  assumes "sb_wf b" and "length d = unat len" and "sb_fits b (unat len)"
  shows "\<exists>b1 b2. sb_Write garb (Some d) len b = Some (len, b1) \<and> sb_wf b1
     \<and> sb_Read True n b1 = Some (take (unat n) (sb_contents b @ d),
          of_nat (min (unat n) (length (sb_contents b @ d))), b2)
     \<and> sb_wf b2 \<and> sb_contents b2 = drop (unat n) (sb_contents b @ d)"
proof -
  from sb_Write_spec [OF assms] obtain b1
    where w: "sb_Write garb (Some d) len b = Some (len, b1)" "sb_wf b1"
      "sb_contents b1 = sb_contents b @ d" by blast
  from sb_Read_spec [OF w(2), of True n] w show ?thesis by auto
qed

subsection \<open>CByteStream\<close>

lemma bs_ReadByte_raw:
  assumes "bs_back s = Raw m" and "unat (m_pos s) + unat len \<le> unat (m_len s)"
    and "unat (m_len s) \<le> length m"
  shows "bs_ReadByte len s = Some (Inr (take (unat len) (drop (unat (m_pos s)) m),
           s\<lparr>m_pos := m_pos s + len\<rparr>))"
    and "unat (m_pos s + len) = unat (m_pos s) + unat len"
proof -
  from assms(2) have "unat (m_pos s) + unat len < 4294967296"
    using unat_lt_32 [of "m_len s"] by linarith
  then show sum: "unat (m_pos s + len) = unat (m_pos s) + unat len" by (rule unat_add_fits_32)
  with assms show "bs_ReadByte len s = Some (Inr (take (unat len) (drop (unat (m_pos s)) m),
           s\<lparr>m_pos := m_pos s + len\<rparr>))"
    by (simp add: bs_ReadByte_def less_unat_32 mem_simps)
qed

text \<open>One typed read of a raw stream: the \<open>>>\<close> operators in terms of the array.\<close>

lemma in_u16_raw:
  assumes "bs_back s = Raw m" and "unat (m_pos s) + 2 \<le> unat (m_len s)"
    and "unat (m_len s) \<le> length m"
  shows "in_u16 s = Some (Inr (be16 (take 2 (drop (unat (m_pos s)) m)), s\<lparr>m_pos := m_pos s + 2\<rparr>))"
  using bs_ReadByte_raw [OF assms(1) _ assms(3), of 2] assms
  by (simp add: in_u16_def stream_bind_def decode_full_def)

lemma in_u32_raw:
  assumes "bs_back s = Raw m" and "unat (m_pos s) + 4 \<le> unat (m_len s)"
    and "unat (m_len s) \<le> length m"
  shows "in_u32 s = Some (Inr (be32 (take 4 (drop (unat (m_pos s)) m)), s\<lparr>m_pos := m_pos s + 4\<rparr>))"
  using bs_ReadByte_raw [OF assms(1) _ assms(3), of 4] assms
  by (simp add: in_u32_def stream_bind_def decode_full_def)

lemma bs_WriteByte_raw:
  assumes "bs_back s = Raw m" and "unat (m_pos s) + unat len \<le> unat (m_len s)"
    and "unat (m_len s) \<le> length m" and "length d = unat len"
  shows "\<exists>m'. mem_write m (unat (m_pos s)) d = Some m'
     \<and> bs_WriteByte garb d len s = Some (s\<lparr>bs_back := Raw m', m_pos := m_pos s + len\<rparr>)"
  using assms bs_ReadByte_raw(2) [OF assms(1-3)]
  by (simp add: bs_WriteByte_def less_unat_32 mem_simps)

text \<open>
  What \<open>operator <<\<close> writes to a raw stream, \<open>operator >>\<close> reads back at the same
  position, for 32-bit values; the rest of the stream (position, length) advances alike.
\<close>

lemma stream_u32_roundtrip:
  assumes "bs_wf s" and "unat (m_pos s) + 4 \<le> unat (m_len s)"
  shows "\<exists>s1. out_u32 garb x s = Some s1 \<and> bs_wf s1
     \<and> in_u32 (s1\<lparr>m_pos := m_pos s\<rparr>) = Some (Inr (x, s1))"
proof -
  from assms(1) obtain m where m: "bs_back s = Raw m" "unat (m_len s) \<le> length m"
    by (auto simp: bs_wf_def split: backing.splits)
  have l: "length (put_u32 x) = unat (4 :: u32)" by (simp add: c32.enc_length)
  from bs_WriteByte_raw [OF m(1) _ m(2) l, of garb] assms(2)
  obtain m' where m': "mem_write m (unat (m_pos s)) (put_u32 x) = Some m'"
    and s1: "out_u32 garb x s = Some (s\<lparr>bs_back := Raw m', m_pos := m_pos s + 4\<rparr>)"
    by (auto simp: out_u32_def)
  have pos: "unat (m_pos s + 4) = unat (m_pos s) + 4"
    using bs_ReadByte_raw(2) [OF m(1) _ m(2), of 4] assms(2) by simp
  from mem_write_length [OF m'] m(2) have lm': "unat (m_len s) \<le> length m'" by simp
  have "be32 (take 4 (drop (unat (m_pos s)) m')) = x"
    using c32.read_written [OF m'] assms(2) lm' by (simp add: mem_read_ok)
  then show ?thesis using s1 lm' assms(2) pos
    by (simp add: bs_wf_def in_u32_raw [of _ m'])
qed

text \<open>
  A stream constructed over a \<open>CSimpleBuffer\<close> can never be read: its \<open>m_len\<close> is 0, so
  every typed read at a position that does not wrap throws \<open>ERROR_CODE_PARSE_FAILED\<close>,
  whatever the buffer holds.
\<close>

lemma simple_stream_never_readable:
  assumes "unat pos + 4 < 4294967296"
  shows "in_u8 (CByteStream_simp b pos) = Some (Inl parse_failed)
     \<and> in_u16 (CByteStream_simp b pos) = Some (Inl parse_failed)
     \<and> in_u32 (CByteStream_simp b pos) = Some (Inl parse_failed)"
proof -
  have "bs_ReadByte n (CByteStream_simp b pos) = Some (Inl parse_failed)"
    if "n = 1 \<or> n = 2 \<or> n = 4" for n
    using that assms
    by (auto simp: bs_ReadByte_def CByteStream_simp_def less_unat_32 unat_add_fits_32)
  then show ?thesis by (simp add: in_u8_def in_u16_def in_u32_def stream_bind_def)
qed

text \<open>
  \<open>Skip\<close> (so \<open>ReadString\<close> and \<open>ReadData\<close>) adds the length read from the packet to the
  position with 32-bit wrap-around before comparing: a length that wraps back below the
  position is accepted, although the returned range ends far beyond the stream.
\<close>

lemma skip_accepts_wrapping_length:
  assumes "bs_wf s" and "4294967296 \<le> unat (m_pos s) + unat len"
  shows "\<exists>s'. bs_Skip len s = Some (Inr ((), s')) \<and> unat (m_pos s') < unat (m_pos s)
     \<and> unat (m_len s) < unat (m_pos s) + unat len"
proof -
  have "unat (m_pos s + len) < unat (m_pos s)"
    using unat_add_wrap_32 [OF assms(2)] unat_lt_32 [of len] assms(2) by linarith
  moreover have "unat (m_len s) < unat (m_pos s) + unat len"
    using assms(2) unat_lt_32 [of "m_len s"] by linarith
  ultimately show ?thesis using assms(1)
    by (auto simp: bs_Skip_def Let_def less_unat_32 bs_wf_def)
qed

subsection \<open>idtourl and urltoid\<close>

lemma url_digit_value: "k < 36 \<Longrightarrow> url_char_value (url_digits ! k) = Some (of_nat k)"
proof -
  have "\<forall>k \<in> set [0..<36]. url_char_value (url_digits ! k) = Some (of_nat k)"
    by (simp add: url_digits_def url_char_value_def Let_def upt_rec)
  then show "k < 36 \<Longrightarrow> url_char_value (url_digits ! k) = Some (of_nat k)" by simp
qed

lemma urltoid_step_digit:
  "urltoid_step (url_digits ! unat (v mod 36)) (v div 36) = v" for v :: u32
proof -
  have "unat (v mod 36) < 36" by (simp add: unat_mod)
  then show ?thesis by (simp add: urltoid_step_def url_digit_value word_mod_div_equality)
qed

lemma idtourl_loop_inverse:
  "unat v < 36 ^ n \<Longrightarrow> idtourl_loop n v acc = (room, out) \<Longrightarrow> 0 < n \<Longrightarrow>
   fold urltoid_step out 0 = fold urltoid_step acc v"
proof (induction n arbitrary: v acc)
  case 0
  then show ?case by simp
next
  case (Suc n)
  let ?c = "url_digits ! unat (v mod 36)"
  show ?case
  proof (cases "0 < n \<and> v div 36 \<noteq> 0")
    case True
    have "unat (v div 36) < 36 ^ n"
      using Suc.prems(1) by (simp add: unat_div less_mult_imp_div_less mult.commute)
    with True Suc.prems(2) have "fold urltoid_step out 0 = fold urltoid_step (?c # acc) (v div 36)"
      by (intro Suc.IH) (simp_all add: Let_def)
    then show ?thesis by (simp add: urltoid_step_digit)
  next
    case False
    have "v div 36 = 0"
    proof (cases "n = 0")
      case True
      with Suc.prems(1) have "unat (v div 36) = 0" by (simp add: unat_div)
      then show ?thesis by (simp add: unat_eq_0)
    next
      case False
      with \<open>\<not> (0 < n \<and> v div 36 \<noteq> 0)\<close> show ?thesis by simp
    qed
    moreover from False Suc.prems(2) have "out = ?c # acc" by (auto simp: Let_def)
    ultimately show ?thesis using urltoid_step_digit [of v] by simp
  qed
qed

lemma idtourl_loop_room:
  "unat v < 36 ^ k \<Longrightarrow> 0 < k \<Longrightarrow> k \<le> n \<Longrightarrow> idtourl_loop n v acc = (room, out) \<Longrightarrow> n \<le> room + k"
proof (induction n arbitrary: v acc k)
  case 0
  then show ?case by simp
next
  case (Suc n)
  show ?case
  proof (cases "0 < n \<and> v div 36 \<noteq> 0")
    case True
    obtain j where k: "k = Suc j" using Suc.prems(2) by (cases k) auto
    have u: "unat (v div 36) < 36 ^ j"
      using Suc.prems(1) k by (simp add: unat_div less_mult_imp_div_less mult.commute)
    with True have "0 < j" by (cases j) (auto simp: unat_eq_0)
    then have "n \<le> room + j"
      using Suc.IH [OF u, of "url_digits ! unat (v mod 36) # acc"] Suc.prems k True
      by (simp add: Let_def)
    then show ?thesis using k by simp
  next
    case False
    with Suc.prems show ?thesis by (auto simp: Let_def)
  qed
qed

text \<open>
  \<open>urltoid\<close> inverts \<open>idtourl\<close> for every id below \<open>2 ^ 31 - 28\<close> (above it
  \<open>id * 2 + 56\<close> wraps), and \<open>idtourl\<close> never runs out of its 64-byte array.
\<close>

lemma idtourl_roundtrip:
  assumes "unat uid < 2147483620"
  shows "\<exists>url. idtourl uid = Some url \<and> urltoid url = uid"
proof -
  let ?v = "uid * 2 + 56"
  obtain room out where l: "idtourl_loop 63 ?v [] = (room, out)" by fastforce
  have lt: "unat ?v < 36 ^ 7" by (rule less_le_trans [OF unat_lt_32]) simp
  from idtourl_loop_room [OF lt _ _ l] have "0 < room" by simp
  moreover have "fold urltoid_step out 0 = ?v"
    using idtourl_loop_inverse [OF _ l] less_le_trans [OF lt, of "36 ^ 63"] by simp
  moreover have "drop_bit 1 (?v - 56) = uid"
  proof -
    have "unat (uid * 2) = unat uid * 2" using assms by (simp add: unat_word_ariths)
    then have "unat (uid * 2 div 2) = unat uid" by (simp add: unat_div)
    then show ?thesis by (simp add: drop_bit_eq_div word_unat_eq_iff)
  qed
  ultimately show ?thesis using l by (simp add: idtourl_def urltoid_def)
qed

end
