(* ===== verification/Im_Pdu.thy ===== *)
theory Im_Pdu
  imports Util_Pdu
begin

text \<open>
  \<^verbatim>\<open>src/ptp_global/ImPduBase.h\<close>, \<^verbatim>\<open>src/ptp_global/ImPduBase.cpp\<close> and
  \<^verbatim>\<open>src/ptp_protobuf/ImPdu.cpp\<close>: the protocol data unit, a 16-byte big-endian header
  (length, version, flag, command id, sequence number, one reserved word) followed by the
  message body.

  A PDU is the record of its \<open>CSimpleBuffer\<close> and its decoded header. The setters write into
  the buffer only; the getters read the decoded header. \<open>PduHeader_t::length\<close> is not
  initialised by the constructor, so its first value is a parameter. Protobuf serialisation
  is third-party code: the message operations take its result as an argument.
\<close>

section \<open>The PDU and its operations\<close>

abbreviation IM_PDU_HEADER_LEN :: u32 where "IM_PDU_HEADER_LEN \<equiv> 16"
abbreviation IM_PDU_VERSION :: u16 where "IM_PDU_VERSION \<equiv> 1"

record pdu_header =
  h_length :: u32
  h_version :: u16
  h_flag :: u16
  h_command_id :: u16
  h_seq_num :: u16
  h_reversed :: u32

record im_pdu =
  m_buf :: simple_buffer
  m_pdu_header :: pdu_header

definition CImPdu :: "u32 \<Rightarrow> im_pdu" where
  "CImPdu junk =
     \<lparr>m_buf = CSimpleBuffer,
      m_pdu_header = \<lparr>h_length = junk, h_version = IM_PDU_VERSION, h_flag = 0,
                      h_command_id = 0, h_seq_num = 0, h_reversed = 0\<rparr>\<rparr>"

definition pdu_GetBuffer :: "im_pdu \<Rightarrow> bytes" where
  "pdu_GetBuffer p = m_buffer (m_buf p)"

definition pdu_GetLength :: "im_pdu \<Rightarrow> u32" where
  "pdu_GetLength p = m_write_offset (m_buf p)"

definition pdu_GetBodyLength :: "im_pdu \<Rightarrow> u32" where
  "pdu_GetBodyLength p = m_write_offset (m_buf p) - 16"

text \<open>\<open>GetBodyData\<close> is a pointer; reading \<open>GetBodyLength\<close> bytes from it is the body.\<close>

definition pdu_body :: "im_pdu \<Rightarrow> bytes option" where
  "pdu_body p = mem_read (pdu_GetBuffer p) 16 (unat (pdu_GetBodyLength p))"

abbreviation pdu_GetVersion :: "im_pdu \<Rightarrow> u16" where "pdu_GetVersion p \<equiv> h_version (m_pdu_header p)"
abbreviation pdu_GetFlag :: "im_pdu \<Rightarrow> u16" where "pdu_GetFlag p \<equiv> h_flag (m_pdu_header p)"
abbreviation pdu_GetCommandId :: "im_pdu \<Rightarrow> u16" where "pdu_GetCommandId p \<equiv> h_command_id (m_pdu_header p)"
abbreviation pdu_GetSeqNum :: "im_pdu \<Rightarrow> u16" where "pdu_GetSeqNum p \<equiv> h_seq_num (m_pdu_header p)"
abbreviation pdu_GetReversed :: "im_pdu \<Rightarrow> u32" where "pdu_GetReversed p \<equiv> h_reversed (m_pdu_header p)"

definition pdu_with_buffer :: "im_pdu \<Rightarrow> bytes \<Rightarrow> im_pdu" where
  "pdu_with_buffer p m = p\<lparr>m_buf := (m_buf p)\<lparr>m_buffer := m\<rparr>\<rparr>"

definition pdu_WriteHeader :: "im_pdu \<Rightarrow> im_pdu option" where
  "pdu_WriteHeader p =
     (let h = m_pdu_header p in do {
        m1 \<leftarrow> WriteInt32 (pdu_GetBuffer p) 0 (pdu_GetLength p);
        m2 \<leftarrow> WriteUint16 m1 4 (h_version h);
        m3 \<leftarrow> WriteUint16 m2 6 (h_flag h);
        m4 \<leftarrow> WriteUint16 m3 8 (h_command_id h);
        m5 \<leftarrow> WriteUint16 m4 10 (h_seq_num h);
        m6 \<leftarrow> WriteUint16 m5 12 (ucast (h_reversed h));
        Some (pdu_with_buffer p m6) })"

definition pdu_SetVersion :: "u16 \<Rightarrow> im_pdu \<Rightarrow> im_pdu option" where
  "pdu_SetVersion version p =
     map_option (pdu_with_buffer p) (WriteUint16 (pdu_GetBuffer p) 4 version)"

definition pdu_SetFlag :: "u16 \<Rightarrow> im_pdu \<Rightarrow> im_pdu option" where
  "pdu_SetFlag flag p = map_option (pdu_with_buffer p) (WriteUint16 (pdu_GetBuffer p) 6 flag)"

definition pdu_SetServiceId :: "u16 \<Rightarrow> im_pdu \<Rightarrow> im_pdu option" where
  "pdu_SetServiceId service_id p = Some p"

definition pdu_SetCommandId :: "u16 \<Rightarrow> im_pdu \<Rightarrow> im_pdu option" where
  "pdu_SetCommandId command_id p =
     map_option (pdu_with_buffer p) (WriteUint16 (pdu_GetBuffer p) 8 command_id)"

definition pdu_SetError :: "u16 \<Rightarrow> im_pdu \<Rightarrow> im_pdu option" where
  "pdu_SetError error p = map_option (pdu_with_buffer p) (WriteUint16 (pdu_GetBuffer p) 8 error)"

definition pdu_SetSeqNum :: "u16 \<Rightarrow> im_pdu \<Rightarrow> im_pdu option" where
  "pdu_SetSeqNum seq_num p =
     map_option (pdu_with_buffer p) (WriteUint16 (pdu_GetBuffer p) 10 seq_num)"

definition pdu_SetReversed :: "u32 \<Rightarrow> im_pdu \<Rightarrow> im_pdu option" where
  "pdu_SetReversed reversed p =
     map_option (pdu_with_buffer p) (WriteUint32 (pdu_GetBuffer p) 12 reversed)"

text \<open>
  \<open>ReadPduHeader\<close>: the buffer argument is \<open>None\<close> for a null pointer. The sequence of
  \<open>is >> field\<close> statements is a chain of stream reads; each stores its field at once.
\<close>

definition read_header_fields :: "byte_stream \<Rightarrow> pdu_header \<Rightarrow> pdu_header stream_res" where
  "read_header_fields s0 h =
     stream_bind (in_u32 s0) (\<lambda>len s1.
     stream_bind (in_u16 s1) (\<lambda>ver s2.
     stream_bind (in_u16 s2) (\<lambda>flg s3.
     stream_bind (in_u16 s3) (\<lambda>cid s4.
     stream_bind (in_u16 s4) (\<lambda>seq s5.
     stream_bind (in_u32 s5) (\<lambda>rev s6.
       Some (Inr (h\<lparr>h_length := len, h_version := ver, h_flag := flg, h_command_id := cid,
                    h_seq_num := seq, h_reversed := rev\<rparr>, s6))))))))"

definition pdu_ReadPduHeader ::
  "bytes option \<Rightarrow> u32 \<Rightarrow> im_pdu \<Rightarrow> (pdu_exception + int \<times> im_pdu) option" where
  "pdu_ReadPduHeader buf len p =
     (case buf of
        None \<Rightarrow> Some (Inr (-1, p))
      | Some m \<Rightarrow>
          if len \<ge> IM_PDU_HEADER_LEN then
            (case read_header_fields (CByteStream_raw m len) (m_pdu_header p) of
               None \<Rightarrow> None
             | Some (Inl e) \<Rightarrow> Some (Inl e)
             | Some (Inr (h, _)) \<Rightarrow> Some (Inr (0, p\<lparr>m_pdu_header := h\<rparr>)))
          else Some (Inr (-1, p)))"

text \<open>\<open>IsPduAvailable\<close>: the result carries the \<open>pdu_len\<close> reference argument.\<close>

definition IsPduAvailable :: "bytes \<Rightarrow> u32 \<Rightarrow> u32 \<Rightarrow> (pdu_exception + bool \<times> u32) option" where
  "IsPduAvailable buf len pdu_len0 =
     (if len < IM_PDU_HEADER_LEN then Some (Inr (False, pdu_len0))
      else do {
        pdu_len \<leftarrow> ReadUint32 buf 0;
        if pdu_len > len then Some (Inr (False, pdu_len))
        else if pdu_len = 0 then Some (Inl (CPduException 1 ''pdu_len is 0''))
        else Some (Inr (True, pdu_len)) })"

definition ReadPdu ::
  "(nat \<Rightarrow> byte) \<Rightarrow> u32 \<Rightarrow> bytes \<Rightarrow> u32 \<Rightarrow> (pdu_exception + im_pdu option) option" where
  "ReadPdu garb junk buf len =
     (case IsPduAvailable buf len 0 of
        None \<Rightarrow> None
      | Some (Inl e) \<Rightarrow> Some (Inl e)
      | Some (Inr (avail, pdu_len)) \<Rightarrow>
          if \<not> avail then Some (Inr None)
          else do {
            (_, b) \<leftarrow> sb_Write garb (Some buf) pdu_len (m_buf (CImPdu junk));
            r \<leftarrow> pdu_ReadPduHeader (Some buf) IM_PDU_HEADER_LEN ((CImPdu junk)\<lparr>m_buf := b\<rparr>);
            (case r of Inl e \<Rightarrow> Some (Inl e) | Inr (_, p) \<Rightarrow> Some (Inr (Some p))) })"

text \<open>
  \<open>SetPBMsg(unsigned char*, int)\<close>, of \<open>CImPdu\<close> and identically of \<open>ImPdu\<close>: empty the buffer,
  reserve the header, append the body, write the header.
\<close>

definition pdu_reset :: "(nat \<Rightarrow> byte) \<Rightarrow> im_pdu \<Rightarrow> im_pdu option" where
  "pdu_reset garb p = do {
     (_, _, b1) \<leftarrow> sb_Read False (m_write_offset (m_buf p)) (m_buf p);
     (_, b2) \<leftarrow> sb_Write garb None 16 b1;
     Some (p\<lparr>m_buf := b2\<rparr>) }"

definition pdu_append :: "(nat \<Rightarrow> byte) \<Rightarrow> bytes \<Rightarrow> im_pdu \<Rightarrow> im_pdu option" where
  "pdu_append garb d p = do {
     (_, b) \<leftarrow> sb_Write garb (Some d) (of_nat (length d)) (m_buf p);
     Some (p\<lparr>m_buf := b\<rparr>) }"

definition CImPdu_SetPBMsg_buf :: "(nat \<Rightarrow> byte) \<Rightarrow> bytes \<Rightarrow> im_pdu \<Rightarrow> im_pdu option" where
  "CImPdu_SetPBMsg_buf garb d p = do {
     p1 \<leftarrow> pdu_reset garb p;
     p2 \<leftarrow> pdu_append garb d p1;
     pdu_WriteHeader p2 }"

definition CImPdu_SetPBMsg_null :: "(nat \<Rightarrow> byte) \<Rightarrow> bool \<Rightarrow> im_pdu \<Rightarrow> im_pdu option" where
  "CImPdu_SetPBMsg_null garb msg_null p =
     (if \<not> msg_null then Some p
      else do {
        p1 \<leftarrow> pdu_reset garb p;
        p2 \<leftarrow> pdu_append garb [] p1;
        pdu_WriteHeader p2 })"

text \<open>
  \<open>ImPdu::SetPBMsg(msg)\<close> and \<open>(msg, command_id, seq_num)\<close>: \<open>ser\<close> is what
  \<open>SerializeToArray\<close> produced, \<open>None\<close> when it failed (a required field is missing): the method
  then returns with the header space reserved and nothing written.
\<close>

definition ImPdu_SetPBMsg :: "(nat \<Rightarrow> byte) \<Rightarrow> bytes option \<Rightarrow> im_pdu \<Rightarrow> im_pdu option" where
  "ImPdu_SetPBMsg garb ser p = do {
     p1 \<leftarrow> pdu_reset garb p;
     (case ser of
        None \<Rightarrow> Some p1
      | Some d \<Rightarrow> do { p2 \<leftarrow> pdu_append garb d p1; pdu_WriteHeader p2 }) }"

definition ImPdu_SetPBMsg_cmd ::
  "(nat \<Rightarrow> byte) \<Rightarrow> bytes option \<Rightarrow> u16 \<Rightarrow> u16 \<Rightarrow> im_pdu \<Rightarrow> im_pdu option" where
  "ImPdu_SetPBMsg_cmd garb ser command_id seq_num p =
     (let p0 = p\<lparr>m_pdu_header := (m_pdu_header p)\<lparr>h_command_id := command_id, h_seq_num := seq_num\<rparr>\<rparr>
      in do {
        p1 \<leftarrow> pdu_reset garb p0;
        (case ser of
           None \<Rightarrow> Some p1
         | Some d \<Rightarrow> do {
             p2 \<leftarrow> pdu_append garb d p1;
             pdu_WriteHeader (p2\<lparr>m_buf := sb_Position (of_nat (length d) + 16) (m_buf p2)\<rparr>) }) })"

text \<open>The header a byte string carries, and the byte string of a header.\<close>

definition parse_header :: "bytes \<Rightarrow> pdu_header" where
  "parse_header b =
     \<lparr>h_length = be32 (take 4 b), h_version = be16 (take 2 (drop 4 b)),
      h_flag = be16 (take 2 (drop 6 b)), h_command_id = be16 (take 2 (drop 8 b)),
      h_seq_num = be16 (take 2 (drop 10 b)), h_reversed = be32 (take 4 (drop 12 b))\<rparr>"

definition pdu_wf :: "im_pdu \<Rightarrow> bool" where
  "pdu_wf p \<longleftrightarrow> sb_wf (m_buf p)"

abbreviation pdu_contents :: "im_pdu \<Rightarrow> bytes" where
  "pdu_contents p \<equiv> sb_contents (m_buf p)"

text \<open>What \<open>WriteHeader\<close> leaves in the buffer: fourteen header bytes, then the old bytes.\<close>

definition header_bytes :: "u32 \<Rightarrow> pdu_header \<Rightarrow> bytes" where
  "header_bytes len h = put_u32 len @ put_u16 (h_version h) @ put_u16 (h_flag h)
     @ put_u16 (h_command_id h) @ put_u16 (h_seq_num h) @ put_u16 (ucast (h_reversed h))"

section \<open>Theorems\<close>

subsection \<open>Parsing\<close>

lemma read_header_fields_spec:
  assumes "16 \<le> unat len" and "unat len \<le> length m"
  shows "read_header_fields (CByteStream_raw m len) h =
     Some (Inr (parse_header m, (CByteStream_raw m len)\<lparr>m_pos := 16\<rparr>))"
  using assms
  by (simp add: read_header_fields_def stream_bind_def CByteStream_raw_def
      in_u32_raw [of _ m] in_u16_raw [of _ m] parse_header_def)

lemma pdu_ReadPduHeader_spec:
  assumes "16 \<le> unat len" and "unat len \<le> length m"
  shows "pdu_ReadPduHeader (Some m) len p = Some (Inr (0, p\<lparr>m_pdu_header := parse_header m\<rparr>))"
  using assms by (simp add: pdu_ReadPduHeader_def read_header_fields_spec le_unat_32)

lemma ReadUint32_ok: "4 \<le> length buf \<Longrightarrow> ReadUint32 buf 0 = Some (be32 (take 4 buf))"
  by (simp add: ReadUint32_def mem_simps)

lemma sb_fits_empty: "sb_fits CSimpleBuffer n \<longleftrightarrow> n + n div 4 < 4294967296"
  by (simp add: sb_fits_def CSimpleBuffer_def)

lemma sb_Write_empty_prefix:
  assumes "unat k \<le> length buf" and "sb_fits CSimpleBuffer (unat k)"
  shows "\<exists>b. sb_Write garb (Some buf) k CSimpleBuffer = Some (k, b) \<and> sb_wf b
     \<and> sb_contents b = take (unat k) buf \<and> m_write_offset b = k"
proof -
  have eq: "sb_Write garb (Some buf) k b = sb_Write garb (Some (take (unat k) buf)) k b" for b
    using assms(1) by (simp add: sb_Write_def mem_simps)
  from sb_Write_spec [OF sb_wf_empty(1) _ assms(2), of "take (unat k) buf" garb] assms(1)
  obtain b where b: "sb_Write garb (Some (take (unat k) buf)) k CSimpleBuffer = Some (k, b)"
    "sb_wf b" "sb_contents b = take (unat k) buf" by auto
  from length_sb_contents [OF b(2)] b(3) assms(1) have "m_write_offset b = k"
    by (simp add: word_unat_eq_iff)
  with b eq show ?thesis by auto
qed

lemma ReadPdu_total:
  assumes "unat len \<le> length buf" and "unat len + unat len div 4 < 4294967296"
  shows "\<exists>r. ReadPdu garb junk buf len = Some r \<and>
    (let n = be32 (take 4 buf) in
     if unat len < 16 \<or> unat len < unat n then r = Inr None
     else if n = 0 then r = Inl (CPduException 1 ''pdu_len is 0'')
     else \<exists>p. r = Inr (Some p) \<and> pdu_wf p \<and> pdu_contents p = take (unat n) buf
            \<and> pdu_GetLength p = n \<and> m_pdu_header p = parse_header buf)"
proof (cases "unat len < 16 \<or> unat len < unat (be32 (take 4 buf)) \<or> be32 (take 4 buf) = 0")
  case True
  with assms(1) show ?thesis
    by (auto simp: ReadPdu_def IsPduAvailable_def less_unat_32 ReadUint32_ok Let_def)
next
  case False
  let ?n = "be32 (take 4 buf)"
  from False assms have fit: "sb_fits CSimpleBuffer (unat ?n)" and l: "unat ?n \<le> length buf"
    by (auto simp: sb_fits_empty intro: le_less_trans [rotated])
  from sb_Write_empty_prefix [OF l fit, of garb] obtain b where
    b: "sb_Write garb (Some buf) ?n CSimpleBuffer = Some (?n, b)" "sb_wf b"
      "sb_contents b = take (unat ?n) buf" "m_write_offset b = ?n" by blast
  have "IsPduAvailable buf len 0 = Some (Inr (True, ?n))"
    using False assms(1) by (simp add: IsPduAvailable_def less_unat_32 ReadUint32_ok)
  moreover have "16 \<le> length buf" using False assms(1) by linarith
  ultimately have "ReadPdu garb junk buf len =
      Some (Inr (Some ((CImPdu junk)\<lparr>m_buf := b, m_pdu_header := parse_header buf\<rparr>)))"
    using b(1) by (simp add: ReadPdu_def CImPdu_def pdu_ReadPduHeader_spec)
  with False b show ?thesis by (simp add: pdu_wf_def pdu_GetLength_def Let_def)
qed

text \<open>
  \<open>ReadPdu\<close> on every input: no PDU while fewer than 16 bytes or fewer than the announced
  length are there, the exception on an announced length of 0, and otherwise a PDU holding
  exactly the announced bytes with the six header fields decoded from them.
\<close>

lemma ReadPdu_spec:
  assumes "unat len \<le> length buf" and "unat len + unat len div 4 < 4294967296"
  shows "\<exists>r. ReadPdu garb junk buf len = Some r \<and>
    (let n = be32 (take 4 buf) in
     if unat len < 16 \<or> unat len < unat n then r = Inr None
     else if n = 0 then r = Inl (CPduException 1 ''pdu_len is 0'')
     else \<exists>p. r = Inr (Some p) \<and> pdu_wf p \<and> pdu_contents p = take (unat n) buf
            \<and> pdu_GetLength p = n \<and> m_pdu_header p = parse_header buf)"
  using assms by (rule ReadPdu_total)

text \<open>
  A frame whose announced length is between 1 and 15 is accepted although it cannot hold a
  header: \<open>GetBodyLength\<close> then wraps around to almost \<open>2 ^ 32\<close> and reading the body it
  announces leaves the buffer.
\<close>

lemma ReadPdu_short_frame:
  assumes "16 \<le> length buf" and "length buf < 3000000000"
    and "be32 (take 4 buf) = n" and "0 < unat n" and "unat n < 16"
  shows "\<exists>p. ReadPdu garb junk buf (of_nat (length buf)) = Some (Inr (Some p))
     \<and> unat (pdu_GetBodyLength p) = 4294967280 + unat n \<and> pdu_body p = None"
proof -
  have len: "unat (of_nat (length buf) :: u32) = length buf"
    using assms(2) by (intro unat_of_nat_lt) simp
  have "length buf + length buf div 4 < 4294967296" using assms(2) by arith
  moreover have "n \<noteq> 0" using assms(4) by auto
  ultimately obtain p
    where p: "ReadPdu garb junk buf (of_nat (length buf)) = Some (Inr (Some p))"
      "pdu_wf p" "pdu_GetLength p = n"
    using ReadPdu_total [of "of_nat (length buf)" buf garb junk] assms len by (auto simp: Let_def)
  have c: "unat (4294967280 :: u32) = 4294967280" by simp
  have "(4294967280 :: u32) = - 16" by simp
  then have "n - 16 = 4294967280 + n" by (metis add.commute diff_conv_add_uminus)
  moreover have "unat (4294967280 + n) = 4294967280 + unat n"
    using unat_add_fits_32 [of 4294967280 n] assms(5) unfolding c by linarith
  ultimately have bl: "unat (pdu_GetBodyLength p) = 4294967280 + unat n"
    using p(3) unfolding pdu_GetBodyLength_def pdu_GetLength_def by metis
  have "length (m_buffer (m_buf p)) < 4294967296"
    using p(2) by (simp add: pdu_wf_def sb_wf_def)
  then have "pdu_body p = None"
    using bl assms(4) by (simp add: pdu_body_def mem_read_def pdu_GetBuffer_def)
  with p(1) bl show ?thesis by blast
qed

subsection \<open>Building\<close>

lemmas put_lengths [simp] = c16.enc_length c32.enc_length

lemma length_header_bytes [simp]: "length (header_bytes len h) = 14"
  by (simp add: header_bytes_def)

lemma pdu_WriteHeader_spec:
  assumes "pdu_wf p" and "14 \<le> length (pdu_contents p)"
  shows "\<exists>p'. pdu_WriteHeader p = Some p' \<and> pdu_wf p' \<and> m_pdu_header p' = m_pdu_header p
     \<and> pdu_GetLength p' = pdu_GetLength p
     \<and> pdu_contents p' = header_bytes (pdu_GetLength p) (m_pdu_header p) @ drop 14 (pdu_contents p)"
proof -
  let ?m = "m_buffer (m_buf p)" and ?o = "unat (m_write_offset (m_buf p))"
  let ?m' = "header_bytes (pdu_GetLength p) (m_pdu_header p) @ drop 14 ?m"
  from assms have l: "14 \<le> ?o" "?o \<le> length ?m" "length ?m = unat (m_alloc_size (m_buf p))"
    by (auto simp: pdu_wf_def length_sb_contents sb_wf_def)
  have "pdu_WriteHeader p = Some (pdu_with_buffer p ?m')"
    using l by (simp add: pdu_WriteHeader_def pdu_GetBuffer_def header_bytes_def WriteInt32_def
        WriteUint16_def put_i32_u32 mem_simps Let_def)
  with l show ?thesis
    by (simp add: pdu_with_buffer_def pdu_wf_def sb_wf_def sb_contents_def pdu_GetLength_def
        drop_take)
qed

lemma pdu_reset_spec:
  assumes "pdu_wf p"
  shows "\<exists>p'. pdu_reset garb p = Some p' \<and> pdu_wf p' \<and> length (pdu_contents p') = 16
     \<and> m_pdu_header p' = m_pdu_header p"
proof -
  from sb_Read_spec [of "m_buf p" False "m_write_offset (m_buf p)"] assms obtain n b1
    where b1: "sb_Read False (m_write_offset (m_buf p)) (m_buf p) = Some ([], n, b1)" "sb_wf b1"
      "sb_contents b1 = []"
    by (auto simp: pdu_wf_def length_sb_contents)
  from length_sb_contents [OF b1(2)] b1(3) have "sb_fits b1 (unat (16 :: u32))"
    by (simp add: sb_fits_def)
  from sb_Write_null_spec [OF b1(2) this, of garb] b1 show ?thesis
    by (auto simp: pdu_reset_def pdu_wf_def)
qed

lemma pdu_append_spec:
  assumes "pdu_wf p" and "sb_fits (m_buf p) (length d)"
  shows "\<exists>p'. pdu_append garb d p = Some p' \<and> pdu_wf p' \<and> pdu_contents p' = pdu_contents p @ d
     \<and> m_pdu_header p' = m_pdu_header p"
  using sbq.put_spec [of "m_buf p" d garb] assms
  by (auto simp: pdu_append_def sb_put_def pdu_wf_def)

lemma pdu_GetLength_contents: "pdu_wf p \<Longrightarrow> unat (pdu_GetLength p) = length (pdu_contents p)"
  by (simp add: pdu_wf_def pdu_GetLength_def length_sb_contents)

text \<open>The common part of the \<open>SetPBMsg\<close> variants, and the frame it produces.\<close>

lemma SetPBMsg_buf_spec:
  assumes "pdu_wf p" and "length d < 2147483648"
  shows "\<exists>p' x. CImPdu_SetPBMsg_buf garb d p = Some p' \<and> pdu_wf p'
     \<and> m_pdu_header p' = m_pdu_header p \<and> pdu_GetLength p' = of_nat (16 + length d)
     \<and> length x = 2
     \<and> pdu_contents p' = header_bytes (of_nat (16 + length d)) (m_pdu_header p) @ x @ d"
proof -
  from pdu_reset_spec [OF assms(1)] obtain p1 where p1: "pdu_reset garb p = Some p1" "pdu_wf p1"
    "length (pdu_contents p1) = 16" "m_pdu_header p1 = m_pdu_header p" by blast
  then have "sb_fits (m_buf p1) (length d)"
    using assms(2) by (simp add: sb_fits_def pdu_wf_def length_sb_contents Let_def)
  from pdu_append_spec [OF p1(2) this] obtain p2 where p2: "pdu_append garb d p1 = Some p2" "pdu_wf p2"
    "pdu_contents p2 = pdu_contents p1 @ d" "m_pdu_header p2 = m_pdu_header p" using p1(4) by auto
  have "unat (pdu_GetLength p2) = 16 + length d"
    using p1(3) p2(2,3) by (simp add: pdu_GetLength_contents)
  then have len: "pdu_GetLength p2 = of_nat (16 + length d)"
    using unat_of_nat_lt [of "16 + length d", where 'a = 32] assms(2)
    by (simp add: word_unat_eq_iff)
  from pdu_WriteHeader_spec [OF p2(2)] p1(3) p2(3) obtain p3 where p3: "pdu_WriteHeader p2 = Some p3"
    "pdu_wf p3" "m_pdu_header p3 = m_pdu_header p" "pdu_GetLength p3 = of_nat (16 + length d)"
    "pdu_contents p3 = header_bytes (of_nat (16 + length d)) (m_pdu_header p)
       @ drop 14 (pdu_contents p1) @ d"
    using p2(4) len by auto
  from p1(3) have "length (drop 14 (pdu_contents p1)) = 2" by simp
  with p1(1) p2(1) p3 show ?thesis by (auto simp: CImPdu_SetPBMsg_buf_def)
qed

lemma pdu_SetReversed_spec:
  assumes "pdu_wf p" and "16 \<le> length (pdu_contents p)"
  shows "\<exists>p'. pdu_SetReversed r p = Some p' \<and> pdu_wf p' \<and> m_pdu_header p' = m_pdu_header p
     \<and> pdu_GetLength p' = pdu_GetLength p
     \<and> pdu_contents p' = take 12 (pdu_contents p) @ put_u32 r @ drop 16 (pdu_contents p)"
proof -
  let ?m = "m_buffer (m_buf p)" and ?o = "unat (m_write_offset (m_buf p))"
  from assms have l: "16 \<le> ?o" "?o \<le> length ?m" "length ?m = unat (m_alloc_size (m_buf p))"
    by (auto simp: pdu_wf_def length_sb_contents sb_wf_def)
  have "pdu_SetReversed r p = Some (pdu_with_buffer p (take 12 ?m @ put_u32 r @ drop 16 ?m))"
    using l by (simp add: pdu_SetReversed_def pdu_GetBuffer_def WriteUint32_def mem_simps)
  with l show ?thesis
    by (simp add: pdu_with_buffer_def pdu_wf_def sb_wf_def sb_contents_def pdu_GetLength_def
        drop_take min_def)
qed

lemma parse_header_take: "16 \<le> n \<Longrightarrow> parse_header (take n b) = parse_header b"
  by (simp add: parse_header_def drop_take min_def)

lemma pdu_body_contents:
  assumes "pdu_wf p" and "16 \<le> length (pdu_contents p)"
  shows "pdu_body p = Some (drop 16 (pdu_contents p))"
proof -
  let ?w = "m_write_offset (m_buf p)"
  from assms have l: "16 \<le> unat ?w" "unat ?w \<le> length (m_buffer (m_buf p))"
    by (auto simp: pdu_wf_def length_sb_contents sb_wf_def)
  then have "unat (?w - 16) = unat ?w - 16" by (simp add: unat_sub_le)
  with l show ?thesis
    by (simp add: pdu_body_def pdu_GetBodyLength_def pdu_GetBuffer_def mem_simps sb_contents_def
        drop_take)
qed

lemma ReadPdu_of_pdu:
  assumes "pdu_wf p" and "16 \<le> length (pdu_contents p)" and "length (pdu_contents p) < 3000000000"
    and "be32 (take 4 (pdu_contents p)) = pdu_GetLength p"
  shows "\<exists>q. ReadPdu garb junk (pdu_GetBuffer p) (pdu_GetLength p) = Some (Inr (Some q))
     \<and> pdu_wf q \<and> pdu_contents q = pdu_contents p \<and> pdu_GetLength q = pdu_GetLength p
     \<and> m_pdu_header q = parse_header (pdu_contents p)"
proof -
  let ?m = "pdu_GetBuffer p" and ?w = "pdu_GetLength p"
  from assms(1) have c: "pdu_contents p = take (unat ?w) ?m" and l: "unat ?w \<le> length ?m"
    by (auto simp: pdu_wf_def sb_wf_def sb_contents_def pdu_GetBuffer_def pdu_GetLength_def)
  have w: "16 \<le> unat ?w" "unat ?w < 3000000000"
    using assms pdu_GetLength_contents [OF assms(1)] by auto
  then have "unat ?w + unat ?w div 4 < 4294967296" "?w \<noteq> 0" by auto
  moreover have "be32 (take 4 ?m) = ?w" using assms(4) c w by (simp add: min_def)
  moreover have "parse_header (pdu_contents p) = parse_header ?m"
    using w by (simp add: c parse_header_take)
  ultimately show ?thesis using ReadPdu_total [OF l, of garb junk] w c by (auto simp: Let_def)
qed

lemma length_of_nat_16:
  "length d < 2147483648 \<Longrightarrow> unat (of_nat (16 + length d) :: u32) = 16 + length d"
  by (rule unat_of_nat_lt) simp



text \<open>
  Without a later \<open>SetReversed\<close> the reserved word does not survive: \<open>WriteHeader\<close> writes
  it with \<open>WriteUint16\<close>, so the reader, which takes four bytes, finds its low half in the
  upper sixteen bits and two uninitialised bytes below.
\<close>

lemma WriteHeader_reversed_misplaced:
  assumes "pdu_wf p" and "length d < 2147483648"
  shows "\<exists>p1 q. CImPdu_SetPBMsg_buf garb d p = Some p1
     \<and> ReadPdu garb' junk (pdu_GetBuffer p1) (pdu_GetLength p1) = Some (Inr (Some q))
     \<and> drop_bit 16 (pdu_GetReversed q) = take_bit 16 (pdu_GetReversed p)"
proof -
  let ?L = "of_nat (16 + length d) :: u32" and ?h = "m_pdu_header p"
  from SetPBMsg_buf_spec [OF assms, of garb] obtain p1 x where p1:
    "CImPdu_SetPBMsg_buf garb d p = Some p1" "pdu_wf p1" "pdu_GetLength p1 = ?L" "length x = 2"
    "pdu_contents p1 = header_bytes ?L ?h @ x @ d" by blast
  then have len: "be32 (take 4 (pdu_contents p1)) = pdu_GetLength p1"
    by (simp add: header_bytes_def be32_put)
  from ReadPdu_of_pdu [OF p1(2) _ _ len, of garb' junk] p1(4,5) assms(2) obtain q where q:
    "ReadPdu garb' junk (pdu_GetBuffer p1) (pdu_GetLength p1) = Some (Inr (Some q))"
    "m_pdu_header q = parse_header (pdu_contents p1)" by auto
  have "pdu_GetReversed q = be32 (put_u16 (ucast (pdu_GetReversed p)) @ x)"
    using p1(4,5) by (simp add: q(2) parse_header_def header_bytes_def)
  moreover have "drop_bit 16 (be32 (put_u16 (ucast (w :: u32)) @ x)) = take_bit 16 w" for w
    by (rule bit_word_eqI)
      (auto simp: be32_def put_u16_def and_255 bit_simps nth_append not_le
        dest: bit_imp_le_length)
  ultimately show ?thesis using p1(1) q(1) by auto
qed

end
