(* ===== verification/Config_File_Reader.thy ===== *)
theory Config_File_Reader
  imports Ptp_Prelude "HOL-Library.List_Lexorder"
begin

text \<open>
  \<^verbatim>\<open>src/ptp_global/ConfigFileReader.h\<close> and \<^verbatim>\<open>src/ptp_global/ConfigFileReader.cpp\<close>: the
  key=value configuration files of the servers. \<open>map<string, string>\<close> is an association list
  sorted by key (the order in which it is iterated and written). A file is its bytes; a C
  string ends at its first zero byte. \<open>m_load_ok\<close> has no initialiser, so its value before a
  successful load is the argument \<open>junk\<close>. \<open>None\<close> is an access outside the line buffer.
\<close>

section \<open>State\<close>

type_synonym str_map = "(bytes \<times> bytes) list"

record config_reader =
  m_load_ok :: bool
  m_config_map :: str_map
  m_config_file :: bytes

fun map_find :: "bytes \<Rightarrow> str_map \<Rightarrow> bytes option" where
  "map_find k [] = None"
| "map_find k ((x, v) # m) = (if x = k then Some v else map_find k m)"

text \<open>\<open>insert\<close> keeps an existing entry.\<close>

fun map_insert :: "bytes \<Rightarrow> bytes \<Rightarrow> str_map \<Rightarrow> str_map" where
  "map_insert k v [] = [(k, v)]"
| "map_insert k v ((x, w) # m) =
     (if k < x then (k, v) # (x, w) # m else if k = x then (x, w) # m else (x, w) # map_insert k v m)"

fun map_assign :: "bytes \<Rightarrow> bytes \<Rightarrow> str_map \<Rightarrow> str_map" where
  "map_assign k v [] = []"
| "map_assign k v ((x, w) # m) = (if x = k then (x, v) # m else (x, w) # map_assign k v m)"

section \<open>Reading\<close>

definition is_blank :: "byte \<Rightarrow> bool" where
  "is_blank c \<longleftrightarrow> c = 32 \<or> c = 9"

definition TrimSpace :: "bytes \<Rightarrow> bytes option" where
  "TrimSpace name =
     (let start = dropWhile is_blank name
      in if start = [] then None else Some (rev (dropWhile is_blank (rev start))))"

definition ParseLine :: "bytes \<Rightarrow> str_map \<Rightarrow> str_map" where
  "ParseLine line m =
     (if 61 \<notin> set line then m
      else
        (case (TrimSpace (takeWhile (\<lambda>c. c \<noteq> 61) line), TrimSpace (tl (dropWhile (\<lambda>c. c \<noteq> 61) line))) of
           (Some key, Some val) \<Rightarrow> map_insert key val m
         | _ \<Rightarrow> m))"

fun fgets :: "nat \<Rightarrow> bytes \<Rightarrow> bytes \<times> bytes" where
  "fgets 0 s = ([], s)"
| "fgets (Suc n) [] = ([], [])"
| "fgets (Suc n) (c # cs) = (if c = 10 then ([c], cs) else (let (l, r) = fgets n cs in (c # l, r)))"

definition cstr :: "bytes \<Rightarrow> bytes" where
  "cstr s = takeWhile (\<lambda>c. c \<noteq> 0) s"

lemma fgets_rest: "length (snd (fgets n s)) \<le> length s"
  by (induction n s rule: fgets.induct) (auto split: prod.splits)

lemma fgets_shorter: "fgets (Suc n) (c # cs) = (l, r) \<Longrightarrow> length r \<le> length cs"
  using fgets_rest [of n cs] by (auto split: if_splits prod.splits)

text \<open>One line as the loop body sees it: without its newline and its comment.\<close>

definition strip_line :: "bytes \<Rightarrow> bytes" where
  "strip_line buf = takeWhile (\<lambda>c. c \<noteq> 35) (if last buf = 10 then butlast buf else buf)"

function load_loop :: "bytes \<Rightarrow> str_map \<Rightarrow> str_map option" where
  "load_loop content m =
     (if content = [] then Some m
      else
        (let (line, rest) = fgets 255 content; buf = cstr line
         in if buf = [] then None
            else
              (let body = strip_line buf
               in if body = [] then load_loop rest m else load_loop rest (ParseLine body m))))"
  by pat_completeness auto
termination
proof (relation "measure (\<lambda>(content, m). length content)", goal_cases)
  case 1
  show ?case by simp
next
  case (2 content m x line rest buf body)
  then obtain c cs where "content = c # cs" by (cases content) auto
  with 2 show ?case using fgets_shorter [of 254 c cs line rest] by (simp add: eval_nat_numeral)
next
  case (3 content m x line rest buf body)
  then obtain c cs where "content = c # cs" by (cases content) auto
  with 3 show ?case using fgets_shorter [of 254 c cs line rest] by (simp add: eval_nat_numeral)
qed

declare load_loop.simps [simp del]

definition LoadFile :: "bytes \<Rightarrow> bytes option \<Rightarrow> config_reader \<Rightarrow> config_reader option" where
  "LoadFile filename content r0 =
     (let r = r0\<lparr>m_config_file := filename\<rparr>
      in case content of
           None \<Rightarrow> Some r
         | Some bs \<Rightarrow> do {
             m \<leftarrow> load_loop bs (m_config_map r);
             Some (r\<lparr>m_config_map := m, m_load_ok := True\<rparr>) })"

definition CConfigFileReader :: "bool \<Rightarrow> bytes \<Rightarrow> bytes option \<Rightarrow> config_reader option" where
  "CConfigFileReader junk filename content =
     LoadFile filename content \<lparr>m_load_ok = junk, m_config_map = [], m_config_file = []\<rparr>"

definition GetConfigName :: "bytes \<Rightarrow> config_reader \<Rightarrow> bytes option" where
  "GetConfigName name r = (if \<not> m_load_ok r then None else map_option cstr (map_find name (m_config_map r)))"

section \<open>Writing\<close>

text \<open>
  The loop of \<open>_WriteFIle\<close>: \<open>snprintf\<close> into 128 bytes keeps at most 127 of them. The script says
  which \<open>fwrite\<close> calls succeed; the result is what the file holds and the return value.
\<close>

definition pair_text :: "bytes \<Rightarrow> bytes \<Rightarrow> bytes" where
  "pair_text k v = take 127 (cstr k @ [61] @ cstr v @ [10])"

fun write_pairs :: "bool list \<Rightarrow> str_map \<Rightarrow> bytes \<times> int" where
  "write_pairs oks [] = ([], 0)"
| "write_pairs oks ((k, v) # m) =
     (case oks of
        False # _ \<Rightarrow> ([], -1)
      | _ \<Rightarrow> (let (t, ret) = write_pairs (tl oks) m in (cstr (pair_text k v) @ t, ret)))"

definition WriteFIle :: "bool \<Rightarrow> bool list \<Rightarrow> config_reader \<Rightarrow> int \<times> bytes option" where
  "WriteFIle open_ok oks r =
     (if \<not> open_ok then (-1, None)
      else (let (t, ret) = write_pairs oks (m_config_map r) in (ret, Some t)))"

text \<open>\<open>SetConfigValue\<close>: return value, the new contents of the file (if opened) and the reader.\<close>

definition SetConfigValue ::
  "bool \<Rightarrow> bool list \<Rightarrow> bytes \<Rightarrow> bytes \<Rightarrow> config_reader \<Rightarrow> int \<times> bytes option \<times> config_reader" where
  "SetConfigValue open_ok oks name val r =
     (if \<not> m_load_ok r then (-1, None, r)
      else
        (let m = m_config_map r;
             r' = r\<lparr>m_config_map := (if map_find name m \<noteq> None then map_assign name val m
                                      else map_insert name val m)\<rparr>;
             (ret, t) = WriteFIle open_ok oks r'
         in (ret, t, r')))"

section \<open>Specification\<close>

text \<open>Text that survives a trip through the file.\<close>

definition clean :: "bytes \<Rightarrow> bool" where
  "clean s \<longleftrightarrow> s \<noteq> [] \<and> \<not> is_blank (hd s) \<and> \<not> is_blank (last s) \<and> list_all (\<lambda>c. c \<noteq> 10 \<and> c \<noteq> 35 \<and> c \<noteq> 0) s"

definition clean_pair :: "bytes \<times> bytes \<Rightarrow> bool" where
  "clean_pair p \<longleftrightarrow> clean (fst p) \<and> clean (snd p) \<and> 61 \<notin> set (fst p) \<and> length (fst p) + length (snd p) \<le> 125"

definition map_wf :: "str_map \<Rightarrow> bool" where
  "map_wf m \<longleftrightarrow> sorted_wrt (<) (map fst m)"

section \<open>One line\<close>

lemma fgets_newline: "10 \<notin> set p \<Longrightarrow> length p < n \<Longrightarrow> fgets n (p @ 10 # r) = (p @ [10], r)"
proof (induction p arbitrary: n)
  case Nil
  then show ?case by (cases n) simp_all
next
  case (Cons c p)
  then show ?case by (cases n) simp_all
qed

lemma cstr_id: "0 \<notin> set s \<Longrightarrow> cstr s = s"
  by (auto simp: cstr_def takeWhile_eq_all_conv)

lemma clean_free: "clean s \<Longrightarrow> 0 \<notin> set s \<and> 10 \<notin> set s \<and> 35 \<notin> set s"
  by (auto simp: clean_def list_all_iff)

lemma TrimSpace_clean:
  assumes "clean s"
  shows "TrimSpace s = Some s"
proof -
  obtain c t where s: "s = c # t" using assms by (cases s) (simp_all add: clean_def)
  then have 1: "dropWhile is_blank s = s" using assms by (simp add: clean_def)
  have "dropWhile is_blank (rev s) = rev s"
    using assms by (cases "rev s") (auto simp: clean_def hd_rev [symmetric])
  then show ?thesis using 1 s by (simp add: TrimSpace_def)
qed

lemma pair_text_clean: "clean_pair (k, v) \<Longrightarrow> cstr (pair_text k v) = k @ [61] @ v @ [10]"
  using clean_free [of k] clean_free [of v] take_all [of "k @ [61] @ v @ [10]" 127]
  by (simp add: clean_pair_def pair_text_def cstr_id del: take_append)

lemma ParseLine_pair:
  assumes "clean_pair (k, v)"
  shows "ParseLine (k @ [61] @ v) m = map_insert k v m"
proof -
  have k: "clean k" "clean v" "61 \<notin> set k" using assms by (simp_all add: clean_pair_def)
  then have "takeWhile (\<lambda>c. c \<noteq> 61) (k @ [61] @ v) = k" "dropWhile (\<lambda>c. c \<noteq> 61) (k @ [61] @ v) = 61 # v"
    by (auto simp: takeWhile_append dropWhile_append)
  then show ?thesis using k by (simp add: ParseLine_def TrimSpace_clean)
qed

lemma load_loop_pair:
  assumes "clean_pair (k, v)"
  shows "load_loop (cstr (pair_text k v) @ rest) m = load_loop rest (map_insert k v m)"
proof -
  let ?b = "k @ [61] @ v"
  have f: "0 \<notin> set ?b" "10 \<notin> set ?b" "35 \<notin> set ?b" "length ?b < 255"
    using assms clean_free [of k] clean_free [of v] by (auto simp: clean_pair_def)
  have g: "fgets 255 (?b @ 10 # rest) = (?b @ [10], rest)" by (rule fgets_newline [OF f(2,4)])
  have c: "cstr (?b @ [10]) = ?b @ [10]" using f(1) by (intro cstr_id) simp
  have s: "strip_line (?b @ [10]) = ?b" using f(3) by (auto simp: strip_line_def butlast_append takeWhile_eq_all_conv)
  have "load_loop (?b @ 10 # rest) m = load_loop rest (ParseLine ?b m)"
    by (subst load_loop.simps) (simp only: g c s Let_def prod.case, simp)
  then show ?thesis by (simp add: pair_text_clean [OF assms] ParseLine_pair [OF assms, simplified])
qed

section \<open>The map\<close>

lemma map_insert_last:
  assumes "\<forall>x \<in> set (map fst m). x < k"
  shows "map_insert k v m = m @ [(k, v)]"
  using assms by (induction m) auto

lemma map_insert_all:
  assumes "map_wf (m @ ps)"
  shows "fold (\<lambda>(k, v). map_insert k v) ps m = m @ ps"
  using assms
proof (induction ps arbitrary: m)
  case (Cons p ps)
  obtain k v where p: "p = (k, v)" by (cases p)
  have "map_insert k v m = m @ [(k, v)]"
    using Cons.prems by (intro map_insert_last) (auto simp: map_wf_def p sorted_wrt_append)
  then show ?case using Cons.IH [of "m @ [(k, v)]"] Cons.prems by (simp add: p)
qed simp

lemma map_insert_keys: "set (map fst (map_insert k v m)) = insert k (set (map fst m))"
proof (induction m)
  case (Cons p m)
  then show ?case by (cases p) (simp add: insert_commute)
qed simp

lemma map_insert_wf: "map_wf m \<Longrightarrow> map_wf (map_insert k v m)"
proof (induction m)
  case (Cons p m)
  then show ?case using map_insert_keys [of k v m] by (cases p) (force simp: map_wf_def)
qed (simp add: map_wf_def)

lemma map_assign_keys: "map fst (map_assign k v m) = map fst m"
  by (induction m) auto

lemma map_find_insert: "map_find k m = None \<Longrightarrow> map_wf m \<Longrightarrow>
    map_find x (map_insert k v m) = (if x = k then Some v else map_find x m)"
  by (induction m) (auto simp: map_wf_def split: if_splits)

lemma map_find_assign: "map_find k m \<noteq> None \<Longrightarrow>
    map_find x (map_assign k v m) = (if x = k then Some v else map_find x m)"
  by (induction m) auto

lemma set_map_insert: "set (map_insert k v m) \<subseteq> insert (k, v) (set m)"
  by (induction m) (auto split: if_splits)

lemma set_map_assign: "set (map_assign k v m) \<subseteq> insert (k, v) (set m)"
  by (induction m) (auto split: if_splits)

section \<open>Saving and loading\<close>

lemma write_pairs_ok: "False \<notin> set oks \<Longrightarrow>
    write_pairs oks m = (concat (map (\<lambda>(k, v). cstr (pair_text k v)) m), 0)"
proof (induction m arbitrary: oks)
  case (Cons p m)
  then show ?case by (cases p; cases oks) auto
qed simp

lemma load_loop_pairs:
  assumes "list_all clean_pair ps"
  shows "load_loop (concat (map (\<lambda>(k, v). cstr (pair_text k v)) ps)) m
     = Some (fold (\<lambda>(k, v). map_insert k v) ps m)"
  using assms
proof (induction ps arbitrary: m)
  case Nil
  then show ?case by (simp add: load_loop.simps)
next
  case (Cons p ps)
  then show ?case by (cases p) (simp add: load_loop_pair)
qed

text \<open>
  A saved setting is found after the file is loaded again. For a loaded reader whose map
  is sorted and whose entries are clean (no newline, comment sign or zero byte, no blanks at
  the ends, no equals sign in the key, and short enough for the 128-byte line buffer),
  \<open>SetConfigValue\<close> with a clean entry and no I/O error returns 0, and a reader constructed from
  the file it wrote has exactly the updated map: the new value under its name, and every other
  name as before.
\<close>

lemma config_set_reload:
  assumes "m_load_ok r" and "map_wf (m_config_map r)" and "list_all clean_pair (m_config_map r)"
    and "clean_pair (name, val)" and "False \<notin> set oks"
  shows "\<exists>t r' r2. SetConfigValue True oks name val r = (0, Some t, r')
     \<and> CConfigFileReader junk file (Some t) = Some r2
     \<and> m_config_map r2 = m_config_map r'
     \<and> GetConfigName name r2 = Some val
     \<and> (x \<noteq> name \<longrightarrow> GetConfigName x r2 = GetConfigName x r)"
proof -
  define m where "m = m_config_map r"
  define m' where "m' = (if map_find name m \<noteq> None then map_assign name val m else map_insert name val m)"
  have wf: "map_wf m'" using assms(2) map_insert_wf [of m] map_assign_keys [of name val m]
    by (auto simp: m'_def m_def map_wf_def)
  have clean: "list_all clean_pair m'"
    using assms(3,4) set_map_insert [of name val m] set_map_assign [of name val m]
    by (auto simp: m'_def m_def list_all_iff)
  have find: "map_find x m' = (if x = name then Some val else map_find x m)" for x
    using assms(2) by (auto simp: m'_def m_def map_find_insert map_find_assign)
  define t where "t = concat (map (\<lambda>(k, v). cstr (pair_text k v)) m')"
  have "SetConfigValue True oks name val r = (0, Some t, r\<lparr>m_config_map := m'\<rparr>)"
    using assms(1,5)
    by (simp add: SetConfigValue_def WriteFIle_def write_pairs_ok t_def m'_def m_def Let_def)
  moreover have "load_loop t [] = Some m'"
    using map_insert_all [of "[]" m'] wf clean by (simp add: t_def load_loop_pairs)
  moreover have "cstr val = val" using assms(4) clean_free [of val] by (simp add: clean_pair_def cstr_id)
  ultimately show ?thesis
    using find assms(1) by (simp add: CConfigFileReader_def LoadFile_def GetConfigName_def m_def)
qed

text \<open>
  An entry too long for the line buffer loses its newline. When key and value together
  are longer than 125 bytes, what is written for the entry is cut to 127 bytes without a
  newline, so the next entry continues on the same line of the file.
\<close>

lemma long_entry_truncated:
  assumes "0 \<notin> set k" and "0 \<notin> set v" and "10 \<notin> set k" and "10 \<notin> set v" and "125 < length k + length v"
  shows "write_pairs [] [(k, v), (k', v')] = (take 127 (k @ [61] @ v) @ cstr (pair_text k' v'), 0)
     \<and> length (take 127 (k @ [61] @ v)) = 127 \<and> 10 \<notin> set (take 127 (k @ [61] @ v))"
proof -
  have "127 \<le> length (k @ [61] @ v)" using assms(5) by simp
  then have t: "take 127 (k @ [61] @ v @ [10]) = take 127 (k @ [61] @ v)"
    by (metis append.assoc append_Nil2 diff_is_0_eq take0 take_append)
  have "0 \<notin> set (take 127 (k @ [61] @ v))" "10 \<notin> set (take 127 (k @ [61] @ v))"
    using assms by (auto dest!: in_set_takeD)
  then show ?thesis
    using assms \<open>127 \<le> length (k @ [61] @ v)\<close> by (simp add: pair_text_def cstr_id t [simplified])
qed

end
