(* ===== verification/Im_User.thy ===== *)
theory Im_User
  imports Im_Pdu Config_File_Reader
begin

text \<open>
  \<^verbatim>\<open>src/ptp_server/ImUser.h\<close>, \<^verbatim>\<open>src/ptp_server/ImUser.cpp\<close> and the data of
  \<^verbatim>\<open>src/ptp_server/MsgSrvConn.h\<close>: the users that are online, their connections and the two maps, by
  number and by address, that find them.

  Connections and users are objects in two heaps addressed by numbers; \<open>None\<close> as a result is an access
  through a dangling or null pointer, or outside a buffer. A \<open>map\<close> is an association list in the order of its
  keys, an \<open>unordered_map\<close> one in some order. \<open>SendPdu\<close> of a connection records the bytes it passes to
  \<open>CImConn::Send\<close>. The state is extensible: the message server adds its own fields to it.
\<close>

section \<open>Ordered maps\<close>

fun omap_put :: "'k::linorder \<Rightarrow> 'v \<Rightarrow> ('k \<times> 'v) list \<Rightarrow> ('k \<times> 'v) list" where
  "omap_put k v [] = [(k, v)]"
| "omap_put k v ((l, w) # m) =
     (if k < l then (k, v) # (l, w) # m else if k = l then (k, v) # m else (l, w) # omap_put k v m)"

definition omap_erase :: "'k \<Rightarrow> ('k \<times> 'v) list \<Rightarrow> ('k \<times> 'v) list" where
  "omap_erase k m = filter (\<lambda>(l, w). l \<noteq> k) m"

text \<open>\<open>insert\<close> of an unordered map keeps an existing entry.\<close>

definition umap_insert :: "'k \<Rightarrow> 'v \<Rightarrow> ('k \<times> 'v) list \<Rightarrow> ('k \<times> 'v) list" where
  "umap_insert k v m = (if map_of m k = None then m @ [(k, v)] else m)"

section \<open>Connections and users\<close>

record msg_ack =
  ma_msg_id :: u32
  ma_from_id :: u32
  ma_timestamp :: u64

record msg_conn =
  mc_handle :: u32
  mc_refs :: nat
  mc_last_recv_tick :: u64
  mc_in_buf :: simple_buffer
  mc_client_type :: u32
  mc_online_status :: u32
  mc_client_version :: bytes
  mc_login_time :: u32
  mc_user_id :: u32
  mc_bOpen :: bool
  mc_bKickOff :: bool
  mc_connected_time :: u64
  mc_last_seq_no :: u32
  mc_send_msg_list :: "msg_ack list"
  mc_msg_cnt_per_sec :: u32
  mc_share_key :: bytes
  mc_iv :: bytes
  mc_aad :: bytes
  mc_prv_key :: bytes
  mc_captcha :: bytes
  mc_address_hex :: bytes
  mc_test :: bool
  mc_test_buf :: simple_buffer

record im_user =
  iu_user_id :: u32
  iu_address_hex :: bytes
  iu_pub_key_64 :: bytes
  iu_handle :: u32
  iu_conn_map :: "(u32 \<times> nat) list"

record im_state =
  ms_conns :: "nat \<Rightarrow> msg_conn option"
  ms_users :: "nat \<Rightarrow> im_user option"
  ms_fresh :: nat
  ms_conn_map :: "(u32 \<times> nat) list"
  ms_id_map :: "(u32 \<times> nat) list"
  ms_address_map :: "(bytes \<times> nat) list"
  ms_sent :: "(nat \<times> bytes) list"

definition put_conn :: "nat \<Rightarrow> msg_conn \<Rightarrow> 'a im_state_scheme \<Rightarrow> 'a im_state_scheme" where
  "put_conn p c s = s\<lparr>ms_conns := (ms_conns s)(p \<mapsto> c)\<rparr>"

definition put_user :: "nat \<Rightarrow> im_user \<Rightarrow> 'a im_state_scheme \<Rightarrow> 'a im_state_scheme" where
  "put_user u x s = s\<lparr>ms_users := (ms_users s)(u \<mapsto> x)\<rparr>"

section \<open>Sending\<close>

text \<open>The bytes of a PDU are \<open>GetLength\<close> bytes from \<open>GetBuffer\<close>.\<close>

definition pdu_bytes :: "im_pdu \<Rightarrow> bytes option" where
  "pdu_bytes pdu = mem_read (pdu_GetBuffer pdu) 0 (unat (pdu_GetLength pdu))"

definition msg_SendPdu :: "(nat \<Rightarrow> byte) \<Rightarrow> im_pdu \<Rightarrow> nat \<Rightarrow> 'a im_state_scheme \<Rightarrow> 'a im_state_scheme option" where
  "msg_SendPdu garb pdu p s = do {
     c \<leftarrow> ms_conns s p;
     d \<leftarrow> pdu_bytes pdu;
     if \<not> mc_test c then Some (s\<lparr>ms_sent := ms_sent s @ [(p, d)]\<rparr>)
     else do {
       (_, b) \<leftarrow> sb_Write garb (Some d) (pdu_GetLength pdu) (sb_Position 0 (mc_test_buf c));
       Some (put_conn p (c\<lparr>mc_test_buf := b\<rparr>) s) } }"

definition ReadTestPdu :: "(nat \<Rightarrow> byte) \<Rightarrow> u32 \<Rightarrow> nat \<Rightarrow> 'a im_state_scheme \<Rightarrow> (pdu_exception + im_pdu option) option" where
  "ReadTestPdu garb junk p s = do {
     c \<leftarrow> ms_conns s p;
     if mc_test c then ReadPdu garb junk (m_buffer (mc_test_buf c)) (m_write_offset (mc_test_buf c))
     else Some (Inr None) }"

section \<open>CImUser\<close>

definition CImUser :: "bytes \<Rightarrow> 'a im_state_scheme \<Rightarrow> nat \<times> 'a im_state_scheme" where
  "CImUser address_hex s =
     (ms_fresh s,
      s\<lparr>ms_fresh := ms_fresh s + 1,
        ms_users := (ms_users s)(ms_fresh s \<mapsto>
          \<lparr>iu_user_id = 0, iu_address_hex = address_hex, iu_pub_key_64 = [], iu_handle = 0, iu_conn_map = []\<rparr>)\<rparr>)"

definition AddMsgConn :: "u32 \<Rightarrow> nat \<Rightarrow> nat \<Rightarrow> 'a im_state_scheme \<Rightarrow> 'a im_state_scheme option" where
  "AddMsgConn handle p u s = do {
     x \<leftarrow> ms_users s u;
     Some (put_user u (x\<lparr>iu_conn_map := omap_put handle p (iu_conn_map x)\<rparr>) s) }"

definition DelMsgConn :: "u32 \<Rightarrow> nat \<Rightarrow> 'a im_state_scheme \<Rightarrow> 'a im_state_scheme option" where
  "DelMsgConn handle u s = do {
     x \<leftarrow> ms_users s u;
     Some (put_user u (x\<lparr>iu_conn_map := omap_erase handle (iu_conn_map x)\<rparr>) s) }"

definition IsMsgConnEmpty :: "nat \<Rightarrow> 'a im_state_scheme \<Rightarrow> bool option" where
  "IsMsgConnEmpty u s = map_option (\<lambda>x. iu_conn_map x = []) (ms_users s u)"

definition GetMsgConn :: "u32 \<Rightarrow> nat \<Rightarrow> 'a im_state_scheme \<Rightarrow> nat option option" where
  "GetMsgConn handle u s = map_option (\<lambda>x. map_of (iu_conn_map x) handle) (ms_users s u)"

text \<open>\<open>GetUserConn\<close>: the number of open connections.\<close>

fun count_open :: "(u32 \<times> nat) list \<Rightarrow> 'a im_state_scheme \<Rightarrow> u32 option" where
  "count_open [] s = Some 0"
| "count_open ((h, p) # m) s = do {
     c \<leftarrow> ms_conns s p;
     n \<leftarrow> count_open m s;
     Some (if mc_bOpen c then n + 1 else n) }"

definition GetUserConn :: "nat \<Rightarrow> 'a im_state_scheme \<Rightarrow> (u32 \<times> u32) option" where
  "GetUserConn u s = do { x \<leftarrow> ms_users s u; n \<leftarrow> count_open (iu_conn_map x) s; Some (iu_user_id x, n) }"

fun broadcast_loop ::
  "(nat \<Rightarrow> byte) \<Rightarrow> im_pdu \<Rightarrow> nat option \<Rightarrow> (u32 \<times> nat) list \<Rightarrow> 'a im_state_scheme \<Rightarrow> 'a im_state_scheme option" where
  "broadcast_loop garb pdu from [] s = Some s"
| "broadcast_loop garb pdu from ((h, p) # m) s = do {
     c \<leftarrow> ms_conns s p;
     s1 \<leftarrow> (if Some p \<noteq> from \<and> mc_bOpen c then msg_SendPdu garb pdu p s else Some s);
     broadcast_loop garb pdu from m s1 }"

definition user_BroadcastPdu ::
  "(nat \<Rightarrow> byte) \<Rightarrow> im_pdu \<Rightarrow> nat option \<Rightarrow> nat \<Rightarrow> 'a im_state_scheme \<Rightarrow> 'a im_state_scheme option" where
  "user_BroadcastPdu garb pdu from u s = do { x \<leftarrow> ms_users s u; broadcast_loop garb pdu from (iu_conn_map x) s }"

text \<open>\<open>BroadcastData\<close>: raw bytes, not through \<open>SendPdu\<close>. The pointers in the map are not null.\<close>

fun broadcast_data_loop ::
  "bytes \<Rightarrow> nat option \<Rightarrow> (u32 \<times> nat) list \<Rightarrow> 'a im_state_scheme \<Rightarrow> 'a im_state_scheme option" where
  "broadcast_data_loop d from [] s = Some s"
| "broadcast_data_loop d from ((h, p) # m) s = do {
     c \<leftarrow> ms_conns s p;
     broadcast_data_loop d from m
       (if Some p \<noteq> from \<and> mc_bOpen c then s\<lparr>ms_sent := ms_sent s @ [(p, d)]\<rparr> else s) }"

definition BroadcastData :: "bytes option \<Rightarrow> nat option \<Rightarrow> nat \<Rightarrow> 'a im_state_scheme \<Rightarrow> 'a im_state_scheme option" where
  "BroadcastData buff from u s =
     (case buff of
        None \<Rightarrow> Some s
      | Some d \<Rightarrow> do { x \<leftarrow> ms_users s u; broadcast_data_loop d from (iu_conn_map x) s })"

section \<open>CImUserManager\<close>

definition GetImUserById :: "u32 \<Rightarrow> 'a im_state_scheme \<Rightarrow> nat option" where
  "GetImUserById user_id s = map_of (ms_id_map s) user_id"

definition GetImUserByAddress :: "bytes \<Rightarrow> 'a im_state_scheme \<Rightarrow> nat option" where
  "GetImUserByAddress address s = map_of (ms_address_map s) address"

definition GetMsgConnByHandle :: "u32 \<Rightarrow> u32 \<Rightarrow> 'a im_state_scheme \<Rightarrow> nat option option" where
  "GetMsgConnByHandle user_id handle s =
     (case GetImUserById user_id s of None \<Rightarrow> Some None | Some u \<Rightarrow> GetMsgConn handle u s)"

definition RemoveImUserByAddress :: "bytes \<Rightarrow> 'a im_state_scheme \<Rightarrow> 'a im_state_scheme" where
  "RemoveImUserByAddress address s = s\<lparr>ms_address_map := omap_erase address (ms_address_map s)\<rparr>"

definition AddImUserById :: "u32 \<Rightarrow> nat \<Rightarrow> 'a im_state_scheme \<Rightarrow> bool \<times> 'a im_state_scheme" where
  "AddImUserById user_id u s =
     (if GetImUserById user_id s = None then (True, s\<lparr>ms_id_map := omap_put user_id u (ms_id_map s)\<rparr>) else (False, s))"

definition AddImUserByAddress :: "bytes \<Rightarrow> nat \<Rightarrow> 'a im_state_scheme \<Rightarrow> bool \<times> 'a im_state_scheme" where
  "AddImUserByAddress address u s =
     (if GetImUserByAddress address s = None then (True, s\<lparr>ms_address_map := omap_put address u (ms_address_map s)\<rparr>)
      else (False, s))"

definition RemoveImUserById :: "u32 \<Rightarrow> 'a im_state_scheme \<Rightarrow> 'a im_state_scheme" where
  "RemoveImUserById user_id s = s\<lparr>ms_id_map := omap_erase user_id (ms_id_map s)\<rparr>"

definition RemoveImUser :: "nat option \<Rightarrow> 'a im_state_scheme \<Rightarrow> 'a im_state_scheme option" where
  "RemoveImUser pUser s =
     (case pUser of
        None \<Rightarrow> Some s
      | Some u \<Rightarrow> do {
          x \<leftarrow> ms_users s u;
          let s1 = RemoveImUserByAddress (iu_address_hex x) (RemoveImUserById (iu_user_id x) s);
          Some (s1\<lparr>ms_users := (ms_users s1)(u := None)\<rparr>) })"

text \<open>\<open>delete\<close> of an object that was deleted before is undefined.\<close>

fun delete_users :: "(u32 \<times> nat) list \<Rightarrow> 'a im_state_scheme \<Rightarrow> 'a im_state_scheme option" where
  "delete_users [] s = Some s"
| "delete_users ((i, u) # m) s = do { x \<leftarrow> ms_users s u; delete_users m (s\<lparr>ms_users := (ms_users s)(u := None)\<rparr>) }"

definition RemoveAll :: "'a im_state_scheme \<Rightarrow> 'a im_state_scheme option" where
  "RemoveAll s = do { s1 \<leftarrow> delete_users (ms_id_map s) s; Some (s1\<lparr>ms_address_map := [], ms_id_map := []\<rparr>) }"

fun online_conns :: "u32 \<Rightarrow> (u32 \<times> nat) list \<Rightarrow> 'a im_state_scheme \<Rightarrow> (u32 \<times> u32 \<times> u32) list option" where
  "online_conns user_id [] s = Some []"
| "online_conns user_id ((h, p) # m) s = do {
     c \<leftarrow> ms_conns s p;
     r \<leftarrow> online_conns user_id m s;
     Some ((if mc_bOpen c then [(user_id, mc_client_type c, mc_online_status c)] else []) @ r) }"

text \<open>A status is the user's number, the type of the client and its status.\<close>

fun online_users :: "(u32 \<times> nat) list \<Rightarrow> 'a im_state_scheme \<Rightarrow> (u32 \<times> u32 \<times> u32) list option" where
  "online_users [] s = Some []"
| "online_users ((i, u) # m) s = do {
     x \<leftarrow> ms_users s u;
     a \<leftarrow> online_conns (iu_user_id x) (iu_conn_map x) s;
     b \<leftarrow> online_users m s;
     Some (a @ b) }"

definition GetOnlineUserInfo :: "'a im_state_scheme \<Rightarrow> (u32 \<times> u32 \<times> u32) list option" where
  "GetOnlineUserInfo s = online_users (ms_id_map s) s"

fun user_conn_counts :: "(u32 \<times> nat) list \<Rightarrow> 'a im_state_scheme \<Rightarrow> ((u32 \<times> u32) list \<times> u32) option" where
  "user_conn_counts [] s = Some ([], 0)"
| "user_conn_counts ((i, u) # m) s = do {
     a \<leftarrow> GetUserConn u s;
     (r, total) \<leftarrow> user_conn_counts m s;
     Some (a # r, snd a + total) }"

definition GetUserConnCnt :: "'a im_state_scheme \<Rightarrow> ((u32 \<times> u32) list \<times> u32) option" where
  "GetUserConnCnt s = user_conn_counts (ms_id_map s) s"

fun broadcast_users :: "(nat \<Rightarrow> byte) \<Rightarrow> im_pdu \<Rightarrow> (u32 \<times> nat) list \<Rightarrow> 'a im_state_scheme \<Rightarrow> 'a im_state_scheme option" where
  "broadcast_users garb pdu [] s = Some s"
| "broadcast_users garb pdu ((i, u) # m) s = do {
     s1 \<leftarrow> user_BroadcastPdu garb pdu None u s;
     broadcast_users garb pdu m s1 }"

definition mgr_BroadcastPdu :: "(nat \<Rightarrow> byte) \<Rightarrow> im_pdu \<Rightarrow> 'a im_state_scheme \<Rightarrow> 'a im_state_scheme option" where
  "mgr_BroadcastPdu garb pdu s = broadcast_users garb pdu (ms_id_map s) s"

section \<open>Invariant\<close>

definition ordered :: "('k::linorder \<times> 'v) list \<Rightarrow> bool" where
  "ordered m \<longleftrightarrow> sorted_wrt (<) (map fst m)"

text \<open>
  \<open>k\<close> is the connection the running callback holds. Every pointer of the three maps and of the users'
  connection maps is live; a connection of a user is registered and has the user's address; a user is found
  by its address, and its number, once it is known by it, is the one \<open>uid\<close> gives for the address.
\<close>

definition im_inv :: "(bytes \<Rightarrow> u32) \<Rightarrow> nat option \<Rightarrow> 'a im_state_scheme \<Rightarrow> bool" where
  "im_inv uid k s \<longleftrightarrow>
     distinct (map fst (ms_conn_map s)) \<and> ordered (ms_id_map s) \<and> ordered (ms_address_map s) \<and>
     (\<forall>h p. (h, p) \<in> set (ms_conn_map s) \<longrightarrow>
        h \<noteq> -1 \<and> (\<exists>c. ms_conns s p = Some c \<and> mc_handle c = h \<and> mc_refs c = (if k = Some p then 2 else 1))) \<and>
     (\<forall>p. k = Some p \<longrightarrow> (\<exists>c. ms_conns s p = Some c \<and> ((mc_handle c, p) \<in> set (ms_conn_map s) \<or> mc_refs c = 1))) \<and>
     (\<forall>a u. (a, u) \<in> set (ms_address_map s) \<longrightarrow> a \<noteq> [] \<and> (\<exists>x. ms_users s u = Some x \<and> iu_address_hex x = a)) \<and>
     (\<forall>i u. (i, u) \<in> set (ms_id_map s) \<longrightarrow>
        (\<exists>x. ms_users s u = Some x \<and> iu_user_id x = i \<and> i = uid (iu_address_hex x))) \<and>
     (\<forall>u x. ms_users s u = Some x \<longrightarrow>
        (iu_address_hex x, u) \<in> set (ms_address_map s) \<and> ordered (iu_conn_map x) \<and>
        (\<forall>h p. (h, p) \<in> set (iu_conn_map x) \<longrightarrow>
           (h, p) \<in> set (ms_conn_map s) \<and> (\<exists>c. ms_conns s p = Some c \<and> mc_address_hex c = iu_address_hex x))) \<and>
     (\<forall>p. ms_conns s p \<noteq> None \<longrightarrow> p < ms_fresh s) \<and> (\<forall>u. ms_users s u \<noteq> None \<longrightarrow> u < ms_fresh s)"

section \<open>Lemmas\<close>

subsection \<open>Maps\<close>

lemma ordered_simps [simp]: "ordered []" "ordered ((k, v) # m) \<longleftrightarrow> (\<forall>l \<in> fst ` set m. k < l) \<and> ordered m"
  by (auto simp: ordered_def)

lemma fst_omap_put: "fst ` set (omap_put k v m) = insert k (fst ` set m)"
  by (induction k v m rule: omap_put.induct) (simp_all add: insert_commute)

lemma ordered_put: "ordered m \<Longrightarrow> ordered (omap_put k v m)"
  by (induction k v m rule: omap_put.induct) (auto simp: fst_omap_put intro: less_trans)

lemma set_omap_put: "ordered m \<Longrightarrow> set (omap_put k v m) = insert (k, v) {e \<in> set m. fst e \<noteq> k}"
proof (induction k v m rule: omap_put.induct)
  case (2 k v l w m)
  then have l: "\<forall>e \<in> set m. l < fst e" by auto
  consider "k < l" | "k = l" | "l < k" by fastforce
  then show ?case
  proof cases
    case 1
    with l have "\<forall>e \<in> set m. k \<noteq> fst e" by fastforce
    with 1 show ?thesis by auto
  next
    case 2
    with l have "\<forall>e \<in> set m. k \<noteq> fst e" by fastforce
    with 2 show ?thesis by auto
  next
    case 3
    with 2 show ?thesis by auto
  qed
qed simp

lemma ordered_distinct: "ordered m \<Longrightarrow> distinct (map fst m)"
  by (induction m) force+

lemma set_omap_erase [simp]: "set (omap_erase k m) = {e \<in> set m. fst e \<noteq> k}"
  by (auto simp: omap_erase_def)

lemma ordered_erase: "ordered m \<Longrightarrow> ordered (omap_erase k m)"
  by (induction m) (auto simp: omap_erase_def)

lemma distinct_erase: "distinct (map fst m) \<Longrightarrow> distinct (map fst (omap_erase k m))"
  by (simp add: omap_erase_def distinct_map_filter)

lemma map_of_in: "map_of m k = Some v \<Longrightarrow> (k, v) \<in> set m"
  by (rule map_of_SomeD)

lemma ordered_lookup: "ordered m \<Longrightarrow> (k, v) \<in> set m \<Longrightarrow> map_of m k = Some v"
  by (simp add: ordered_distinct)

subsection \<open>The invariant under the operations\<close>

lemma im_invD:
  assumes "im_inv uid k s"
  shows "distinct (map fst (ms_conn_map s))" "ordered (ms_id_map s)" "ordered (ms_address_map s)"
    "\<And>h p. (h, p) \<in> set (ms_conn_map s) \<Longrightarrow>
       h \<noteq> -1 \<and> (\<exists>c. ms_conns s p = Some c \<and> mc_handle c = h \<and> mc_refs c = (if k = Some p then 2 else 1))"
    "\<And>p. k = Some p \<Longrightarrow> \<exists>c. ms_conns s p = Some c \<and> ((mc_handle c, p) \<in> set (ms_conn_map s) \<or> mc_refs c = 1)"
    "\<And>a u. (a, u) \<in> set (ms_address_map s) \<Longrightarrow> a \<noteq> [] \<and> (\<exists>x. ms_users s u = Some x \<and> iu_address_hex x = a)"
    "\<And>i u. (i, u) \<in> set (ms_id_map s) \<Longrightarrow> \<exists>x. ms_users s u = Some x \<and> iu_user_id x = i \<and> i = uid (iu_address_hex x)"
    "\<And>u x. ms_users s u = Some x \<Longrightarrow> (iu_address_hex x, u) \<in> set (ms_address_map s) \<and> ordered (iu_conn_map x) \<and>
        (\<forall>h p. (h, p) \<in> set (iu_conn_map x) \<longrightarrow>
           (h, p) \<in> set (ms_conn_map s) \<and> (\<exists>c. ms_conns s p = Some c \<and> mc_address_hex c = iu_address_hex x))"
    "\<And>p. ms_conns s p \<noteq> None \<Longrightarrow> p < ms_fresh s" "\<And>u. ms_users s u \<noteq> None \<Longrightarrow> u < ms_fresh s"
  using assms by (simp_all add: im_inv_def)

lemma im_inv_sent [simp]: "im_inv uid k (s\<lparr>ms_sent := xs\<rparr>) = im_inv uid k s"
  by (simp add: im_inv_def)

text \<open>A change of a connection that keeps its handle, its references and its address.\<close>

lemma im_inv_conn:
  assumes "im_inv uid k s" and "ms_conns s p = Some c"
    and "mc_handle c' = mc_handle c" "mc_refs c' = mc_refs c" "mc_address_hex c' = mc_address_hex c"
  shows "im_inv uid k (put_conn p c' s)"
proof -
  note inv = im_invD [OF assms(1)]
  let ?f = "(ms_conns s)(p \<mapsto> c')"
  have "h \<noteq> -1 \<and> (\<exists>d. ?f q = Some d \<and> mc_handle d = h \<and> mc_refs d = (if k = Some q then 2 else 1))"
    if "(h, q) \<in> set (ms_conn_map s)" for h q
    using inv(4) [OF that] assms(2-4) by (cases "q = p") auto
  moreover have "\<exists>d. ?f q = Some d \<and> ((mc_handle d, q) \<in> set (ms_conn_map s) \<or> mc_refs d = 1)" if "k = Some q" for q
    using inv(5) [OF that] assms(2-4) by (cases "q = p") auto
  moreover have "\<exists>d. ?f q = Some d \<and> mc_address_hex d = iu_address_hex x"
    if "ms_users s u = Some x" "(h, q) \<in> set (iu_conn_map x)" for u x h q
  proof -
    from inv(8) [OF that(1)] that(2) obtain d where "ms_conns s q = Some d" "mc_address_hex d = iu_address_hex x" by blast
    with assms(2,5) show ?thesis by (cases "q = p") auto
  qed
  moreover have "?f q \<noteq> None \<Longrightarrow> q < ms_fresh s" for q using inv(9) [of q] inv(9) [of p] assms(2) by (cases "q = p") auto
  ultimately show ?thesis
    using inv(1-3,6-8,10) unfolding im_inv_def put_conn_def by simp
qed

lemma msg_SendPdu_inv:
  assumes "msg_SendPdu garb pdu p s = Some s'" and "im_inv uid k s"
  shows "im_inv uid k s'"
  using assms im_inv_conn [OF assms(2)]
  by (auto simp: msg_SendPdu_def split: bind_splits if_splits)

text \<open>A connection without address gets one and joins the user of that address.\<close>

lemma join_user:
  assumes "im_inv uid k s" and "ms_conns s p = Some c" and "(mc_handle c, p) \<in> set (ms_conn_map s)" and "mc_address_hex c = []"
    and "mc_handle c' = mc_handle c" "mc_refs c' = mc_refs c" "mc_address_hex c' = a" "a \<noteq> []"
    and "(a, u) \<in> set (ms_address_map s)" and "ms_users s u = Some x"
  shows "im_inv uid k (put_user u (x\<lparr>iu_conn_map := omap_put (mc_handle c) p (iu_conn_map x)\<rparr>) (put_conn p c' s))"
proof -
  note inv = im_invD [OF assms(1)]
  let ?f = "(ms_conns s)(p \<mapsto> c')" and ?x = "x\<lparr>iu_conn_map := omap_put (mc_handle c) p (iu_conn_map x)\<rparr>"
  have xa: "iu_address_hex x = a" using inv(6) [OF assms(9)] assms(10) by auto
  have ux: "ordered (iu_conn_map x)" using inv(8) [OF assms(10)] by blast
  have other: "q \<noteq> p" if "ms_users s v = Some y" "(h, q) \<in> set (iu_conn_map y)" for v y h q
  proof
    assume "q = p"
    with inv(8) [OF that(1)] that(2) have "\<exists>d. ms_conns s p = Some d \<and> mc_address_hex d = iu_address_hex y" by blast
    with assms(2,4) have "iu_address_hex y = []" by auto
    with inv(8) [OF that(1)] inv(6) show False by blast
  qed
  have members: "(iu_address_hex y, v) \<in> set (ms_address_map s) \<and> ordered (iu_conn_map y) \<and>
      (\<forall>h q. (h, q) \<in> set (iu_conn_map y) \<longrightarrow>
         (h, q) \<in> set (ms_conn_map s) \<and> (\<exists>d. ?f q = Some d \<and> mc_address_hex d = iu_address_hex y))"
    if "((ms_users s)(u \<mapsto> ?x)) v = Some y" for v y
  proof (cases "v = u")
    case True
    with that have y: "y = ?x" by simp
    have "(h, q) \<in> set (ms_conn_map s) \<and> (\<exists>d. ?f q = Some d \<and> mc_address_hex d = a)"
      if "(h, q) \<in> set (omap_put (mc_handle c) p (iu_conn_map x))" for h q
      using that inv(8) [OF assms(10)] other [OF assms(10)] assms(3,7) xa by (auto simp: set_omap_put [OF ux])
    with y xa assms(9) ordered_put [OF ux] True show ?thesis by simp
  next
    case False
    with that have v: "ms_users s v = Some y" by simp
    with inv(8) [OF v] other [OF v] show ?thesis by auto
  qed
  have "h \<noteq> -1 \<and> (\<exists>d. ?f q = Some d \<and> mc_handle d = h \<and> mc_refs d = (if k = Some q then 2 else 1))"
    if "(h, q) \<in> set (ms_conn_map s)" for h q
    using inv(4) [OF that] assms(2,5,6) by (cases "q = p") auto
  moreover have "\<exists>d. ?f q = Some d \<and> ((mc_handle d, q) \<in> set (ms_conn_map s) \<or> mc_refs d = 1)" if "k = Some q" for q
    using inv(5) [OF that] assms(2,5,6) by (cases "q = p") auto
  moreover have "b \<noteq> [] \<and> (\<exists>y. ((ms_users s)(u \<mapsto> ?x)) v = Some y \<and> iu_address_hex y = b)" if "(b, v) \<in> set (ms_address_map s)" for b v
    using inv(6) [OF that] assms(10) by (cases "v = u") auto
  moreover have "\<exists>y. ((ms_users s)(u \<mapsto> ?x)) v = Some y \<and> iu_user_id y = i \<and> i = uid (iu_address_hex y)"
    if "(i, v) \<in> set (ms_id_map s)" for i v
    using inv(7) [OF that] assms(10) by (cases "v = u") auto
  moreover have "?f q \<noteq> None \<Longrightarrow> q < ms_fresh s" for q using inv(9) [of q] inv(9) [of p] assms(2) by (cases "q = p") auto
  moreover have "((ms_users s)(u \<mapsto> ?x)) v \<noteq> None \<Longrightarrow> v < ms_fresh s" for v
    using inv(10) [of v] inv(10) [of u] assms(10) by (cases "v = u") auto
  ultimately show ?thesis
    using inv(1-3) members unfolding im_inv_def put_conn_def put_user_def by simp
qed

lemma new_user_inv:
  assumes "im_inv uid k s" and "GetImUserByAddress a s = None" and "a \<noteq> []"
  shows "im_inv uid k (snd (AddImUserByAddress a (fst (CImUser a s)) (snd (CImUser a s))))"
    and "(a, fst (CImUser a s)) \<in> set (ms_address_map (snd (AddImUserByAddress a (fst (CImUser a s)) (snd (CImUser a s)))))"
proof -
  note inv = im_invD [OF assms(1)]
  let ?u = "ms_fresh s"
  let ?x = "\<lparr>iu_user_id = 0, iu_address_hex = a, iu_pub_key_64 = [], iu_handle = 0, iu_conn_map = []\<rparr>"
  have eq: "snd (AddImUserByAddress a (fst (CImUser a s)) (snd (CImUser a s))) =
      s\<lparr>ms_fresh := ms_fresh s + 1, ms_users := (ms_users s)(?u \<mapsto> ?x), ms_address_map := omap_put a ?u (ms_address_map s)\<rparr>"
    using assms(2) by (simp add: AddImUserByAddress_def CImUser_def GetImUserByAddress_def)
  have none: "ms_users s ?u = None" using inv(10) [of ?u] by (cases "ms_users s ?u") auto
  have new: "\<forall>e \<in> set (ms_address_map s). fst e \<noteq> a"
    using assms(2) by (auto simp: GetImUserByAddress_def map_of_eq_None_iff)
  have am: "set (omap_put a ?u (ms_address_map s)) = insert (a, ?u) (set (ms_address_map s))"
    using new by (auto simp: set_omap_put [OF inv(3)])
  have "b \<noteq> [] \<and> (\<exists>y. ((ms_users s)(?u \<mapsto> ?x)) v = Some y \<and> iu_address_hex y = b)"
    if "(b, v) \<in> insert (a, ?u) (set (ms_address_map s))" for b v
    using that inv(6) [of b v] none assms(3) by (cases "v = ?u") auto
  moreover have "\<exists>y. ((ms_users s)(?u \<mapsto> ?x)) v = Some y \<and> iu_user_id y = i \<and> i = uid (iu_address_hex y)"
    if "(i, v) \<in> set (ms_id_map s)" for i v
    using inv(7) [OF that] none by (cases "v = ?u") auto
  moreover have "(iu_address_hex y, v) \<in> insert (a, ?u) (set (ms_address_map s)) \<and> ordered (iu_conn_map y) \<and>
      (\<forall>h q. (h, q) \<in> set (iu_conn_map y) \<longrightarrow>
         (h, q) \<in> set (ms_conn_map s) \<and> (\<exists>d. ms_conns s q = Some d \<and> mc_address_hex d = iu_address_hex y))"
    if "((ms_users s)(?u \<mapsto> ?x)) v = Some y" for v y
    using that inv(8) [of v y] by (cases "v = ?u") auto
  moreover have "ms_conns s q \<noteq> None \<Longrightarrow> q < ms_fresh s + 1" for q using inv(9) [of q] by simp
  moreover have "((ms_users s)(?u \<mapsto> ?x)) v \<noteq> None \<Longrightarrow> v < ms_fresh s + 1" for v
    using inv(10) [of v] by (cases "v = ?u") auto
  ultimately show "im_inv uid k (snd (AddImUserByAddress a (fst (CImUser a s)) (snd (CImUser a s))))"
    using inv(1,2,4,5) ordered_put [OF inv(3)] am unfolding eq im_inv_def by simp
  show "(a, fst (CImUser a s)) \<in> set (ms_address_map (snd (AddImUserByAddress a (fst (CImUser a s)) (snd (CImUser a s)))))"
    unfolding eq using am by (simp add: CImUser_def)
qed

text \<open>The number of a user is set to the one of its address.\<close>

lemma set_id_inv:
  assumes "im_inv uid k s" and "ms_users s u = Some x" and "i = uid (iu_address_hex x)"
  shows "im_inv uid k (snd (AddImUserById i u (put_user u (x\<lparr>iu_user_id := i, iu_handle := h\<rparr>) s)))"
proof -
  note inv = im_invD [OF assms(1)]
  let ?x = "x\<lparr>iu_user_id := i, iu_handle := h\<rparr>"
  let ?m = "if GetImUserById i s = None then omap_put i u (ms_id_map s) else ms_id_map s"
  have eq: "snd (AddImUserById i u (put_user u ?x s)) = s\<lparr>ms_users := (ms_users s)(u \<mapsto> ?x), ms_id_map := ?m\<rparr>"
    by (simp add: AddImUserById_def GetImUserById_def put_user_def)
  have m: "set ?m \<subseteq> insert (i, u) (set (ms_id_map s))" by (auto simp: set_omap_put [OF inv(2)])
  have "\<exists>y. ((ms_users s)(u \<mapsto> ?x)) v = Some y \<and> iu_user_id y = j \<and> j = uid (iu_address_hex y)"
    if "(j, v) \<in> set ?m" for j v
    using subsetD [OF m that] inv(7) [of j v] assms(2,3) by (cases "v = u") auto
  moreover have "b \<noteq> [] \<and> (\<exists>y. ((ms_users s)(u \<mapsto> ?x)) v = Some y \<and> iu_address_hex y = b)" if "(b, v) \<in> set (ms_address_map s)" for b v
    using inv(6) [OF that] assms(2) by (cases "v = u") auto
  moreover have "(iu_address_hex y, v) \<in> set (ms_address_map s) \<and> ordered (iu_conn_map y) \<and>
      (\<forall>h q. (h, q) \<in> set (iu_conn_map y) \<longrightarrow>
         (h, q) \<in> set (ms_conn_map s) \<and> (\<exists>d. ms_conns s q = Some d \<and> mc_address_hex d = iu_address_hex y))"
    if "((ms_users s)(u \<mapsto> ?x)) v = Some y" for v y
    using that inv(8) [of v y] inv(8) [OF assms(2)] by (cases "v = u") auto
  moreover have "((ms_users s)(u \<mapsto> ?x)) v \<noteq> None \<Longrightarrow> v < ms_fresh s" for v
    using inv(10) [of v] inv(10) [of u] assms(2) by (cases "v = u") auto
  moreover have "ordered ?m" using inv(2) by (simp add: ordered_put)
  ultimately show ?thesis
    using inv(1,3,4,5,9) unfolding eq im_inv_def by simp
qed

text \<open>A connection leaves: the general shape of the states after \<open>Close\<close>.\<close>

lemma leave_inv:
  assumes "im_inv uid k s" and "(h, p) \<in> set (ms_conn_map s)" and "ms_conns s p = Some c"
    and "ms_conn_map s' = omap_erase h (ms_conn_map s)" and "ms_fresh s' = ms_fresh s"
    and "ms_conns s' = (ms_conns s)(p := if k = Some p then Some (c\<lparr>mc_refs := 1\<rparr>) else None)"
    and users: "\<And>v y'. ms_users s' v = Some y' \<Longrightarrow> \<exists>y. ms_users s v = Some y \<and> iu_address_hex y' = iu_address_hex y \<and>
         iu_user_id y' = iu_user_id y \<and> ordered (iu_conn_map y') \<and> set (iu_conn_map y') = {e \<in> set (iu_conn_map y). snd e \<noteq> p}"
    and am: "ordered (ms_address_map s')" "\<And>b v. (b, v) \<in> set (ms_address_map s') \<longleftrightarrow> (b, v) \<in> set (ms_address_map s) \<and> ms_users s' v \<noteq> None"
    and im: "ordered (ms_id_map s')" "\<And>i v. (i, v) \<in> set (ms_id_map s') \<Longrightarrow> (i, v) \<in> set (ms_id_map s) \<and> ms_users s' v \<noteq> None"
  shows "im_inv uid k s'"
proof -
  note inv = im_invD [OF assms(1)]
  have hc: "mc_handle c = h" using inv(4) [OF assms(2)] assms(3) by auto
  have np: "g \<noteq> h \<longleftrightarrow> q \<noteq> p" if "(g, q) \<in> set (ms_conn_map s)" for g q
    using inv(4) [OF that] inv(4) [OF assms(2)] eq_key_imp_eq_value [OF inv(1) assms(2), of q] that by auto
  have "g \<noteq> -1 \<and> (\<exists>d. ms_conns s' q = Some d \<and> mc_handle d = g \<and> mc_refs d = (if k = Some q then 2 else 1))"
    if "(g, q) \<in> set (ms_conn_map s')" for g q
    using that inv(4) [of g q] np [of g q] by (auto simp: assms(4,6))
  moreover have "\<exists>d. ms_conns s' q = Some d \<and> ((mc_handle d, q) \<in> set (ms_conn_map s') \<or> mc_refs d = 1)" if "k = Some q" for q
  proof (cases "q = p")
    case True
    with that show ?thesis by (simp add: assms(6))
  next
    case False
    with inv(5) [OF that] np show ?thesis by (auto simp: assms(4,6))
  qed
  moreover have "b \<noteq> [] \<and> (\<exists>y. ms_users s' v = Some y \<and> iu_address_hex y = b)" if "(b, v) \<in> set (ms_address_map s')" for b v
  proof -
    from that am(2) obtain y' where "(b, v) \<in> set (ms_address_map s)" "ms_users s' v = Some y'" by auto
    with inv(6) [of b v] users [of v y'] show ?thesis by auto
  qed
  moreover have "\<exists>y. ms_users s' v = Some y \<and> iu_user_id y = i \<and> i = uid (iu_address_hex y)" if "(i, v) \<in> set (ms_id_map s')" for i v
  proof -
    from im(2) [OF that] obtain y' where "(i, v) \<in> set (ms_id_map s)" "ms_users s' v = Some y'" by auto
    with inv(7) [of i v] users [of v y'] show ?thesis by auto
  qed
  moreover have "(iu_address_hex y', v) \<in> set (ms_address_map s') \<and> ordered (iu_conn_map y') \<and>
      (\<forall>g q. (g, q) \<in> set (iu_conn_map y') \<longrightarrow>
         (g, q) \<in> set (ms_conn_map s') \<and> (\<exists>d. ms_conns s' q = Some d \<and> mc_address_hex d = iu_address_hex y'))"
    if v: "ms_users s' v = Some y'" for v y'
  proof -
    from users [OF v] obtain y where y: "ms_users s v = Some y" "iu_address_hex y' = iu_address_hex y" "ordered (iu_conn_map y')"
      "set (iu_conn_map y') = {e \<in> set (iu_conn_map y). snd e \<noteq> p}" by blast
    have "(g, q) \<in> set (ms_conn_map s') \<and> (\<exists>d. ms_conns s' q = Some d \<and> mc_address_hex d = iu_address_hex y')"
      if "(g, q) \<in> set (iu_conn_map y')" for g q
    proof -
      from that y(4) have gq: "(g, q) \<in> set (iu_conn_map y)" "q \<noteq> p" by auto
      with inv(8) [OF y(1)] have "(g, q) \<in> set (ms_conn_map s)"
        "\<exists>d. ms_conns s q = Some d \<and> mc_address_hex d = iu_address_hex y" by blast+
      with np [of g q] gq(2) y(2) show ?thesis by (auto simp: assms(4,6))
    qed
    with y inv(8) [OF y(1)] v show ?thesis by (auto simp: am(2))
  qed
  moreover have "ms_conns s' q \<noteq> None \<Longrightarrow> q < ms_fresh s'" for q
    using inv(9) [of q] assms(3) by (auto simp: assms(5,6) split: if_splits)
  moreover have "ms_users s' v \<noteq> None \<Longrightarrow> v < ms_fresh s'" for v using users [of v] inv(10) [of v] by (auto simp: assms(5))
  ultimately show ?thesis
    using am(1) im(1) distinct_erase [OF inv(1), of h] unfolding im_inv_def assms(4) [symmetric] by simp
qed

lemma no_member:
  assumes "im_inv uid k s" and "ms_conns s p = Some c" and "ms_users s v = Some y" and "iu_address_hex y \<noteq> mc_address_hex c"
  shows "{e \<in> set (iu_conn_map y). snd e \<noteq> p} = set (iu_conn_map y)"
proof -
  have "q \<noteq> p" if "(g, q) \<in> set (iu_conn_map y)" for g q
    using im_invD(8) [OF assms(1,3)] that assms(2,4) by fastforce
  then show ?thesis by force
qed

lemma address_unique:
  assumes "im_inv uid k s" and "ms_users s v = Some y" and "ms_users s u = Some x" and "iu_address_hex y = iu_address_hex x"
  shows "v = u"
  using im_invD(8) [OF assms(1,2)] im_invD(8) [OF assms(1,3)] assms(4)
    eq_key_imp_eq_value [OF ordered_distinct [OF im_invD(3) [OF assms(1)]]] by auto

subsection \<open>Safety of the walks over the users\<close>

lemma count_open_ok:
  "\<forall>e \<in> set m. ms_conns s (snd e) \<noteq> None \<Longrightarrow> count_open m s \<noteq> None"
  by (induction m) auto

lemma online_conns_ok: "\<forall>e \<in> set m. ms_conns s (snd e) \<noteq> None \<Longrightarrow> online_conns i m s \<noteq> None"
  by (induction m) auto

lemma members_live: "im_inv uid k s \<Longrightarrow> ms_users s u = Some x \<Longrightarrow> \<forall>e \<in> set (iu_conn_map x). ms_conns s (snd e) \<noteq> None"
  using im_invD(8) by fastforce

lemma online_users_ok:
  assumes "im_inv uid k s" and "set m \<subseteq> set (ms_id_map s)"
  shows "online_users m s \<noteq> None \<and> user_conn_counts m s \<noteq> None"
  using assms(2)
proof (induction m)
  case (Cons e m)
  obtain i u where e: "e = (i, u)" by (cases e)
  with Cons.prems im_invD(7) [OF assms(1), of i u] obtain x where x: "ms_users s u = Some x" by auto
  from online_conns_ok [OF members_live [OF assms(1) x], of "iu_user_id x"] count_open_ok [OF members_live [OF assms(1) x]] Cons x e show ?case
    by (auto simp: GetUserConn_def)
qed simp

text \<open>What a broadcast sends, when no connection of the user is a test connection.\<close>

lemma broadcast_loop_sent:
  assumes "\<forall>e \<in> set m. \<exists>c. ms_conns s (snd e) = Some c \<and> \<not> mc_test c" and "pdu_bytes pdu = Some d"
  shows "broadcast_loop garb pdu from m s =
     Some (s\<lparr>ms_sent := ms_sent s @
       map (\<lambda>e. (snd e, d)) (filter (\<lambda>e. Some (snd e) \<noteq> from \<and> (\<exists>c. ms_conns s (snd e) = Some c \<and> mc_bOpen c)) m)\<rparr>)"
  using assms(1)
proof (induction m arbitrary: s)
  case (Cons e m)
  obtain h p where e: "e = (h, p)" by (cases e)
  with Cons.prems obtain c where c: "ms_conns s p = Some c" "\<not> mc_test c" by auto
  let ?s1 = "if Some p \<noteq> from \<and> mc_bOpen c then s\<lparr>ms_sent := ms_sent s @ [(p, d)]\<rparr> else s"
  have "\<forall>e \<in> set m. \<exists>c. ms_conns ?s1 (snd e) = Some c \<and> \<not> mc_test c" using Cons.prems by auto
  from Cons.IH [OF this] c e assms(2) show ?case by (auto simp: msg_SendPdu_def)
qed simp

end
