(* ===== verification/Im_Conn.thy ===== *)
theory Im_Conn
  imports Im_Pdu
begin

text \<open>
  \<^verbatim>\<open>src/ptp_global/ImConn.h\<close> and \<^verbatim>\<open>src/ptp_global/ImConn.cpp\<close>: a connection buffers what the
  socket does not take at once (\<open>Send\<close>, \<open>OnWrite\<close>) and reassembles PDUs from the byte stream
  it receives (\<open>OnRead\<close>).

  The kernel is the environment. One entry of a send script is what the next \<open>netlib_send\<close>
  answers for the size it is offered; one entry of a receive script is the chunk the next
  \<open>netlib_recv\<close> delivers (empty for a result \<open>\<le> 0\<close>) with the tick count read after it. An
  exhausted script stands for a socket that would block. The definitions return the bytes
  handed to the kernel, so that theorems can speak about the wire. \<open>HandlePdu\<close> is virtual and
  a parameter: it maps its own state, or throws \<open>CPduException\<close>, and does not touch the
  input buffer.
\<close>

section \<open>State and environment\<close>

record im_conn =
  m_handle :: int
  m_busy :: bool
  m_in_buf :: simple_buffer
  m_out_buf :: simple_buffer
  m_recv_bytes :: u32
  m_last_send_tick :: u64
  m_last_recv_tick :: u64

type_synonym send_fn = "int \<Rightarrow> int"
type_synonym recv_event = "bytes \<times> u64"

text \<open>\<open>send(2)\<close> never accepts more than it is offered; \<open>recv(2)\<close> never more than asked for.\<close>

definition send_fn_ok :: "send_fn \<Rightarrow> bool" where
  "send_fn_ok k \<longleftrightarrow> (\<forall>n. k n \<le> max 0 n)"

definition recv_ok :: "recv_event \<Rightarrow> bool" where
  "recv_ok r \<longleftrightarrow> length (fst r) \<le> 2048"

abbreviation NETLIB_MAX_SOCKET_BUF_SIZE :: int where "NETLIB_MAX_SOCKET_BUF_SIZE \<equiv> 64 * 1024 + 16"
abbreviation READ_BUF_SIZE :: u32 where "READ_BUF_SIZE \<equiv> 2048"

definition CImConn :: "u64 \<Rightarrow> im_conn" where
  "CImConn tick =
     \<lparr>m_handle = -1, m_busy = False, m_in_buf = CSimpleBuffer, m_out_buf = CSimpleBuffer,
      m_recv_bytes = 0, m_last_send_tick = tick, m_last_recv_tick = tick\<rparr>"

definition conn_OnConnect :: "int \<Rightarrow> im_conn \<Rightarrow> im_conn" where
  "conn_OnConnect handle c = c\<lparr>m_handle := handle\<rparr>"

section \<open>Send and OnWrite\<close>

text \<open>
  The loop of \<open>Send\<close>. The result is the bytes the kernel took, the final \<open>offset\<close> and
  \<open>remain\<close>, and the unused part of the script.
\<close>

fun send_loop :: "send_fn list \<Rightarrow> bytes \<Rightarrow> nat \<Rightarrow> int \<Rightarrow> bytes \<times> nat \<times> int \<times> send_fn list" where
  "send_loop [] data offset remain = ([], offset, remain, [])"
| "send_loop (k # ks) data offset remain =
     (if remain > 0 then
        (let send_size = (if remain > NETLIB_MAX_SOCKET_BUF_SIZE then NETLIB_MAX_SOCKET_BUF_SIZE
                          else remain);
             ret = k send_size
         in if ret \<le> 0 then ([], offset, remain, ks)
            else (let (sent, o', r', ks') = send_loop ks data (offset + nat ret) (remain - ret)
                  in (take (nat ret) (drop offset data) @ sent, o', r', ks')))
      else ([], offset, remain, k # ks))"

text \<open>
  \<open>Send\<close>: the result is the return value, whether \<open>OnWriteCompelete\<close> was called, the bytes
  put on the wire, the rest of the script and the connection.
\<close>

definition conn_Send ::
  "(nat \<Rightarrow> byte) \<Rightarrow> u64 \<Rightarrow> send_fn list \<Rightarrow> bytes \<Rightarrow> im_conn \<Rightarrow>
   (int \<times> bool \<times> bytes \<times> send_fn list \<times> im_conn) option" where
  "conn_Send garb tick ks data c0 =
     (let c = c0\<lparr>m_last_send_tick := tick\<rparr>; len = int (length data)
      in if m_busy c then do {
           (_, b) \<leftarrow> sb_Write garb (Some data) (of_int len) (m_out_buf c);
           Some (len, False, [], ks, c\<lparr>m_out_buf := b\<rparr>) }
         else
           (let (sent, offset, remain, ks') = send_loop ks data 0 len
            in if remain > 0 then do {
                 (_, b) \<leftarrow> sb_Write garb (Some (drop offset data)) (of_int remain) (m_out_buf c);
                 Some (len, False, sent, ks', c\<lparr>m_out_buf := b, m_busy := True\<rparr>) }
               else Some (len, True, sent, ks', c)))"

text \<open>The loop of \<open>OnWrite\<close>; \<open>send_size\<close> is an \<open>int\<close> made from the 32-bit offset.\<close>

fun on_write_loop ::
  "send_fn list \<Rightarrow> simple_buffer \<Rightarrow> (bytes \<times> send_fn list \<times> simple_buffer) option" where
  "on_write_loop [] b = Some ([], [], b)"
| "on_write_loop (k # ks) b =
     (if m_write_offset b > 0 then
        (let size0 = sint (m_write_offset b);
             send_size = (if size0 > NETLIB_MAX_SOCKET_BUF_SIZE then NETLIB_MAX_SOCKET_BUF_SIZE
                          else size0);
             ret = k send_size
         in if ret \<le> 0 then Some ([], ks, b)
            else do {
              d \<leftarrow> mem_read (m_buffer b) 0 (nat ret);
              (_, _, b1) \<leftarrow> sb_Read False (of_int ret) b;
              (ds, ks', b2) \<leftarrow> on_write_loop ks b1;
              Some (d @ ds, ks', b2) })
      else Some ([], k # ks, b))"

definition conn_OnWrite ::
  "send_fn list \<Rightarrow> im_conn \<Rightarrow> (bytes \<times> send_fn list \<times> im_conn) option" where
  "conn_OnWrite ks c =
     (if \<not> m_busy c then Some ([], ks, c)
      else do {
        (sent, ks', b) \<leftarrow> on_write_loop ks (m_out_buf c);
        Some (sent, ks', c\<lparr>m_out_buf := b,
                           m_busy := (if m_write_offset b = 0 then False else m_busy c)\<rparr>) })"

section \<open>OnRead\<close>

definition in_buf_room :: "(nat \<Rightarrow> byte) \<Rightarrow> simple_buffer \<Rightarrow> simple_buffer" where
  "in_buf_room garb b =
     (if m_alloc_size b - m_write_offset b < READ_BUF_SIZE then sb_Extend garb READ_BUF_SIZE b else b)"

fun on_read_fill :: "(nat \<Rightarrow> byte) \<Rightarrow> recv_event list \<Rightarrow> im_conn \<Rightarrow> im_conn option" where
  "on_read_fill garb [] c = Some (c\<lparr>m_in_buf := in_buf_room garb (m_in_buf c)\<rparr>)"
| "on_read_fill garb ((d, tick) # rs) c =
     (let b = in_buf_room garb (m_in_buf c)
      in if d = [] then Some (c\<lparr>m_in_buf := b\<rparr>)
         else do {
           m \<leftarrow> mem_write (m_buffer b) (unat (m_write_offset b)) d;
           on_read_fill garb rs
             (c\<lparr>m_recv_bytes := m_recv_bytes c + of_nat (length d),
                m_in_buf := sb_IncWriteOffset (of_nat (length d)) (b\<lparr>m_buffer := m\<rparr>),
                m_last_recv_tick := tick\<rparr>) })"

text \<open>
  Every PDU that \<open>ReadPdu\<close> returns has a non-zero length and needs sixteen buffered bytes, so
  removing it shrinks the buffer: the parse loop ends.
\<close>

lemma pdu_ReadPduHeader_buf:
  "pdu_ReadPduHeader buf len p = Some (Inr (i, q)) \<Longrightarrow> m_buf q = m_buf p"
  by (auto simp: pdu_ReadPduHeader_def split: option.splits if_splits sum.splits)

lemma sb_Write_offset:
  "sb_Write garb d n b = Some (k, b') \<Longrightarrow> m_write_offset b' = m_write_offset b + n"
  by (auto simp: sb_Write_def sb_Extend_def Let_def bind_eq_Some_conv)

lemma ReadPdu_Some_pos:
  assumes "ReadPdu garb junk buf len = Some (Inr (Some p))"
  shows "0 < pdu_GetLength p" and "16 \<le> len"
proof -
  from assms obtain n k b r where av: "IsPduAvailable buf len 0 = Some (Inr (True, n))"
    and w: "sb_Write garb (Some buf) n (m_buf (CImPdu junk)) = Some (k, b)"
    and h: "pdu_ReadPduHeader (Some buf) IM_PDU_HEADER_LEN ((CImPdu junk)\<lparr>m_buf := b\<rparr>) = Some r"
    and r: "(case r of Inl e \<Rightarrow> Some (Inl e) | Inr (_, p) \<Rightarrow> Some (Inr (Some p))) = Some (Inr (Some p))"
    by (cases "IsPduAvailable buf len 0"; cases "the (IsPduAvailable buf len 0)")
      (auto simp: ReadPdu_def bind_eq_Some_conv split: if_split_asm)
  from r obtain i where "r = Inr (i, p)" by (cases r) auto
  with pdu_ReadPduHeader_buf [of "Some buf"] h have "m_buf p = b" by fastforce
  with sb_Write_offset [OF w] have "pdu_GetLength p = n"
    by (simp add: pdu_GetLength_def CImPdu_def CSimpleBuffer_def)
  with av have "\<exists>n. IsPduAvailable buf len 0 = Some (Inr (True, n)) \<and> pdu_GetLength p = n" by simp
  then show "0 < pdu_GetLength p" and "16 \<le> len"
    by (auto simp: IsPduAvailable_def bind_eq_Some_conv word_neq_0_conv not_less split: if_splits)
qed

lemma sb_Read_shrinks:
  assumes "sb_Read tb n b = Some (d, l, b')" and "0 < n" and "0 < m_write_offset b"
  shows "unat (m_write_offset b') < unat (m_write_offset b)"
proof -
  from assms have "m_write_offset b' = m_write_offset b - (if n > m_write_offset b then m_write_offset b else n)"
    by (auto simp: sb_Read_def Let_def bind_eq_Some_conv split: if_splits)
  then show ?thesis using assms(2,3)
    by (auto simp: less_unat_32 unat_sub_le)
qed

function on_read_loop ::
  "(nat \<Rightarrow> byte) \<Rightarrow> u32 \<Rightarrow> (im_pdu \<Rightarrow> 's \<Rightarrow> pdu_exception + 's) \<Rightarrow> simple_buffer \<Rightarrow> 's \<Rightarrow>
   (simple_buffer \<times> 's \<times> pdu_exception option) option" where
  "on_read_loop garb junk HandlePdu b s =
     (case ReadPdu garb junk (m_buffer b) (m_write_offset b) of
        None \<Rightarrow> None
      | Some (Inl ex) \<Rightarrow> Some (b, s, Some ex)
      | Some (Inr None) \<Rightarrow> Some (b, s, None)
      | Some (Inr (Some p)) \<Rightarrow>
          (case HandlePdu p s of
             Inl ex \<Rightarrow> Some (b, s, Some ex)
           | Inr s' \<Rightarrow>
               (case sb_Read False (pdu_GetLength p) b of
                  None \<Rightarrow> None
                | Some (_, _, b') \<Rightarrow> on_read_loop garb junk HandlePdu b' s')))"
  by pat_completeness auto
termination
proof (relation "measure (\<lambda>(garb, junk, h, b, s). unat (m_write_offset b))", goal_cases)
  case 1
  show ?case by simp
next
  case (2 garb junk h b s r o' p s' x d y l b')
  then have pos: "0 < pdu_GetLength p" "16 \<le> m_write_offset b"
    by (auto dest: ReadPdu_Some_pos)
  from pos(2) have "0 < m_write_offset b"
    by (auto simp: word_neq_0_conv [symmetric] le_unat_32)
  with sb_Read_shrinks [OF _ pos(1)] 2 show ?case by auto
qed

declare on_read_loop.simps [simp del]

text \<open>\<open>OnRead\<close>: the last component of the result says whether \<open>OnClose\<close> was called.\<close>

definition conn_OnRead ::
  "(nat \<Rightarrow> byte) \<Rightarrow> u32 \<Rightarrow> (im_pdu \<Rightarrow> 's \<Rightarrow> pdu_exception + 's) \<Rightarrow> recv_event list \<Rightarrow>
   im_conn \<Rightarrow> 's \<Rightarrow> (im_conn \<times> 's \<times> bool) option" where
  "conn_OnRead garb junk HandlePdu rs c s = do {
     c1 \<leftarrow> on_read_fill garb rs c;
     (b, s', ex) \<leftarrow> on_read_loop garb junk HandlePdu (m_in_buf c1) s;
     Some (c1\<lparr>m_in_buf := b\<rparr>, s', ex \<noteq> None) }"

text \<open>A handler that keeps the PDUs for later; the servers and the client cut first and handle then.\<close>

definition collect_pdu :: "im_pdu \<Rightarrow> im_pdu list \<Rightarrow> pdu_exception + im_pdu list" where
  "collect_pdu pdu pdus = Inr (pdus @ [pdu])"

section \<open>Specification of the framing\<close>

text \<open>
  The reference: cut a byte string into frames by their length prefix, with the bytes left
  over and whether a zero length was met.
\<close>

function split_frames :: "bytes \<Rightarrow> bytes list \<times> bytes \<times> bool" where
  "split_frames bs =
     (let n = unat (be32 (take 4 bs)) in
      if length bs < 16 \<or> length bs < n then ([], bs, False)
      else if n = 0 then ([], bs, True)
      else (let (fs, r, e) = split_frames (drop n bs) in (take n bs # fs, r, e)))"
  by pat_completeness auto
termination
  by (relation "measure length") auto

declare split_frames.simps [simp del]

text \<open>A handler that records the PDUs it is given.\<close>

definition record_pdu :: "im_pdu \<Rightarrow> bytes list \<Rightarrow> pdu_exception + bytes list" where
  "record_pdu p s = Inr (s @ [pdu_contents p])"

definition frame_ok :: "bytes \<Rightarrow> bool" where
  "frame_ok f \<longleftrightarrow> 16 \<le> length f \<and> unat (be32 (take 4 f)) = length f"

text \<open>Several read events one after the other, stopping when the connection was closed.\<close>

fun read_events ::
  "(nat \<Rightarrow> byte) \<Rightarrow> u32 \<Rightarrow> recv_event list list \<Rightarrow> im_conn \<Rightarrow> bytes list \<Rightarrow>
   (im_conn \<times> bytes list \<times> bool) option" where
  "read_events garb junk [] c s = Some (c, s, False)"
| "read_events garb junk (rs # rss) c s =
     (case conn_OnRead garb junk record_pdu rs c s of
        None \<Rightarrow> None
      | Some (c', s', closed) \<Rightarrow>
          if closed then Some (c', s', True) else read_events garb junk rss c' s')"

definition received :: "recv_event list \<Rightarrow> bytes" where
  "received rs = concat (map fst (takeWhile (\<lambda>r. fst r \<noteq> []) rs))"

text \<open>
  The invariant of the output side: the buffer is well formed, and bytes wait in it only
  while the connection is busy.
\<close>

definition conn_out_wf :: "im_conn \<Rightarrow> bool" where
  "conn_out_wf c \<longleftrightarrow> sb_wf (m_out_buf c) \<and> (\<not> m_busy c \<longrightarrow> sb_contents (m_out_buf c) = [])"

text \<open>A history of calls on the output side: what is sent, and what the kernel answers.\<close>

datatype out_event = EvSend bytes "send_fn list" | EvWrite "send_fn list"

fun event_data :: "out_event \<Rightarrow> bytes" where
  "event_data (EvSend d ks) = d"
| "event_data (EvWrite ks) = []"

fun event_script :: "out_event \<Rightarrow> send_fn list" where
  "event_script (EvSend d ks) = ks"
| "event_script (EvWrite ks) = ks"

fun out_step :: "(nat \<Rightarrow> byte) \<Rightarrow> u64 \<Rightarrow> out_event \<Rightarrow> im_conn \<Rightarrow> (bytes \<times> im_conn) option" where
  "out_step garb tick (EvSend d ks) c =
     map_option (\<lambda>(_, _, sent, _, c'). (sent, c')) (conn_Send garb tick ks d c)"
| "out_step garb tick (EvWrite ks) c = map_option (\<lambda>(sent, _, c'). (sent, c')) (conn_OnWrite ks c)"

fun out_run :: "(nat \<Rightarrow> byte) \<Rightarrow> u64 \<Rightarrow> out_event list \<Rightarrow> im_conn \<Rightarrow> (bytes \<times> im_conn) option" where
  "out_run garb tick [] c = Some ([], c)"
| "out_run garb tick (e # es) c = do {
     (sent, c1) \<leftarrow> out_step garb tick e c;
     (sent', c2) \<leftarrow> out_run garb tick es c1;
     Some (sent @ sent', c2) }"

section \<open>Theorems\<close>

subsection \<open>The outgoing stream\<close>

lemma unat_of_int_lt: "0 \<le> i \<Longrightarrow> i < 4294967296 \<Longrightarrow> unat (of_int i :: u32) = nat i"
  by (simp add: unat_eq_nat_uint uint_word_of_int)

lemma send_loop_spec:
  assumes "list_all send_fn_ok ks" and "0 \<le> remain" and "offset + nat remain = length data"
    and "send_loop ks data offset remain = (sent, off', rem', ks')"
  shows "0 \<le> rem' \<and> off' + nat rem' = length data \<and> sent @ drop off' data = drop offset data"
  using assms
proof (induction ks arbitrary: offset remain sent off' rem' ks')
  case Nil
  then show ?case by auto
next
  case (Cons k ks)
  define sz where "sz = (if remain > NETLIB_MAX_SOCKET_BUF_SIZE then NETLIB_MAX_SOCKET_BUF_SIZE else remain)"
  define ret where "ret = k sz"
  show ?case
  proof (cases "remain > 0 \<and> ret > 0")
    case False
    with Cons.prems show ?thesis
      by (auto simp: Let_def sz_def ret_def split: if_splits)
  next
    case True
    obtain st o1 r1 k1 where rec: "send_loop ks data (offset + nat ret) (remain - ret) = (st, o1, r1, k1)"
      by (metis prod_cases4)
    have "ret \<le> max 0 sz" using Cons.prems(1) by (simp add: ret_def send_fn_ok_def)
    moreover have "0 < sz" "sz \<le> remain" using True by (auto simp: sz_def)
    ultimately have le: "ret \<le> sz" "sz \<le> remain" by auto
    have eq: "sent = take (nat ret) (drop offset data) @ st" "off' = o1" "rem' = r1"
      using Cons.prems(4) True rec unfolding send_loop.simps sz_def [symmetric] Let_def
      by (auto simp: ret_def [symmetric])
    have "0 \<le> r1 \<and> o1 + nat r1 = length data \<and> st @ drop o1 data = drop (offset + nat ret) data"
      using Cons.prems le True by (intro Cons.IH [OF _ _ _ rec]) auto
    moreover have "take (nat ret) (drop offset data) @ drop (offset + nat ret) data = drop offset data"
      by (metis append_take_drop_id drop_drop add.commute)
    ultimately show ?thesis using eq by auto
  qed
qed

lemma on_write_loop_spec:
  assumes "list_all send_fn_ok ks" and "sb_wf b" and "length (sb_contents b) < 2147483648"
  shows "\<exists>sent ks' b'. on_write_loop ks b = Some (sent, ks', b') \<and> sb_wf b'
     \<and> sent @ sb_contents b' = sb_contents b"
  using assms
proof (induction ks arbitrary: b)
  case Nil
  then show ?case by simp
next
  case (Cons k ks)
  let ?o = "m_write_offset b"
  define sz where "sz = (if sint ?o > NETLIB_MAX_SOCKET_BUF_SIZE then NETLIB_MAX_SOCKET_BUF_SIZE else sint ?o)"
  define ret where "ret = k sz"
  show ?case
  proof (cases "?o > 0 \<and> ret > 0")
    case False
    with Cons.prems(2) show ?thesis by (auto simp: Let_def sz_def ret_def)
  next
    case True
    from Cons.prems have o: "unat ?o < 2147483648" "unat ?o \<le> length (m_buffer b)"
      by (auto simp: length_sb_contents sb_wf_def)
    have "ret \<le> max 0 sz" using Cons.prems(1) by (simp add: ret_def send_fn_ok_def)
    moreover have "sz \<le> int (unat ?o)" "0 \<le> sz" using o(1) by (auto simp: sz_def sint_small)
    ultimately have le: "nat ret \<le> unat ?o" by linarith
    then have u: "unat (of_int ret :: u32) = nat ret"
      using True o(1) by (intro unat_of_int_lt) auto
    from sb_Read_spec [OF Cons.prems(2), of False "of_int ret"] u obtain n b1 where
      b1: "sb_Read False (of_int ret) b = Some ([], n, b1)" "sb_wf b1"
        "sb_contents b1 = drop (nat ret) (sb_contents b)" by auto
    with Cons.prems have "\<exists>sent ks' b'. on_write_loop ks b1 = Some (sent, ks', b') \<and> sb_wf b'
       \<and> sent @ sb_contents b' = sb_contents b1" by (intro Cons.IH) auto
    then obtain ds ks' b2 where rec: "on_write_loop ks b1 = Some (ds, ks', b2)" "sb_wf b2"
      "ds @ sb_contents b2 = drop (nat ret) (sb_contents b)" using b1(3) by auto
    have d: "mem_read (m_buffer b) 0 (nat ret) = Some (take (nat ret) (sb_contents b))"
      using le o(2) by (simp add: mem_simps sb_contents_def min_def)
    have "on_write_loop (k # ks) b = Some (take (nat ret) (sb_contents b) @ ds, ks', b2)"
      using True d b1(1) rec(1) unfolding on_write_loop.simps sz_def [symmetric] Let_def
      by (simp add: ret_def [symmetric])
    with rec show ?thesis by simp
  qed
qed

lemma sb_fits_small:
  assumes "sb_wf b" and "length (sb_contents b) + n < 2147483648"
  shows "sb_fits b n"
proof -
  let ?s = "unat (m_write_offset b) + n"
  have "?s < 2147483648" using assms by (simp add: length_sb_contents)
  then have "?s + ?s div 4 < 4294967296" by arith
  then show ?thesis by (simp add: sb_fits_def)
qed

lemma of_int_length: "(of_int (int n) :: u32) = of_nat n"
  by simp

lemma conn_Send_spec:
  assumes wf: "conn_out_wf c" and ok: "list_all send_fn_ok ks"
    and small: "length (sb_contents (m_out_buf c)) + length data < 2147483648"
  shows "\<exists>done sent ks' c'.
     conn_Send garb tick ks data c = Some (int (length data), done, sent, ks', c') \<and> conn_out_wf c'
     \<and> sent @ sb_contents (m_out_buf c') = sb_contents (m_out_buf c) @ data"
proof (cases "m_busy c")
  case True
  from sbq.put_spec [of "m_out_buf c" data garb] wf sb_fits_small [OF _ small]
  obtain n b where "sb_Write garb (Some data) (of_nat (length data)) (m_out_buf c) = Some (n, b)"
    "sb_wf b" "sb_contents b = sb_contents (m_out_buf c) @ data"
    by (auto simp: conn_out_wf_def sb_put_def)
  with True show ?thesis by (auto simp: conn_Send_def conn_out_wf_def Let_def)
next
  case False
  obtain sent off rem ks' where l: "send_loop ks data 0 (int (length data)) = (sent, off, rem, ks')"
    by (metis prod_cases4)
  from send_loop_spec [OF ok _ _ l] have r: "0 \<le> rem" "off + nat rem = length data"
    "sent @ drop off data = data" by auto
  from False wf have e: "sb_contents (m_out_buf c) = []" "sb_wf (m_out_buf c)"
    by (auto simp: conn_out_wf_def)
  show ?thesis
  proof (cases "rem > 0")
    case False
    with r have "sent = data" by (auto simp: drop_all)
    with False e l wf \<open>\<not> m_busy c\<close> show ?thesis by (auto simp: conn_Send_def Let_def conn_out_wf_def)
  next
    case True
    have n: "rem = int (length (drop off data))" using r by auto
    from sbq.put_spec [of "m_out_buf c" "drop off data" garb] e small
      sb_fits_small [OF e(2), of "length (drop off data)"]
    obtain k b where "sb_Write garb (Some (drop off data)) (of_int rem) (m_out_buf c) = Some (k, b)"
      "sb_wf b" "sb_contents b = drop off data"
      by (auto simp: sb_put_def n simp del: of_nat_diff)
    with True l r e \<open>\<not> m_busy c\<close> show ?thesis by (auto simp: conn_Send_def Let_def conn_out_wf_def)
  qed
qed

lemma conn_OnWrite_spec:
  assumes wf: "conn_out_wf c" and ok: "list_all send_fn_ok ks"
    and small: "length (sb_contents (m_out_buf c)) < 2147483648"
  shows "\<exists>sent ks' c'. conn_OnWrite ks c = Some (sent, ks', c') \<and> conn_out_wf c'
     \<and> sent @ sb_contents (m_out_buf c') = sb_contents (m_out_buf c)"
proof (cases "m_busy c")
  case True
  from on_write_loop_spec [OF ok _ small] wf obtain sent ks' b where
    "on_write_loop ks (m_out_buf c) = Some (sent, ks', b)" "sb_wf b"
    "sent @ sb_contents b = sb_contents (m_out_buf c)" by (auto simp: conn_out_wf_def)
  with True show ?thesis by (auto simp: conn_OnWrite_def conn_out_wf_def sb_contents_def)
next
  case False
  with wf show ?thesis by (simp add: conn_OnWrite_def)
qed

lemma out_step_spec:
  assumes "conn_out_wf c" and "list_all send_fn_ok (event_script e)"
    and "length (sb_contents (m_out_buf c)) + length (event_data e) < 2147483648"
  shows "\<exists>sent c'. out_step garb tick e c = Some (sent, c') \<and> conn_out_wf c'
     \<and> sent @ sb_contents (m_out_buf c') = sb_contents (m_out_buf c) @ event_data e"
proof (cases e)
  case (EvSend d ks)
  with conn_Send_spec [of c ks d garb tick] assms show ?thesis by auto
next
  case (EvWrite ks)
  with conn_OnWrite_spec [of c ks] assms show ?thesis by auto
qed

lemma out_run_spec:
  assumes "conn_out_wf c" and "list_all (\<lambda>e. list_all send_fn_ok (event_script e)) es"
    and "length (sb_contents (m_out_buf c)) + length (concat (map event_data es)) < 2147483648"
  shows "\<exists>sent c'. out_run garb tick es c = Some (sent, c') \<and> conn_out_wf c'
     \<and> sent @ sb_contents (m_out_buf c') = sb_contents (m_out_buf c) @ concat (map event_data es)"
  using assms
proof (induction es arbitrary: c)
  case Nil
  then show ?case by simp
next
  case (Cons e es)
  from Cons.prems out_step_spec [of c e garb tick] obtain s1 c1 where
    1: "out_step garb tick e c = Some (s1, c1)" "conn_out_wf c1"
      "s1 @ sb_contents (m_out_buf c1) = sb_contents (m_out_buf c) @ event_data e" by auto
  from arg_cong [OF 1(3), of length]
  have "length (sb_contents (m_out_buf c1)) \<le> length (sb_contents (m_out_buf c)) + length (event_data e)"
    by simp
  with Cons.prems 1 obtain s2 c2 where
    2: "out_run garb tick es c1 = Some (s2, c2)" "conn_out_wf c2"
      "s2 @ sb_contents (m_out_buf c2) = sb_contents (m_out_buf c1) @ concat (map event_data es)"
    using Cons.IH [of c1] by auto
  then have "(s1 @ s2) @ sb_contents (m_out_buf c2)
      = (s1 @ sb_contents (m_out_buf c1)) @ concat (map event_data es)" by simp
  with 1 2 show ?case by simp
qed

text \<open>
  C2. Nothing sent over a connection is lost, duplicated or reordered: after any sequence of
  \<open>Send\<close> and \<open>OnWrite\<close> calls, whatever the kernel accepted at each, the bytes put on the wire
  followed by those waiting in \<open>m_out_buf\<close> are the concatenation of everything sent (up to
  2 GiB); an idle connection has nothing waiting, and no call leaves its buffers.
\<close>

theorem conn_output_fifo:
  assumes "list_all (\<lambda>e. list_all send_fn_ok (event_script e)) es"
    and "length (concat (map event_data es)) < 2147483648"
  shows "\<exists>wire c'. out_run garb tick es (CImConn t0) = Some (wire, c')
     \<and> wire @ sb_contents (m_out_buf c') = concat (map event_data es)
     \<and> (\<not> m_busy c' \<longrightarrow> wire = concat (map event_data es))"
proof -
  have wf: "conn_out_wf (CImConn t0)" "sb_contents (m_out_buf (CImConn t0)) = []"
    by (simp_all add: conn_out_wf_def CImConn_def)
  from out_run_spec [OF wf(1) assms(1), of garb tick] assms(2) wf(2)
  show ?thesis by (auto simp: conn_out_wf_def)
qed

theorem conn_output_fifo_witness:
  "\<exists>wire c'. out_run (\<lambda>_. 0) 1 [EvSend [1, 2, 3] [\<lambda>n. min n 2, \<lambda>_. 0], EvSend [4] [], EvWrite [\<lambda>n. n]]
       (CImConn 0) = Some (wire, c')
     \<and> wire @ sb_contents (m_out_buf c') = [1, 2, 3, 4]"
proof -
  have "list_all (\<lambda>e. list_all send_fn_ok (event_script e))
      [EvSend [1, 2, 3] [\<lambda>n. min n 2, \<lambda>_. 0], EvSend [4] [], EvWrite [\<lambda>n. n]]"
    by (auto simp: send_fn_ok_def min_def max_def)
  from conn_output_fifo [OF this, of "\<lambda>_. 0" 1 0] show ?thesis by auto
qed

subsection \<open>The incoming stream\<close>

lemma in_buf_room_spec:
  assumes wf: "sb_wf b" and small: "length (sb_contents b) < 3000000000"
  shows "sb_wf (in_buf_room garb b)" and "sb_contents (in_buf_room garb b) = sb_contents b"
    and "m_write_offset (in_buf_room garb b) = m_write_offset b"
    and "unat (m_write_offset b) + 2048 \<le> length (m_buffer (in_buf_room garb b))"
proof -
  let ?s = "unat (m_write_offset b) + 2048"
  have "unat (m_write_offset b) < 3000000000" using small wf by (simp add: length_sb_contents)
  then have "?s + ?s div 4 < 4294967296" by arith
  then have fits: "sb_fits b (unat READ_BUF_SIZE)" by (simp add: sb_fits_def)
  have sub: "unat (m_alloc_size b - m_write_offset b) = unat (m_alloc_size b) - unat (m_write_offset b)"
    using wf by (simp add: sb_wf_def unat_sub_le)
  show "sb_wf (in_buf_room garb b)" and "sb_contents (in_buf_room garb b) = sb_contents b"
    and "m_write_offset (in_buf_room garb b) = m_write_offset b"
    using sb_Extend_spec [OF wf fits, of garb] wf by (simp_all add: in_buf_room_def)
  show "?s \<le> length (m_buffer (in_buf_room garb b))"
  proof (cases "m_alloc_size b - m_write_offset b < READ_BUF_SIZE")
    case True
    with sb_Extend_spec(3) [OF wf fits, of garb] show ?thesis by (simp add: in_buf_room_def)
  next
    case False
    with wf sub show ?thesis by (auto simp: in_buf_room_def less_unat_32 sb_wf_def)
  qed
qed

lemma received_simps [simp]:
  "received [] = []" "received ((d, t) # rs) = (if d = [] then [] else d @ received rs)"
  by (simp_all add: received_def)

lemma on_read_fill_spec:
  assumes "sb_wf (m_in_buf c)" and "list_all recv_ok rs"
    and "length (sb_contents (m_in_buf c)) + length (received rs) < 2999990000"
  shows "\<exists>c1. on_read_fill garb rs c = Some c1 \<and> sb_wf (m_in_buf c1)
     \<and> sb_contents (m_in_buf c1) = sb_contents (m_in_buf c) @ received rs
     \<and> m_out_buf c1 = m_out_buf c \<and> m_busy c1 = m_busy c"
  using assms
proof (induction rs arbitrary: c)
  case Nil
  then show ?case using in_buf_room_spec [of "m_in_buf c" garb] by simp
next
  case (Cons r rs)
  obtain d t where r: "r = (d, t)" by (cases r)
  define b where "b = in_buf_room garb (m_in_buf c)"
  note room = in_buf_room_spec [OF Cons.prems(1), of garb, folded b_def]
  show ?case
  proof (cases "d = []")
    case True
    with r Cons.prems room show ?thesis by (auto simp: b_def)
  next
    case False
    let ?o = "unat (m_write_offset b)"
    have d: "length d \<le> 2048" using Cons.prems(2) r by (simp add: recv_ok_def)
    have rm: "?o + 2048 \<le> length (m_buffer b)" and wfb: "sb_wf b"
      and cb: "sb_contents b = sb_contents (m_in_buf c)"
      using room Cons.prems(3) r by auto
    let ?b' = "sb_IncWriteOffset (of_nat (length d))
        (b\<lparr>m_buffer := take ?o (m_buffer b) @ d @ drop (?o + length d) (m_buffer b)\<rparr>)"
    have u: "unat (of_nat (length d) :: u32) = length d" using d by (intro unat_of_nat_lt) simp
    have "length (m_buffer b) < 4294967296" using wfb by (simp add: sb_wf_def)
    then have "?o + length d < 4294967296" using rm d by linarith
    then have sum: "unat (m_write_offset b + of_nat (length d)) = ?o + length d"
      using u by (simp add: unat_add_fits_32)
    have b': "sb_wf ?b'" "sb_contents ?b' = sb_contents (m_in_buf c) @ d"
      using rm d wfb sum cb [symmetric] by (auto simp: sb_IncWriteOffset_def sb_wf_def sb_contents_def)
    define c' where "c' = c\<lparr>m_recv_bytes := m_recv_bytes c + of_nat (length d), m_in_buf := ?b',
        m_last_recv_tick := t\<rparr>"
    have step: "on_read_fill garb (r # rs) c = on_read_fill garb rs c'"
      unfolding c'_def using False rm d by (simp add: r Let_def b_def [symmetric] mem_simps)
    have c': "m_in_buf c' = ?b'" "m_out_buf c' = m_out_buf c" "m_busy c' = m_busy c"
      by (simp_all add: c'_def)
    have "length (sb_contents (m_in_buf c')) + length (received rs) < 2999990000"
      using Cons.prems(3) r False by (simp add: c'(1) b'(2))
    with Cons.prems(2) b' c' Cons.IH [of c'] obtain c1 where "on_read_fill garb rs c' = Some c1"
      "sb_wf (m_in_buf c1)" "sb_contents (m_in_buf c1) = (sb_contents (m_in_buf c) @ d) @ received rs"
      "m_out_buf c1 = m_out_buf c" "m_busy c1 = m_busy c" by auto
    with r False show ?thesis unfolding step by simp
  qed
qed

subsection \<open>Framing\<close>

lemma split_frames_short:
  "length bs < 16 \<or> length bs < unat (be32 (take 4 bs)) \<Longrightarrow> split_frames bs = ([], bs, False)"
  by (subst split_frames.simps) (simp add: Let_def)

lemma split_frames_zero:
  "16 \<le> length bs \<Longrightarrow> be32 (take 4 bs) = 0 \<Longrightarrow> split_frames bs = ([], bs, True)"
  by (subst split_frames.simps) (simp add: Let_def)

lemma split_frames_step:
  assumes "16 \<le> length bs" and "n = unat (be32 (take 4 bs))" and "n \<le> length bs" and "0 < n"
  shows "split_frames bs =
     (let (fs, r, e) = split_frames (drop n bs) in (take n bs # fs, r, e))"
  using assms by (subst split_frames.simps) (simp add: Let_def)

lemma on_read_loop_frames:
  assumes "sb_wf b" and "length (sb_contents b) < 3000000000"
    and "split_frames (sb_contents b) = (fs, r, e)"
  shows "\<exists>b' ex. on_read_loop garb junk record_pdu b s = Some (b', s @ fs, ex) \<and> sb_wf b'
     \<and> sb_contents b' = r \<and> (ex \<noteq> None \<longleftrightarrow> e)"
  using assms
proof (induction "length (sb_contents b)" arbitrary: b s fs rule: less_induct)
  case less
  let ?cs = "sb_contents b" and ?w = "m_write_offset b" and ?n = "be32 (take 4 (sb_contents b))"
  from less.prems(1) have w: "length ?cs = unat ?w" "unat ?w \<le> length (m_buffer b)"
    by (auto simp: length_sb_contents sb_wf_def)
  have "unat ?w + unat ?w div 4 < 4294967296" using less.prems(2) w(1) by arith
  note rd = ReadPdu_total [OF w(2) this, of garb junk]
  have pre: "16 \<le> length ?cs \<Longrightarrow> take 4 (m_buffer b) = take 4 ?cs"
    using w by (simp add: sb_contents_def min_def)
  consider (short) "length ?cs < 16 \<or> length ?cs < unat ?n"
    | (zero) "16 \<le> length ?cs" "?n = 0"
    | (frame) "16 \<le> length ?cs" "unat ?n \<le> length ?cs" "0 < unat ?n"
    by (metis gr0I not_less unat_eq_0)
  then show ?case
  proof cases
    case short
    with rd pre w(1) have "ReadPdu garb junk (m_buffer b) ?w = Some (Inr None)"
      by (cases "length ?cs < 16") (auto simp: Let_def)
    with split_frames_short [OF short] less.prems show ?thesis
      by (subst on_read_loop.simps) simp
  next
    case zero
    with rd pre w(1) obtain x where "ReadPdu garb junk (m_buffer b) ?w = Some (Inl x)"
      by (auto simp: Let_def)
    with split_frames_zero [OF zero] less.prems show ?thesis
      by (subst on_read_loop.simps) simp
  next
    case frame
    then have n0: "?n \<noteq> 0" by auto
    from frame n0 rd pre w(1) obtain p where
      p: "ReadPdu garb junk (m_buffer b) ?w = Some (Inr (Some p))"
        "pdu_contents p = take (unat ?n) (m_buffer b)" "pdu_GetLength p = ?n"
      by (auto simp: Let_def)
    have pc: "pdu_contents p = take (unat ?n) ?cs"
      using p(2) frame(2) w by (simp add: sb_contents_def min_def)
    from sb_Read_spec [OF less.prems(1), of False ?n] obtain l b1 where
      b1: "sb_Read False ?n b = Some ([], l, b1)" "sb_wf b1"
        "sb_contents b1 = drop (unat ?n) ?cs" by auto
    obtain fs1 r1 e1 where sp: "split_frames (drop (unat ?n) ?cs) = (fs1, r1, e1)"
      by (metis prod_cases3)
    have eq: "fs = take (unat ?n) ?cs # fs1" "r = r1" "e = e1"
      using split_frames_step [OF frame(1) refl frame(2,3)] sp less.prems(3) by auto
    from frame have "length (sb_contents b1) < length ?cs" by (simp add: b1(3))
    moreover from this less.prems(2) have "length (sb_contents b1) < 3000000000" by linarith
    moreover have "split_frames (sb_contents b1) = (fs1, r, e)" using sp b1(3) eq by simp
    ultimately have "\<exists>b' ex. on_read_loop garb junk record_pdu b1 (s @ [take (unat ?n) ?cs])
        = Some (b', (s @ [take (unat ?n) ?cs]) @ fs1, ex) \<and> sb_wf b' \<and> sb_contents b' = r
        \<and> (ex \<noteq> None \<longleftrightarrow> e)" using b1(2) by (intro less.hyps)
    then    obtain b' ex where "on_read_loop garb junk record_pdu b1 (s @ [take (unat ?n) ?cs])
        = Some (b', (s @ [take (unat ?n) ?cs]) @ fs1, ex)" "sb_wf b'" "sb_contents b' = r"
      "(ex \<noteq> None) = e" by blast
    with p(1,3) pc b1(1) eq show ?thesis
      by (subst on_read_loop.simps) (simp add: record_pdu_def)
  qed
qed

lemma split_frames_append:
  assumes "split_frames a = (fs, r, e)"
  shows "split_frames (a @ b) =
     (if e then (fs, r @ b, True)
      else (let (fs', r', e') = split_frames (r @ b) in (fs @ fs', r', e')))"
  using assms
proof (induction a arbitrary: fs rule: split_frames.induct)
  case (1 a)
  let ?n = "unat (be32 (take 4 a))"
  consider (short) "length a < 16 \<or> length a < ?n" | (zero) "16 \<le> length a" "be32 (take 4 a) = 0"
    | (frame) "16 \<le> length a" "?n \<le> length a" "0 < ?n"
    by (metis gr0I not_less unat_eq_0)
  then show ?case
  proof cases
    case short
    with "1.prems" show ?thesis by (auto simp: split_frames_short split: prod.splits)
  next
    case zero
    with "1.prems" show ?thesis by (auto simp: split_frames_zero)
  next
    case frame
    obtain fs1 r1 e1 where sp: "split_frames (drop ?n a) = (fs1, r1, e1)" by (metis prod_cases3)
    have eq: "fs = take ?n a # fs1" "r = r1" "e = e1"
      using split_frames_step [OF frame(1) refl frame(2,3)] sp "1.prems" by auto
    have IH: "split_frames (drop ?n a @ b) =
       (if e then (fs1, r @ b, True)
        else (let (fs', r', e') = split_frames (r @ b) in (fs1 @ fs', r', e')))"
      using frame sp eq by (intro "1.IH" [OF refl]) auto
    have "split_frames (a @ b) =
        (let (fs, r, e) = split_frames (drop ?n a @ b) in (take ?n a # fs, r, e))"
      using frame split_frames_step [of "a @ b" ?n] by simp
    then show ?thesis using IH eq by (auto split: prod.splits)
  qed
qed

lemma split_frames_rest:
  "split_frames bs = (fs, r, False) \<Longrightarrow> split_frames r = ([], r, False)"
proof (induction bs arbitrary: fs rule: split_frames.induct)
  case (1 bs)
  let ?n = "unat (be32 (take 4 bs))"
  show ?case
  proof (cases "length bs < 16 \<or> length bs < ?n")
    case True
    with "1.prems" show ?thesis by (auto simp: split_frames_short)
  next
    case False
    show ?thesis
    proof (cases "?n = 0")
      case True
      with False "1.prems" show ?thesis by (auto simp: split_frames_zero unat_eq_0)
    next
      case n: False
      obtain fs1 r1 e1 where sp: "split_frames (drop ?n bs) = (fs1, r1, e1)" by (metis prod_cases3)
      with split_frames_step [of bs ?n] False n "1.prems" have "r = r1" "e1 = False" by auto
      with "1.IH" [OF refl] False n sp show ?thesis by auto
    qed
  qed
qed

lemma split_frames_length: "split_frames bs = (fs, r, e) \<Longrightarrow> length r \<le> length bs"
proof (induction bs arbitrary: fs rule: split_frames.induct)
  case (1 bs)
  let ?n = "unat (be32 (take 4 bs))"
  show ?case
  proof (cases "length bs < 16 \<or> length bs < ?n \<or> ?n = 0")
    case True
    with "1.prems" show ?thesis
      by (subst (asm) split_frames.simps) (auto simp: Let_def split: if_splits)
  next
    case False
    obtain fs1 r1 e1 where sp: "split_frames (drop ?n bs) = (fs1, r1, e1)" by (metis prod_cases3)
    with split_frames_step [of bs ?n] False "1.prems" have "r = r1" "e = e1" by auto
    with "1.IH" [OF refl] False sp have "length r \<le> length (drop ?n bs)" by auto
    then show ?thesis by simp
  qed
qed

lemma split_frames_concat:
  assumes "list_all frame_ok fs" and "length p < 16 \<or> length p < unat (be32 (take 4 p))"
  shows "split_frames (concat fs @ p) = (fs, p, False)"
  using assms(1)
proof (induction fs)
  case Nil
  with assms(2) show ?case by (simp add: split_frames_short)
next
  case (Cons f fs)
  then have f: "16 \<le> length f" "unat (be32 (take 4 f)) = length f" by (auto simp: frame_ok_def)
  then have t: "take 4 (f @ concat fs @ p) = take 4 f" by simp
  have "split_frames (f @ concat fs @ p)
      = (let (gs, r, e) = split_frames (drop (length f) (f @ concat fs @ p))
         in (take (length f) (f @ concat fs @ p) # gs, r, e))"
  proof (rule split_frames_step)
    show "16 \<le> length (f @ concat fs @ p)" and "0 < length f" using f(1) by auto
    show "length f = unat (be32 (take 4 (f @ concat fs @ p)))" unfolding t using f(2) by simp
  qed simp
  with Cons show ?case by simp
qed

lemma conn_OnRead_frames:
  assumes "sb_wf (m_in_buf c)" and "list_all recv_ok rs"
    and "length (sb_contents (m_in_buf c)) + length (received rs) < 2999990000"
    and "split_frames (sb_contents (m_in_buf c) @ received rs) = (fs, r, e)"
  shows "\<exists>c'. conn_OnRead garb junk record_pdu rs c s = Some (c', s @ fs, e)
     \<and> sb_wf (m_in_buf c') \<and> sb_contents (m_in_buf c') = r"
proof -
  from on_read_fill_spec [OF assms(1-3), of garb] obtain c1 where
    c1: "on_read_fill garb rs c = Some c1" "sb_wf (m_in_buf c1)"
      "sb_contents (m_in_buf c1) = sb_contents (m_in_buf c) @ received rs" by auto
  from on_read_loop_frames [OF c1(2), of fs r e garb junk s] c1(3) assms(3,4)
  obtain b ex where "on_read_loop garb junk record_pdu (m_in_buf c1) s = Some (b, s @ fs, ex)"
    "sb_wf b" "sb_contents b = r" "(ex \<noteq> None) = e" by auto
  with c1(1) show ?thesis by (auto simp: conn_OnRead_def)
qed

lemma read_events_frames:
  assumes "sb_wf (m_in_buf c)" and "list_all (list_all recv_ok) rss"
    and "length (sb_contents (m_in_buf c)) + length (concat (map received rss)) < 2999990000"
    and "split_frames (sb_contents (m_in_buf c)) = ([], sb_contents (m_in_buf c), False)"
    and "split_frames (sb_contents (m_in_buf c) @ concat (map received rss)) = (fs, r, e)"
  shows "\<exists>c'. read_events garb junk rss c s = Some (c', s @ fs, e)
     \<and> sb_wf (m_in_buf c') \<and> (\<not> e \<longrightarrow> sb_contents (m_in_buf c') = r)"
  using assms
proof (induction rss arbitrary: c s fs)
  case Nil
  then show ?case by auto
next
  case (Cons rs rss)
  let ?cs = "sb_contents (m_in_buf c)" and ?rest = "concat (map received rss)"
  obtain fs1 r1 e1 where sp: "split_frames (?cs @ received rs) = (fs1, r1, e1)"
    by (metis prod_cases3)
  from conn_OnRead_frames [OF Cons.prems(1) _ _ sp, of garb junk s] Cons.prems(2,3)
  obtain c1 where c1: "conn_OnRead garb junk record_pdu rs c s = Some (c1, s @ fs1, e1)"
    "sb_wf (m_in_buf c1)" "sb_contents (m_in_buf c1) = r1" by auto
  note app = split_frames_append [OF sp, of ?rest]
  show ?case
  proof (cases e1)
    case True
    with c1 app Cons.prems(5) show ?thesis by auto
  next
    case False
    obtain fs2 r2 e2 where sp2: "split_frames (r1 @ ?rest) = (fs2, r2, e2)" by (metis prod_cases3)
    with app False Cons.prems(5) have eq: "fs = fs1 @ fs2" "r = r2" "e = e2" by auto
    have "length r1 \<le> length (?cs @ received rs)"
      using split_frames_length [OF sp] by simp
    with c1 False sp2 eq Cons.prems(2,3) split_frames_rest [of "?cs @ received rs" fs1 r1] sp
      Cons.IH [of c1 fs2 "s @ fs1"]
    show ?thesis by auto
  qed
qed

text \<open>
  C1. Reassembly does not depend on how the stream is cut: whatever chunks \<open>recv\<close> delivers and
  however they are spread over read events, \<open>OnRead\<close> hands \<open>HandlePdu\<close> exactly the frames of
  the stream, complete and in order, keeps an incomplete tail for the next event, does not
  close the connection, and never leaves its buffer.
\<close>

theorem on_read_reassembly:
  assumes "list_all (list_all recv_ok) rss" and "list_all frame_ok fs"
    and "concat (map received rss) = concat fs @ p"
    and "length p < 16 \<or> length p < unat (be32 (take 4 p))"
    and "length (concat fs @ p) < 2999990000"
  shows "\<exists>c'. read_events garb junk rss (CImConn t0) [] = Some (c', fs, False)
     \<and> sb_contents (m_in_buf c') = p"
proof -
  have c: "sb_contents (m_in_buf (CImConn t0)) = []" "sb_wf (m_in_buf (CImConn t0))"
    by (simp_all add: CImConn_def)
  from read_events_frames [OF c(2) assms(1), of fs p False garb junk "[]"]
    split_frames_concat [OF assms(2,4)] assms(3,5)
  show ?thesis by (auto simp: c split_frames_short)
qed

theorem on_read_reassembly_witness:
  "\<exists>c'. read_events (\<lambda>_. 3) 0
       [[(put_u32 17 @ replicate 12 0, 5)], [([9], 6), (put_u32 16 @ replicate 11 1, 7)], [([1, 0], 8)]]
       (CImConn 0) [] = Some (c', [put_u32 17 @ replicate 12 0 @ [9], put_u32 16 @ replicate 12 1], False)
     \<and> sb_contents (m_in_buf c') = [0]"
proof (rule on_read_reassembly)
  show "list_all (list_all recv_ok)
      [[(put_u32 17 @ replicate 12 0, 5)], [([9], 6), (put_u32 16 @ replicate 11 1, 7)], [([1, 0], 8)]]"
    by (simp add: recv_ok_def)
  show "list_all frame_ok [put_u32 17 @ replicate 12 0 @ [9], put_u32 16 @ replicate 12 1]"
    by (simp add: frame_ok_def be32_put)
  show "concat (map received
      [[(put_u32 17 @ replicate 12 0, 5)], [([9], 6), (put_u32 16 @ replicate 11 1, 7)], [([1, 0], 8)]])
    = concat [put_u32 17 @ replicate 12 0 @ [9], put_u32 16 @ replicate 12 1] @ [0]"
    by (simp add: numeral_eq_Suc)
qed simp_all

text \<open>
  A zero length prefix closes the connection after the complete frames before it were
  handled; nothing after it is parsed.
\<close>

lemma on_read_zero_length_closes:
  assumes "list_all (list_all recv_ok) rss" and "list_all frame_ok fs"
    and "concat (map received rss) = concat fs @ p"
    and "16 \<le> length p" and "be32 (take 4 p) = 0"
    and "length (concat fs @ p) < 2999990000"
  shows "\<exists>c'. read_events garb junk rss (CImConn t0) [] = Some (c', fs, True)"
proof -
  have c: "sb_contents (m_in_buf (CImConn t0)) = []" "sb_wf (m_in_buf (CImConn t0))"
    by (simp_all add: CImConn_def)
  have "split_frames (concat fs @ []) = (fs, [], False)"
    using assms(2) by (intro split_frames_concat) simp_all
  from split_frames_append [OF this, of p] split_frames_zero [OF assms(4,5)]
  have "split_frames (concat fs @ p) = (fs, p, True)" by simp
  with read_events_frames [OF c(2) assms(1), of fs p True garb junk "[]"] assms(3,6)
  show ?thesis by (auto simp: c split_frames_short)
qed

end
