(* ===== verification/Ptp_Helpers.thy ===== *)
theory Ptp_Helpers
  imports Ptp_Prelude
begin

text \<open>
  \<^verbatim>\<open>src/ptp_global/Helpers.cpp\<close>: hexadecimal and URL encodings, decimal conversion, and the
  placeholder substitution that prepares SQL text. Strings are their bytes; a C string is its
  bytes without the terminator. Time, sleep and file helpers are system calls and not modelled.
\<close>

section \<open>Hexadecimal\<close>

definition lut :: bytes where
  "lut = [48, 49, 50, 51, 52, 53, 54, 55, 56, 57, 97, 98, 99, 100, 101, 102]"

definition hex2 :: "byte \<Rightarrow> bytes" where
  "hex2 b = [lut ! (unat b div 16), lut ! (unat b mod 16)]"

definition bytes_to_hex_string :: "bytes \<Rightarrow> nat \<Rightarrow> bytes option" where
  "bytes_to_hex_string str s = do { d \<leftarrow> mem_read str 0 s; Some ([48, 120] @ concat (map hex2 d)) }"

datatype hex_error = Odd_length | Not_a_hex_digit

text \<open>\<open>lower_bound\<close> on the table compares signed characters; the entry after it is the terminator.\<close>

fun lower_bound_idx :: "bytes \<Rightarrow> byte \<Rightarrow> nat" where
  "lower_bound_idx [] a = 0"
| "lower_bound_idx (x # xs) a = (if sint x < sint a then Suc (lower_bound_idx xs a) else 0)"

definition hex_digit :: "byte \<Rightarrow> nat option" where
  "hex_digit a = (let p = lower_bound_idx lut a in if (lut @ [0]) ! p \<noteq> a then None else Some p)"

fun hex_loop :: "bytes \<Rightarrow> hex_error + bytes" where
  "hex_loop (a # b # rest) =
     (case hex_digit a of
        None \<Rightarrow> Inl Not_a_hex_digit
      | Some p \<Rightarrow>
          (case hex_digit b of
             None \<Rightarrow> Inl Not_a_hex_digit
           | Some q \<Rightarrow>
               (case hex_loop rest of
                  Inl e \<Rightarrow> Inl e
                | Inr out \<Rightarrow> Inr ((push_bit 4 (of_nat p) OR of_nat q) # out))))"
| "hex_loop _ = Inr []"

definition hex_to_string :: "bytes \<Rightarrow> hex_error + bytes" where
  "hex_to_string input = (if odd (length input) then Inl Odd_length else hex_loop input)"

section \<open>Characters in place and decimal numbers\<close>

definition replaceStr :: "bytes option \<Rightarrow> byte \<Rightarrow> byte \<Rightarrow> bytes option" where
  "replaceStr pSrc oldChar newChar = map_option (map (\<lambda>c. if c = oldChar then newChar else c)) pSrc"

fun decimal :: "nat \<Rightarrow> bytes" where
  "decimal n = (if n < 10 then [of_nat (48 + n)] else decimal (n div 10) @ [of_nat (48 + n mod 10)])"

declare decimal.simps [simp del]

definition int2string :: "u32 \<Rightarrow> bytes" where
  "int2string user_id = decimal (unat user_id)"

definition int64ToString :: "u64 \<Rightarrow> bytes" where
  "int64ToString user_id = decimal (unat user_id)"

text \<open>\<open>atoi\<close>: white space, a sign, digits up to the first other character; overflow is undefined.\<close>

definition is_space :: "byte \<Rightarrow> bool" where
  "is_space c \<longleftrightarrow> c = 32 \<or> 9 \<le> c \<and> c \<le> 13"

definition is_digit :: "byte \<Rightarrow> bool" where
  "is_digit c \<longleftrightarrow> 48 \<le> c \<and> c \<le> 57"

definition digits_value :: "bytes \<Rightarrow> int" where
  "digits_value ds = foldl (\<lambda>n c. n * 10 + (int (unat c) - 48)) 0 ds"

definition atoi :: "bytes \<Rightarrow> int option" where
  "atoi s =
     (let t = dropWhile is_space s;
          neg = (t \<noteq> [] \<and> hd t = 45);
          u = (if t \<noteq> [] \<and> (hd t = 45 \<or> hd t = 43) then tl t else t);
          v = digits_value (takeWhile is_digit u);
          r = (if neg then - v else v)
      in if - 2147483648 \<le> r \<and> r < 2147483648 then Some r else None)"

definition string2int :: "bytes \<Rightarrow> u32 option" where
  "string2int s = map_option of_int (atoi s)"

section \<open>Placeholders\<close>

fun str_find :: "byte \<Rightarrow> bytes \<Rightarrow> nat \<Rightarrow> nat option" where
  "str_find c [] i = None"
| "str_find c (x # xs) i = (if i = 0 then (if x = c then Some 0 else map_option Suc (str_find c xs 0))
     else map_option Suc (str_find c xs (i - 1)))"

definition replace_at :: "bytes \<Rightarrow> bytes \<Rightarrow> u32 \<Rightarrow> bytes \<times> u32" where
  "replace_at str v begin_pos =
     (case str_find 63 str (unat begin_pos) of
        None \<Rightarrow> (str, begin_pos)
      | Some pos \<Rightarrow> (take pos str @ v @ drop (pos + 1) str, of_nat (pos + length v)))"

definition replace_mark :: "bytes \<Rightarrow> bytes \<Rightarrow> u32 \<Rightarrow> bytes \<times> u32" where
  "replace_mark str new_value begin_pos = replace_at str ([39] @ new_value @ [39]) begin_pos"

definition replace_mark_int :: "bytes \<Rightarrow> u32 \<Rightarrow> u32 \<Rightarrow> bytes \<times> u32" where
  "replace_mark_int str new_value begin_pos = replace_at str (decimal (unat new_value)) begin_pos"

text \<open>A statement filled with a sequence of values, as its callers do it.\<close>

datatype sql_value = SqlStr bytes | SqlInt u32

fun sql_text :: "sql_value \<Rightarrow> bytes" where
  "sql_text (SqlStr v) = [39] @ v @ [39]"
| "sql_text (SqlInt n) = decimal (unat n)"

fun sql_fill :: "sql_value list \<Rightarrow> bytes \<times> u32 \<Rightarrow> bytes \<times> u32" where
  "sql_fill [] st = st"
| "sql_fill (SqlStr v # vs) st = sql_fill vs (replace_mark (fst st) v (snd st))"
| "sql_fill (SqlInt n # vs) st = sql_fill vs (replace_mark_int (fst st) n (snd st))"

text \<open>The reference: one pass over the template.\<close>

fun sql_subst :: "bytes \<Rightarrow> sql_value list \<Rightarrow> bytes" where
  "sql_subst t [] = t"
| "sql_subst [] (v # vs) = []"
| "sql_subst (c # t) (v # vs) = (if c = 63 then sql_text v @ sql_subst t vs else c # sql_subst t (v # vs))"

section \<open>URL encoding\<close>

definition is_alnum :: "byte \<Rightarrow> bool" where
  "is_alnum c \<longleftrightarrow> 48 \<le> c \<and> c \<le> 57 \<or> 65 \<le> c \<and> c \<le> 90 \<or> 97 \<le> c \<and> c \<le> 122"

definition toHex :: "byte \<Rightarrow> byte" where
  "toHex x = (if x > 9 then x - 10 + 65 else x + 48)"

definition fromHex :: "byte \<Rightarrow> byte" where
  "fromHex x = (if is_digit x then x - 48 else x - 65 + 10)"

definition url_escape :: "byte \<Rightarrow> bytes" where
  "url_escape c = (if is_alnum c then [c] else [37, toHex (drop_bit 4 c), toHex (c mod 16)])"

definition URLEncode :: "bytes \<Rightarrow> bytes" where
  "URLEncode sIn = concat (map url_escape sIn)"

text \<open>
  \<open>sIn[i]\<close> is the terminator for \<open>i = size()\<close> and undefined beyond: a percent sign as the last
  character reads past it.
\<close>

fun URLDecode :: "bytes \<Rightarrow> bytes option" where
  "URLDecode [] = Some []"
| "URLDecode (c # cs) =
     (if c = 37 then
        (case cs of
           [] \<Rightarrow> None
         | [a] \<Rightarrow> Some [push_bit 4 (fromHex a) OR fromHex 0]
         | a # b # rest \<Rightarrow> map_option (\<lambda>out. (push_bit 4 (fromHex a) OR fromHex b) # out) (URLDecode rest))
      else map_option (\<lambda>out. (if c = 43 then 32 else c) # out) (URLDecode cs))"

section \<open>Hexadecimal digits\<close>

lemma nibble_cases:
  assumes "n < (16 :: nat)"
  shows "n \<in> {0, 1, 2, 3, 4, 5, 6, 7, 8, 9, 10, 11, 12, 13, 14, 15}"
  using assms by simp arith

lemma hex_digit_lut:
  assumes "n < 16"
  shows "hex_digit (lut ! n) = Some n"
  using nibble_cases [OF assms] by (elim insertE) (simp_all add: hex_digit_def lut_def Let_def)

lemma lower_bound_len: "lower_bound_idx xs a \<le> length xs"
  by (induction xs) simp_all

lemma lower_bound_end: "lower_bound_idx xs a = length xs \<Longrightarrow> x \<in> set xs \<Longrightarrow> sint x < sint a"
  by (induction xs) (auto split: if_splits)

lemma hex_digit_Some:
  assumes "hex_digit a = Some n"
  shows "n < 16" and "a = lut ! n"
proof -
  have n: "n = lower_bound_idx lut a" "(lut @ [0]) ! n = a"
    using assms by (auto simp: hex_digit_def Let_def split: if_splits)
  have len: "length lut = 16" by (simp add: lut_def)
  have "n \<noteq> 16"
  proof
    assume "n = 16"
    then have "sint (48 :: byte) < sint a" "a = 0"
      using n lower_bound_end [of lut a 48] len by (auto simp: lut_def nth_append)
    then show False by simp
  qed
  with n(1) len lower_bound_len [of lut a] show "n < 16" by simp
  with n(2) len show "a = lut ! n" by (simp add: nth_append)
qed

lemma byte_split: "push_bit 4 (drop_bit 4 b) OR take_bit 4 b = (b :: byte)"
  by (rule bit_word_eqI) (auto simp: bit_simps)

lemma unat_byte: "unat (b :: byte) < 256"
  using unsigned_less [of b] by simp

lemma unat_byte_div [simp]: "unat (b :: byte) div 16 < 16"
  using unat_byte [of b] by linarith

lemma byte_nibbles:
  fixes b :: byte
  shows "push_bit 4 (of_nat (unat b div 16)) OR of_nat (unat b mod 16) = b"
proof -
  have "unat b div 16 < 256" using unat_byte [of b] by linarith
  then have "unat (of_nat (unat b div 16) :: byte) = unat b div 16" by (intro unat_of_nat_lt) simp
  then have 1: "(of_nat (unat b div 16) :: byte) = drop_bit 4 b"
    by (simp add: drop_bit_eq_div word_unat_eq_iff unat_div)
  have "unat (of_nat (unat b mod 16) :: byte) = unat b mod 16" by (intro unat_of_nat_lt) simp
  then have 2: "(of_nat (unat b mod 16) :: byte) = take_bit 4 b"
    by (simp add: take_bit_eq_mod word_unat_eq_iff unat_mod)
  show ?thesis unfolding 1 2 by (rule byte_split)
qed

lemma nibbles_byte:
  assumes "p < 16" and "q < 16"
  shows "unat (push_bit 4 (of_nat p) OR of_nat q :: byte) = 16 * p + q"
proof -
  define b where "b = (of_nat (16 * p + q) :: byte)"
  have u: "unat b = 16 * p + q" unfolding b_def using assms by (intro unat_of_nat_lt) simp
  have "b = push_bit 4 (of_nat p) OR of_nat q" using byte_nibbles [of b] assms by (simp add: u)
  with u show ?thesis by simp
qed

lemma hex_loop_iff: "even (length s) \<Longrightarrow> hex_loop s = Inr out \<longleftrightarrow> s = concat (map hex2 out)"
proof (induction s arbitrary: out rule: hex_loop.induct)
  case (1 a b rest)
  show ?case
  proof
    assume "hex_loop (a # b # rest) = Inr out"
    then obtain p q out' where d: "hex_digit a = Some p" "hex_digit b = Some q" "hex_loop rest = Inr out'"
        "out = (push_bit 4 (of_nat p) OR of_nat q) # out'"
      by (auto split: option.splits sum.splits)
    with "1.IH" [OF d(1,2), of out'] "1.prems" have "rest = concat (map hex2 out')" by simp
    moreover have "hex2 (push_bit 4 (of_nat p) OR of_nat q) = [a, b]"
      using hex_digit_Some [OF d(1)] hex_digit_Some [OF d(2)] by (simp add: hex2_def nibbles_byte)
    ultimately show "a # b # rest = concat (map hex2 out)" using d(4) by simp
  next
    assume s: "a # b # rest = concat (map hex2 out)"
    then obtain x out' where out: "out = x # out'" by (cases out) simp_all
    with s have ab: "a = lut ! (unat x div 16)" "b = lut ! (unat x mod 16)" "rest = concat (map hex2 out')"
      by (simp_all add: hex2_def)
    from ab(1,2) have "hex_digit a = Some (unat x div 16)" "hex_digit b = Some (unat x mod 16)"
      by (simp_all add: hex_digit_lut)
    with "1.IH" [OF this, of out'] "1.prems" ab(3) out show "hex_loop (a # b # rest) = Inr out"
      by (simp add: byte_nibbles)
  qed
next
  case "2_1"
  then show ?case by (cases out) (auto simp: hex2_def)
qed simp

text \<open>
  \<open>hex_to_string\<close> is the exact inverse of the digits \<open>bytes_to_hex_string\<close> prints. It succeeds
  with \<open>out\<close> if and only if the input is the lower-case hexadecimal text of \<open>out\<close>; so a string
  of odd length, a prefix such as \<open>0x\<close> or an upper-case digit is an error and never yields
  wrong bytes, and what \<open>bytes_to_hex_string\<close> prints, without its \<open>0x\<close>, is read back.
\<close>

lemma hex_to_string_inverse:
  "(hex_to_string s = Inr out \<longleftrightarrow> s = concat (map hex2 out))
   \<and> bytes_to_hex_string out (length out) = Some ([48, 120] @ concat (map hex2 out))"
proof -
  have "length (concat (map hex2 out)) = 2 * length out"
    by (induction out) (simp_all add: hex2_def)
  then have e: "s = concat (map hex2 out) \<Longrightarrow> even (length s)" by simp
  have "hex_to_string s = Inr out \<longleftrightarrow> s = concat (map hex2 out)"
  proof (cases "even (length s)")
    case True
    then show ?thesis by (simp add: hex_to_string_def hex_loop_iff)
  next
    case False
    with e show ?thesis by (auto simp: hex_to_string_def)
  qed
  then show ?thesis by (simp add: bytes_to_hex_string_def mem_simps)
qed

section \<open>URL encoding\<close>

lemma fromHex_toHex:
  assumes "unat x < 16"
  shows "fromHex (toHex x) = x" and "toHex x \<noteq> 37" and "toHex x \<noteq> 43"
proof -
  have "x = of_nat (unat x)" by simp
  with nibble_cases [OF assms]
  have "x \<in> {0, 1, 2, 3, 4, 5, 6, 7, 8, 9, 10, 11, 12, 13, 14, 15}" by (elim insertE) simp_all
  then show "fromHex (toHex x) = x" and "toHex x \<noteq> 37" and "toHex x \<noteq> 43"
    by (elim insertE; simp add: toHex_def fromHex_def is_digit_def)+
qed

lemma url_escape_decode: "URLDecode (url_escape c @ t) = map_option ((#) c) (URLDecode t)"
proof (cases "is_alnum c")
  case True
  then have "c \<noteq> 37" "c \<noteq> 43" by (auto simp: is_alnum_def)
  with True show ?thesis by (simp add: url_escape_def)
next
  case False
  have "unat (drop_bit 4 c) < 16" "unat (c mod 16) < 16"
    by (simp_all add: drop_bit_eq_div unat_div unat_mod)
  then have f: "fromHex (toHex (drop_bit 4 c)) = drop_bit 4 c" "fromHex (toHex (c mod 16)) = c mod 16"
    by (simp_all add: fromHex_toHex)
  have "push_bit 4 (drop_bit 4 c) OR c mod 16 = c"
    using byte_split [of c] by (simp add: take_bit_eq_mod)
  with f False show ?thesis by (simp add: url_escape_def)
qed

text \<open>
  URL encoding is reversible: decoding what \<open>URLEncode\<close> produces gives back every byte
  string, and the encoded text contains only letters, digits and percent signs.
\<close>

lemma url_roundtrip:
  "URLDecode (URLEncode s) = Some s \<and> list_all (\<lambda>c. is_alnum c \<or> c = 37) (URLEncode s)"
proof
  show "URLDecode (URLEncode s) = Some s"
    by (induction s) (simp_all add: URLEncode_def url_escape_decode)
  have alnum: "is_alnum (toHex x)" if x: "unat x < 16" for x :: byte
  proof -
    have "x = of_nat (unat x)" by simp
    with nibble_cases [OF x]
    have "x \<in> {0, 1, 2, 3, 4, 5, 6, 7, 8, 9, 10, 11, 12, 13, 14, 15}" by (elim insertE) simp_all
    then show ?thesis by (elim insertE) (simp_all add: toHex_def is_alnum_def)
  qed
  have "is_alnum (toHex (drop_bit 4 c))" "is_alnum (toHex (c mod 16))" for c
    by (auto intro!: alnum simp: drop_bit_eq_div unat_div unat_mod)
  then show "list_all (\<lambda>c. is_alnum c \<or> c = 37) (URLEncode s)"
    by (induction s) (auto simp: URLEncode_def url_escape_def)
qed

text \<open>
  \<open>URLDecode\<close> misreads lower-case hexadecimal digits. For an escape with an upper-case high
  digit and the low digit \<open>a\<close> to \<open>f\<close> in lower case, the decoded byte has bit 5 set in addition to the
  right bits, so \<open>%4f\<close> decodes to \<open>o\<close> and not to \<open>O\<close>.
\<close>

lemma url_decode_lowercase:
  assumes "hi < 16" and "10 \<le> lo" and "lo < 16"
  shows "URLDecode [37, toHex (of_nat hi), of_nat (lo + 87)] = Some [of_nat (16 * hi + lo) OR 32]"
  using nibble_cases [OF assms(1)] nibble_cases [OF assms(3)] assms(2)
  by (elim insertE) (simp_all add: toHex_def fromHex_def is_digit_def)

section \<open>Placeholders and decimal numbers\<close>

lemma str_find_append:
  assumes "63 \<notin> set pre"
  shows "str_find 63 (d @ pre @ t) (length d) = map_option (\<lambda>k. length d + length pre + k) (str_find 63 t 0)"
proof -
  have "str_find 63 (pre @ t) 0 = map_option (\<lambda>k. length pre + k) (str_find 63 t 0)"
    using assms by (induction pre; cases "str_find 63 t 0") auto
  then show ?thesis by (induction d; cases "str_find 63 t 0") auto
qed

lemma sql_subst_skip: "63 \<notin> set pre \<Longrightarrow> sql_subst (pre @ t) (v # vs) = pre @ sql_subst t (v # vs)"
  by (induction pre) auto

lemma take_drop_parts:
  "take (length d + length p) (d @ p @ r) = d @ p \<and> drop (length d + length p + 1) (d @ p @ r) = tl r"
  by (simp add: drop_Suc)

lemma replace_at_step:
  assumes "length d + length t < 4294967296"
  shows "replace_at (d @ t) v (of_nat (length d)) =
    (if 63 \<in> set t
     then (d @ takeWhile (\<lambda>c. c \<noteq> 63) t @ v @ tl (dropWhile (\<lambda>c. c \<noteq> 63) t),
           of_nat (length d + length (takeWhile (\<lambda>c. c \<noteq> 63) t) + length v))
     else (d @ t, of_nat (length d)))"
proof -
  let ?p = "takeWhile (\<lambda>c. c \<noteq> 63) t" and ?r = "dropWhile (\<lambda>c. c \<noteq> 63) t"
  have u: "unat (of_nat (length d) :: u32) = length d" using assms by (intro unat_of_nat_lt) simp
  have p: "63 \<notin> set ?p" by (auto dest: set_takeWhileD)
  have t: "t = ?p @ ?r" by simp
  have "str_find 63 (d @ t) (length d) = map_option (\<lambda>k. length d + length ?p + k) (str_find 63 ?r 0)"
    using str_find_append [OF p, of d ?r] by simp
  moreover have "str_find 63 ?r 0 = (if 63 \<in> set t then Some 0 else None)"
  proof (cases "63 \<in> set t")
    case True
    then have "?r \<noteq> []" "hd ?r = 63" by (auto simp: dropWhile_eq_Nil_conv intro: hd_dropWhile [of "\<lambda>c. c \<noteq> 63", simplified])
    then show ?thesis using True by (cases ?r) simp_all
  next
    case False
    then have r: "?r = []" by (auto simp: dropWhile_eq_Nil_conv)
    show ?thesis unfolding r using False by simp
  qed
  ultimately have f: "str_find 63 (d @ t) (length d) = (if 63 \<in> set t then Some (length d + length ?p) else None)" by simp
  have k: "take (length d + length ?p) (d @ t) = d @ ?p \<and> drop (length d + length ?p + 1) (d @ t) = tl ?r"
    if "t = ?p @ ?r" using take_drop_parts [of d ?p ?r] that by metis
  show ?thesis unfolding replace_at_def u f using k [OF t] by (cases "63 \<in> set t") simp_all
qed

lemma sql_fill_subst:
  assumes "length d + length (sql_subst t vs) + length t + sum_list (map (length \<circ> sql_text) vs) < 4294967296"
  shows "fst (sql_fill vs (d @ t, of_nat (length d))) = d @ sql_subst t vs"
  using assms
proof (induction vs arbitrary: d t)
  case (Cons v vs)
  let ?p = "takeWhile (\<lambda>c. c \<noteq> 63) t" and ?r = "dropWhile (\<lambda>c. c \<noteq> 63) t"
  have step: "sql_fill (v # vs) st = sql_fill vs (replace_at (fst st) (sql_text v) (snd st))" for st
    by (cases v) (simp_all add: replace_mark_def replace_mark_int_def)
  have "length d + length t < 4294967296" using Cons.prems by simp
  note r = replace_at_step [OF this, of "sql_text v"]
  have p: "63 \<notin> set ?p" by (auto dest: set_takeWhileD)
  have t: "t = ?p @ ?r" by simp
  show ?case
  proof (cases "63 \<in> set t")
    case True
    then have "?r \<noteq> []" "hd ?r = 63"
      by (auto simp: dropWhile_eq_Nil_conv intro: hd_dropWhile [of "\<lambda>c. c \<noteq> 63", simplified])
    then have r': "?r = 63 # tl ?r" by (cases ?r) simp_all
    have s: "sql_subst t (v # vs) = ?p @ sql_text v @ sql_subst (tl ?r) vs"
      using sql_subst_skip [OF p, of ?r v vs] r' by (metis append_eq_conv_conj sql_subst.simps(3) t)
    have len: "length t = length ?p + 1 + length (tl ?r)" by (subst t, subst r') simp
    have "fst (sql_fill vs ((d @ ?p @ sql_text v) @ tl ?r, of_nat (length (d @ ?p @ sql_text v))))
        = (d @ ?p @ sql_text v) @ sql_subst (tl ?r) vs"
      by (rule Cons.IH) (use Cons.prems in \<open>simp add: s len\<close>)
    then show ?thesis unfolding step s using r True by (simp add: add.assoc)
  next
    case False
    have s: "sql_subst t ws = t" for ws
      using False by (induction t ws rule: sql_subst.induct) auto
    have "fst (sql_fill vs (d @ t, of_nat (length d))) = d @ sql_subst t vs"
      by (rule Cons.IH) (use Cons.prems in \<open>simp add: s\<close>)
    then show ?thesis unfolding step using r False s by simp
  qed
qed simp

text \<open>
  Filling a statement value by value is one substitution pass. Applying \<open>replace_mark\<close> for
  each value in turn, with the begin position each call leaves behind, replaces the first
  question marks of the template by the values in order, quoted strings or decimal numbers;
  question marks inside inserted values are never replaced. (The values are inserted as they
  are: a quote inside a string value ends the quoted text.) The lengths stay below \<open>2 ^ 32\<close>,
  where the begin position would wrap.
\<close>

lemma replace_mark_sequence:
  assumes "length (sql_subst t vs) + length t + sum_list (map (length \<circ> sql_text) vs) < 4294967296"
  shows "fst (sql_fill vs (t, 0)) = sql_subst t vs"
  using sql_fill_subst [of "[]" t vs] assms by simp

lemma decimal_digits: "list_all is_digit (decimal n) \<and> decimal n \<noteq> [] \<and> digits_value (decimal n) = int n"
proof (induction n rule: decimal.induct)
  case (1 n)
  have d: "is_digit (of_nat (48 + k)) \<and> uint (of_nat (48 + k) :: byte) = 48 + int k" if "k < 10" for k :: nat
  proof -
    have u: "unat (of_nat (48 + k) :: byte) = 48 + k" using that by (intro unat_of_nat_lt) simp
    then have "uint (of_nat (48 + k) :: byte) = int (48 + k)" by (metis uint_nat)
    with u that show ?thesis by (simp add: is_digit_def word_le_nat_alt)
  qed
  show ?case
  proof (cases "n < 10")
    case True
    then show ?thesis using d [OF True] by (subst (1 2 3) decimal.simps) (simp add: digits_value_def)
  next
    case False
    have m: "n mod 10 < 10" "int (n div 10) * 10 + int (n mod 10) = int n"
      by (simp, metis div_mult_mod_eq of_nat_add of_nat_mult of_nat_numeral)
    have "digits_value (decimal (n div 10) @ [of_nat (48 + n mod 10)]) = int n"
      using 1 False d [OF m(1)] m(2) by (simp only: digits_value_def foldl_append) simp
    then show ?thesis using 1 False d [OF m(1)] by (subst (1 2 3) decimal.simps) simp
  qed
qed

text \<open>
  Decimal numbers are read back: \<open>string2int\<close> applied to the text \<open>int2string\<close> prints returns
  the number, for numbers below \<open>2 ^ 31\<close>; from there on \<open>atoi\<close> overflows its \<open>int\<close>, which is
  undefined.
\<close>

lemma decimal_roundtrip:
  "string2int (int2string n) = (if unat n < 2147483648 then Some n else None)"
proof -
  let ?s = "decimal (unat n)"
  obtain c cs where s: "?s = c # cs" using decimal_digits [of "unat n"] by (cases ?s) auto
  have all: "list_all is_digit ?s" and v: "digits_value ?s = int (unat n)" using decimal_digits by blast+
  have "is_digit c" using all s by simp
  then have c: "\<not> is_space c" "c \<noteq> 45" "c \<noteq> 43"
    by (auto simp: is_digit_def is_space_def word_le_nat_alt)
  have "takeWhile is_digit ?s = ?s" using all by (simp add: list_all_iff)
  moreover have "- 2147483648 \<le> int (unat n)" by linarith
  ultimately have "atoi ?s = (if int (unat n) < 2147483648 then Some (int (unat n)) else None)"
    using c v by (simp add: atoi_def s Let_def)
  moreover have "int (unat n) < 2147483648 \<longleftrightarrow> unat n < 2147483648" by linarith
  ultimately show ?thesis by (simp add: string2int_def int2string_def)
qed

end
