(* ===== verification/Serv_Info.thy ===== *)
theory Serv_Info
  imports Ptp_Helpers Config_File_Reader
begin

text \<open>
  \<^verbatim>\<open>src/ptp_global/ServInfo.h\<close>, \<^verbatim>\<open>src/ptp_global/ServInfo.cpp\<close> and
  \<^verbatim>\<open>src/ptp_server/BusinessClientConn.cpp\<close>: the list of business servers a message server connects to,
  the reconnection after a failure and the choice of a connection for a request.

  Connections are objects in a heap with their reference count; a null pointer is \<open>None\<close>. The
  results of \<open>netlib_connect\<close> are an argument, \<open>netlib_close\<close> and \<open>SendPdu\<close> are recorded, and
  \<open>bz_rand\<close> is what \<open>rand()\<close> will return. The result \<open>None\<close> of an operation is an access through a
  dangling pointer or outside the list, or a loop over \<open>rand()\<close> that has not ended.
\<close>

section \<open>The configured servers\<close>

abbreviation MAX_RECONNECT_CNT :: u32 where "MAX_RECONNECT_CNT \<equiv> 64"
abbreviation MIN_RECONNECT_CNT :: u32 where "MIN_RECONNECT_CNT \<equiv> 4"

record serv_info =
  si_server_ip :: bytes
  si_server_port :: u16
  si_idle_cnt :: u32
  si_reconnect_cnt :: u32
  si_serv_conn :: "nat option"

text \<open>A key is printed into 64 bytes.\<close>

definition server_key :: "bytes \<Rightarrow> nat \<Rightarrow> bytes option" where
  "server_key fmt n = (let k = fmt @ decimal n in if length k < 64 then Some k else None)"

fun count_servers :: "nat \<Rightarrow> config_reader \<Rightarrow> bytes \<Rightarrow> bytes \<Rightarrow> nat \<Rightarrow> nat option" where
  "count_servers 0 cfg ip_format port_format server_count = None"
| "count_servers (Suc fuel) cfg ip_format port_format server_count = do {
     ip_key \<leftarrow> server_key ip_format (server_count + 1);
     port_key \<leftarrow> server_key port_format (server_count + 1);
     if GetConfigName ip_key cfg = None \<or> GetConfigName port_key cfg = None then Some server_count
     else count_servers fuel cfg ip_format port_format (server_count + 1) }"

text \<open>The other members of a new element are not initialised; \<open>junk\<close> holds them.\<close>

definition server_entry :: "serv_info \<Rightarrow> config_reader \<Rightarrow> bytes \<Rightarrow> bytes \<Rightarrow> nat \<Rightarrow> serv_info option" where
  "server_entry junk cfg ip_format port_format i = do {
     ip_key \<leftarrow> server_key ip_format (i + 1);
     port_key \<leftarrow> server_key port_format (i + 1);
     ip \<leftarrow> GetConfigName ip_key cfg;
     port \<leftarrow> GetConfigName port_key cfg;
     p \<leftarrow> atoi port;
     Some (junk\<lparr>si_server_ip := ip, si_server_port := of_int p\<rparr>) }"

definition read_server_config ::
  "serv_info \<Rightarrow> config_reader \<Rightarrow> bytes \<Rightarrow> bytes \<Rightarrow> serv_info list option" where
  "read_server_config junk cfg ip_format port_format = do {
     server_count \<leftarrow> count_servers (Suc (length (m_config_map cfg))) cfg ip_format port_format 0;
     if server_count = 0 then Some []
     else those (map (server_entry junk cfg ip_format port_format) [0..<server_count]) }"

section \<open>Connections to the business servers\<close>

record biz_conn =
  bc_handle :: int
  bc_refs :: nat
  bc_open :: bool
  bc_serv_idx :: u32
  bc_last_send_tick :: u64
  bc_last_recv_tick :: u64

text \<open>\<open>g_db_server_count\<close> is the length of the list.\<close>

record biz =
  bz_list :: "serv_info list"
  bz_login_count :: nat
  bz_conns :: "nat \<Rightarrow> biz_conn option"
  bz_fresh :: nat
  bz_map :: "(int \<times> nat) list"
  bz_rand :: "nat list"
  bz_async :: bool
  bz_sent :: "(nat \<times> bytes) list"
  bz_closed :: "int list"

text \<open>\<open>new CBusinessClientConn()\<close>: \<open>m_serv_idx\<close> is not initialised.\<close>

definition CBusinessClientConn :: "u64 \<Rightarrow> u32 \<Rightarrow> biz \<Rightarrow> nat \<times> biz" where
  "CBusinessClientConn tick junk z =
     (bz_fresh z,
      z\<lparr>bz_fresh := bz_fresh z + 1,
        bz_conns := (bz_conns z)(bz_fresh z \<mapsto>
          \<lparr>bc_handle = -1, bc_refs = 1, bc_open = False, bc_serv_idx = junk,
           bc_last_send_tick = tick, bc_last_recv_tick = tick\<rparr>)\<rparr>)"

definition biz_insert :: "int \<Rightarrow> nat \<Rightarrow> (int \<times> nat) list \<Rightarrow> (int \<times> nat) list" where
  "biz_insert h p m = (if map_of m h = None then m @ [(h, p)] else m)"

definition biz_Connect :: "int \<Rightarrow> u32 \<Rightarrow> nat \<Rightarrow> biz \<Rightarrow> biz option" where
  "biz_Connect handle serv_idx p z = do {
     c \<leftarrow> bz_conns z p;
     Some (z\<lparr>bz_conns := (bz_conns z)(p \<mapsto> c\<lparr>bc_serv_idx := serv_idx, bc_handle := handle\<rparr>),
             bz_map := (if handle \<noteq> -1 then biz_insert handle p (bz_map z) else bz_map z)\<rparr>) }"

text \<open>The part the two loops share: a new connection for server \<open>i\<close>.\<close>

definition serv_connect :: "int \<Rightarrow> u64 \<Rightarrow> nat \<Rightarrow> biz \<Rightarrow> (nat \<times> biz) option" where
  "serv_connect handle tick i z =
     (let (p, z1) = CBusinessClientConn tick 0 z
      in do { z2 \<leftarrow> biz_Connect handle (of_nat i) p z1; Some (p, z2) })"

fun serv_init :: "(nat \<Rightarrow> int) \<Rightarrow> u64 \<Rightarrow> nat list \<Rightarrow> biz \<Rightarrow> biz option" where
  "serv_init hs tick [] z = Some z"
| "serv_init hs tick (i # is) z = do {
     (p, z1) \<leftarrow> serv_connect (hs i) tick i z;
     serv_init hs tick is
       (z1\<lparr>bz_list := (bz_list z1)[i := (bz_list z1 ! i)\<lparr>si_serv_conn := Some p, si_idle_cnt := 0,
                                        si_reconnect_cnt := MIN_RECONNECT_CNT div 2\<rparr>]\<rparr>) }"

definition check_reconnect :: "int \<Rightarrow> u64 \<Rightarrow> nat \<Rightarrow> biz \<Rightarrow> biz option" where
  "check_reconnect handle tick i z =
     (let s = bz_list z ! i
      in if si_serv_conn s \<noteq> None then Some z
         else
           (let s1 = s\<lparr>si_idle_cnt := si_idle_cnt s + 1\<rparr>
            in if si_idle_cnt s1 \<ge> si_reconnect_cnt s1 then do {
                 (p, z1) \<leftarrow> serv_connect handle tick i z;
                 Some (z1\<lparr>bz_list := (bz_list z1)[i := s1\<lparr>si_serv_conn := Some p\<rparr>]\<rparr>) }
               else Some (z\<lparr>bz_list := (bz_list z)[i := s1]\<rparr>)))"

fun serv_check_reconnect :: "(nat \<Rightarrow> int) \<Rightarrow> u64 \<Rightarrow> nat list \<Rightarrow> biz \<Rightarrow> biz option" where
  "serv_check_reconnect hs tick [] z = Some z"
| "serv_check_reconnect hs tick (i # is) z = do {
     z1 \<leftarrow> check_reconnect (hs i) tick i z;
     serv_check_reconnect hs tick is z1 }"

definition reset_info :: "serv_info \<Rightarrow> serv_info" where
  "reset_info s =
     (let r = si_reconnect_cnt s * 2
      in s\<lparr>si_serv_conn := None, si_idle_cnt := 0,
           si_reconnect_cnt := (if r > MAX_RECONNECT_CNT then MIN_RECONNECT_CNT else r)\<rparr>)"

definition serv_reset :: "u32 \<Rightarrow> biz \<Rightarrow> biz" where
  "serv_reset serv_idx z =
     (if unat serv_idx \<ge> length (bz_list z) then z
      else z\<lparr>bz_list := (bz_list z)[unat serv_idx := reset_info (bz_list z ! unat serv_idx)]\<rparr>)"

section \<open>The connection's events\<close>

definition biz_ReleaseRef :: "nat \<Rightarrow> biz \<Rightarrow> biz option" where
  "biz_ReleaseRef p z = do {
     c \<leftarrow> bz_conns z p;
     Some (z\<lparr>bz_conns := (bz_conns z)(p := if bc_refs c - 1 = 0 then None else Some (c\<lparr>bc_refs := bc_refs c - 1\<rparr>))\<rparr>) }"

definition biz_Close :: "nat \<Rightarrow> biz \<Rightarrow> biz option" where
  "biz_Close p z = do {
     c \<leftarrow> bz_conns z p;
     let z1 = serv_reset (bc_serv_idx c) z;
     let z2 = (if bc_handle c \<noteq> -1
               then z1\<lparr>bz_closed := bz_closed z1 @ [bc_handle c],
                       bz_map := filter (\<lambda>(h, q). h \<noteq> bc_handle c) (bz_map z1)\<rparr>
               else z1);
     biz_ReleaseRef p z2 }"

definition biz_OnConfirm :: "nat \<Rightarrow> biz \<Rightarrow> biz option" where
  "biz_OnConfirm p z = do {
     c \<leftarrow> bz_conns z p;
     let i = unat (bc_serv_idx c);
     if i \<ge> length (bz_list z) then None
     else Some (z\<lparr>bz_conns := (bz_conns z)(p \<mapsto> c\<lparr>bc_open := True\<rparr>),
                  bz_list := (bz_list z)[i := (bz_list z ! i)\<lparr>si_reconnect_cnt := MIN_RECONNECT_CNT div 2\<rparr>]\<rparr>) }"

definition biz_OnClose :: "nat \<Rightarrow> biz \<Rightarrow> biz option" where
  "biz_OnClose p z = biz_Close p z"

abbreviation SERVER_HEARTBEAT_INTERVAL :: u64 where "SERVER_HEARTBEAT_INTERVAL \<equiv> 5000"
abbreviation SERVER_TIMEOUT :: u64 where "SERVER_TIMEOUT \<equiv> 30000"

text \<open>\<open>heartbeat\<close>: the bytes of the heartbeat PDU; \<open>now\<close>: the tick count \<open>Send\<close> reads.\<close>

definition biz_Send :: "u64 \<Rightarrow> bytes \<Rightarrow> nat \<Rightarrow> biz \<Rightarrow> biz option" where
  "biz_Send now d p z = do {
     c \<leftarrow> bz_conns z p;
     Some (z\<lparr>bz_conns := (bz_conns z)(p \<mapsto> c\<lparr>bc_last_send_tick := now\<rparr>), bz_sent := bz_sent z @ [(p, d)]\<rparr>) }"

definition biz_OnTimer :: "bytes \<Rightarrow> u64 \<Rightarrow> u64 \<Rightarrow> nat \<Rightarrow> biz \<Rightarrow> biz option" where
  "biz_OnTimer heartbeat now curr_tick p z = do {
     c \<leftarrow> bz_conns z p;
     z1 \<leftarrow> (if curr_tick > bc_last_send_tick c + SERVER_HEARTBEAT_INTERVAL then biz_Send now heartbeat p z else Some z);
     if curr_tick > bc_last_recv_tick c + SERVER_TIMEOUT then biz_Close p z1 else Some z1 }"

fun timer_loop :: "bytes \<Rightarrow> u64 \<Rightarrow> u64 \<Rightarrow> (int \<times> nat) list \<Rightarrow> biz \<Rightarrow> biz option" where
  "timer_loop heartbeat now cur_time [] z = Some z"
| "timer_loop heartbeat now cur_time ((h, p) # es) z = do {
     c \<leftarrow> bz_conns z p;
     z1 \<leftarrow> (if bc_open c then biz_OnTimer heartbeat now cur_time p z else Some z);
     timer_loop heartbeat now cur_time es z1 }"

text \<open>
  The loop takes the next iterator before the call, and a call removes at most its own entry, so it
  visits the entries that were there at the start.
\<close>

definition business_server_conn_timer_callback :: "bytes \<Rightarrow> u64 \<Rightarrow> u64 \<Rightarrow> (nat \<Rightarrow> int) \<Rightarrow> biz \<Rightarrow> biz option" where
  "business_server_conn_timer_callback heartbeat now cur_time hs z = do {
     z1 \<leftarrow> timer_loop heartbeat now cur_time (bz_map z) z;
     serv_check_reconnect hs now [0..<length (bz_list z1)] z1 }"

definition init_business_serv_conn :: "(nat \<Rightarrow> int) \<Rightarrow> u64 \<Rightarrow> serv_info list \<Rightarrow> nat \<Rightarrow> biz \<Rightarrow> biz option" where
  "init_business_serv_conn hs tick server_list concur_conn_cnt z =
     (if concur_conn_cnt = 0 then None
      else
        (let total_db_instance = length server_list div concur_conn_cnt
         in serv_init hs tick [0..<length server_list]
              (z\<lparr>bz_list := server_list, bz_login_count := total_db_instance div 2 * concur_conn_cnt\<rparr>)))"

section \<open>Choosing a connection\<close>

definition open_at :: "biz \<Rightarrow> nat \<Rightarrow> bool option" where
  "open_at z i =
     (if i \<ge> length (bz_list z) then None
      else case si_serv_conn (bz_list z ! i) of
             None \<Rightarrow> Some False
           | Some p \<Rightarrow> map_option bc_open (bz_conns z p))"

fun any_open :: "biz \<Rightarrow> nat list \<Rightarrow> bool option" where
  "any_open z [] = Some False"
| "any_open z (i # is) = do { b \<leftarrow> open_at z i; if b then Some True else any_open z is }"

fun pick_open :: "nat \<Rightarrow> nat \<Rightarrow> nat list \<Rightarrow> biz \<Rightarrow> (nat \<times> nat list) option" where
  "pick_open start stop [] z = None"
| "pick_open start stop (r # rs) z = do {
     let i = r mod (stop - start) + start;
     b \<leftarrow> open_at z i;
     if b then do { p \<leftarrow> si_serv_conn (bz_list z ! i); Some (p, rs) } else pick_open start stop rs z }"

definition get_business_server_conn_in_range :: "nat \<Rightarrow> nat \<Rightarrow> biz \<Rightarrow> (nat option \<times> biz) option" where
  "get_business_server_conn_in_range start stop z = do {
     found \<leftarrow> any_open z [start..<stop];
     if \<not> found then Some (None, z)
     else do { (p, rs) \<leftarrow> pick_open start stop (bz_rand z) z; Some (Some p, z\<lparr>bz_rand := rs\<rparr>) } }"

text \<open>The two ranges in turn; without an open connection a new object is made.\<close>

definition conn_in_ranges :: "u64 \<Rightarrow> u32 \<Rightarrow> nat \<times> nat \<Rightarrow> nat \<times> nat \<Rightarrow> biz \<Rightarrow> (nat \<times> biz) option" where
  "conn_in_ranges tick junk r1 r2 z = do {
     (a, z1) \<leftarrow> get_business_server_conn_in_range (fst r1) (snd r1) z;
     (b, z2) \<leftarrow> (if a = None then get_business_server_conn_in_range (fst r2) (snd r2) z1 else Some (a, z1));
     (case b of None \<Rightarrow> Some (CBusinessClientConn tick junk z2) | Some p \<Rightarrow> Some (p, z2)) }"

definition get_business_serv_conn_for_login :: "u64 \<Rightarrow> u32 \<Rightarrow> biz \<Rightarrow> (nat \<times> biz) option" where
  "get_business_serv_conn_for_login tick junk z =
     conn_in_ranges tick junk (0, bz_login_count z) (bz_login_count z, length (bz_list z)) z"

definition get_business_serv_conn :: "u64 \<Rightarrow> u32 \<Rightarrow> biz \<Rightarrow> (nat \<times> biz) option" where
  "get_business_serv_conn tick junk z =
     conn_in_ranges tick junk (bz_login_count z, length (bz_list z)) (0, bz_login_count z) z"

definition set_enable_business_async :: "bool \<Rightarrow> biz \<Rightarrow> biz" where
  "set_enable_business_async flag z = z\<lparr>bz_async := flag\<rparr>"

text \<open>
  On the initialised slots \<open>I\<close>: a registered connection is live and is the connection of its slot; the
  connection of a slot is live and registered, unless its connect failed at once.
\<close>

definition backoff_ok :: "serv_info \<Rightarrow> bool" where
  "backoff_ok s \<longleftrightarrow> si_reconnect_cnt s \<in> {2, 4, 8, 16, 32, 64}"

definition biz_inv :: "nat set \<Rightarrow> biz \<Rightarrow> bool" where
  "biz_inv I z \<longleftrightarrow>
     I \<subseteq> {..<length (bz_list z)} \<and> length (bz_list z) < 2 ^ 32 \<and> bz_login_count z \<le> length (bz_list z) \<and>
     (\<forall>p. bz_conns z p \<noteq> None \<longrightarrow> p < bz_fresh z) \<and>
     distinct (map fst (bz_map z)) \<and>
     (\<forall>h p. (h, p) \<in> set (bz_map z) \<longrightarrow>
        (\<exists>c. bz_conns z p = Some c \<and> bc_handle c = h \<and> h \<noteq> -1 \<and> unat (bc_serv_idx c) \<in> I \<and>
             si_serv_conn (bz_list z ! unat (bc_serv_idx c)) = Some p)) \<and>
     (\<forall>i p. i \<in> I \<longrightarrow> si_serv_conn (bz_list z ! i) = Some p \<longrightarrow>
        (\<exists>c. bz_conns z p = Some c \<and> bc_serv_idx c = of_nat i \<and> bc_refs c = 1 \<and>
             (bc_handle c = -1 \<longrightarrow> \<not> bc_open c) \<and> (bc_handle c \<noteq> -1 \<longrightarrow> (bc_handle c, p) \<in> set (bz_map z)))) \<and>
     (\<forall>i \<in> I. backoff_ok (bz_list z ! i))"

text \<open>The kernel never returns a descriptor that is in use.\<close>

definition fresh_handles :: "(nat \<Rightarrow> int) \<Rightarrow> biz \<Rightarrow> bool" where
  "fresh_handles hs z \<longleftrightarrow>
     (\<forall>i. hs i = -1 \<or> map_of (bz_map z) (hs i) = None) \<and> (\<forall>i j. i \<noteq> j \<longrightarrow> hs i = hs j \<longrightarrow> hs i = -1)"

abbreviation all_slots :: "biz \<Rightarrow> nat set" where "all_slots z \<equiv> {..<length (bz_list z)}"

inductive biz_step :: "biz \<Rightarrow> biz \<Rightarrow> bool" where
  Timer: "timer_loop hb now t (bz_map z) z = Some z1 \<Longrightarrow> fresh_handles hs z1 \<Longrightarrow>
     business_server_conn_timer_callback hb now t hs z = Some z' \<Longrightarrow> biz_step z z'"
| Confirm: "(h, p) \<in> set (bz_map z) \<Longrightarrow> biz_OnConfirm p z = Some z' \<Longrightarrow> biz_step z z'"
| Closed: "(h, p) \<in> set (bz_map z) \<Longrightarrow> biz_OnClose p z = Some z' \<Longrightarrow> biz_step z z'"
| PickLogin: "get_business_serv_conn_for_login tick junk z = Some (p, z') \<Longrightarrow> biz_step z z'"
| Pick: "get_business_serv_conn tick junk z = Some (p, z') \<Longrightarrow> biz_step z z'"
| Rand: "biz_step z (z\<lparr>bz_rand := rs\<rparr>)"

text \<open>The start: no connection yet, as in the initialised globals.\<close>

definition biz_start :: "biz \<Rightarrow> bool" where
  "biz_start z \<longleftrightarrow> bz_conns z = Map.empty \<and> bz_map z = []"

text \<open>What one check does to a slot.\<close>

definition slot_checked :: "serv_info \<Rightarrow> serv_info \<Rightarrow> bool" where
  "slot_checked s s' \<longleftrightarrow>
     (if si_serv_conn s \<noteq> None then s' = s
      else si_idle_cnt s' = si_idle_cnt s + 1 \<and> si_reconnect_cnt s' = si_reconnect_cnt s \<and>
        (si_serv_conn s' = None \<longleftrightarrow> si_idle_cnt s + 1 < si_reconnect_cnt s))"

text \<open>\<open>n\<close> seconds of the timer: only the check for lost servers matters to a slot without connection.\<close>

fun reconnect_checks :: "(nat \<Rightarrow> nat \<Rightarrow> int) \<Rightarrow> u64 \<Rightarrow> nat \<Rightarrow> biz \<Rightarrow> biz option" where
  "reconnect_checks hs tick 0 z = Some z"
| "reconnect_checks hs tick (Suc n) z = do {
     z1 \<leftarrow> reconnect_checks hs tick n z;
     serv_check_reconnect (hs n) tick [0..<length (bz_list z1)] z1 }"

definition dead_slot :: "nat \<Rightarrow> nat \<Rightarrow> biz \<Rightarrow> bool" where
  "dead_slot i p z \<longleftrightarrow>
     i < length (bz_list z) \<and> si_serv_conn (bz_list z ! i) = Some p \<and> (\<exists>c. bz_conns z p = Some c \<and> bc_handle c = -1)"

definition lost_server :: serv_info where
  "lost_server = \<lparr>si_server_ip = [49], si_server_port = 80, si_idle_cnt = 0, si_reconnect_cnt = 2, si_serv_conn = None\<rparr>"

definition sample_biz :: biz where
  "sample_biz = \<lparr>bz_list = [], bz_login_count = 0, bz_conns = Map.empty, bz_fresh = 0, bz_map = [], bz_rand = [],
     bz_async = False, bz_sent = [], bz_closed = []\<rparr>"

definition fds :: "nat \<Rightarrow> int" where "fds i = 5 + int i"

definition idle_biz :: biz where
  "idle_biz = sample_biz\<lparr>bz_list := [lost_server\<lparr>si_idle_cnt := 1\<rparr>]\<rparr>"

section \<open>Invariant\<close>

section \<open>Lemmas\<close>

lemma biz_invD:
  assumes "biz_inv I z"
  shows "I \<subseteq> {..<length (bz_list z)}" "length (bz_list z) < 4294967296" "bz_login_count z \<le> length (bz_list z)"
    "\<And>p. bz_conns z p \<noteq> None \<Longrightarrow> p < bz_fresh z" "distinct (map fst (bz_map z))"
    "\<And>h p. (h, p) \<in> set (bz_map z) \<Longrightarrow>
        \<exists>c. bz_conns z p = Some c \<and> bc_handle c = h \<and> h \<noteq> -1 \<and> unat (bc_serv_idx c) \<in> I \<and>
             si_serv_conn (bz_list z ! unat (bc_serv_idx c)) = Some p"
    "\<And>i p. i \<in> I \<Longrightarrow> si_serv_conn (bz_list z ! i) = Some p \<Longrightarrow>
        \<exists>c. bz_conns z p = Some c \<and> bc_serv_idx c = of_nat i \<and> bc_refs c = 1 \<and>
             (bc_handle c = -1 \<longrightarrow> \<not> bc_open c) \<and> (bc_handle c \<noteq> -1 \<longrightarrow> (bc_handle c, p) \<in> set (bz_map z))"
    "\<And>i. i \<in> I \<Longrightarrow> backoff_ok (bz_list z ! i)"
  using assms by (simp_all add: biz_inv_def)

lemma unat_idx:
  assumes "biz_inv I z" and "i \<in> I \<or> i < length (bz_list z)"
  shows "unat (of_nat i :: u32) = i"
  using biz_invD(1,2) [OF assms(1)] assms(2) by (intro unat_of_nat_lt) auto

text \<open>A slot without connection, or not yet initialised, gets a new connection.\<close>

lemma serv_connect_Some:
  "serv_connect h tick i z = Some
     (bz_fresh z, z\<lparr>bz_fresh := bz_fresh z + 1,
        bz_conns := (bz_conns z)(bz_fresh z \<mapsto>
          \<lparr>bc_handle = h, bc_refs = 1, bc_open = False, bc_serv_idx = of_nat i,
           bc_last_send_tick = tick, bc_last_recv_tick = tick\<rparr>),
        bz_map := (if h \<noteq> -1 then biz_insert h (bz_fresh z) (bz_map z) else bz_map z)\<rparr>)"
  by (simp add: serv_connect_def CBusinessClientConn_def biz_Connect_def)

lemma inv_connect:
  assumes "biz_inv I z" and "i < length (bz_list z)" and "i \<in> I \<Longrightarrow> si_serv_conn (bz_list z ! i) = None"
    and "h = -1 \<or> map_of (bz_map z) h = None" and "serv_connect h tick i z = Some (p, z1)"
    and "si_serv_conn s = Some p" and "backoff_ok s"
  shows "biz_inv (insert i I) (z1\<lparr>bz_list := (bz_list z1)[i := s]\<rparr>)"
proof -
  note inv = biz_invD [OF assms(1)]
  have i: "unat (of_nat i :: u32) = i" using unat_idx [OF assms(1)] assms(2) by blast
  have p: "p = bz_fresh z" and z1: "z1 = z\<lparr>bz_fresh := bz_fresh z + 1,
        bz_conns := (bz_conns z)(p \<mapsto>
          \<lparr>bc_handle = h, bc_refs = 1, bc_open = False, bc_serv_idx = of_nat i,
           bc_last_send_tick = tick, bc_last_recv_tick = tick\<rparr>),
        bz_map := (if h \<noteq> -1 then biz_insert h p (bz_map z) else bz_map z)\<rparr>"
    using assms(5) [unfolded serv_connect_Some] by auto
  have new: "bz_conns z p = None" using inv(4) [of p] p by (cases "bz_conns z p") auto
  have m: "bz_map z1 = bz_map z @ (if h = -1 then [] else [(h, p)])"
    using assms(4) by (auto simp: z1 biz_insert_def)
  have ins: "h \<noteq> -1 \<Longrightarrow> biz_insert h p (bz_map z) = bz_map z @ [(h, p)]" using assms(4) by (simp add: biz_insert_def)
  have d: "distinct (map fst (bz_map z1))"
    using inv(5) assms(4) by (auto simp: m map_of_eq_None_iff)
  have old: "q \<noteq> p" if "bz_conns z q = Some c" for q c using that new by auto
  have slot: "unat (bc_serv_idx c) \<noteq> i"
    if "(k, q) \<in> set (bz_map z)" and "bz_conns z q = Some c" for k q c
    using inv(6) [OF that(1)] that(2) assms(3) by auto
  have reg: "\<exists>c. bz_conns z1 q = Some c \<and> bc_handle c = k \<and> k \<noteq> -1 \<and> unat (bc_serv_idx c) \<in> insert i I \<and>
        si_serv_conn ((bz_list z)[i := s] ! unat (bc_serv_idx c)) = Some q"
    if "(k, q) \<in> set (bz_map z1)" for k q
  proof (cases "(k, q) \<in> set (bz_map z)")
    case True
    from inv(6) [OF True] obtain c where c: "bz_conns z q = Some c" "bc_handle c = k" "k \<noteq> -1"
      "unat (bc_serv_idx c) \<in> I" "si_serv_conn (bz_list z ! unat (bc_serv_idx c)) = Some q" by blast
    with slot [OF True c(1)] old [OF c(1)] show ?thesis by (simp add: z1)
  next
    case False
    with that have "h \<noteq> -1" "k = h" "q = p" by (auto simp: m split: if_splits)
    with i assms(2,6) show ?thesis by (simp add: z1)
  qed
  have conn: "\<exists>c. bz_conns z1 q = Some c \<and> bc_serv_idx c = of_nat j \<and> bc_refs c = 1 \<and>
        (bc_handle c = -1 \<longrightarrow> \<not> bc_open c) \<and> (bc_handle c \<noteq> -1 \<longrightarrow> (bc_handle c, q) \<in> set (bz_map z1))"
    if "j \<in> insert i I" and "si_serv_conn ((bz_list z)[i := s] ! j) = Some q" for j q
  proof (cases "j = i")
    case True
    with that(2) assms(2,6) have "q = p" by simp
    with True ins show ?thesis by (simp add: z1)
  next
    case False
    with that have "j \<in> I" "si_serv_conn (bz_list z ! j) = Some q" by auto
    from inv(7) [OF this] obtain c where c: "bz_conns z q = Some c" "bc_serv_idx c = of_nat j" "bc_refs c = 1"
      "bc_handle c = -1 \<longrightarrow> \<not> bc_open c" "bc_handle c \<noteq> -1 \<longrightarrow> (bc_handle c, q) \<in> set (bz_map z)" by blast
    with old [OF c(1)] show ?thesis by (auto simp: z1 ins split: if_splits)
  qed
  have "I \<subseteq> {..<length (bz_list z)}" by (rule inv(1))
  moreover have "backoff_ok ((bz_list z)[i := s] ! j)" if "j \<in> insert i I" for j
    using that inv(8) [of j] assms(2,7) by (cases "j = i") auto
  moreover have "bz_conns z1 q \<noteq> None \<Longrightarrow> q < bz_fresh z1" for q using inv(4) [of q] p by (auto simp: z1 less_Suc_eq split: if_splits)
  ultimately show ?thesis
    using inv(2,3) assms(2) d reg conn unfolding biz_inv_def by (auto simp: z1)
qed

lemma check_reconnect_inv:
  assumes "biz_inv (all_slots z) z" and "i < length (bz_list z)" and "h = -1 \<or> map_of (bz_map z) h = None"
  shows "\<exists>z'. check_reconnect h tick i z = Some z' \<and> length (bz_list z') = length (bz_list z) \<and> biz_inv (all_slots z') z' \<and>
     set (bz_map z') \<subseteq> insert (h, bz_fresh z) (set (bz_map z)) \<and> (h = -1 \<longrightarrow> bz_map z' = bz_map z) \<and>
     (\<forall>j. j \<noteq> i \<longrightarrow> bz_list z' ! j = bz_list z ! j)"
proof (cases "si_serv_conn (bz_list z ! i)")
  case None
  let ?s = "(bz_list z ! i)\<lparr>si_idle_cnt := si_idle_cnt (bz_list z ! i) + 1\<rparr>"
  have b: "backoff_ok ?s" using biz_invD(8) [OF assms(1), of i] assms(2) by (simp add: backoff_ok_def)
  show ?thesis
  proof (cases "si_idle_cnt ?s \<ge> si_reconnect_cnt ?s")
    case True
    obtain p z1 where c: "serv_connect h tick i z = Some (p, z1)" by (simp add: serv_connect_Some)
    have z1: "bz_list z1 = bz_list z" "bz_map z1 = (if h \<noteq> -1 then biz_insert h (bz_fresh z) (bz_map z) else bz_map z)"
      using c [unfolded serv_connect_Some] by auto
    from inv_connect [OF assms(1,2) None assms(3) c, of "?s\<lparr>si_serv_conn := Some p\<rparr>"] b assms(2) z1(1)
    have "biz_inv (all_slots z) (z1\<lparr>bz_list := (bz_list z1)[i := ?s\<lparr>si_serv_conn := Some p\<rparr>]\<rparr>)"
      by (simp add: backoff_ok_def insert_absorb)
    with None True c z1 assms(3) show ?thesis
      by (auto simp: check_reconnect_def Let_def biz_insert_def split: if_splits)
  next
    case False
    let ?z = "z\<lparr>bz_list := (bz_list z)[i := ?s]\<rparr>"
    have same: "si_serv_conn ((bz_list z)[i := ?s] ! j) = si_serv_conn (bz_list z ! j)" for j
      using None assms(2) by (cases "j = i") simp_all
    have "backoff_ok ((bz_list z)[i := ?s] ! j)" if "j < length (bz_list z)" for j
      using biz_invD(8) [OF assms(1), of j] b that by (cases "j = i") auto
    then have "biz_inv (all_slots ?z) ?z" using assms(1) by (simp add: biz_inv_def same)
    with None False show ?thesis by (auto simp: check_reconnect_def Let_def)
  qed
next
  case (Some p)
  with assms(1) show ?thesis by (auto simp: check_reconnect_def Let_def)
qed

lemma serv_check_reconnect_inv:
  assumes "biz_inv (all_slots z) z" and "set is \<subseteq> all_slots z" and "distinct is"
    and "\<forall>i \<in> set is. hs i = -1 \<or> map_of (bz_map z) (hs i) = None"
    and "\<forall>i j. i \<noteq> j \<longrightarrow> hs i = hs j \<longrightarrow> hs i = -1"
  shows "\<exists>z'. serv_check_reconnect hs tick is z = Some z' \<and> length (bz_list z') = length (bz_list z) \<and>
     biz_inv (all_slots z') z' \<and> (\<forall>j. j \<notin> set is \<longrightarrow> bz_list z' ! j = bz_list z ! j)"
  using assms
proof (induction "is" arbitrary: z)
  case (Cons i "is")
  from check_reconnect_inv [OF Cons.prems(1), of i "hs i" tick] Cons.prems(2,4) obtain z1 where
    z1: "check_reconnect (hs i) tick i z = Some z1" "length (bz_list z1) = length (bz_list z)"
      "biz_inv (all_slots z1) z1" "set (bz_map z1) \<subseteq> insert (hs i, bz_fresh z) (set (bz_map z))"
      "hs i = -1 \<longrightarrow> bz_map z1 = bz_map z" "\<forall>j. j \<noteq> i \<longrightarrow> bz_list z1 ! j = bz_list z ! j"
    by auto
  have "hs j = -1 \<or> map_of (bz_map z1) (hs j) = None" if "j \<in> set is" for j
  proof -
    have "j \<noteq> i" using that Cons.prems(3) by auto
    then have "hs j = -1 \<or> hs j \<noteq> hs i" using Cons.prems(5) by metis
    moreover have "hs j = -1 \<or> hs j \<notin> fst ` set (bz_map z)"
      using Cons.prems(4) that by (auto simp: map_of_eq_None_iff)
    ultimately show ?thesis using z1(4) by (auto simp: map_of_eq_None_iff)
  qed
  then obtain z' where "serv_check_reconnect hs tick is z1 = Some z'" "length (bz_list z') = length (bz_list z1)"
     "biz_inv (all_slots z') z'" "\<forall>j. j \<notin> set is \<longrightarrow> bz_list z' ! j = bz_list z1 ! j"
    using Cons.IH [OF z1(3)] Cons.prems(2,3,5) z1(2) by auto
  with z1(1,2,6) show ?case by auto
qed simp

lemma serv_init_inv:
  assumes "biz_inv I z" and "set is \<inter> I = {}" and "set is \<subseteq> all_slots z" and "distinct is"
    and "\<forall>i \<in> set is. hs i = -1 \<or> map_of (bz_map z) (hs i) = None"
    and "\<forall>i j. i \<noteq> j \<longrightarrow> hs i = hs j \<longrightarrow> hs i = -1"
  shows "\<exists>z'. serv_init hs tick is z = Some z' \<and> length (bz_list z') = length (bz_list z) \<and>
     biz_inv (I \<union> set is) z'"
  using assms
proof (induction "is" arbitrary: z I)
  case (Cons i "is")
  obtain p z1 where c: "serv_connect (hs i) tick i z = Some (p, z1)" by (simp add: serv_connect_Some)
  have z1: "bz_list z1 = bz_list z" "set (bz_map z1) \<subseteq> insert (hs i, bz_fresh z) (set (bz_map z))"
    "hs i = -1 \<longrightarrow> bz_map z1 = bz_map z"
    using c [unfolded serv_connect_Some] by (auto simp: biz_insert_def split: if_splits)
  let ?z = "z1\<lparr>bz_list := (bz_list z1)[i := (bz_list z1 ! i)\<lparr>si_serv_conn := Some p, si_idle_cnt := 0, si_reconnect_cnt := 2\<rparr>]\<rparr>"
  have inv: "biz_inv (insert i I) ?z"
    using Cons.prems(2,3,5) by (intro inv_connect [OF Cons.prems(1) _ _ _ c]) (auto simp: backoff_ok_def)
  have "hs j = -1 \<or> map_of (bz_map ?z) (hs j) = None" if "j \<in> set is" for j
  proof -
    have "j \<noteq> i" using that Cons.prems(4) by auto
    then have "hs j = -1 \<or> hs j \<noteq> hs i" using Cons.prems(6) by metis
    moreover have "hs j = -1 \<or> hs j \<notin> fst ` set (bz_map z)"
      using Cons.prems(5) that by (auto simp: map_of_eq_None_iff)
    ultimately show ?thesis using z1(2) by (auto simp: map_of_eq_None_iff)
  qed
  then obtain z' where "serv_init hs tick is ?z = Some z'" "length (bz_list z') = length (bz_list ?z)"
    "biz_inv (insert i I \<union> set is) z'"
    using Cons.IH [OF inv] Cons.prems(2,3,4,6) z1(1) by auto
  with c z1(1) show ?case by (auto simp: insert_commute)
qed simp

lemma reset_backoff: "backoff_ok s \<Longrightarrow> backoff_ok (reset_info s)"
  by (auto simp: backoff_ok_def reset_info_def Let_def)

lemma registered_slot:
  assumes "biz_inv (all_slots z) z" and "(h, p) \<in> set (bz_map z)"
  obtains c i where "bz_conns z p = Some c" "bc_handle c = h" "h \<noteq> -1" "unat (bc_serv_idx c) = i" "i < length (bz_list z)"
    "si_serv_conn (bz_list z ! i) = Some p" "bc_refs c = 1"
    "\<And>j. j < length (bz_list z) \<Longrightarrow> si_serv_conn (bz_list z ! j) = Some p \<Longrightarrow> j = i"
proof -
  from biz_invD(6) [OF assms] obtain c where c: "bz_conns z p = Some c" "bc_handle c = h" "h \<noteq> -1"
    "unat (bc_serv_idx c) < length (bz_list z)" "si_serv_conn (bz_list z ! unat (bc_serv_idx c)) = Some p" by auto
  have "bc_refs c = 1" using biz_invD(7) [OF assms(1) _ c(5)] c(1,4) by auto
  moreover have "j = unat (bc_serv_idx c)" if "j < length (bz_list z)" "si_serv_conn (bz_list z ! j) = Some p" for j
    using biz_invD(7) [OF assms(1) _ that(2)] that(1) c(1) unat_idx [OF assms(1), of j] by auto
  ultimately show ?thesis using c that by blast
qed

lemma biz_Close_inv:
  assumes "biz_inv (all_slots z) z" and "(h, p) \<in> set (bz_map z)"
  shows "\<exists>z'. biz_Close p z = Some z' \<and> biz_inv (all_slots z') z' \<and> length (bz_list z') = length (bz_list z) \<and>
     bz_map z' = filter (\<lambda>(k, q). k \<noteq> h) (bz_map z) \<and>
     (\<forall>j < length (bz_list z). si_serv_conn (bz_list z ! j) \<noteq> Some p \<longrightarrow> bz_list z' ! j = bz_list z ! j)"
proof -
  note inv = biz_invD [OF assms(1)]
  obtain c i where c: "bz_conns z p = Some c" "bc_handle c = h" "h \<noteq> -1" "unat (bc_serv_idx c) = i" "i < length (bz_list z)"
    "si_serv_conn (bz_list z ! i) = Some p" "bc_refs c = 1"
    and only: "\<And>j. j < length (bz_list z) \<Longrightarrow> si_serv_conn (bz_list z ! j) = Some p \<Longrightarrow> j = i"
    using registered_slot [OF assms] by blast
  let ?l = "(bz_list z)[i := reset_info (bz_list z ! i)]" and ?m = "filter (\<lambda>(k, q). k \<noteq> h) (bz_map z)"
  let ?z = "z\<lparr>bz_list := ?l, bz_closed := bz_closed z @ [h], bz_map := ?m, bz_conns := (bz_conns z)(p := None)\<rparr>"
  have eq: "biz_Close p z = Some ?z"
    using c by (simp add: biz_Close_def serv_reset_def biz_ReleaseRef_def Let_def)
  have slot: "si_serv_conn (?l ! j) = (if j = i then None else si_serv_conn (bz_list z ! j))" if "j < length (bz_list z)" for j
    using that c(5) by (auto simp: reset_info_def Let_def)
  have reg: "\<exists>d. ((bz_conns z)(p := None)) q = Some d \<and> bc_handle d = k \<and> k \<noteq> -1 \<and> unat (bc_serv_idx d) < length (bz_list z) \<and>
      si_serv_conn (?l ! unat (bc_serv_idx d)) = Some q" if m: "(k, q) \<in> set ?m" for k q
  proof -
    from m inv(6) [of k q] obtain d where d: "bz_conns z q = Some d" "bc_handle d = k" "k \<noteq> -1"
      "unat (bc_serv_idx d) < length (bz_list z)" "si_serv_conn (bz_list z ! unat (bc_serv_idx d)) = Some q" by auto
    then have "q \<noteq> p" using m c(1,2) by auto
    then have "unat (bc_serv_idx d) \<noteq> i" using d(5) c(6) by auto
    with d \<open>q \<noteq> p\<close> show ?thesis by (simp add: slot)
  qed
  have conn: "\<exists>d. ((bz_conns z)(p := None)) q = Some d \<and> bc_serv_idx d = of_nat j \<and> bc_refs d = 1 \<and>
      (bc_handle d = -1 \<longrightarrow> \<not> bc_open d) \<and> (bc_handle d \<noteq> -1 \<longrightarrow> (bc_handle d, q) \<in> set ?m)"
    if "j < length (bz_list z)" and s: "si_serv_conn (?l ! j) = Some q" for j q
  proof -
    from s slot [OF that(1)] have j: "j \<noteq> i" "si_serv_conn (bz_list z ! j) = Some q" by (auto split: if_splits)
    then have "q \<noteq> p" using only [OF that(1)] by auto
    from inv(7) [OF _ j(2)] that(1) obtain d where d: "bz_conns z q = Some d" "bc_serv_idx d = of_nat j" "bc_refs d = 1"
      "bc_handle d = -1 \<longrightarrow> \<not> bc_open d" "bc_handle d \<noteq> -1 \<longrightarrow> (bc_handle d, q) \<in> set (bz_map z)" by auto
    have "bc_handle d \<noteq> h" if "bc_handle d \<noteq> -1"
      using d(5) that assms(2) inv(5) \<open>q \<noteq> p\<close> by (auto dest: eq_key_imp_eq_value)
    with d \<open>q \<noteq> p\<close> show ?thesis by auto
  qed
  have "distinct (map fst ?m)" using inv(5) by (simp add: distinct_map_filter)
  moreover have "backoff_ok (?l ! j)" if "j < length (bz_list z)" for j
    using inv(8) [of j] inv(8) [of i] that c(5) reset_backoff by (cases "j = i") auto
  moreover have "((bz_conns z)(p := None)) q \<noteq> None \<Longrightarrow> q < bz_fresh z" for q
    using inv(4) [of q] by (auto split: if_splits)
  ultimately have "biz_inv (all_slots ?z) ?z"
    using inv(2,3) reg conn unfolding biz_inv_def by auto
  moreover have "?l ! j = bz_list z ! j" if "j < length (bz_list z)" "si_serv_conn (bz_list z ! j) \<noteq> Some p" for j
    using that c(6) by (cases "j = i") auto
  ultimately show ?thesis using eq by auto
qed

text \<open>Operations that keep the pointers: what changes is a flag, a time or a counter.\<close>

lemma inv_update_conn:
  assumes "biz_inv (all_slots z) z" and "bz_conns z p = Some c"
    and "bc_handle c' = bc_handle c" "bc_serv_idx c' = bc_serv_idx c" "bc_refs c' = bc_refs c"
    and "bc_handle c \<noteq> -1 \<or> bc_open c' = bc_open c"
  shows "biz_inv (all_slots z) (z\<lparr>bz_conns := (bz_conns z)(p \<mapsto> c'), bz_sent := xs\<rparr>)"
proof -
  note inv = biz_invD [OF assms(1)]
  have "\<exists>d. ((bz_conns z)(p \<mapsto> c')) q = Some d \<and> bc_handle d = k \<and> k \<noteq> -1 \<and> unat (bc_serv_idx d) < length (bz_list z) \<and>
      si_serv_conn (bz_list z ! unat (bc_serv_idx d)) = Some q" if "(k, q) \<in> set (bz_map z)" for k q
    using inv(6) [OF that] assms(2-5) by (cases "q = p") auto
  moreover have "\<exists>d. ((bz_conns z)(p \<mapsto> c')) q = Some d \<and> bc_serv_idx d = of_nat j \<and> bc_refs d = 1 \<and>
      (bc_handle d = -1 \<longrightarrow> \<not> bc_open d) \<and> (bc_handle d \<noteq> -1 \<longrightarrow> (bc_handle d, q) \<in> set (bz_map z))"
    if "j < length (bz_list z)" and "si_serv_conn (bz_list z ! j) = Some q" for j q
    using inv(7) [OF _ that(2)] that(1) assms(2-6) by (cases "q = p") auto
  moreover have "((bz_conns z)(p \<mapsto> c')) q \<noteq> None \<Longrightarrow> q < bz_fresh z" for q
    using inv(4) [of q] inv(4) [of p] assms(2) by (auto split: if_splits)
  ultimately show ?thesis using inv(2,3,5,8) unfolding biz_inv_def by auto
qed

lemma biz_OnTimer_inv:
  assumes "biz_inv (all_slots z) z" and "(h, p) \<in> set (bz_map z)"
  shows "\<exists>z'. biz_OnTimer hb now t p z = Some z' \<and> biz_inv (all_slots z') z' \<and> length (bz_list z') = length (bz_list z) \<and>
     (bz_map z' = bz_map z \<or> bz_map z' = filter (\<lambda>(k, q). k \<noteq> h) (bz_map z)) \<and>
     (\<forall>j < length (bz_list z). si_serv_conn (bz_list z ! j) \<noteq> Some p \<longrightarrow> bz_list z' ! j = bz_list z ! j)"
proof -
  obtain c where c: "bz_conns z p = Some c" "bc_handle c = h" "h \<noteq> -1"
    using registered_slot [OF assms] by blast
  let ?z1 = "if t > bc_last_send_tick c + 5000
    then z\<lparr>bz_conns := (bz_conns z)(p \<mapsto> c\<lparr>bc_last_send_tick := now\<rparr>), bz_sent := bz_sent z @ [(p, hb)]\<rparr> else z"
  have 1: "biz_inv (all_slots ?z1) ?z1" "bz_list ?z1 = bz_list z" "bz_map ?z1 = bz_map z"
    using assms(1) inv_update_conn [OF assms(1) c(1), of "c\<lparr>bc_last_send_tick := now\<rparr>"] by simp_all
  have eq: "biz_OnTimer hb now t p z = (if t > bc_last_recv_tick c + 30000 then biz_Close p ?z1 else Some ?z1)"
    using c by (simp add: biz_OnTimer_def biz_Send_def)
  have "(h, p) \<in> set (bz_map ?z1)" using assms(2) 1(3) by simp
  from biz_Close_inv [OF 1(1) this] 1 show ?thesis unfolding eq by auto
qed

lemma timer_loop_inv:
  assumes "biz_inv (all_slots z) z" and "set es \<subseteq> set (bz_map z)" and "distinct (map fst es)"
  shows "\<exists>z'. timer_loop hb now t es z = Some z' \<and> biz_inv (all_slots z') z' \<and> length (bz_list z') = length (bz_list z) \<and>
     (\<forall>j < length (bz_list z). (\<forall>p \<in> snd ` set es. si_serv_conn (bz_list z ! j) \<noteq> Some p) \<longrightarrow> bz_list z' ! j = bz_list z ! j)"
  using assms
proof (induction es arbitrary: z)
  case (Cons e es)
  obtain h p where e: "e = (h, p)" by (cases e)
  with Cons.prems(2) have hp: "(h, p) \<in> set (bz_map z)" by simp
  obtain c where c: "bz_conns z p = Some c" using registered_slot [OF Cons.prems(1) hp] by blast
  obtain z1 where z1: "(if bc_open c then biz_OnTimer hb now t p z else Some z) = Some z1" "biz_inv (all_slots z1) z1"
    "length (bz_list z1) = length (bz_list z)" "bz_map z1 = bz_map z \<or> bz_map z1 = filter (\<lambda>(k, q). k \<noteq> h) (bz_map z)"
    "\<forall>j < length (bz_list z). si_serv_conn (bz_list z ! j) \<noteq> Some p \<longrightarrow> bz_list z1 ! j = bz_list z ! j"
  proof (cases "bc_open c")
    case True
    show ?thesis using biz_OnTimer_inv [OF Cons.prems(1) hp, of hb now t] that unfolding if_P [OF True] by blast
  next
    case False
    show ?thesis by (rule that [of z]) (use Cons.prems(1) False in simp_all)
  qed
  have "fst x \<noteq> h" if "x \<in> set es" for x using Cons.prems(3) e that by auto
  then have "set es \<subseteq> set (bz_map z1)" using z1(4) Cons.prems(2) by auto
  then obtain z' where "timer_loop hb now t es z1 = Some z'" "biz_inv (all_slots z') z'" "length (bz_list z') = length (bz_list z1)"
    "\<forall>j < length (bz_list z1). (\<forall>p \<in> snd ` set es. si_serv_conn (bz_list z1 ! j) \<noteq> Some p) \<longrightarrow> bz_list z' ! j = bz_list z1 ! j"
    using Cons.IH [OF z1(2)] Cons.prems(3) by auto
  moreover have "timer_loop hb now t (e # es) z = timer_loop hb now t es z1" using c z1(1) by (simp add: e)
  ultimately show ?case using z1(3,5) by (simp add: e)
qed simp

lemma biz_OnConfirm_inv:
  assumes "biz_inv (all_slots z) z" and "(h, p) \<in> set (bz_map z)"
  shows "\<exists>z'. biz_OnConfirm p z = Some z' \<and> biz_inv (all_slots z') z' \<and> length (bz_list z') = length (bz_list z)"
proof -
  obtain c i where c: "bz_conns z p = Some c" "bc_handle c = h" "h \<noteq> -1" "unat (bc_serv_idx c) = i" "i < length (bz_list z)"
    using registered_slot [OF assms] by blast
  let ?s = "(bz_list z ! i)\<lparr>si_reconnect_cnt := 2\<rparr>"
  let ?z = "z\<lparr>bz_conns := (bz_conns z)(p \<mapsto> c\<lparr>bc_open := True\<rparr>)\<rparr>"
  have 1: "biz_inv (all_slots z) ?z"
    using inv_update_conn [OF assms(1) c(1), of "c\<lparr>bc_open := True\<rparr>" "bz_sent z"] c(2,3) by simp
  have same: "si_serv_conn ((bz_list z)[i := ?s] ! j) = si_serv_conn (bz_list z ! j)" for j
    using c(5) by (cases "j = i") simp_all
  have "backoff_ok ((bz_list z)[i := ?s] ! j)" if "j < length (bz_list z)" for j
    using biz_invD(8) [OF 1, of j] that by (cases "j = i") (auto simp: backoff_ok_def)
  then have "biz_inv (all_slots z) (?z\<lparr>bz_list := (bz_list z)[i := ?s]\<rparr>)" using 1 by (simp add: biz_inv_def same)
  with c show ?thesis by (simp add: biz_OnConfirm_def)
qed

lemma timer_callback_inv:
  assumes "biz_inv (all_slots z) z"
  shows "\<exists>z1. timer_loop hb now t (bz_map z) z = Some z1 \<and> biz_inv (all_slots z1) z1 \<and>
     (\<forall>hs. fresh_handles hs z1 \<longrightarrow> (\<exists>z'. business_server_conn_timer_callback hb now t hs z = Some z' \<and> biz_inv (all_slots z') z'))"
proof -
  from timer_loop_inv [OF assms, of "bz_map z" hb now t] biz_invD(5) [OF assms] obtain z1 where
    z1: "timer_loop hb now t (bz_map z) z = Some z1" "biz_inv (all_slots z1) z1" by auto
  have "\<exists>z'. business_server_conn_timer_callback hb now t hs z = Some z' \<and> biz_inv (all_slots z') z'" if "fresh_handles hs z1" for hs
    using serv_check_reconnect_inv [OF z1(2), of "[0..<length (bz_list z1)]" hs now] that z1(1)
    by (auto simp: business_server_conn_timer_callback_def fresh_handles_def subset_iff)
  with z1 show ?thesis by blast
qed

subsection \<open>Choosing\<close>

lemma open_at_defined:
  assumes "biz_inv (all_slots z) z" and "i < length (bz_list z)"
  shows "open_at z i \<noteq> None"
  using biz_invD(7) [OF assms(1), of i] assms(2) by (auto simp: open_at_def split: option.splits)

lemma any_open_spec:
  assumes "biz_inv (all_slots z) z" and "set is \<subseteq> all_slots z"
  shows "any_open z is = Some (\<exists>i \<in> set is. open_at z i = Some True)"
  using assms(2)
proof (induction "is")
  case (Cons i "is")
  then obtain b where "open_at z i = Some b" using open_at_defined [OF assms(1), of i] by auto
  with Cons show ?case by auto
qed simp

lemma pick_open_result:
  "pick_open start stop rs z = Some (p, rs') \<Longrightarrow> start < stop \<Longrightarrow>
   \<exists>i. start \<le> i \<and> i < stop \<and> open_at z i = Some True \<and> si_serv_conn (bz_list z ! i) = Some p"
proof (induction rs)
  case (Cons r rs)
  have "r mod (stop - start) < stop - start" using Cons.prems(2) by simp
  then have "start \<le> r mod (stop - start) + start \<and> r mod (stop - start) + start < stop" by linarith
  with Cons show ?case by (auto simp: Let_def split: bind_splits if_splits intro!: exI [of _ "r mod (stop - start) + start"])
qed simp

lemma pick_open_ends:
  assumes "biz_inv (all_slots z) z" and "start < stop" and "stop \<le> length (bz_list z)"
    and "r \<in> set rs" and "open_at z (r mod (stop - start) + start) = Some True"
  shows "pick_open start stop rs z \<noteq> None"
  using assms(4)
proof (induction rs)
  case (Cons a rs)
  have "a mod (stop - start) < stop - start" using assms(2) by simp
  then have "a mod (stop - start) + start < length (bz_list z)" using assms(3) by linarith
  then obtain b where b: "open_at z (a mod (stop - start) + start) = Some b"
    using open_at_defined [OF assms(1)] by fastforce
  show ?case
  proof (cases b)
    case True
    with b have "si_serv_conn (bz_list z ! (a mod (stop - start) + start)) \<noteq> None"
      by (auto simp: open_at_def split: if_splits option.splits)
    with b True show ?thesis by auto
  next
    case False
    with b assms(5) have "a \<noteq> r" by auto
    with Cons b False show ?thesis by auto
  qed
qed simp

text \<open>The two results of the search in a range.\<close>

lemma in_range_None:
  assumes "biz_inv (all_slots z) z" and "stop \<le> length (bz_list z)"
    and "\<forall>i. start \<le> i \<longrightarrow> i < stop \<longrightarrow> open_at z i \<noteq> Some True"
  shows "get_business_server_conn_in_range start stop z = Some (None, z)"
proof -
  have "set [start..<stop] \<subseteq> all_slots z" using assms(2) by auto
  from any_open_spec [OF assms(1) this] assms(3) show ?thesis
    by (auto simp: get_business_server_conn_in_range_def)
qed

lemma in_range_Some:
  assumes "biz_inv (all_slots z) z" and "stop \<le> length (bz_list z)" and "r \<in> set (bz_rand z)" and "start < stop"
    and "open_at z (r mod (stop - start) + start) = Some True"
  shows "\<exists>p i rs. get_business_server_conn_in_range start stop z = Some (Some p, z\<lparr>bz_rand := rs\<rparr>) \<and>
     start \<le> i \<and> i < stop \<and> open_at z i = Some True \<and> si_serv_conn (bz_list z ! i) = Some p"
proof -
  have "r mod (stop - start) < stop - start" using assms(4) by simp
  then have "r mod (stop - start) + start \<in> set [start..<stop]" by auto
  moreover have "set [start..<stop] \<subseteq> all_slots z" using assms(2) by auto
  ultimately have a: "any_open z [start..<stop] = Some True" using any_open_spec [OF assms(1), of "[start..<stop]"] assms(5) by auto
  obtain p rs where p: "pick_open start stop (bz_rand z) z = Some (p, rs)"
    using pick_open_ends [OF assms(1,4,2,3,5)] by auto
  from pick_open_result [OF p assms(4)] p a show ?thesis
    by (auto simp: get_business_server_conn_in_range_def)
qed

lemma inv_rand [simp]: "biz_inv I (z\<lparr>bz_rand := rs\<rparr>) = biz_inv I z"
  by (simp add: biz_inv_def)

lemma inv_new_conn:
  assumes "biz_inv (all_slots z) z"
  shows "biz_inv (all_slots z) (snd (CBusinessClientConn tick junk z))"
proof -
  have "bz_conns z (bz_fresh z) = None" using biz_invD(4) [OF assms, of "bz_fresh z"] by (cases "bz_conns z (bz_fresh z)") auto
  then show ?thesis
    using assms by (fastforce simp: biz_inv_def CBusinessClientConn_def less_Suc_eq split: if_splits)
qed

lemma in_range_inv:
  "get_business_server_conn_in_range start stop z = Some (p, z') \<Longrightarrow> \<exists>rs. z' = z\<lparr>bz_rand := rs\<rparr>"
  by (auto simp: get_business_server_conn_in_range_def split: bind_splits if_splits intro: exI [of _ "bz_rand z"])

lemma conn_in_ranges_result:
  assumes "conn_in_ranges tick junk r1 r2 z = Some (p, z')"
  shows "\<exists>rs. z' = z\<lparr>bz_rand := rs\<rparr> \<or> (p, z') = CBusinessClientConn tick junk (z\<lparr>bz_rand := rs\<rparr>)"
proof -
  from assms obtain a z1 b z2 where 1: "get_business_server_conn_in_range (fst r1) (snd r1) z = Some (a, z1)"
    "(if a = None then get_business_server_conn_in_range (fst r2) (snd r2) z1 else Some (a, z1)) = Some (b, z2)"
    "(case b of None \<Rightarrow> Some (CBusinessClientConn tick junk z2) | Some q \<Rightarrow> Some (q, z2)) = Some (p, z')"
    by (auto simp: conn_in_ranges_def split: bind_splits)
  from in_range_inv [OF 1(1)] obtain rs1 where "z1 = z\<lparr>bz_rand := rs1\<rparr>" by blast
  with 1(2) obtain rs2 where "z2 = z\<lparr>bz_rand := rs2\<rparr>"
    by (cases "a = None") (auto dest: in_range_inv)
  with 1(3) show ?thesis by (cases b) (auto intro!: exI [of _ rs2])
qed

lemma conn_in_ranges_inv:
  assumes "conn_in_ranges tick junk r1 r2 z = Some (p, z')" and "biz_inv (all_slots z) z"
  shows "biz_inv (all_slots z') z' \<and> bz_list z' = bz_list z"
  using conn_in_ranges_result [OF assms(1)] inv_new_conn [of "z\<lparr>bz_rand := rs\<rparr>" tick junk for rs] assms(2)
  by (auto simp: CBusinessClientConn_def)

lemmas picks_def = get_business_serv_conn_for_login_def get_business_serv_conn_def

lemma biz_step_inv: "biz_step z z' \<Longrightarrow> biz_inv (all_slots z) z \<Longrightarrow> biz_inv (all_slots z') z'"
proof (induction rule: biz_step.induct)
  case (Timer hb now t z z1 hs z')
  with timer_callback_inv [of z hb now t] show ?case by fastforce
next
  case (Confirm h p z z')
  with biz_OnConfirm_inv [of z h p] show ?case by auto
next
  case (Closed h p z z')
  with biz_Close_inv [of z h p] show ?case by (auto simp: biz_OnClose_def)
qed (auto simp: picks_def dest: conn_in_ranges_inv)

lemma biz_reachable_inv: "biz_step\<^sup>*\<^sup>* z z' \<Longrightarrow> biz_inv (all_slots z) z \<Longrightarrow> biz_inv (all_slots z') z'"
  by (induction rule: rtranclp_induct) (auto dest: biz_step_inv)

lemma init_inv:
  assumes "biz_start z" and "length server_list < 2 ^ 32" and "fresh_handles hs z" and "0 < k"
  shows "\<exists>z'. init_business_serv_conn hs tick server_list k z = Some z' \<and> length (bz_list z') = length server_list \<and>
     biz_inv (all_slots z') z'"
proof -
  let ?z = "z\<lparr>bz_list := server_list, bz_login_count := length server_list div k div 2 * k\<rparr>"
  have "length server_list div k div 2 * k \<le> length server_list div k * k" by simp
  also have "\<dots> \<le> length server_list" by simp
  finally have "biz_inv {} ?z" using assms(1,2) by (simp add: biz_inv_def biz_start_def)
  from serv_init_inv [OF this, of "[0..<length server_list]" hs tick] assms(1,3,4) show ?thesis
    by (auto simp: init_business_serv_conn_def fresh_handles_def biz_start_def lessThan_atLeast0)
qed

subsection \<open>Reconnecting\<close>

lemma check_reconnect_slot:
  assumes "i < length (bz_list z)"
  shows "\<exists>z'. check_reconnect h tick i z = Some z' \<and> length (bz_list z') = length (bz_list z) \<and>
    (\<forall>j. j \<noteq> i \<longrightarrow> bz_list z' ! j = bz_list z ! j) \<and>
    slot_checked (bz_list z ! i) (bz_list z' ! i)"
  using assms by (auto simp: check_reconnect_def serv_connect_Some Let_def slot_checked_def)

lemma serv_check_reconnect_slot:
  assumes "set is \<subseteq> all_slots z" and "distinct is"
  shows "\<exists>z'. serv_check_reconnect hs tick is z = Some z' \<and> length (bz_list z') = length (bz_list z) \<and>
    (\<forall>j. j \<notin> set is \<longrightarrow> bz_list z' ! j = bz_list z ! j) \<and>
    (\<forall>i \<in> set is. slot_checked (bz_list z ! i) (bz_list z' ! i))"
  using assms
proof (induction "is" arbitrary: z)
  case (Cons i "is")
  from check_reconnect_slot [of i z "hs i" tick] Cons.prems(1) obtain z1 where
    z1: "check_reconnect (hs i) tick i z = Some z1" "length (bz_list z1) = length (bz_list z)"
      "\<forall>j. j \<noteq> i \<longrightarrow> bz_list z1 ! j = bz_list z ! j"
    and i: "slot_checked (bz_list z ! i) (bz_list z1 ! i)" by auto
  from Cons.IH [of z1] Cons.prems z1(2) obtain z' where
    z': "serv_check_reconnect hs tick is z1 = Some z'" "length (bz_list z') = length (bz_list z1)"
      "\<forall>j. j \<notin> set is \<longrightarrow> bz_list z' ! j = bz_list z1 ! j"
    and rest: "\<forall>j \<in> set is. slot_checked (bz_list z1 ! j) (bz_list z' ! j)" by auto
  have "i \<notin> set is" using Cons.prems(2) by simp
  then have "bz_list z' ! i = bz_list z1 ! i" "\<forall>j \<in> set is. bz_list z1 ! j = bz_list z ! j" using z'(3) z1(3) by auto
  with z1 z' i rest show ?case by auto
qed simp

lemma reconnect_checks_slot:
  assumes "i < length (bz_list z)" and "si_serv_conn (bz_list z ! i) = None" and "si_idle_cnt (bz_list z ! i) = 0"
    and "0 < unat (si_reconnect_cnt (bz_list z ! i))"
  shows "\<exists>z'. reconnect_checks hs tick n z = Some z' \<and> length (bz_list z') = length (bz_list z) \<and>
     si_reconnect_cnt (bz_list z' ! i) = si_reconnect_cnt (bz_list z ! i) \<and>
     (si_serv_conn (bz_list z' ! i) = None \<longleftrightarrow> n < unat (si_reconnect_cnt (bz_list z ! i))) \<and>
     (si_serv_conn (bz_list z' ! i) = None \<longrightarrow> unat (si_idle_cnt (bz_list z' ! i)) = n)"
proof (induction n)
  case 0
  with assms show ?case by simp
next
  case (Suc n)
  let ?r = "si_reconnect_cnt (bz_list z ! i)"
  from Suc obtain z1 where z1: "reconnect_checks hs tick n z = Some z1" "length (bz_list z1) = length (bz_list z)"
    "si_reconnect_cnt (bz_list z1 ! i) = ?r" "si_serv_conn (bz_list z1 ! i) = None \<longleftrightarrow> n < unat ?r"
    "si_serv_conn (bz_list z1 ! i) = None \<longrightarrow> unat (si_idle_cnt (bz_list z1 ! i)) = n"
    by (elim exE conjE) (rule that; assumption)
  have "set [0..<length (bz_list z1)] \<subseteq> all_slots z1" "distinct [0..<length (bz_list z1)]" by auto
  from serv_check_reconnect_slot [OF this, of "hs n" tick] z1(2) assms(1) obtain z' where
    z': "serv_check_reconnect (hs n) tick [0..<length (bz_list z1)] z1 = Some z'" "length (bz_list z') = length (bz_list z1)"
    "slot_checked (bz_list z1 ! i) (bz_list z' ! i)" by auto
  show ?case
  proof (cases "n < unat ?r")
    case True
    with z1(4,5) have n: "si_serv_conn (bz_list z1 ! i) = None" "unat (si_idle_cnt (bz_list z1 ! i)) = n" by auto
    have "unat (si_idle_cnt (bz_list z1 ! i)) + unat (1 :: u32) < 4294967296"
    proof -
      have "n + 1 < 4294967296" using True unat_lt_32 [of ?r] by linarith
      then show ?thesis by (simp add: n(2))
    qed
    from unat_add_fits_32 [OF this] have u: "unat (si_idle_cnt (bz_list z1 ! i) + 1) = n + 1" by (simp add: n(2))
    from z'(3) n(1) have "si_idle_cnt (bz_list z' ! i) = si_idle_cnt (bz_list z1 ! i) + 1"
      "si_reconnect_cnt (bz_list z' ! i) = ?r" "si_serv_conn (bz_list z' ! i) = None \<longleftrightarrow> n + 1 < unat ?r"
      using z1(3) u by (simp_all add: slot_checked_def less_unat_32)
    with u z1(1,2) z'(1,2) show ?thesis by simp
  next
    case False
    then have "si_serv_conn (bz_list z1 ! i) \<noteq> None" using z1(4) by simp
    with z'(3) have "bz_list z' ! i = bz_list z1 ! i" by (simp add: slot_checked_def)
    with False z1 z'(1,2) show ?thesis by auto
  qed
qed

lemma backoff_schedule:
  assumes "si_reconnect_cnt s = 2"
  shows "si_reconnect_cnt ((reset_info ^^ Suc k) s) = 4 * 2 ^ (k mod 5)"
proof -
  define f :: "u32 \<Rightarrow> u32" where "f r = (if r * 2 > 64 then 4 else r * 2)" for r
  have f: "f 4 = 8" "f 8 = 16" "f 16 = 32" "f 32 = 64" "f 64 = 4" "f 2 = 4" by (simp_all add: f_def)
  have step: "si_reconnect_cnt (reset_info t) = f (si_reconnect_cnt t)" for t by (simp add: reset_info_def Let_def f_def)
  have five: "(5 :: nat) = Suc (Suc (Suc (Suc (Suc 0))))" by simp
  have round: "(f ^^ 5) 4 = 4" unfolding five by (simp add: f)
  have cycle: "(f ^^ (5 * q)) 4 = 4" for q by (induction q) (simp_all add: funpow_add round)
  have small: "(f ^^ m) 4 = 4 * 2 ^ m" if "m < 5" for m
    using that unfolding five by (auto simp: less_Suc_eq f)
  have "si_reconnect_cnt ((reset_info ^^ n) t) = (f ^^ n) (si_reconnect_cnt t)" for n t
    by (induction n) (simp_all add: step)
  then have "si_reconnect_cnt ((reset_info ^^ Suc k) s) = (f ^^ Suc k) 2" using assms by metis
  also have "\<dots> = (f ^^ k) 4" by (simp add: funpow_swap1 f)
  also have "\<dots> = (f ^^ (k mod 5 + 5 * (k div 5))) 4" by simp
  also have "\<dots> = (f ^^ (k mod 5)) 4" unfolding funpow_add comp_def cycle ..
  also have "\<dots> = 4 * 2 ^ (k mod 5)" by (rule small) simp
  finally show ?thesis .
qed

subsection \<open>A connect that fails at once\<close>

lemma dead_not_registered: "biz_inv (all_slots z) z \<Longrightarrow> dead_slot i p z \<Longrightarrow> (h, p) \<notin> set (bz_map z)"
  by (auto simp: dead_slot_def dest: biz_invD(6))

lemma biz_Close_frame: "biz_Close q z = Some z' \<Longrightarrow> p \<noteq> q \<Longrightarrow> bz_conns z' p = bz_conns z p"
  by (auto simp: biz_Close_def biz_ReleaseRef_def serv_reset_def Let_def split: bind_splits if_splits)

lemma biz_OnTimer_frame: "biz_OnTimer hb now t q z = Some z' \<Longrightarrow> p \<noteq> q \<Longrightarrow> bz_conns z' p = bz_conns z p"
  by (auto simp: biz_OnTimer_def biz_Send_def dest!: biz_Close_frame split: bind_splits if_splits)

lemma timer_loop_frame:
  "timer_loop hb now t es z = Some z' \<Longrightarrow> p \<notin> snd ` set es \<Longrightarrow> bz_conns z' p = bz_conns z p"
  by (induction es arbitrary: z) (force dest!: biz_OnTimer_frame split: bind_splits if_splits)+

lemma check_reconnect_frame:
  "check_reconnect h tick i z = Some z' \<Longrightarrow> p < bz_fresh z \<Longrightarrow> bz_conns z' p = bz_conns z p \<and> p < bz_fresh z'"
  by (auto simp: check_reconnect_def serv_connect_Some Let_def split: if_splits)

lemma serv_check_reconnect_frame:
  "serv_check_reconnect hs tick is z = Some z' \<Longrightarrow> p < bz_fresh z \<Longrightarrow> bz_conns z' p = bz_conns z p"
  by (induction "is" arbitrary: z) (auto dest!: check_reconnect_frame split: bind_splits)

lemma dead_slot_step:
  "biz_step z z' \<Longrightarrow> biz_inv (all_slots z) z \<Longrightarrow> dead_slot i p z \<Longrightarrow> dead_slot i p z' \<and> bz_list z' ! i = bz_list z ! i"
proof (induction rule: biz_step.induct)
  case (Timer hb now t z z1 hs z')
  have reg: "p \<notin> snd ` set (bz_map z)" using dead_not_registered [OF Timer.prems] by auto
  have i: "i < length (bz_list z)" "si_serv_conn (bz_list z ! i) = Some p" using Timer.prems(2) by (auto simp: dead_slot_def)
  from timer_loop_inv [OF Timer.prems(1), of "bz_map z" hb now t] biz_invD(5) [OF Timer.prems(1)] Timer(1)
  have z1: "biz_inv (all_slots z1) z1" "length (bz_list z1) = length (bz_list z)" "bz_list z1 ! i = bz_list z ! i"
    using reg i by (auto simp: image_iff)
  have c1: "bz_conns z1 p = bz_conns z p" by (rule timer_loop_frame [OF Timer(1) reg])
  then have "p < bz_fresh z1" using Timer.prems(2) biz_invD(4) [OF z1(1), of p] by (auto simp: dead_slot_def)
  from Timer(1,3) have s: "serv_check_reconnect hs now [0..<length (bz_list z1)] z1 = Some z'"
    by (simp add: business_server_conn_timer_callback_def)
  have "set [0..<length (bz_list z1)] \<subseteq> all_slots z1" "distinct [0..<length (bz_list z1)]" by auto
  from serv_check_reconnect_slot [OF this, of hs now] s have
    "length (bz_list z') = length (bz_list z1)" "slot_checked (bz_list z1 ! i) (bz_list z' ! i)" using i z1(2) by auto
  with serv_check_reconnect_frame [OF s \<open>p < bz_fresh z1\<close>] c1 z1(2,3) i Timer.prems(2) show ?case
    by (auto simp: dead_slot_def slot_checked_def)
next
  case (Confirm h q z z')
  then have "q \<noteq> p" using dead_not_registered by blast
  from registered_slot [OF Confirm.prems(1) Confirm(1)] obtain c j where "bz_conns z q = Some c" "unat (bc_serv_idx c) = j"
    "si_serv_conn (bz_list z ! j) = Some q" by blast
  with \<open>q \<noteq> p\<close> Confirm show ?case by (cases "j = i") (auto simp: dead_slot_def biz_OnConfirm_def Let_def split: if_splits)
next
  case (Closed h q z z')
  then have "q \<noteq> p" using dead_not_registered by blast
  from biz_Close_inv [OF Closed.prems(1) Closed(1)] biz_Close_frame [of q z z' p] Closed \<open>q \<noteq> p\<close> show ?case
    by (auto simp: dead_slot_def biz_OnClose_def)
next
  case (PickLogin tick junk z q z')
  then show ?case using biz_invD(4) [OF PickLogin.prems(1), of p]
    by (auto simp: picks_def dead_slot_def CBusinessClientConn_def dest!: conn_in_ranges_result)
next
  case (Pick tick junk z q z')
  then show ?case using biz_invD(4) [OF Pick.prems(1), of p]
    by (auto simp: picks_def dead_slot_def CBusinessClientConn_def dest!: conn_in_ranges_result)
qed (simp add: dead_slot_def)

lemma dead_slot_reachable:
  "biz_step\<^sup>*\<^sup>* z z' \<Longrightarrow> biz_inv (all_slots z) z \<Longrightarrow> dead_slot i p z \<Longrightarrow>
   dead_slot i p z' \<and> bz_list z' ! i = bz_list z ! i"
proof (induction rule: rtranclp_induct)
  case (step y w)
  from biz_reachable_inv [OF step(1,4)] step(3) [OF step(4,5)] dead_slot_step [OF step(2), of i p] show ?case by auto
qed simp

subsection \<open>Reading the configuration\<close>

lemma decimal_inj: "decimal a = decimal b \<Longrightarrow> a = b"
  by (metis decimal_digits of_nat_eq_iff)

lemma decimal_length_mono: "n \<le> m \<Longrightarrow> length (decimal n) \<le> length (decimal m)"
proof (induction m arbitrary: n rule: decimal.induct)
  case (1 m)
  show ?case
  proof (cases "n < 10")
    case True
    then show ?thesis by (subst (1 2) decimal.simps) simp
  next
    case False
    with 1 have "length (decimal (n div 10)) \<le> length (decimal (m div 10))" by (simp add: div_le_mono)
    with False 1(2) show ?thesis by (subst (1 2) decimal.simps) simp
  qed
qed

lemma map_find_dom: "map_find k m \<noteq> None \<Longrightarrow> k \<in> fst ` set m"
  by (induction m) (auto split: if_splits)

text \<open>The loop over the keys ends: every round needs another key of the map.\<close>

lemma count_servers_ends:
  assumes "length ip_format + length (decimal (length (m_config_map cfg) + 1)) < 64"
    and "length port_format \<le> length ip_format"
  shows "\<exists>n. count_servers (Suc (length (m_config_map cfg))) cfg ip_format port_format 0 = Some n \<and>
    (\<forall>i < n. \<exists>k1 k2. server_key ip_format (i + 1) = Some k1 \<and> server_key port_format (i + 1) = Some k2 \<and>
       GetConfigName k1 cfg \<noteq> None \<and> GetConfigName k2 cfg \<noteq> None)"
proof -
  let ?L = "length (m_config_map cfg)"
  define present where "present i \<longleftrightarrow> GetConfigName (ip_format @ decimal (i + 1)) cfg \<noteq> None \<and>
    GetConfigName (port_format @ decimal (i + 1)) cfg \<noteq> None" for i
  have key: "server_key ip_format (i + 1) = Some (ip_format @ decimal (i + 1))"
    "server_key port_format (i + 1) = Some (port_format @ decimal (i + 1))" if "i \<le> ?L" for i
    using assms decimal_length_mono [of "i + 1" "?L + 1"] that by (auto simp: server_key_def Let_def)
  have run: "k + fuel = Suc ?L \<Longrightarrow> (\<forall>i < k. present i) \<Longrightarrow>
    (\<exists>n. count_servers fuel cfg ip_format port_format k = Some n \<and> (\<forall>i < n. present i) \<and> n \<le> ?L) \<or> (\<forall>i < Suc ?L. present i)" for fuel k
  proof (induction fuel arbitrary: k)
    case (Suc fuel)
    show ?case
    proof (cases "present k")
      case True
      with Suc.prems(2) have "\<forall>i < k + 1. present i" by (auto simp: less_Suc_eq)
      with Suc.IH [of "k + 1"] Suc.prems(1) True key [of k] show ?thesis by (auto simp: present_def)
    next
      case False
      with Suc.prems key [of k] show ?thesis by (auto simp: present_def)
    qed
  qed auto
  have "\<not> (\<forall>i < Suc ?L. present i)"
  proof
    assume all: "\<forall>i < Suc ?L. present i"
    let ?f = "\<lambda>i. ip_format @ decimal (i + 1)"
    have "?f ` {..<Suc ?L} \<subseteq> fst ` set (m_config_map cfg)"
    proof
      fix x assume "x \<in> ?f ` {..<Suc ?L}"
      then obtain i where "x = ?f i" "present i" using all by auto
      then have "map_find x (m_config_map cfg) \<noteq> None" by (auto simp: present_def GetConfigName_def split: if_splits)
      then show "x \<in> fst ` set (m_config_map cfg)" by (rule map_find_dom)
    qed
    then have "card (?f ` {..<Suc ?L}) \<le> card (fst ` set (m_config_map cfg))" by (rule card_mono [rotated]) simp
    also have "\<dots> \<le> ?L" by (metis card_length length_map set_map)
    finally show False using card_image [of ?f "{..<Suc ?L}"] by (auto simp: inj_on_def dest: decimal_inj)
  qed
  with run [of 0 "Suc ?L"] obtain n where n: "count_servers (Suc ?L) cfg ip_format port_format 0 = Some n" "\<forall>i < n. present i" "n \<le> ?L"
    by auto
  have "\<exists>k1 k2. server_key ip_format (i + 1) = Some k1 \<and> server_key port_format (i + 1) = Some k2 \<and>
       GetConfigName k1 cfg \<noteq> None \<and> GetConfigName k2 cfg \<noteq> None" if "i < n" for i
    using n(2,3) key [of i] that by (auto simp: present_def)
  with n(1) show ?thesis by blast
qed

section \<open>Properties\<close>

lemma choose_preferred:
  assumes "biz_inv (all_slots z) z" and "r \<in> set (bz_rand z)" and "bz_login_count z < length (bz_list z)"
    and "open_at z (r mod (length (bz_list z) - bz_login_count z) + bz_login_count z) = Some True"
  shows "\<exists>p i rs. get_business_serv_conn tick junk z = Some (p, z\<lparr>bz_rand := rs\<rparr>) \<and>
     bz_login_count z \<le> i \<and> i < length (bz_list z) \<and> open_at z i = Some True \<and> si_serv_conn (bz_list z ! i) = Some p"
  using in_range_Some [OF assms(1) order_refl assms(2-4)]
  by (auto simp: get_business_serv_conn_def conn_in_ranges_def)

text \<open>Without an open connection every request makes a new object that nothing refers to afterwards.\<close>

lemma choose_none:
  assumes "biz_inv (all_slots z) z" and "\<forall>i < length (bz_list z). open_at z i \<noteq> Some True"
  shows "get_business_serv_conn tick junk z = Some (CBusinessClientConn tick junk z)"
    and "get_business_serv_conn_for_login tick junk z = Some (CBusinessClientConn tick junk z)"
proof -
  have "get_business_server_conn_in_range a b z = Some (None, z)" if "b \<le> length (bz_list z)" for a b
    using in_range_None [OF assms(1) that] assms(2) that by simp
  with biz_invD(3) [OF assms(1)] show "get_business_serv_conn tick junk z = Some (CBusinessClientConn tick junk z)"
    and "get_business_serv_conn_for_login tick junk z = Some (CBusinessClientConn tick junk z)"
    by (simp_all add: picks_def conn_in_ranges_def)
qed

text \<open>
  C33. The list of business servers and its connections stay consistent: after the start, in every
  order of timers, confirmed and closed connections and requests for a connection, no pointer of
  the list or of the handle map dangles, and none of the callbacks leaves the list.
\<close>

theorem business_conns_safe:
  assumes "biz_start z" and "length server_list < 2 ^ 32" and "fresh_handles hs z" and "0 < k"
  shows "\<exists>z0. init_business_serv_conn hs tick server_list k z = Some z0 \<and>
    (\<forall>z'. biz_step\<^sup>*\<^sup>* z0 z' \<longrightarrow>
       (\<forall>h p. (h, p) \<in> set (bz_map z') \<longrightarrow> biz_OnConfirm p z' \<noteq> None \<and> biz_OnClose p z' \<noteq> None) \<and>
       (\<forall>i < length (bz_list z'). open_at z' i \<noteq> None) \<and>
       (\<forall>hb now t. \<exists>z1. timer_loop hb now t (bz_map z') z' = Some z1 \<and>
          (\<forall>hs. fresh_handles hs z1 \<longrightarrow> business_server_conn_timer_callback hb now t hs z' \<noteq> None)))"
proof -
  from init_inv [OF assms] obtain z0 where z0: "init_business_serv_conn hs tick server_list k z = Some z0" "biz_inv (all_slots z0) z0"
    by blast
  have "(\<forall>h p. (h, p) \<in> set (bz_map z') \<longrightarrow> biz_OnConfirm p z' \<noteq> None \<and> biz_OnClose p z' \<noteq> None) \<and>
       (\<forall>i < length (bz_list z'). open_at z' i \<noteq> None) \<and>
       (\<forall>hb now t. \<exists>z1. timer_loop hb now t (bz_map z') z' = Some z1 \<and>
          (\<forall>hs. fresh_handles hs z1 \<longrightarrow> business_server_conn_timer_callback hb now t hs z' \<noteq> None))"
    if "biz_step\<^sup>*\<^sup>* z0 z'" for z'
  proof (intro conjI allI impI)
    note inv = biz_reachable_inv [OF that z0(2)]
    fix h p hb now t i
    show "biz_OnConfirm p z' \<noteq> None" "biz_OnClose p z' \<noteq> None" if "(h, p) \<in> set (bz_map z')"
      using biz_OnConfirm_inv [OF inv that] biz_Close_inv [OF inv that] by (auto simp: biz_OnClose_def)
    show "open_at z' i \<noteq> None" if "i < length (bz_list z')" using open_at_defined [OF inv that] .
    show "\<exists>z1. timer_loop hb now t (bz_map z') z' = Some z1 \<and>
        (\<forall>hs. fresh_handles hs z1 \<longrightarrow> business_server_conn_timer_callback hb now t hs z' \<noteq> None)"
      proof -
      from timer_callback_inv [OF inv, of hb now t] obtain z1 where "timer_loop hb now t (bz_map z') z' = Some z1"
        "\<forall>hs. fresh_handles hs z1 \<longrightarrow>
           (\<exists>z''. business_server_conn_timer_callback hb now t hs z' = Some z'' \<and> biz_inv (all_slots z'') z'')" by blast
      then show ?thesis by force
    qed
  qed
  with z0(1) show ?thesis by blast
qed

text \<open>
  The waiting time of a lost server follows the schedule of the comment, 4, 8, 16, 32, 64 and again 4
  seconds: after \<open>k + 1\<close> failures in a row since the last success, the new connection is made by
  check number \<open>4 * 2 ^ (k mod 5)\<close> and by none before it.
\<close>

lemma reconnect_schedule:
  assumes "si_reconnect_cnt s = 2" and "i < length (bz_list z)" and "bz_list z ! i = (reset_info ^^ Suc k) s"
  shows "\<exists>z'. reconnect_checks hs tick n z = Some z' \<and>
     (si_serv_conn (bz_list z' ! i) = None \<longleftrightarrow> n < 4 * 2 ^ (k mod 5))"
proof -
  have r: "si_reconnect_cnt (bz_list z ! i) = 4 * 2 ^ (k mod 5)" using backoff_schedule [OF assms(1)] assms(3) by simp
  have "k mod 5 < Suc (Suc (Suc (Suc (Suc 0))))" by simp
  then have u: "unat (4 * 2 ^ (k mod 5) :: u32) = 4 * 2 ^ (k mod 5)" unfolding less_Suc_eq by auto
  have slot: "si_serv_conn (bz_list z ! i) = None" "si_idle_cnt (bz_list z ! i) = 0"
    using assms(3) by (simp_all add: reset_info_def Let_def)
  have "0 < unat (si_reconnect_cnt (bz_list z ! i))" unfolding r u by simp
  from reconnect_checks_slot [OF assms(2) slot this, of hs tick n] obtain z' where "reconnect_checks hs tick n z = Some z'"
    "si_serv_conn (bz_list z' ! i) = None \<longleftrightarrow> n < unat (si_reconnect_cnt (bz_list z ! i))"
    by (elim exE conjE) (rule that; assumption)
  then show ?thesis unfolding r u by (intro exI conjI)
qed

text \<open>
  A connect that fails at once is never tried again: the slot keeps the unconnected object, so
  it does not count as lost, and in every later state it is the same closed entry.
\<close>

lemma failed_connect_never_retried:
  assumes "biz_inv (all_slots z) z" and "i < length (bz_list z)" and "si_serv_conn (bz_list z ! i) = None"
    and "check_reconnect (-1) tick i z = Some z1" and "si_serv_conn (bz_list z1 ! i) \<noteq> None" and "biz_step\<^sup>*\<^sup>* z1 z'"
  shows "bz_list z' ! i = bz_list z1 ! i \<and> open_at z' i = Some False"
proof -
  from check_reconnect_inv [OF assms(1,2), of "-1" tick] assms(4) have inv: "biz_inv (all_slots z1) z1"
    "length (bz_list z1) = length (bz_list z)" by auto
  from assms(2-5) have d: "dead_slot i (bz_fresh z) z1"
    by (auto simp: check_reconnect_def serv_connect_Some dead_slot_def Let_def split: if_splits)
  from dead_slot_reachable [OF assms(6) inv(1) d] biz_reachable_inv [OF assms(6) inv(1)] show ?thesis
    by (auto simp: dead_slot_def open_at_def dest!: biz_invD(7) [where i = i])
qed

section \<open>Concrete servers\<close>

lemma fds_fresh: "fresh_handles fds sample_biz"
  by (simp add: fresh_handles_def fds_def sample_biz_def)

lemma sample_start: "biz_start sample_biz"
  by (simp add: biz_start_def sample_biz_def)

theorem business_conns_safe_witness:
  "\<exists>z0. init_business_serv_conn fds 0 [lost_server, lost_server] 1 sample_biz = Some z0 \<and>
     (\<forall>h p. (h, p) \<in> set (bz_map z0) \<longrightarrow> biz_OnClose p z0 \<noteq> None)"
  using business_conns_safe [OF sample_start _ fds_fresh, of "[lost_server, lost_server]" 1 0] by auto

lemma idle_biz_inv: "biz_inv (all_slots idle_biz) idle_biz"
  by (simp add: biz_inv_def idle_biz_def sample_biz_def lost_server_def backoff_ok_def)

end
