(* ===== verification/Cache_Conn.thy ===== *)
theory Cache_Conn
  imports Config_File_Reader Ptp_Helpers
begin

text \<open>
  \<^verbatim>\<open>class CacheConn\<close> of \<^verbatim>\<open>src/ptp_server/CachePool.cpp\<close>: a Redis connection that is opened on first
  use and dropped when a command gets no reply.

  The Redis client library and the server are the environment: the argument \<open>e\<close> of an operation
  holds the time, the outcome of the connection attempt and the replies (\<open>None\<close> for a null
  reply) to \<open>AUTH\<close>, \<open>SELECT\<close> and the command. Contexts are allocated objects: the state keeps the
  addresses in use, and using or freeing an address that is not in use is \<open>None\<close>. The state also
  keeps how many reply objects are allocated, on which contexts \<open>AUTH\<close> and \<open>SELECT\<close> succeeded,
  and the commands sent, as argument lists, with the context they went to. A C string ends at
  its first zero byte.
\<close>

section \<open>Replies and state\<close>

datatype reply_type = REDIS_REPLY_STRING | REDIS_REPLY_ARRAY | REDIS_REPLY_INTEGER | REDIS_REPLY_NIL
  | REDIS_REPLY_STATUS | REDIS_REPLY_ERROR

datatype redis_reply = Reply (r_type: reply_type) (r_str: "bytes option") (r_integer: int)
  (r_element: "redis_reply list")

record redis_env =
  re_time :: u64
  re_connect :: "bool option"
  re_auth :: "redis_reply option"
  re_select :: "redis_reply option"
  re_reply :: "redis_reply option"

record cache_conn =
  m_pContext :: "nat option"
  m_last_connect_time :: u64
  cc_contexts :: "nat list"
  cc_next :: nat
  cc_ready :: "nat list"
  cc_replies :: int
  cc_sent :: "(nat \<times> bytes list) list"

definition CacheConn :: cache_conn where
  "CacheConn = \<lparr>m_pContext = None, m_last_connect_time = 0, cc_contexts = [], cc_next = 0,
     cc_ready = [], cc_replies = 0, cc_sent = []\<rparr>"

definition decimal_int :: "int \<Rightarrow> bytes" where
  "decimal_int i = (if i < 0 then [45] else []) @ decimal (nat \<bar>i\<bar>)"

definition redisFree :: "nat \<Rightarrow> cache_conn \<Rightarrow> cache_conn option" where
  "redisFree p c = (if p \<in> set (cc_contexts c) then Some (c\<lparr>cc_contexts := removeAll p (cc_contexts c)\<rparr>) else None)"

text \<open>The destructor.\<close>

definition cc_destroy :: "cache_conn \<Rightarrow> cache_conn option" where
  "cc_destroy c =
     (case m_pContext c of None \<Rightarrow> Some c
      | Some p \<Rightarrow> map_option (\<lambda>c'. c'\<lparr>m_pContext := None\<rparr>) (redisFree p c))"

text \<open>A command on a context: the reply it yields is an allocated object.\<close>

definition redisCommand ::
  "redis_reply option \<Rightarrow> bytes list \<Rightarrow> cache_conn \<Rightarrow> (redis_reply option \<times> cache_conn) option" where
  "redisCommand reply args c = do {
     p \<leftarrow> m_pContext c;
     if p \<in> set (cc_contexts c)
     then Some (reply, c\<lparr>cc_sent := cc_sent c @ [(p, args)],
                         cc_replies := cc_replies c + (if reply = None then 0 else 1)\<rparr>)
     else None }"

definition freeReplyObject :: "cache_conn \<Rightarrow> cache_conn" where
  "freeReplyObject c = c\<lparr>cc_replies := cc_replies c - 1\<rparr>"

text \<open>\<open>strncmp(str, "OK", 2) == 0\<close> on a status reply.\<close>

definition is_OK :: "redis_reply option \<Rightarrow> bool" where
  "is_OK r = (case r of None \<Rightarrow> False
     | Some x \<Rightarrow> r_type x = REDIS_REPLY_STATUS \<and>
         (case r_str x of None \<Rightarrow> False | Some s \<Rightarrow> take 2 (cstr s) = [79, 75]))"

section \<open>Init\<close>

definition cc_Init :: "redis_env \<Rightarrow> bytes \<Rightarrow> int \<Rightarrow> cache_conn \<Rightarrow> (int \<times> cache_conn) option" where
  "cc_Init e auth db c =
     (if m_pContext c \<noteq> None then Some (0, c)
      else if re_time e < m_last_connect_time c + 4 then Some (1, c)
      else
        (let c1 = c\<lparr>m_last_connect_time := re_time e\<rparr>
         in case re_connect e of
              None \<Rightarrow> Some (1, c1)
            | Some err \<Rightarrow>
                (let p = cc_next c1;
                     c2 = c1\<lparr>m_pContext := Some p, cc_contexts := p # cc_contexts c1, cc_next := p + 1\<rparr>
                 in if err then do {
                      c3 \<leftarrow> redisFree p c2;
                      Some (1, c3\<lparr>m_pContext := None\<rparr>) }
                    else do {
                      (reply1, c3) \<leftarrow> redisCommand (re_auth e) [[65, 85, 84, 72], cstr auth] c2;
                      if is_OK reply1 then do {
                        (reply, c5) \<leftarrow> redisCommand (re_select e) [[83, 69, 76, 69, 67, 84], decimal_int db] (freeReplyObject c3);
                        if is_OK reply
                        then Some (0, (freeReplyObject c5)\<lparr>cc_ready := p # cc_ready c5\<rparr>)
                        else Some (2, c5) }
                      else Some (2, c3) })))"

section \<open>Commands\<close>

text \<open>
  What every command does around its reply: \<open>Init\<close>, the command, and either the context dropped
  (no reply) or the reply evaluated and freed. \<open>fail\<close> is the result without a connection,
  \<open>f\<close> reads the reply; \<open>None\<close> from \<open>f\<close> is an access outside what it points to.
\<close>

definition drop_context :: "cache_conn \<Rightarrow> cache_conn option" where
  "drop_context c = do {
     p \<leftarrow> m_pContext c;
     c' \<leftarrow> redisFree p c;
     Some (c'\<lparr>m_pContext := None\<rparr>) }"

definition redis_do ::
  "redis_env \<Rightarrow> bytes list \<Rightarrow> 'a \<Rightarrow> (redis_reply \<Rightarrow> 'a option) \<Rightarrow> cache_conn \<Rightarrow> ('a \<times> cache_conn) option" where
  "redis_do e args fail f c = do {
     (reply, c2) \<leftarrow> redisCommand (re_reply e) args c;
     (case reply of
        None \<Rightarrow> do { c3 \<leftarrow> drop_context c2; Some (fail, c3) }
      | Some r \<Rightarrow> do { v \<leftarrow> f r; Some (v, freeReplyObject c2) }) }"

definition redis_call ::
  "redis_env \<Rightarrow> bytes \<Rightarrow> int \<Rightarrow> bytes list \<Rightarrow> 'a \<Rightarrow> (redis_reply \<Rightarrow> 'a option) \<Rightarrow> cache_conn \<Rightarrow>
   ('a \<times> cache_conn) option" where
  "redis_call e auth db args fail f c = do {
     (ret, c1) \<leftarrow> cc_Init e auth db c;
     if ret \<noteq> 0 then Some (fail, c1) else redis_do e args fail f c1 }"

text \<open>\<open>append(reply->str, reply->len)\<close>; a null \<open>str\<close> comes with length 0.\<close>

definition reply_text :: "redis_reply \<Rightarrow> bytes" where
  "reply_text r = (case r_str r of None \<Rightarrow> [] | Some s \<Rightarrow> s)"

definition if_string :: "redis_reply \<Rightarrow> bytes option" where
  "if_string r = Some (if r_type r = REDIS_REPLY_STRING then reply_text r else [])"

definition elements :: "redis_reply \<Rightarrow> bytes list" where
  "elements r = (if r_type r = REDIS_REPLY_ARRAY then map reply_text (r_element r) else [])"

definition cc_get :: "redis_env \<Rightarrow> bytes \<Rightarrow> int \<Rightarrow> bytes \<Rightarrow> cache_conn \<Rightarrow> (bytes \<times> cache_conn) option" where
  "cc_get e auth db key = redis_call e auth db [[71, 69, 84], cstr key] [] if_string"

definition cc_setex ::
  "redis_env \<Rightarrow> bytes \<Rightarrow> int \<Rightarrow> bytes \<Rightarrow> int \<Rightarrow> bytes \<Rightarrow> cache_conn \<Rightarrow> (bytes \<times> cache_conn) option" where
  "cc_setex e auth db key timeout val =
     redis_call e auth db [[83, 69, 84, 69, 88], cstr key, decimal_int timeout, cstr val] [] (Some \<circ> reply_text)"

definition cc_set ::
  "redis_env \<Rightarrow> bytes \<Rightarrow> int \<Rightarrow> bytes \<Rightarrow> bytes \<Rightarrow> cache_conn \<Rightarrow> (bytes \<times> cache_conn) option" where
  "cc_set e auth db key val =
     redis_call e auth db [[83, 69, 84], cstr key, cstr val] [] (Some \<circ> reply_text)"

text \<open>
  \<open>mget\<close> joins the keys with blanks and hands the whole line over as the format string (a key
  with a percent sign would be read as a conversion; such keys are outside this model).
  \<open>keys[i]\<close> is read for every string element of the reply: an access past the end of \<open>keys\<close>
  is \<open>None\<close>. \<open>ret_value[k] = v\<close> is an insertion followed by an assignment.
\<close>

fun join_keys :: "bytes list \<Rightarrow> bytes" where
  "join_keys [] = []"
| "join_keys [k] = k"
| "join_keys (k # ks) = k @ [32] @ join_keys ks"

definition map_put :: "bytes \<Rightarrow> bytes \<Rightarrow> str_map \<Rightarrow> str_map" where
  "map_put k v m = map_assign k v (map_insert k v m)"

fun mget_loop :: "nat \<Rightarrow> bytes list \<Rightarrow> redis_reply list \<Rightarrow> str_map \<Rightarrow> str_map option" where
  "mget_loop i keys [] m = Some m"
| "mget_loop i keys (r # rs) m =
     (if r_type r = REDIS_REPLY_STRING then
        (if i < length keys then mget_loop (i + 1) keys rs (map_put (keys ! i) (cstr (reply_text r)) m)
         else None)
      else mget_loop (i + 1) keys rs m)"

definition mget_reply :: "bytes list \<Rightarrow> str_map \<Rightarrow> redis_reply \<Rightarrow> (bool \<times> str_map) option" where
  "mget_reply keys m r =
     (if r_type r = REDIS_REPLY_ARRAY
      then map_option (Pair True) (mget_loop 0 keys (r_element r) m) else Some (True, m))"

definition cc_mget ::
  "redis_env \<Rightarrow> bytes \<Rightarrow> int \<Rightarrow> bytes list \<Rightarrow> str_map \<Rightarrow> cache_conn \<Rightarrow>
   ((bool \<times> str_map) \<times> cache_conn) option" where
  "cc_mget e auth db keys m c = do {
     (ret, c1) \<leftarrow> cc_Init e auth db c;
     if ret \<noteq> 0 \<or> keys = [] \<or> join_keys keys = [] then Some ((False, m), c1)
     else redis_do e [[77, 71, 69, 84, 32] @ cstr (join_keys keys)] (False, m) (mget_reply keys m) c1 }"

text \<open>\<open>isExists\<close> frees the context on a null reply but does not reset the pointer.\<close>

definition cc_isExists ::
  "redis_env \<Rightarrow> bytes \<Rightarrow> int \<Rightarrow> bytes \<Rightarrow> cache_conn \<Rightarrow> (bool \<times> cache_conn) option" where
  "cc_isExists e auth db key c = do {
     (ret, c1) \<leftarrow> cc_Init e auth db c;
     if ret \<noteq> 0 then Some (False, c1)
     else do {
       (reply, c2) \<leftarrow> redisCommand (re_reply e) [[69, 88, 73, 83, 84, 83], cstr key] c1;
       (case reply of
          None \<Rightarrow> do { p \<leftarrow> m_pContext c2; c3 \<leftarrow> redisFree p c2; Some (False, c3) }
        | Some r \<Rightarrow> Some (r_integer r \<noteq> 0, freeReplyObject c2)) } }"

type_synonym int_cmd = "cache_conn \<Rightarrow> (int \<times> cache_conn) option"

definition cc_hdel :: "redis_env \<Rightarrow> bytes \<Rightarrow> int \<Rightarrow> bytes \<Rightarrow> bytes \<Rightarrow> int_cmd" where
  "cc_hdel e auth db key field =
     redis_call e auth db [[72, 68, 69, 76], cstr key, cstr field] 0 (Some \<circ> r_integer)"

definition cc_hget ::
  "redis_env \<Rightarrow> bytes \<Rightarrow> int \<Rightarrow> bytes \<Rightarrow> bytes \<Rightarrow> cache_conn \<Rightarrow> (bytes \<times> cache_conn) option" where
  "cc_hget e auth db key field =
     redis_call e auth db [[72, 71, 69, 84], cstr key, cstr field] [] if_string"

text \<open>\<open>hgetAll\<close>: pairs of field and value; \<open>insert\<close> keeps an existing value.\<close>

fun hgetAll_loop :: "bytes list \<Rightarrow> str_map \<Rightarrow> str_map" where
  "hgetAll_loop (f # v # r) m = hgetAll_loop r (map_insert f v m)"
| "hgetAll_loop _ m = m"

definition hgetAll_reply :: "str_map \<Rightarrow> redis_reply \<Rightarrow> (bool \<times> str_map) option" where
  "hgetAll_reply m r =
     Some (True, if r_type r = REDIS_REPLY_ARRAY \<and> even (length (r_element r))
                 then hgetAll_loop (map reply_text (r_element r)) m else m)"

definition cc_hgetAll ::
  "redis_env \<Rightarrow> bytes \<Rightarrow> int \<Rightarrow> bytes \<Rightarrow> str_map \<Rightarrow> cache_conn \<Rightarrow> ((bool \<times> str_map) \<times> cache_conn) option" where
  "cc_hgetAll e auth db key m =
     redis_call e auth db [[72, 71, 69, 84, 65, 76, 76], cstr key] (False, m) (hgetAll_reply m)"

definition cc_hset :: "redis_env \<Rightarrow> bytes \<Rightarrow> int \<Rightarrow> bytes \<Rightarrow> bytes \<Rightarrow> bytes \<Rightarrow> int_cmd" where
  "cc_hset e auth db key field val =
     redis_call e auth db [[72, 83, 69, 84], cstr key, cstr field, cstr val] (-1) (Some \<circ> r_integer)"

definition cc_hincrBy :: "redis_env \<Rightarrow> bytes \<Rightarrow> int \<Rightarrow> bytes \<Rightarrow> bytes \<Rightarrow> int \<Rightarrow> int_cmd" where
  "cc_hincrBy e auth db key field val =
     redis_call e auth db [[72, 73, 78, 67, 82, 66, 89], cstr key, cstr field, decimal_int val] (-1) (Some \<circ> r_integer)"

definition cc_incrBy :: "redis_env \<Rightarrow> bytes \<Rightarrow> int \<Rightarrow> bytes \<Rightarrow> int \<Rightarrow> int_cmd" where
  "cc_incrBy e auth db key val =
     redis_call e auth db [[73, 78, 67, 82, 66, 89], cstr key, decimal_int val] (-1) (Some \<circ> r_integer)"

definition cc_hmset ::
  "redis_env \<Rightarrow> bytes \<Rightarrow> int \<Rightarrow> bytes \<Rightarrow> str_map \<Rightarrow> cache_conn \<Rightarrow> (bytes \<times> cache_conn) option" where
  "cc_hmset e auth db key hash =
     redis_call e auth db
       ([[72, 77, 83, 69, 84], cstr key] @ concat (map (\<lambda>(f, v). [cstr f, cstr v]) hash)) []
       (Some \<circ> reply_text)"

type_synonym list_cmd = "cache_conn \<Rightarrow> ((bool \<times> bytes list) \<times> cache_conn) option"

text \<open>The list results are appended to the caller's list; \<open>None\<close> is a null result list.\<close>

definition list_reply :: "bytes list \<Rightarrow> redis_reply \<Rightarrow> (bool \<times> bytes list) option" where
  "list_reply out r = Some (True, out @ elements r)"

definition list_reply_opt ::
  "bytes list option \<Rightarrow> redis_reply \<Rightarrow> (bool \<times> bytes list option) option" where
  "list_reply_opt out r = Some (True, map_option (\<lambda>l. l @ elements r) out)"

definition cc_hmget :: "redis_env \<Rightarrow> bytes \<Rightarrow> int \<Rightarrow> bytes \<Rightarrow> bytes list \<Rightarrow> bytes list \<Rightarrow> list_cmd" where
  "cc_hmget e auth db key flds out =
     redis_call e auth db ([[72, 77, 71, 69, 84], cstr key] @ map cstr flds) (False, out) (list_reply out)"

definition cc_exec ::
  "redis_env \<Rightarrow> bytes \<Rightarrow> int \<Rightarrow> bytes list \<Rightarrow> bytes list option \<Rightarrow> cache_conn \<Rightarrow>
   ((bool \<times> bytes list option) \<times> cache_conn) option" where
  "cc_exec e auth db argv_list out c = do {
     (ret, c1) \<leftarrow> cc_Init e auth db c;
     if ret \<noteq> 0 \<or> argv_list = [] then Some ((False, out), c1)
     else redis_do e (map cstr argv_list) (False, out) (list_reply_opt out) c1 }"

definition cc_cmd ::
  "redis_env \<Rightarrow> bytes \<Rightarrow> int \<Rightarrow> bytes \<Rightarrow> bytes \<Rightarrow> bytes list option \<Rightarrow> bytes list option \<Rightarrow> cache_conn \<Rightarrow>
   ((bool \<times> bytes list option) \<times> cache_conn) option" where
  "cc_cmd e auth db cmd_name key argv_list out =
     redis_call e auth db
       ([cstr cmd_name, cstr key] @ (case argv_list of None \<Rightarrow> [] | Some l \<Rightarrow> map cstr l)) (False, out)
       (list_reply_opt out)"

definition cc_incr :: "redis_env \<Rightarrow> bytes \<Rightarrow> int \<Rightarrow> bytes \<Rightarrow> int_cmd" where
  "cc_incr e auth db key = redis_call e auth db [[73, 78, 67, 82], cstr key] (-1) (Some \<circ> r_integer)"

definition cc_decr :: "redis_env \<Rightarrow> bytes \<Rightarrow> int \<Rightarrow> bytes \<Rightarrow> int_cmd" where
  "cc_decr e auth db key = redis_call e auth db [[68, 69, 67, 82], cstr key] (-1) (Some \<circ> r_integer)"

definition cc_lpush :: "redis_env \<Rightarrow> bytes \<Rightarrow> int \<Rightarrow> bytes \<Rightarrow> bytes \<Rightarrow> int_cmd" where
  "cc_lpush e auth db key val =
     redis_call e auth db [[76, 80, 85, 83, 72], cstr key, cstr val] (-1) (Some \<circ> r_integer)"

definition cc_rpush :: "redis_env \<Rightarrow> bytes \<Rightarrow> int \<Rightarrow> bytes \<Rightarrow> bytes \<Rightarrow> int_cmd" where
  "cc_rpush e auth db key val =
     redis_call e auth db [[82, 80, 85, 83, 72], cstr key, cstr val] (-1) (Some \<circ> r_integer)"

definition cc_llen :: "redis_env \<Rightarrow> bytes \<Rightarrow> int \<Rightarrow> bytes \<Rightarrow> int_cmd" where
  "cc_llen e auth db key = redis_call e auth db [[76, 76, 69, 78], cstr key] (-1) (Some \<circ> r_integer)"

text \<open>\<open>lrange\<close> prints its \<open>long\<close> bounds with \<open>%d\<close>, which reads the low 32 bits as an \<open>int\<close>.\<close>

definition arg_d :: "int \<Rightarrow> bytes" where
  "arg_d i = decimal_int (sint (of_int i :: u32))"

definition cc_lrange :: "redis_env \<Rightarrow> bytes \<Rightarrow> int \<Rightarrow> bytes \<Rightarrow> int \<Rightarrow> int \<Rightarrow> bytes list \<Rightarrow> list_cmd" where
  "cc_lrange e auth db key start end_pos out =
     redis_call e auth db [[76, 82, 65, 78, 71, 69], cstr key, arg_d start, arg_d end_pos]
       (False, out) (list_reply out)"

section \<open>Invariant and sequences of commands\<close>

text \<open>
  The context pointer is null and no context is allocated, or it points to the only
  allocated context.
\<close>

definition cc_wf :: "cache_conn \<Rightarrow> bool" where
  "cc_wf c \<longleftrightarrow> cc_contexts c = (case m_pContext c of None \<Rightarrow> [] | Some p \<Rightarrow> [p])
     \<and> (\<forall>p. m_pContext c = Some p \<longrightarrow> p < cc_next c)"

datatype cache_op =
    CGet bytes | CSetex bytes int bytes | CSet bytes bytes | CMget "bytes list" str_map | CIsExists bytes
  | CHdel bytes bytes | CHget bytes bytes | CHgetAll bytes str_map | CHset bytes bytes bytes
  | CHincrBy bytes bytes int | CIncrBy bytes int | CHmset bytes str_map
  | CHmget bytes "bytes list" "bytes list" | CExec "bytes list" "bytes list option"
  | CCmd bytes bytes "bytes list option" "bytes list option"
  | CIncr bytes | CDecr bytes | CLpush bytes bytes | CRpush bytes bytes | CLlen bytes
  | CLrange bytes int int "bytes list"

fun cache_step :: "bytes \<Rightarrow> int \<Rightarrow> redis_env \<Rightarrow> cache_op \<Rightarrow> cache_conn \<Rightarrow> cache_conn option" where
  "cache_step a d e (CGet k) c = map_option snd (cc_get e a d k c)"
| "cache_step a d e (CSetex k t v) c = map_option snd (cc_setex e a d k t v c)"
| "cache_step a d e (CSet k v) c = map_option snd (cc_set e a d k v c)"
| "cache_step a d e (CMget ks m) c = map_option snd (cc_mget e a d ks m c)"
| "cache_step a d e (CIsExists k) c = map_option snd (cc_isExists e a d k c)"
| "cache_step a d e (CHdel k f) c = map_option snd (cc_hdel e a d k f c)"
| "cache_step a d e (CHget k f) c = map_option snd (cc_hget e a d k f c)"
| "cache_step a d e (CHgetAll k m) c = map_option snd (cc_hgetAll e a d k m c)"
| "cache_step a d e (CHset k f v) c = map_option snd (cc_hset e a d k f v c)"
| "cache_step a d e (CHincrBy k f v) c = map_option snd (cc_hincrBy e a d k f v c)"
| "cache_step a d e (CIncrBy k v) c = map_option snd (cc_incrBy e a d k v c)"
| "cache_step a d e (CHmset k h) c = map_option snd (cc_hmset e a d k h c)"
| "cache_step a d e (CHmget k fs l) c = map_option snd (cc_hmget e a d k fs l c)"
| "cache_step a d e (CExec l w) c = map_option snd (cc_exec e a d l w c)"
| "cache_step a d e (CCmd n k l w) c = map_option snd (cc_cmd e a d n k l w c)"
| "cache_step a d e (CIncr k) c = map_option snd (cc_incr e a d k c)"
| "cache_step a d e (CDecr k) c = map_option snd (cc_decr e a d k c)"
| "cache_step a d e (CLpush k v) c = map_option snd (cc_lpush e a d k v c)"
| "cache_step a d e (CRpush k v) c = map_option snd (cc_rpush e a d k v c)"
| "cache_step a d e (CLlen k) c = map_option snd (cc_llen e a d k c)"
| "cache_step a d e (CLrange k s t l) c = map_option snd (cc_lrange e a d k s t l c)"

fun cache_run :: "bytes \<Rightarrow> int \<Rightarrow> (redis_env \<times> cache_op) list \<Rightarrow> cache_conn \<Rightarrow> cache_conn option" where
  "cache_run a d [] c = Some c"
| "cache_run a d ((e, x) # xs) c = do { c' \<leftarrow> cache_step a d e x c; cache_run a d xs c' }"

text \<open>
  The two commands that leave defined behaviour on some reply: \<open>isExists\<close> without a reply, and
  \<open>mget\<close> with more elements in the reply than keys.
\<close>

fun reply_accepted :: "redis_env \<times> cache_op \<Rightarrow> bool" where
  "reply_accepted (e, CIsExists k) = (re_reply e \<noteq> None)"
| "reply_accepted (e, CMget ks m) =
     (case re_reply e of None \<Rightarrow> True | Some r \<Rightarrow> length (r_element r) \<le> length ks)"
| "reply_accepted _ = True"

text \<open>An environment in which a new connection is accepted by \<open>AUTH\<close> and \<open>SELECT\<close>.\<close>

definition login_ok :: "redis_env \<Rightarrow> bool" where
  "login_ok e \<longleftrightarrow> is_OK (re_auth e) \<and> is_OK (re_select e)"

text \<open>
  No reply object is left, and commands only went to contexts on which \<open>AUTH\<close> and \<open>SELECT\<close>
  succeeded.
\<close>

definition cc_login :: "cache_conn \<Rightarrow> bool" where
  "cc_login c \<longleftrightarrow> cc_replies c = 0 \<and> fst ` set (cc_sent c) \<subseteq> set (cc_ready c)
     \<and> (\<forall>p. m_pContext c = Some p \<longrightarrow> p \<in> set (cc_ready c))"

text \<open>The invariant carried through a command; \<open>b\<close> says whether all logins succeed.\<close>

definition cc_inv :: "bool \<Rightarrow> cache_conn \<Rightarrow> bool" where
  "cc_inv b c \<longleftrightarrow> cc_wf c \<and> (b \<longrightarrow> cc_login c)"

definition reply_OK :: redis_reply where
  "reply_OK = Reply REDIS_REPLY_STATUS (Some [79, 75]) 0 []"

definition env_get :: redis_env where
  "env_get = \<lparr>re_time = 100, re_connect = Some False, re_auth = Some reply_OK, re_select = Some reply_OK,
     re_reply = Some (Reply REDIS_REPLY_STRING (Some [49]) 0 [])\<rparr>"

definition env_rejected :: redis_env where
  "env_rejected = env_get\<lparr>re_auth := Some (Reply REDIS_REPLY_ERROR (Some [69, 82, 82]) 0 [])\<rparr>"

section \<open>Every command keeps the connection usable\<close>

lemma CacheConn_inv: "cc_inv b CacheConn"
  by (simp add: cc_inv_def cc_wf_def cc_login_def CacheConn_def)

lemma cc_wf_cases:
  assumes "cc_wf c"
  obtains (closed) "m_pContext c = None" "cc_contexts c = []"
    | (opened) p where "m_pContext c = Some p" "cc_contexts c = [p]" "p < cc_next c"
  using assms by (cases "m_pContext c") (auto simp: cc_wf_def)

lemma cc_Init_inv:
  assumes "cc_inv b c" and "b \<longrightarrow> login_ok e"
  obtains ret c1 where "cc_Init e a d c = Some (ret, c1)" "cc_inv b c1"
    "ret = 0 \<Longrightarrow> m_pContext c1 \<noteq> None"
proof -
  have "\<exists>ret c1. cc_Init e a d c = Some (ret, c1) \<and> cc_inv b c1 \<and> (ret = 0 \<longrightarrow> m_pContext c1 \<noteq> None)"
  proof -
    from assms(1) have "cc_wf c" by (simp add: cc_inv_def)
    then show ?thesis
    proof (cases rule: cc_wf_cases)
      case closed
      then show ?thesis
        using assms
        by (cases "re_connect e"; cases "re_auth e"; cases "re_select e")
          (auto simp: cc_Init_def Let_def redisCommand_def redisFree_def freeReplyObject_def cc_inv_def
            cc_wf_def cc_login_def login_ok_def is_OK_def)
    next
      case opened
      then show ?thesis using assms by (auto simp: cc_Init_def)
    qed
  qed
  then show ?thesis using that by blast
qed

lemma redis_do_inv:
  assumes "cc_inv b c" and "m_pContext c \<noteq> None" and "\<And>r. re_reply e = Some r \<Longrightarrow> f r \<noteq> None"
  shows "\<exists>v c'. redis_do e args fail f c = Some (v, c') \<and> cc_inv b c'"
proof -
  from assms(1) have "cc_wf c" by (simp add: cc_inv_def)
  then show ?thesis
    using assms
    by (cases rule: cc_wf_cases; cases "re_reply e")
      (auto simp: redis_do_def redisCommand_def redisFree_def drop_context_def freeReplyObject_def
        cc_inv_def cc_wf_def cc_login_def)
qed

lemma redis_call_inv:
  assumes "cc_inv b c" and "b \<longrightarrow> login_ok e" and "\<And>r. re_reply e = Some r \<Longrightarrow> f r \<noteq> None"
  shows "\<exists>v c'. redis_call e a d args fail f c = Some (v, c') \<and> cc_inv b c'"
proof -
  obtain ret c1 where 1: "cc_Init e a d c = Some (ret, c1)" "cc_inv b c1" "ret = 0 \<Longrightarrow> m_pContext c1 \<noteq> None"
    using assms cc_Init_inv by blast
  show ?thesis
  proof (cases "ret = 0")
    case True
    with 1 assms(3) redis_do_inv [of b c1 e f args fail] show ?thesis by (auto simp: redis_call_def)
  next
    case False
    with 1 show ?thesis by (simp add: redis_call_def)
  qed
qed

lemma mget_loop_some: "i + length rs \<le> length keys \<Longrightarrow> mget_loop i keys rs m \<noteq> None"
  by (induction rs arbitrary: i m) auto

lemma cc_mget_inv:
  assumes "cc_inv b c" and "b \<longrightarrow> login_ok e" and "reply_accepted (e, CMget keys m)"
  shows "\<exists>v c'. cc_mget e a d keys m c = Some (v, c') \<and> cc_inv b c'"
proof -
  obtain ret c1 where 1: "cc_Init e a d c = Some (ret, c1)" "cc_inv b c1" "ret = 0 \<Longrightarrow> m_pContext c1 \<noteq> None"
    using assms cc_Init_inv by blast
  have f: "mget_reply keys m r \<noteq> None" if "re_reply e = Some r" for r
    using assms(3) that mget_loop_some [of 0 "r_element r" keys m] by (auto simp: mget_reply_def)
  show ?thesis
  proof (cases "ret \<noteq> 0 \<or> keys = [] \<or> join_keys keys = []")
    case True
    with 1 show ?thesis by (auto simp: cc_mget_def)
  next
    case False
    then show ?thesis
      using 1 redis_do_inv [OF 1(2) 1(3) f] by (simp add: cc_mget_def)
  qed
qed

lemma cc_isExists_answered:
  "re_reply e \<noteq> None \<Longrightarrow>
   cc_isExists e a d key c =
     redis_call e a d [[69, 88, 73, 83, 84, 83], cstr key] False (\<lambda>r. Some (r_integer r \<noteq> 0)) c"
  by (auto simp: cc_isExists_def redis_call_def redis_do_def redisCommand_def split: option.splits bind_splits)

lemma cc_exec_inv:
  assumes "cc_inv b c" and "b \<longrightarrow> login_ok e"
  shows "\<exists>v c'. cc_exec e a d l out c = Some (v, c') \<and> cc_inv b c'"
proof -
  obtain ret c1 where 1: "cc_Init e a d c = Some (ret, c1)" "cc_inv b c1" "ret = 0 \<Longrightarrow> m_pContext c1 \<noteq> None"
    using assms cc_Init_inv by blast
  show ?thesis
  proof (cases "ret \<noteq> 0 \<or> l = []")
    case True
    with 1 show ?thesis by (auto simp: cc_exec_def)
  next
    case False
    then show ?thesis
      using 1 redis_do_inv [of b c1 e "list_reply_opt out" "map cstr l" "(False, out)"]
      by (simp add: cc_exec_def list_reply_opt_def)
  qed
qed

lemmas cc_ops = cc_get_def cc_setex_def cc_set_def cc_hdel_def cc_hget_def cc_hgetAll_def cc_hset_def
  cc_hincrBy_def cc_incrBy_def cc_hmset_def cc_hmget_def cc_cmd_def cc_incr_def cc_decr_def cc_lpush_def
  cc_rpush_def cc_llen_def cc_lrange_def

lemmas reply_ops = if_string_def hgetAll_reply_def list_reply_def list_reply_opt_def

lemma redis_call_step:
  assumes "cc_inv b c" and "b \<longrightarrow> login_ok e" and "\<And>r. f r \<noteq> None"
  shows "\<exists>c'. map_option snd (redis_call e a d args fail f c) = Some c' \<and> cc_inv b c'"
  using redis_call_inv [of b c e f a d args fail] assms by auto

lemma cache_step_inv:
  assumes "cc_inv b c" and "b \<longrightarrow> login_ok e" and "reply_accepted (e, x)"
  shows "\<exists>c'. cache_step a d e x c = Some c' \<and> cc_inv b c'"
proof (cases x)
  case (CMget ks m)
  then show ?thesis using cc_mget_inv [of b c e ks m a d] assms by auto
next
  case (CIsExists k)
  then show ?thesis using assms by (simp add: cc_isExists_answered redis_call_step del: map_option_eq_Some)
next
  case (CExec l w)
  then show ?thesis using cc_exec_inv [of b c e a d l w] assms by auto
qed (use assms in \<open>simp_all add: cc_ops reply_ops redis_call_step del: map_option_eq_Some\<close>)

lemma cache_run_inv:
  assumes "cc_inv b c" and "\<forall>(e, x) \<in> set xs. (b \<longrightarrow> login_ok e) \<and> reply_accepted (e, x)"
  shows "\<exists>c'. cache_run a d xs c = Some c' \<and> cc_inv b c'"
  using assms
proof (induction xs arbitrary: c)
  case (Cons z xs)
  obtain e x where z: "z = (e, x)" by (cases z)
  with Cons.prems cache_step_inv [of b c e x a d]
  obtain c1 where "cache_step a d e x c = Some c1" "cc_inv b c1" by auto
  with Cons z show ?case by auto
qed simp
section \<open>Properties\<close>



text \<open>
  \<open>isExists\<close> frees the context when no reply arrives but keeps the pointer to it: the call
  returns false, and then every \<open>get\<close> uses the freed context and the destructor frees it again.
\<close>

lemma isExists_dangling:
  assumes "cc_wf c" and "m_pContext c = Some p" and "re_reply e = None"
  shows "\<exists>c'. cc_isExists e auth db key c = Some (False, c') \<and>
     (\<forall>e' key'. cc_get e' auth db key' c' = None) \<and> cc_destroy c' = None"
  using assms
  by (auto simp: cc_isExists_def cc_Init_def redisCommand_def redisFree_def cc_get_def redis_call_def
      redis_do_def cc_destroy_def cc_wf_def)

text \<open>
  When \<open>AUTH\<close> is rejected the connection is kept: the command that opened it fails, but the
  next one finds a context, skips the login and sends its command on the context that never
  logged in. The rejected reply is not freed.
\<close>

lemma rejected_login_reused:
  assumes "cc_wf c" and "m_pContext c = None" and "re_time e \<ge> m_last_connect_time c + 4"
    and "re_connect e = Some False" and "re_auth e = Some r" and "\<not> is_OK (Some r)"
    and "cc_next c \<notin> set (cc_ready c)"
  shows "\<exists>c1. cc_get e auth db key c = Some ([], c1) \<and> cc_replies c1 = cc_replies c + 1 \<and>
     (\<exists>v c2. cc_get e' auth db key' c1 = Some (v, c2) \<and>
        last (cc_sent c2) = (cc_next c, [[71, 69, 84], cstr key']) \<and> cc_next c \<notin> set (cc_ready c2))"
  using assms
  by (cases "re_reply e'")
    (auto simp: cc_get_def redis_call_def redis_do_def cc_Init_def Let_def redisCommand_def redisFree_def
      drop_context_def freeReplyObject_def if_string_def)

end
