(* ===== verification/Db_Conn.thy ===== *)
theory Db_Conn
  imports Config_File_Reader Ptp_Helpers
begin

text \<open>
  The MySQL side of \<^verbatim>\<open>src/ptp_server/DBPool.h\<close> and \<^verbatim>\<open>src/ptp_server/DBPool.cpp\<close>: result sets
  (\<open>CResultSet\<close>), prepared statements (\<open>CPrepareStatement\<close>) and connections (\<open>CDBConn\<close>).

  The MySQL client library is the environment: the outcomes of its calls are arguments, and
  \<open>mysql_real_escape_string\<close> is the function argument \<open>esc\<close>. Handles are allocated objects, kept
  in the record \<open>mysql_heap\<close>. \<open>None\<close> is undefined behaviour: a null pointer used, an array accessed
  out of range, an uninitialised row read.
\<close>

section \<open>CResultSet\<close>

text \<open>A row holds \<open>None\<close> for an SQL NULL. \<open>m_row\<close> is \<open>None\<close> while it is uninitialised or null.\<close>

type_synonym db_row = "bytes option list"

record mysql_res =
  res_fields :: "bytes list"
  res_rows :: "db_row list"

record result_set =
  m_res :: mysql_res
  m_row :: "db_row option"
  m_key_map :: "bytes \<rightharpoonup> nat"

fun key_map_loop :: "bytes list \<Rightarrow> nat \<Rightarrow> (bytes \<rightharpoonup> nat) \<Rightarrow> (bytes \<rightharpoonup> nat)" where
  "key_map_loop [] i m = m"
| "key_map_loop (f # fs) i m = key_map_loop fs (i + 1) (if m f = None then m(f \<mapsto> i) else m)"

definition CResultSet :: "mysql_res \<Rightarrow> result_set" where
  "CResultSet res = \<lparr>m_res = res, m_row = None, m_key_map = key_map_loop (res_fields res) 0 Map.empty\<rparr>"

definition rs_Next :: "result_set \<Rightarrow> bool \<times> result_set" where
  "rs_Next r =
     (case res_rows (m_res r) of
        [] \<Rightarrow> (False, r\<lparr>m_row := None\<rparr>)
      | row # rest \<Rightarrow> (True, r\<lparr>m_row := Some row, m_res := (m_res r)\<lparr>res_rows := rest\<rparr>\<rparr>))"

definition GetIndex :: "bytes \<Rightarrow> result_set \<Rightarrow> int" where
  "GetIndex key r = (case m_key_map r key of None \<Rightarrow> -1 | Some i \<Rightarrow> int i)"

definition row_at :: "result_set \<Rightarrow> int \<Rightarrow> bytes option option" where
  "row_at r idx = do {
     row \<leftarrow> m_row r;
     if 0 \<le> idx \<and> nat idx < length row then Some (row ! nat idx) else None }"

text \<open>\<open>atoi\<close> of a null pointer is undefined.\<close>

definition rs_GetInt :: "bytes \<Rightarrow> result_set \<Rightarrow> int option" where
  "rs_GetInt key r =
     (let idx = GetIndex key r
      in if idx = -1 then Some 0 else do { col \<leftarrow> row_at r idx; s \<leftarrow> col; atoi s })"

text \<open>\<open>Some None\<close> is the null pointer, for an unknown column and for an SQL NULL.\<close>

definition rs_GetString :: "bytes \<Rightarrow> result_set \<Rightarrow> bytes option option" where
  "rs_GetString key r =
     (let idx = GetIndex key r in if idx = -1 then Some None else row_at r idx)"

text \<open>The loop callers write around \<open>Next\<close>: collect a column over all rows.\<close>

function rs_column :: "bytes \<Rightarrow> result_set \<Rightarrow> bytes option list option" where
  "rs_column key r =
     (let (more_rows, r1) = rs_Next r
      in if \<not> more_rows then Some []
         else do { v \<leftarrow> rs_GetString key r1; vs \<leftarrow> rs_column key r1; Some (v # vs) })"
  by pat_completeness auto
termination
  by (relation "measure (\<lambda>(key, r). length (res_rows (m_res r)))")
    (auto simp: rs_Next_def split: list.splits)

declare rs_column.simps [simp del]

section \<open>CPrepareStatement\<close>

text \<open>
  A bind structure holds the address of the caller's variable. Type codes are those of the
  MySQL protocol: 3 for \<open>MYSQL_TYPE_LONG\<close>, 254 for \<open>MYSQL_TYPE_STRING\<close>.
\<close>

record mysql_bind =
  buffer_type :: nat
  buffer :: "nat option"
  buffer_length :: u64
  is_unsigned :: bool

definition zero_bind :: mysql_bind where
  "zero_bind = \<lparr>buffer_type = 0, buffer = None, buffer_length = 0, is_unsigned = False\<rparr>"

record prepare_statement =
  m_stmt :: "nat option"
  m_param_bind :: "mysql_bind list option"
  m_param_cnt :: u32

definition CPrepareStatement :: prepare_statement where
  "CPrepareStatement = \<lparr>m_stmt = None, m_param_bind = None, m_param_cnt = 0\<rparr>"

text \<open>The outcomes: the new statement handle, whether preparing fails, the number of markers.\<close>

record stmt_env =
  se_init :: "nat option"
  se_prepare_fails :: bool
  se_param_count :: u32
  se_bind_fails :: bool
  se_execute_fails :: bool
  se_affected :: u64
  se_insert_id :: u64

definition ps_Init :: "stmt_env \<Rightarrow> prepare_statement \<Rightarrow> bool \<times> prepare_statement" where
  "ps_Init e p =
     (let p1 = p\<lparr>m_stmt := se_init e\<rparr>
      in if se_init e = None then (False, p1)
         else if se_prepare_fails e then (False, p1)
         else
           (let cnt = se_param_count e; p2 = p1\<lparr>m_param_cnt := cnt\<rparr>
            in (True, if cnt > 0 then p2\<lparr>m_param_bind := Some (replicate (unat cnt) zero_bind)\<rparr> else p2)))"

definition set_bind :: "u32 \<Rightarrow> (mysql_bind \<Rightarrow> mysql_bind) \<Rightarrow> prepare_statement \<Rightarrow> prepare_statement option" where
  "set_bind index f p =
     (if index \<ge> m_param_cnt p then Some p
      else do {
        bs \<leftarrow> m_param_bind p;
        if unat index < length bs
        then Some (p\<lparr>m_param_bind := Some (bs[unat index := f (bs ! unat index)])\<rparr>) else None })"

definition SetParam_int :: "u32 \<Rightarrow> nat \<Rightarrow> prepare_statement \<Rightarrow> prepare_statement option" where
  "SetParam_int index addr = set_bind index (\<lambda>b. b\<lparr>buffer_type := 3, buffer := Some addr\<rparr>)"

definition SetParam_uint32 :: "u32 \<Rightarrow> nat \<Rightarrow> prepare_statement \<Rightarrow> prepare_statement option" where
  "SetParam_uint32 index addr = set_bind index (\<lambda>b. b\<lparr>buffer_type := 3, buffer := Some addr\<rparr>)"

definition SetParam_string :: "u32 \<Rightarrow> nat \<Rightarrow> u64 \<Rightarrow> prepare_statement \<Rightarrow> prepare_statement option" where
  "SetParam_string index addr len =
     set_bind index (\<lambda>b. b\<lparr>buffer_type := 254, buffer := Some addr, buffer_length := len\<rparr>)"

definition SetParam_const_string :: "u32 \<Rightarrow> nat \<Rightarrow> u64 \<Rightarrow> prepare_statement \<Rightarrow> prepare_statement option" where
  "SetParam_const_string index addr len =
     set_bind index (\<lambda>b. b\<lparr>buffer_type := 254, buffer := Some addr, buffer_length := len\<rparr>)"

definition ps_ExecuteUpdate :: "stmt_env \<Rightarrow> prepare_statement \<Rightarrow> bool" where
  "ps_ExecuteUpdate e p =
     (if m_stmt p = None then False
      else if se_bind_fails e then False
      else if se_execute_fails e then False
      else if se_affected e = 0 then False
      else True)"

definition ps_GetInsertId :: "stmt_env \<Rightarrow> prepare_statement \<Rightarrow> u32 option" where
  "ps_GetInsertId e p = (if m_stmt p = None then None else Some (ucast (se_insert_id e)))"

text \<open>The destructor closes the statement and deletes the array.\<close>

definition ps_destroy :: "prepare_statement \<Rightarrow> prepare_statement" where
  "ps_destroy p = p\<lparr>m_stmt := None, m_param_bind := None\<rparr>"

section \<open>CDBConn\<close>

record mysql_heap =
  my_handles :: "nat list"
  my_next :: nat

record db_env =
  de_init :: bool
  de_connect :: bool

record db_conn =
  m_mysql :: "nat option"
  m_escape_string :: bytes

definition MAX_ESCAPE_STRING_LEN :: u32 where
  "MAX_ESCAPE_STRING_LEN = 10240"

definition CDBConn :: "(nat \<Rightarrow> byte) \<Rightarrow> db_conn" where
  "CDBConn garb = \<lparr>m_mysql = None, m_escape_string = alloc garb (unat MAX_ESCAPE_STRING_LEN + 1)\<rparr>"

definition dbc_Init :: "db_env \<Rightarrow> db_conn \<times> mysql_heap \<Rightarrow> int \<times> db_conn \<times> mysql_heap" where
  "dbc_Init e s =
     (let (c, h) = s
      in if \<not> de_init e then (1, c\<lparr>m_mysql := None\<rparr>, h)
         else
           (let p = my_next h;
                c1 = c\<lparr>m_mysql := Some p\<rparr>;
                h1 = h\<lparr>my_handles := p # my_handles h, my_next := p + 1\<rparr>
            in if \<not> de_connect e then (2, c1, h1) else (0, c1, h1)))"

text \<open>The destructor of \<open>CDBConn\<close> has an empty body.\<close>

definition dbc_destroy :: "db_conn \<times> mysql_heap \<Rightarrow> mysql_heap" where
  "dbc_destroy s = snd s"

record query_env =
  qe_query_fails :: bool
  qe_result :: "mysql_res option"
  qe_affected :: u64
  qe_insert_id :: u64

text \<open>\<open>Some None\<close> is a null result. A failed \<open>mysql_affected_rows\<close> is the largest 64-bit value.\<close>

definition dbc_ExecuteQuery :: "query_env \<Rightarrow> bytes \<Rightarrow> db_conn \<Rightarrow> result_set option option" where
  "dbc_ExecuteQuery e sql_query c = do {
     h \<leftarrow> m_mysql c;
     if qe_query_fails e then Some None
     else (case qe_result e of None \<Rightarrow> Some None | Some res \<Rightarrow> Some (Some (CResultSet res))) }"

definition dbc_ExecuteUpdate :: "query_env \<Rightarrow> bytes \<Rightarrow> db_conn \<Rightarrow> bool option" where
  "dbc_ExecuteUpdate e sql_query c = do {
     h \<leftarrow> m_mysql c;
     if qe_query_fails e then Some False else Some (qe_affected e > 0) }"

definition EscapeString ::
  "(bytes \<Rightarrow> bytes) \<Rightarrow> bytes \<Rightarrow> u32 \<Rightarrow> db_conn \<Rightarrow> (bytes \<times> db_conn) option" where
  "EscapeString esc content content_len c =
     (if content_len > drop_bit 1 MAX_ESCAPE_STRING_LEN then do {
        m \<leftarrow> mem_write (m_escape_string c) 0 [0];
        Some (cstr m, c\<lparr>m_escape_string := m\<rparr>) }
      else do {
        d \<leftarrow> mem_read content 0 (unat content_len);
        m \<leftarrow> mem_write (m_escape_string c) 0 (esc d @ [0]);
        Some (cstr m, c\<lparr>m_escape_string := m\<rparr>) })"

definition dbc_GetInsertId :: "query_env \<Rightarrow> db_conn \<Rightarrow> u32 option" where
  "dbc_GetInsertId e c = do { h \<leftarrow> m_mysql c; Some (ucast (qe_insert_id e)) }"

definition column_value :: "bytes list \<Rightarrow> bytes \<Rightarrow> db_row \<Rightarrow> bytes option" where
  "column_value fs key row = (case map_of (zip fs row) key of None \<Rightarrow> None | Some v \<Rightarrow> v)"

definition ps_wf :: "prepare_statement \<Rightarrow> bool" where
  "ps_wf p \<longleftrightarrow> (m_param_cnt p > 0 \<longrightarrow>
     (case m_param_bind p of None \<Rightarrow> False | Some bs \<Rightarrow> length bs = unat (m_param_cnt p)))"

datatype ps_op = PInit stmt_env | PInt u32 nat | PUint u32 nat | PStr u32 nat u64 | PCStr u32 nat u64

fun ps_step :: "ps_op \<Rightarrow> prepare_statement \<Rightarrow> prepare_statement option" where
  "ps_step (PInit e) p = Some (snd (ps_Init e p))"
| "ps_step (PInt i a) p = SetParam_int i a p"
| "ps_step (PUint i a) p = SetParam_uint32 i a p"
| "ps_step (PStr i a n) p = SetParam_string i a n p"
| "ps_step (PCStr i a n) p = SetParam_const_string i a n p"

fun ps_run :: "ps_op list \<Rightarrow> prepare_statement \<Rightarrow> prepare_statement option" where
  "ps_run [] p = Some p"
| "ps_run (x # xs) p = do { p' \<leftarrow> ps_step x p; ps_run xs p' }"

definition esc_quotes :: "bytes \<Rightarrow> bytes" where
  "esc_quotes x = concat (map (\<lambda>c. if c = 39 then [92, 39] else if c = 0 then [92, 48] else [c]) x)"

section \<open>Lemmas\<close>

lemma key_map_loop_lookup:
  "key_map_loop fs i m k =
     (case m k of Some j \<Rightarrow> Some j
      | None \<Rightarrow> (if k \<in> set fs then Some (i + length (takeWhile (\<lambda>f. f \<noteq> k) fs)) else None))"
  by (induction fs arbitrary: i m) (auto split: option.splits)

lemma map_of_zip_first:
  assumes "length vs = length ks" and "k \<in> set ks"
  shows "map_of (zip ks vs) k = Some (vs ! length (takeWhile (\<lambda>f. f \<noteq> k) ks))"
  using assms
proof (induction ks arbitrary: vs)
  case (Cons a ks)
  then obtain v vs' where "vs = v # vs'" by (cases vs) auto
  with Cons show ?case by auto
qed simp

lemma first_index_bound: "k \<in> set ks \<Longrightarrow> length (takeWhile (\<lambda>f. f \<noteq> k) ks) < length ks"
  by (induction ks) auto

lemma rs_GetString_row:
  assumes "m_key_map r = key_map_loop fs 0 Map.empty" and "m_row r = Some row" and "length row = length fs"
  shows "rs_GetString key r = Some (column_value fs key row)"
proof (cases "key \<in> set fs")
  case True
  with assms show ?thesis
    using first_index_bound [OF True] map_of_zip_first [of row fs key]
    by (simp add: rs_GetString_def GetIndex_def key_map_loop_lookup row_at_def column_value_def Let_def)
next
  case False
  with assms have "map_of (zip fs row) key = None" by (simp add: map_of_zip_is_None)
  then have "column_value fs key row = None" unfolding column_value_def by (simp only: option.case)
  with False assms show ?thesis by (simp add: rs_GetString_def GetIndex_def key_map_loop_lookup)
qed

lemma rs_column_rows:
  assumes "m_key_map r = key_map_loop fs 0 Map.empty" and "\<forall>row \<in> set (res_rows (m_res r)). length row = length fs"
  shows "rs_column key r = Some (map (column_value fs key) (res_rows (m_res r)))"
  using assms
proof (induction "res_rows (m_res r)" arbitrary: r)
  case Nil
  then show ?case by (simp add: rs_column.simps [of key r] rs_Next_def)
next
  case (Cons row rest)
  from Cons.hyps(2) [symmetric] Cons.prems show ?case
    using Cons.hyps(1) [of "r\<lparr>m_row := Some row, m_res := (m_res r)\<lparr>res_rows := rest\<rparr>\<rparr>"]
    by (simp add: rs_column.simps [of key r] rs_Next_def rs_GetString_row [where fs = fs])
qed

text \<open>
  Reading a column over a whole result set terminates after the last row and yields, for
  every row in order, the value of the first column with that name, or null when no column has
  it: the index map built by the constructor is the lookup in the list of named columns.
\<close>

lemma result_set_column:
  assumes "\<forall>row \<in> set (res_rows res). length row = length (res_fields res)"
  shows "rs_column key (CResultSet res) = Some (map (column_value (res_fields res) key) (res_rows res))"
  using rs_column_rows [of "CResultSet res" "res_fields res" key] assms by (simp add: CResultSet_def)

text \<open>An integer column that is SQL NULL, read with \<open>GetInt\<close>, passes a null pointer to \<open>atoi\<close>.\<close>

lemma GetInt_of_NULL:
  assumes "m_key_map r key = Some i" and "m_row r = Some row" and "i < length row" and "row ! i = None"
  shows "rs_GetInt key r = None"
  using assms by (simp add: rs_GetInt_def GetIndex_def row_at_def)

subsection \<open>Prepared statements\<close>

lemma set_bind_wf: "ps_wf p \<Longrightarrow> \<exists>p'. set_bind i f p = Some p' \<and> ps_wf p'"
  unfolding ps_wf_def set_bind_def
  by (cases "m_param_bind p"; cases "i \<ge> m_param_cnt p") (auto simp: not_le word_less_nat_alt)

lemma ps_Init_wf: "ps_wf p \<Longrightarrow> ps_wf (snd (ps_Init e p))"
  unfolding ps_wf_def ps_Init_def
  by (cases "m_param_bind p"; cases "se_init e"; cases "se_prepare_fails e") (auto simp: Let_def)

lemma ps_step_wf: "ps_wf p \<Longrightarrow> \<exists>p'. ps_step x p = Some p' \<and> ps_wf p'"
  by (cases x) (simp_all add: ps_Init_wf set_bind_wf SetParam_int_def SetParam_uint32_def
      SetParam_string_def SetParam_const_string_def)

lemma ps_run_wf: "ps_wf p \<Longrightarrow> \<exists>p'. ps_run xs p = Some p' \<and> ps_wf p'"
proof (induction xs arbitrary: p)
  case (Cons x xs)
  then show ?case using ps_step_wf [of p x] by fastforce
qed simp

text \<open>
  Whatever sequence of \<open>Init\<close> and \<open>SetParam\<close> calls a prepared statement goes through,
  including failed preparations, repeated ones and parameter indices out of range, the
  parameter array is never accessed out of range: it always has exactly \<open>m_param_cnt\<close> entries.
\<close>

lemma prepared_statement_safe:
  "\<exists>p. ps_run xs CPrepareStatement = Some p \<and> ps_wf p"
  by (rule ps_run_wf) (simp add: ps_wf_def CPrepareStatement_def)

subsection \<open>Escaping\<close>

text \<open>
  \<open>mysql_real_escape_string\<close> writes at most twice its input and a terminator. Then
  \<open>EscapeString\<close> never writes outside \<open>m_escape_string\<close>, for every length of the content: up to
  5120 bytes are escaped into the buffer, anything longer gives the empty string.
\<close>

lemma EscapeString_in_bounds:
  assumes "\<forall>x. length (esc x) \<le> 2 * length x" and "\<forall>x. 0 \<notin> set (esc x)"
    and "length (m_escape_string c) = 10241" and "unat content_len \<le> length content"
  shows "\<exists>c'. length (m_escape_string c') = 10241 \<and> EscapeString esc content content_len c =
     Some (if content_len \<le> 5120 then esc (take (unat content_len) content) else [], c')"
proof (cases "content_len \<le> 5120")
  case True
  define d where "d = take (unat content_len) content"
  have "length d \<le> 5120"
    using True assms(4) by (simp add: d_def word_le_nat_alt)
  moreover have "length (esc d) \<le> 2 * length d" using assms(1) by blast
  ultimately have "length (esc d) + 1 \<le> length (m_escape_string c)" using assms(3) by linarith
  moreover have "cstr (esc d @ 0 # t) = esc d" for t
    using assms(2) by (auto simp: cstr_def takeWhile_append)
  ultimately show ?thesis
    using True assms(3,4)
    by (auto simp: EscapeString_def MAX_ESCAPE_STRING_LEN_def drop_bit_eq_div mem_read_def mem_write_def d_def
        word_less_nat_alt word_le_nat_alt)
next
  case False
  with assms(3) show ?thesis
    by (auto simp: EscapeString_def MAX_ESCAPE_STRING_LEN_def mem_write_def cstr_def
        word_less_nat_alt word_le_nat_alt)
qed

end
