(* ===== verification/Ptp_Utils.thy ===== *)
theory Ptp_Utils
  imports Ptp_Prelude
begin

text \<open>
  \<^verbatim>\<open>src/ptp_global/Utils.h\<close> and \<^verbatim>\<open>src/ptp_global/Utils.cpp\<close>: reference-counted objects
  (\<open>CRefObject\<close>, the base of sockets and connections) and the string splitter \<open>CStrExplode\<close>.

  A reference-counted object may have a lock, which is not recursive: taking it while it is
  held is \<open>None\<close>, a caller that never returns. A deleted object has no state any more, so any
  further use of it is also \<open>None\<close>. The items of \<open>CStrExplode\<close> are the pointers of
  \<open>m_item_list\<close>: \<open>None\<close> is a slot the constructor has allocated but never assigned.
\<close>

section \<open>CRefObject\<close>

record ref_object =
  m_refCount :: int
  m_lock :: "bool option"

definition CRefObject :: ref_object where
  "CRefObject = \<lparr>m_refCount = 1, m_lock = None\<rparr>"

definition ref_SetLock :: "bool \<Rightarrow> ref_object \<Rightarrow> ref_object" where
  "ref_SetLock held r = r\<lparr>m_lock := Some held\<rparr>"

text \<open>\<open>lock()\<close> and \<open>unlock()\<close> on the lock of the object.\<close>

definition take_lock :: "bool option \<Rightarrow> bool option option" where
  "take_lock l = (case l of None \<Rightarrow> Some None | Some held \<Rightarrow> if held then None else Some (Some True))"

definition drop_lock :: "bool option \<Rightarrow> bool option" where
  "drop_lock l = map_option (\<lambda>_. False) l"

definition AddRef :: "ref_object \<Rightarrow> ref_object option" where
  "AddRef r =
     (if m_lock r \<noteq> None then do {
        l \<leftarrow> take_lock (m_lock r);
        Some (r\<lparr>m_refCount := m_refCount r + 1, m_lock := drop_lock l\<rparr>) }
      else Some (r\<lparr>m_refCount := m_refCount r + 1\<rparr>))"

text \<open>The result is the object, unless it was deleted, and the state of its lock afterwards.\<close>

definition ReleaseRef :: "ref_object \<Rightarrow> (ref_object option \<times> bool option) option" where
  "ReleaseRef r =
     (if m_lock r \<noteq> None then do {
        l \<leftarrow> take_lock (m_lock r);
        let r' = r\<lparr>m_refCount := m_refCount r - 1, m_lock := l\<rparr>;
        if m_refCount r' = 0 then Some (None, l)
        else Some (Some (r'\<lparr>m_lock := drop_lock l\<rparr>), drop_lock l) }
      else
        (let r' = r\<lparr>m_refCount := m_refCount r - 1\<rparr>
         in if m_refCount r' = 0 then Some (None, None) else Some (Some r', None)))"

text \<open>A run of reference operations; \<open>None\<close> when a deleted object is used or the lock blocks.\<close>

datatype ref_op = AddRefOp | ReleaseRefOp

fun ref_step :: "ref_op \<Rightarrow> ref_object \<Rightarrow> ref_object option option" where
  "ref_step AddRefOp r = map_option Some (AddRef r)"
| "ref_step ReleaseRefOp r = map_option fst (ReleaseRef r)"

fun ref_run :: "ref_op list \<Rightarrow> ref_object option \<Rightarrow> ref_object option option" where
  "ref_run [] ro = Some ro"
| "ref_run (x # xs) ro = (case ro of None \<Rightarrow> None | Some r \<Rightarrow> do { ro' \<leftarrow> ref_step x r; ref_run xs ro' })"

text \<open>References held after a run that starts with \<open>n\<close> of them, or \<open>None\<close> past the last one.\<close>

fun refs_held :: "nat \<Rightarrow> ref_op list \<Rightarrow> nat option" where
  "refs_held n [] = Some n"
| "refs_held n (AddRefOp # xs) = (if n = 0 then None else refs_held (n + 1) xs)"
| "refs_held n (ReleaseRefOp # xs) = (if n = 0 then None else refs_held (n - 1) xs)"

section \<open>CStrExplode\<close>

record str_explode =
  m_item_cnt :: nat
  m_item_list :: "bytes option list"

text \<open>The first loop counts the separators.\<close>

fun explode_count :: "byte \<Rightarrow> bytes \<Rightarrow> nat" where
  "explode_count sep [] = 1"
| "explode_count sep (c # cs) = (if c = sep then 1 else 0) + explode_count sep cs"

text \<open>
  The second loop: \<open>cur\<close> are the characters from \<open>start\<close> to \<open>pos\<close>, the list argument those
  from \<open>pos\<close> on. A separator at \<open>start\<close> does not end an item. An assignment outside
  \<open>m_item_list\<close> is \<open>None\<close>.
\<close>

definition put_item :: "nat \<Rightarrow> bytes \<Rightarrow> bytes option list \<Rightarrow> bytes option list option" where
  "put_item idx x items = (if idx < length items then Some (items[idx := Some x]) else None)"

fun explode_loop :: "byte \<Rightarrow> bytes \<Rightarrow> bytes \<Rightarrow> nat \<Rightarrow> bytes option list \<Rightarrow> bytes option list option" where
  "explode_loop sep cur [] idx items =
     (if length cur \<noteq> 0 then put_item idx cur items else Some items)"
| "explode_loop sep cur (c # cs) idx items =
     (if cur \<noteq> [] \<and> c = sep then do {
        items' \<leftarrow> put_item idx cur items;
        explode_loop sep [] cs (idx + 1) items' }
      else explode_loop sep (cur @ [c]) cs idx items)"

definition CStrExplode :: "bytes \<Rightarrow> byte \<Rightarrow> str_explode option" where
  "CStrExplode str sep =
     (let cnt = explode_count sep str
      in do {
        items \<leftarrow> explode_loop sep [] str 0 (replicate cnt None);
        Some \<lparr>m_item_cnt = cnt, m_item_list = items\<rparr> })"

text \<open>The destructor deletes every slot up to \<open>m_item_cnt\<close>: an unassigned one is undefined.\<close>

definition explode_destroy :: "str_explode \<Rightarrow> unit option" where
  "explode_destroy e =
     (if list_all (\<lambda>i. m_item_list e ! i \<noteq> None) [0..<m_item_cnt e] then Some () else None)"

definition GetItem :: "str_explode \<Rightarrow> nat \<Rightarrow> bytes option" where
  "GetItem e idx = (if idx < length (m_item_list e) then m_item_list e ! idx else None)"

text \<open>The reference: the fields between separators.\<close>

fun split_fields :: "byte \<Rightarrow> bytes \<Rightarrow> bytes list" where
  "split_fields sep [] = [[]]"
| "split_fields sep (c # cs) =
     (if c = sep then [] # split_fields sep cs
      else (case split_fields sep cs of [] \<Rightarrow> [[c]] | f # fs \<Rightarrow> (c # f) # fs))"

text \<open>Items the second loop emits, as a list.\<close>

fun emitted :: "byte \<Rightarrow> bytes \<Rightarrow> bytes \<Rightarrow> bytes list" where
  "emitted sep cur [] = (if cur \<noteq> [] then [cur] else [])"
| "emitted sep cur (c # cs) =
     (if cur \<noteq> [] \<and> c = sep then cur # emitted sep [] cs else emitted sep (cur @ [c]) cs)"

section \<open>Reference counting\<close>

lemma ref_run_unlocked:
  assumes "refs_held n ops = Some k" and "0 < n"
  shows "ref_run ops (Some \<lparr>m_refCount = int n, m_lock = None\<rparr>)
     = Some (if k = 0 then None else Some \<lparr>m_refCount = int k, m_lock = None\<rparr>)"
  using assms
proof (induction n ops rule: refs_held.induct)
  case (2 n xs)
  then show ?case by (simp add: AddRef_def add.commute)
next
  case (3 n xs)
  show ?case
  proof (cases "n = 1")
    case True
    with "3.prems" have "xs = [] \<and> k = 0" by (cases xs; cases "hd xs") auto
    with True show ?thesis by (simp add: ReleaseRef_def)
  next
    case False
    with "3.prems" have "0 < n - 1" "refs_held (n - 1) xs = Some k" by auto
    from "3.IH" [OF _ this(2,1)] "3.prems"(2) False show ?thesis
      by (simp add: ReleaseRef_def of_nat_diff)
  qed
qed simp

lemma ref_run_locked:
  assumes "refs_held n ops = Some k" and "0 < n"
  shows "ref_run ops (Some \<lparr>m_refCount = int n, m_lock = Some False\<rparr>)
     = Some (if k = 0 then None else Some \<lparr>m_refCount = int k, m_lock = Some False\<rparr>)"
  using assms
proof (induction n ops rule: refs_held.induct)
  case (2 n xs)
  then show ?case by (simp add: AddRef_def take_lock_def drop_lock_def add.commute)
next
  case (3 n xs)
  show ?case
  proof (cases "n = 1")
    case True
    with "3.prems" have "xs = [] \<and> k = 0" by (cases xs; cases "hd xs") auto
    with True show ?thesis by (simp add: ReleaseRef_def take_lock_def drop_lock_def)
  next
    case False
    with "3.prems" have "0 < n - 1" "refs_held (n - 1) xs = Some k" by auto
    from "3.IH" [OF _ this(2,1)] "3.prems"(2) False show ?thesis
      by (simp add: ReleaseRef_def take_lock_def drop_lock_def of_nat_diff)
  qed
qed simp

text \<open>
  An object lives exactly as long as it has references. Starting from a new object, with
  or without a lock, any sequence of \<open>AddRef\<close> and \<open>ReleaseRef\<close> that never goes on after the last
  reference is gone runs without blocking; the object is deleted exactly when no reference
  is left, and otherwise its count is the number of references held.
\<close>

lemma ref_count_lifetime:
  assumes "refs_held 1 ops = Some k"
  shows "ref_run ops (Some CRefObject) = Some (if k = 0 then None else Some (CRefObject\<lparr>m_refCount := int k\<rparr>))
     \<and> ref_run ops (Some (ref_SetLock False CRefObject))
       = Some (if k = 0 then None else Some ((ref_SetLock False CRefObject)\<lparr>m_refCount := int k\<rparr>))"
  using ref_run_unlocked [OF assms] ref_run_locked [OF assms]
  by (simp add: CRefObject_def ref_SetLock_def)

text \<open>
  The last release never gives the lock back. When an object with a free lock loses its
  last reference, \<open>ReleaseRef\<close> deletes it and returns with the lock still held; the lock
  outlives the object, so the next attempt to take it blocks. Every other release and every
  \<open>AddRef\<close> leaves the lock free.
\<close>

lemma last_release_keeps_lock:
  assumes "m_lock r = Some False"
  shows "(m_refCount r = 1 \<longrightarrow> ReleaseRef r = Some (None, Some True) \<and> take_lock (Some True) = None)
     \<and> (m_refCount r \<noteq> 1 \<longrightarrow> (\<exists>r'. ReleaseRef r = Some (Some r', Some False) \<and> m_lock r' = Some False))
     \<and> (\<exists>r'. AddRef r = Some r' \<and> m_lock r' = Some False)"
  using assms by (simp add: ReleaseRef_def AddRef_def take_lock_def drop_lock_def)

section \<open>Splitting\<close>

lemma split_fields_nonempty [simp]: "split_fields sep s \<noteq> []"
  by (induction s) (simp_all split: list.splits)

lemma explode_count_fields: "explode_count sep s = length (split_fields sep s)"
  by (induction s) (simp_all split: list.splits)

lemma explode_loop_emitted:
  assumes "idx + length (emitted sep cur s) \<le> length items"
  shows "explode_loop sep cur s idx items
     = Some (take idx items @ map Some (emitted sep cur s) @ drop (idx + length (emitted sep cur s)) items)"
  using assms
proof (induction sep cur s idx items rule: explode_loop.induct)
  case (1 sep cur idx items)
  then show ?case by (auto simp: put_item_def upd_conv_take_nth_drop split: if_splits)
next
  case (2 sep cur c cs idx items)
  show ?case
  proof (cases "cur \<noteq> [] \<and> c = sep")
    case True
    with "2.prems" have idx: "idx < length items" by simp
    then have p: "put_item idx cur items = Some (items[idx := Some cur])" by (simp add: put_item_def)
    have "idx + 1 + length (emitted sep [] cs) \<le> length (items[idx := Some cur])"
      using "2.prems" True by simp
    from "2.IH"(1) [OF True p this] p True idx show ?thesis
      by (simp add: take_Suc_conv_app_nth)
  next
    case False
    with "2.IH"(2) "2.prems" show ?thesis by auto
  qed
qed

lemma emitted_bound:
  shows "cur \<noteq> [] \<Longrightarrow> length (emitted sep cur s) \<le> explode_count sep s
      \<and> (length (emitted sep cur s) = explode_count sep s \<longleftrightarrow> [] \<notin> set (tl (split_fields sep s)))"
    and "length (emitted sep [] s) \<le> explode_count sep s
      \<and> (length (emitted sep [] s) = explode_count sep s \<longleftrightarrow> [] \<notin> set (split_fields sep s))"
proof (induction s arbitrary: cur)
  case (Cons c cs)
  {
    case 1
    then show ?case using Cons.IH(2) Cons.IH(1) [of "cur @ [c]"]
      by (auto split: list.splits simp: emitted.simps)
  next
    case 2
    then show ?case using Cons.IH(1) [of "[c]"]
      by (cases "split_fields sep cs") (auto simp: emitted.simps)
  }
qed simp_all

lemma emitted_fields:
  shows "cur \<noteq> [] \<Longrightarrow> [] \<notin> set (tl (split_fields sep s)) \<Longrightarrow>
      emitted sep cur s = (cur @ hd (split_fields sep s)) # tl (split_fields sep s)"
    and "[] \<notin> set (split_fields sep s) \<Longrightarrow> emitted sep [] s = split_fields sep s"
proof (induction s arbitrary: cur)
  case (Cons c cs)
  {
    case 1
    then show ?case using Cons.IH(2) Cons.IH(1) [of "cur @ [c]"]
      by (cases "split_fields sep cs") (auto simp: emitted.simps)
  next
    case 2
    then show ?case using Cons.IH(1) [of "[c]"]
      by (cases "split_fields sep cs") (auto simp: emitted.simps)
  }
qed simp_all

lemma CStrExplode_emitted:
  "CStrExplode s sep = Some \<lparr>m_item_cnt = length (split_fields sep s),
     m_item_list = map Some (emitted sep [] s)
       @ replicate (length (split_fields sep s) - length (emitted sep [] s)) None\<rparr>"
  using explode_loop_emitted [of 0 sep "[]" s "replicate (explode_count sep s) None"] emitted_bound(2) [of sep s]
  by (simp add: CStrExplode_def Let_def explode_count_fields)

text \<open>
  \<open>CStrExplode\<close> splits strings without empty fields, and only those. The constructor never
  writes outside its array. When no field between separators is empty, the items are exactly
  the fields in order; as soon as some field is empty (a leading, trailing or doubled
  separator, or an empty string), at least one slot stays unassigned and the destructor
  deletes an indeterminate pointer.
\<close>

lemma explode_correct:
  "\<exists>e. CStrExplode s sep = Some e \<and> m_item_cnt e = length (split_fields sep s)
     \<and> (if [] \<in> set (split_fields sep s) then None \<in> set (m_item_list e) \<and> explode_destroy e = None
        else m_item_list e = map Some (split_fields sep s) \<and> explode_destroy e = Some ())"
proof -
  define n where "n = length (emitted sep [] s)"
  have b: "n \<le> length (split_fields sep s)"
      "n = length (split_fields sep s) \<longleftrightarrow> [] \<notin> set (split_fields sep s)"
    using emitted_bound(2) [of sep s] by (simp_all add: n_def explode_count_fields)
  show ?thesis
  proof (cases "[] \<in> set (split_fields sep s)")
    case True
    then have lt: "n < length (split_fields sep s)" using b by linarith
    then show ?thesis
      using True by (auto simp: CStrExplode_emitted explode_destroy_def n_def [symmetric] list_all_iff nth_append
          intro!: bexI [of _ n])
  next
    case False
    then show ?thesis using emitted_fields(2) [OF False]
      by (simp add: CStrExplode_emitted explode_destroy_def list_all_iff)
  qed
qed

end
