(* ===== verification/Conn_Pools.thy ===== *)
theory Conn_Pools
  imports Cache_Conn Db_Conn Ptp_Utils
begin

text \<open>
  The two connection pools and their managers: \<open>CDBPool\<close>, \<open>CDBManager\<close>
  (\<^verbatim>\<open>src/ptp_server/DBPool.cpp\<close>) and \<open>CachePool\<close>, \<open>CacheManager\<close>
  (\<^verbatim>\<open>src/ptp_server/CachePool.cpp\<close>).

  Connections are objects with an address; the pool record keeps the live ones (\<open>new\<close> and
  \<open>delete\<close>). The body of an operation runs under the pool's mutex, so it is one step; the wait on
  the condition variable is the result \<open>Waiting\<close>, after which the thread runs the loop again.
  Connection outcomes are arguments. The contract both pools share is the locale \<open>conn_pool\<close>.
\<close>

datatype get_result = Waiting | Null | Got nat

section \<open>CDBPool\<close>

record db_pool =
  db_pool_name :: bytes
  m_db_server_ip :: bytes
  m_db_server_port :: u16
  m_username :: bytes
  m_password :: bytes
  m_db_name :: bytes
  m_db_cur_conn_cnt :: int
  m_db_max_conn_cnt :: int
  db_free_list :: "nat list"
  db_conns :: "nat \<rightharpoonup> db_conn"
  db_next :: nat
  db_mysql :: mysql_heap

definition CDBPool :: "bytes \<Rightarrow> bytes \<Rightarrow> u16 \<Rightarrow> bytes \<Rightarrow> bytes \<Rightarrow> bytes \<Rightarrow> int \<Rightarrow> db_pool" where
  "CDBPool pool_name ip port username password dbname max_conn_cnt =
     \<lparr>db_pool_name = pool_name, m_db_server_ip = ip, m_db_server_port = port, m_username = username,
      m_password = password, m_db_name = dbname, m_db_cur_conn_cnt = 2, m_db_max_conn_cnt = max_conn_cnt,
      db_free_list = [], db_conns = Map.empty, db_next = 0, db_mysql = \<lparr>my_handles = [], my_next = 0\<rparr>\<rparr>"

text \<open>\<open>new CDBConn\<close> and its \<open>Init\<close>: a connection whose \<open>Init\<close> fails is deleted at once.\<close>

definition db_connect :: "db_env \<times> (nat \<Rightarrow> byte) \<Rightarrow> db_pool \<Rightarrow> int \<times> db_pool" where
  "db_connect eg p =
     (let (ret, c, h) = dbc_Init (fst eg) (CDBConn (snd eg), db_mysql p);
          a = db_next p
      in if ret \<noteq> 0 then (ret, p\<lparr>db_next := a + 1, db_mysql := dbc_destroy (c, h)\<rparr>)
         else (0, p\<lparr>db_next := a + 1, db_mysql := h, db_conns := (db_conns p)(a \<mapsto> c),
                   db_free_list := db_free_list p @ [a]\<rparr>))"

text \<open>The loop of \<open>Init\<close>, over the outcomes of the attempts; a missing outcome is a failure.\<close>

fun db_init_loop :: "(db_env \<times> (nat \<Rightarrow> byte)) list \<Rightarrow> nat \<Rightarrow> db_pool \<Rightarrow> int \<times> db_pool" where
  "db_init_loop es 0 p = (0, p)"
| "db_init_loop [] (Suc n) p = (1, p)"
| "db_init_loop (e # es) (Suc n) p =
     (let (ret, p1) = db_connect e p in if ret \<noteq> 0 then (ret, p1) else db_init_loop es n p1)"

definition dbp_Init :: "(db_env \<times> (nat \<Rightarrow> byte)) list \<Rightarrow> db_pool \<Rightarrow> int \<times> db_pool" where
  "dbp_Init es p = db_init_loop es (nat (m_db_cur_conn_cnt p)) p"

function GetDBConn :: "db_env \<times> (nat \<Rightarrow> byte) \<Rightarrow> db_pool \<Rightarrow> get_result \<times> db_pool" where
  "GetDBConn e p =
     (case db_free_list p of
        [] \<Rightarrow>
          (if m_db_cur_conn_cnt p \<ge> m_db_max_conn_cnt p then (Waiting, p)
           else
             (let (ret, p1) = db_connect e p
              in if ret \<noteq> 0 then (Null, p1)
                 else GetDBConn e (p1\<lparr>m_db_cur_conn_cnt := m_db_cur_conn_cnt p1 + 1\<rparr>)))
      | c # rest \<Rightarrow> (Got c, p\<lparr>db_free_list := rest\<rparr>))"
  by pat_completeness auto
termination
  by (relation "measure (\<lambda>(e, p). if db_free_list p = [] then 1 else 0)")
    (auto simp: db_connect_def Let_def split: prod.splits if_splits)

declare GetDBConn.simps [simp del]

definition RelDBConn :: "nat \<Rightarrow> db_pool \<Rightarrow> db_pool" where
  "RelDBConn c p =
     (if c \<in> set (db_free_list p) then p else p\<lparr>db_free_list := db_free_list p @ [c]\<rparr>)"

text \<open>The destructor deletes the idle connections only.\<close>

definition dbp_destroy :: "db_pool \<Rightarrow> db_pool" where
  "dbp_destroy p =
     p\<lparr>db_conns := (\<lambda>a. if a \<in> set (db_free_list p) then None else db_conns p a), db_free_list := []\<rparr>"

section \<open>CachePool\<close>

record cache_pool =
  cache_pool_name :: bytes
  m_server_ip :: bytes
  m_auth :: bytes
  m_server_port :: int
  m_db_num :: int
  m_cur_conn_cnt :: int
  m_max_conn_cnt :: int
  m_free_list :: "nat list"
  cache_conns :: "nat \<rightharpoonup> cache_conn"
  cache_next :: nat

definition CachePool :: "bytes \<Rightarrow> bytes \<Rightarrow> int \<Rightarrow> bytes \<Rightarrow> int \<Rightarrow> int \<Rightarrow> cache_pool" where
  "CachePool pool_name ip port auth dbnum max_conn_cnt =
     \<lparr>cache_pool_name = pool_name, m_server_ip = ip, m_auth = auth, m_server_port = port,
      m_db_num = dbnum, m_cur_conn_cnt = 2, m_max_conn_cnt = max_conn_cnt, m_free_list = [],
      cache_conns = Map.empty, cache_next = 0\<rparr>"

text \<open>\<open>None\<close> is a use of a freed context; \<open>cache_connect_cases\<close> below shows that it never happens.\<close>

definition cache_connect :: "redis_env \<Rightarrow> cache_pool \<Rightarrow> (int \<times> cache_pool) option" where
  "cache_connect e p = do {
     (ret, c) \<leftarrow> cc_Init e (m_auth p) (m_db_num p) CacheConn;
     let a = cache_next p;
     if ret \<noteq> 0 then do { c1 \<leftarrow> cc_destroy c; Some (ret, p\<lparr>cache_next := a + 1\<rparr>) }
     else Some (0, p\<lparr>cache_next := a + 1, cache_conns := (cache_conns p)(a \<mapsto> c),
                   m_free_list := m_free_list p @ [a]\<rparr>) }"

fun cache_init_loop :: "redis_env list \<Rightarrow> nat \<Rightarrow> cache_pool \<Rightarrow> (int \<times> cache_pool) option" where
  "cache_init_loop es 0 p = Some (0, p)"
| "cache_init_loop [] (Suc n) p = Some (1, p)"
| "cache_init_loop (e # es) (Suc n) p = do {
     (ret, p1) \<leftarrow> cache_connect e p;
     if ret \<noteq> 0 then Some (1, p1) else cache_init_loop es n p1 }"

definition cp_Init :: "redis_env list \<Rightarrow> cache_pool \<Rightarrow> (int \<times> cache_pool) option" where
  "cp_Init es p = cache_init_loop es (nat (m_cur_conn_cnt p)) p"

lemma cache_connect_pushes:
  "cache_connect e p = Some (0, p1) \<Longrightarrow> m_free_list p1 = m_free_list p @ [cache_next p]"
  by (auto simp: cache_connect_def Let_def split: bind_splits if_splits)

function GetCacheConn :: "redis_env \<Rightarrow> cache_pool \<Rightarrow> (get_result \<times> cache_pool) option" where
  "GetCacheConn e p =
     (case m_free_list p of
        [] \<Rightarrow>
          (if m_cur_conn_cnt p \<ge> m_max_conn_cnt p then Some (Waiting, p)
           else
             (case cache_connect e p of
                None \<Rightarrow> None
              | Some (ret, p1) \<Rightarrow>
                  (if ret \<noteq> 0 then Some (Null, p1)
                   else GetCacheConn e (p1\<lparr>m_cur_conn_cnt := m_cur_conn_cnt p1 + 1\<rparr>))))
      | c # rest \<Rightarrow> Some (Got c, p\<lparr>m_free_list := rest\<rparr>))"
  by pat_completeness auto
termination
  by (relation "measure (\<lambda>(e, p). if m_free_list p = [] then 1 else 0)")
    (auto dest: cache_connect_pushes)

declare GetCacheConn.simps [simp del]

definition RelCacheConn :: "nat \<Rightarrow> cache_pool \<Rightarrow> cache_pool" where
  "RelCacheConn c p =
     (if c \<in> set (m_free_list p) then p else p\<lparr>m_free_list := m_free_list p @ [c]\<rparr>)"

text \<open>The destructor deletes the idle connections, each of which frees its context.\<close>

definition cp_destroy :: "cache_pool \<Rightarrow> cache_pool option" where
  "cp_destroy p =
     (if list_all (\<lambda>a. case cache_conns p a of None \<Rightarrow> False | Some c \<Rightarrow> cc_destroy c \<noteq> None) (m_free_list p)
      then Some (p\<lparr>cache_conns := (\<lambda>a. if a \<in> set (m_free_list p) then None else cache_conns p a),
                  m_free_list := [], m_cur_conn_cnt := 0\<rparr>)
      else None)"

section \<open>CDBManager\<close>

text \<open>
  \<open>CDBManager\<close> maps pool names to pools; \<open>insert\<close> keeps an existing entry. The keys of a pool's
  settings are built in 64-byte buffers.
\<close>

type_synonym db_manager = "(bytes \<times> db_pool) list"

definition key64 :: "bytes \<Rightarrow> bytes \<Rightarrow> bytes" where
  "key64 pool_name suffix = take 63 (cstr pool_name @ suffix)"

definition pool_insert :: "bytes \<Rightarrow> 'p \<Rightarrow> (bytes \<times> 'p) list \<Rightarrow> (bytes \<times> 'p) list" where
  "pool_insert n p m = (if map_of m n = None then m @ [(n, p)] else m)"

text \<open>The settings of one pool, read from the configuration; \<open>Some None\<close> when one is missing.\<close>

definition db_settings :: "config_reader \<Rightarrow> bytes \<Rightarrow> db_pool option option" where
  "db_settings cfg pool_name =
     (case (GetConfigName (key64 pool_name [95, 104, 111, 115, 116]) cfg,
            GetConfigName (key64 pool_name [95, 112, 111, 114, 116]) cfg,
            GetConfigName (key64 pool_name [95, 100, 98, 110, 97, 109, 101]) cfg,
            GetConfigName (key64 pool_name [95, 117, 115, 101, 114, 110, 97, 109, 101]) cfg,
            GetConfigName (key64 pool_name [95, 112, 97, 115, 115, 119, 111, 114, 100]) cfg,
            GetConfigName (key64 pool_name [95, 109, 97, 120, 99, 111, 110, 110, 99, 110, 116]) cfg) of
        (Some db_host, Some port, Some dbname, Some username, Some password, Some maxconncnt) \<Rightarrow> do {
          db_port \<leftarrow> atoi port;
          db_maxconncnt \<leftarrow> atoi maxconncnt;
          Some (Some (CDBPool (cstr pool_name) db_host (of_int db_port) username password dbname db_maxconncnt)) }
      | _ \<Rightarrow> Some None)"

text \<open>
  The loop over the instance names: \<open>oks i\<close> are the connection outcomes of the \<open>i\<close>-th pool. An
  item that \<open>CStrExplode\<close> never assigned is an indeterminate pointer.
\<close>

fun dbm_loop ::
  "config_reader \<Rightarrow> (nat \<Rightarrow> (db_env \<times> (nat \<Rightarrow> byte)) list) \<Rightarrow> nat \<Rightarrow> bytes option list \<Rightarrow> db_manager \<Rightarrow>
   (int \<times> db_manager) option" where
  "dbm_loop cfg oks i [] m = Some (0, m)"
| "dbm_loop cfg oks i (item # items) m = do {
     pool_name \<leftarrow> item;
     s \<leftarrow> db_settings cfg pool_name;
     (case s of
        None \<Rightarrow> Some (2, m)
      | Some pool \<Rightarrow>
          (let (ret, p) = dbp_Init (oks i) pool
           in if ret \<noteq> 0 then Some (3, m)
              else dbm_loop cfg oks (i + 1) items (pool_insert (cstr pool_name) p m))) }"

definition dbm_Init ::
  "(nat \<Rightarrow> (db_env \<times> (nat \<Rightarrow> byte)) list) \<Rightarrow> bool \<Rightarrow> bytes option \<Rightarrow> bytes option \<Rightarrow> (int \<times> db_manager) option" where
  "dbm_Init oks junk filename content =
     (case filename of
        None \<Rightarrow> Some (1, [])
      | Some f \<Rightarrow> do {
          cfg \<leftarrow> CConfigFileReader junk f content;
          (case GetConfigName [68, 66, 73, 110, 115, 116, 97, 110, 99, 101, 115] cfg of
             None \<Rightarrow> Some (1, [])
           | Some db_instances \<Rightarrow> do {
               ex \<leftarrow> CStrExplode db_instances 44;
               r \<leftarrow> dbm_loop cfg oks 0 (map (GetItem ex) [0..<m_item_cnt ex]) [];
               u \<leftarrow> explode_destroy ex;
               Some r }) })"

text \<open>The singleton: created on first use, discarded when \<open>Init\<close> fails.\<close>

definition dbm_getInstance ::
  "(nat \<Rightarrow> (db_env \<times> (nat \<Rightarrow> byte)) list) \<Rightarrow> bool \<Rightarrow> bytes option \<Rightarrow> bytes option \<Rightarrow> db_manager option \<Rightarrow>
   db_manager option option" where
  "dbm_getInstance oks junk filename content s =
     (case s of
        Some m \<Rightarrow> Some (Some m)
      | None \<Rightarrow> do { (ret, m) \<leftarrow> dbm_Init oks junk filename content; Some (if ret \<noteq> 0 then None else Some m) })"

text \<open>A connection handed out names its pool, as \<open>GetPoolName\<close> does.\<close>

definition pool_update :: "bytes \<Rightarrow> 'p \<Rightarrow> (bytes \<times> 'p) list \<Rightarrow> (bytes \<times> 'p) list" where
  "pool_update n p m = map (\<lambda>(k, q). if k = n then (k, p) else (k, q)) m"

definition dbm_GetDBConn ::
  "db_env \<times> (nat \<Rightarrow> byte) \<Rightarrow> bytes \<Rightarrow> db_manager \<Rightarrow> get_result \<times> db_manager" where
  "dbm_GetDBConn e n m =
     (case map_of m n of
        None \<Rightarrow> (Null, m)
      | Some p \<Rightarrow> (let (r, p1) = GetDBConn e p in (r, pool_update n p1 m)))"

definition dbm_RelDBConn :: "(bytes \<times> nat) option \<Rightarrow> db_manager \<Rightarrow> db_manager" where
  "dbm_RelDBConn conn m =
     (case conn of
        None \<Rightarrow> m
      | Some (n, c) \<Rightarrow> (case map_of m n of None \<Rightarrow> m | Some p \<Rightarrow> pool_update n (RelDBConn c p) m))"

section \<open>CacheManager\<close>

type_synonym cache_manager = "(bytes \<times> cache_pool) list"

definition cache_settings :: "config_reader \<Rightarrow> bytes \<Rightarrow> cache_pool option option" where
  "cache_settings cfg pool_name =
     (case (GetConfigName (key64 pool_name [95, 104, 111, 115, 116]) cfg,
            GetConfigName (key64 pool_name [95, 112, 111, 114, 116]) cfg,
            GetConfigName (key64 pool_name [95, 97, 117, 116, 104]) cfg,
            GetConfigName (key64 pool_name [95, 100, 98]) cfg,
            GetConfigName (key64 pool_name [95, 109, 97, 120, 99, 111, 110, 110, 99, 110, 116]) cfg) of
        (Some cache_host, Some port, Some auth, Some db, Some maxconncnt) \<Rightarrow> do {
          p \<leftarrow> atoi port;
          d \<leftarrow> atoi db;
          mx \<leftarrow> atoi maxconncnt;
          Some (Some (CachePool (cstr pool_name) cache_host p auth d mx)) }
      | _ \<Rightarrow> Some None)"

fun cm_loop ::
  "config_reader \<Rightarrow> (nat \<Rightarrow> redis_env list) \<Rightarrow> nat \<Rightarrow> bytes option list \<Rightarrow> cache_manager \<Rightarrow>
   (int \<times> cache_manager) option" where
  "cm_loop cfg oks i [] m = Some (0, m)"
| "cm_loop cfg oks i (item # items) m = do {
     pool_name \<leftarrow> item;
     s \<leftarrow> cache_settings cfg pool_name;
     (case s of
        None \<Rightarrow> Some (2, m)
      | Some pool \<Rightarrow> do {
          (ret, p) \<leftarrow> cp_Init (oks i) pool;
          if ret \<noteq> 0 then Some (3, m)
          else cm_loop cfg oks (i + 1) items (pool_insert (cstr pool_name) p m) }) }"

definition cm_Init ::
  "(nat \<Rightarrow> redis_env list) \<Rightarrow> bool \<Rightarrow> bytes \<Rightarrow> bytes option \<Rightarrow> (int \<times> cache_manager) option" where
  "cm_Init oks junk config_path content =
     (if config_path = [] then Some (1, [])
      else do {
        cfg \<leftarrow> CConfigFileReader junk (cstr config_path) content;
        (case GetConfigName [67, 97, 99, 104, 101, 73, 110, 115, 116, 97, 110, 99, 101, 115] cfg of
           None \<Rightarrow> Some (1, [])
         | Some cache_instances \<Rightarrow> do {
             ex \<leftarrow> CStrExplode cache_instances 44;
             r \<leftarrow> cm_loop cfg oks 0 (map (GetItem ex) [0..<m_item_cnt ex]) [];
             u \<leftarrow> explode_destroy ex;
             Some r }) })"

definition cm_getInstance ::
  "(nat \<Rightarrow> redis_env list) \<Rightarrow> bool \<Rightarrow> bytes \<Rightarrow> bytes option \<Rightarrow> cache_manager option \<Rightarrow> cache_manager option option" where
  "cm_getInstance oks junk config_path content s =
     (case s of
        Some m \<Rightarrow> Some (Some m)
      | None \<Rightarrow> do { (ret, m) \<leftarrow> cm_Init oks junk config_path content; Some (if ret \<noteq> 0 then None else Some m) })"

definition cm_GetCacheConn :: "redis_env \<Rightarrow> bytes \<Rightarrow> cache_manager \<Rightarrow> (get_result \<times> cache_manager) option" where
  "cm_GetCacheConn e n m =
     (case map_of m n of
        None \<Rightarrow> Some (Null, m)
      | Some p \<Rightarrow> do { (r, p1) \<leftarrow> GetCacheConn e p; Some (r, pool_update n p1 m) })"

definition cm_RelCacheConn :: "(bytes \<times> nat) option \<Rightarrow> cache_manager \<Rightarrow> cache_manager" where
  "cm_RelCacheConn conn m =
     (case conn of
        None \<Rightarrow> m
      | Some (n, c) \<Rightarrow> (case map_of m n of None \<Rightarrow> m | Some p \<Rightarrow> pool_update n (RelCacheConn c p) m))"

section \<open>Threads using a pool\<close>

text \<open>
  A pool with the connections threads hold and the threads that wait. A waiting thread may wake
  at any time and runs the loop of \<open>get\<close> again.
\<close>

record 'p pool_sys =
  sys_pool :: 'p
  sys_held :: "(nat \<times> nat) list"
  sys_waiting :: "nat set"

inductive pool_step ::
  "('e \<Rightarrow> 'p \<Rightarrow> (get_result \<times> 'p) option) \<Rightarrow> (nat \<Rightarrow> 'p \<Rightarrow> 'p) \<Rightarrow> 'p pool_sys \<Rightarrow> 'p pool_sys \<Rightarrow> bool"
  for get rel where
  acquire: "get e (sys_pool s) = Some (Got c, p) \<Longrightarrow>
     pool_step get rel s (s\<lparr>sys_pool := p, sys_held := (t, c) # sys_held s, sys_waiting := sys_waiting s - {t}\<rparr>)"
| block: "get e (sys_pool s) = Some (Waiting, p) \<Longrightarrow>
     pool_step get rel s (s\<lparr>sys_pool := p, sys_waiting := insert t (sys_waiting s)\<rparr>)"
| refuse: "get e (sys_pool s) = Some (Null, p) \<Longrightarrow>
     pool_step get rel s (s\<lparr>sys_pool := p, sys_waiting := sys_waiting s - {t}\<rparr>)"
| release: "(t, c) \<in> set (sys_held s) \<Longrightarrow>
     pool_step get rel s (s\<lparr>sys_pool := rel c (sys_pool s), sys_held := remove1 (t, c) (sys_held s)\<rparr>)"

definition start_sys :: "'p \<Rightarrow> 'p pool_sys" where
  "start_sys p = \<lparr>sys_pool = p, sys_held = [], sys_waiting = {}\<rparr>"

text \<open>
  The invariant: no connection is idle and lent, idle twice or lent twice; every one of them
  was created; all that were created are accounted for, between two and the bound.
\<close>

definition pool_inv ::
  "('p \<Rightarrow> nat list) \<Rightarrow> ('p \<Rightarrow> int) \<Rightarrow> ('p \<Rightarrow> int) \<Rightarrow> ('p \<Rightarrow> nat) \<Rightarrow> 'p pool_sys \<Rightarrow> bool" where
  "pool_inv free cur cap fresh s \<longleftrightarrow>
     (let p = sys_pool s; cs = free p @ map snd (sys_held s)
      in distinct cs \<and> list_all (\<lambda>c. c < fresh p) cs \<and> int (length cs) = cur p \<and> 2 \<le> cur p \<and> cur p \<le> max 2 (cap p))"

abbreviation db_get :: "db_env \<times> (nat \<Rightarrow> byte) \<Rightarrow> db_pool \<Rightarrow> (get_result \<times> db_pool) option" where
  "db_get e p \<equiv> Some (GetDBConn e p)"

definition db_up :: "db_env \<times> (nat \<Rightarrow> byte)" where
  "db_up = (\<lparr>de_init = True, de_connect = True\<rparr>, \<lambda>_. 0)"

definition db_pool1 :: db_pool where
  "db_pool1 = snd (dbp_Init [db_up, db_up] (CDBPool [] [] 0 [] [] [] 1))"

definition cache_pool1 :: cache_pool where
  "cache_pool1 = snd (the (cp_Init [env_get, env_get] (CachePool [] [] 0 [] 0 1)))"

definition db_sys2 :: "db_pool pool_sys" where
  "db_sys2 = \<lparr>sys_pool = db_pool1\<lparr>db_free_list := []\<rparr>, sys_held = [(2, 1), (1, 0)], sys_waiting = {}\<rparr>"

text \<open>The pools a manager starts with: idle, each under its own name.\<close>

definition db_pools_idle :: "db_manager \<Rightarrow> bool" where
  "db_pools_idle m \<longleftrightarrow> (\<forall>n p. map_of m n = Some p \<longrightarrow>
     db_pool_name p = n \<and> db_free_list p = [0, 1] \<and> m_db_cur_conn_cnt p = 2)"

definition db_conf :: config_reader where
  "db_conf = \<lparr>m_load_ok = True, m_config_map =
     [([68, 66, 73, 110, 115, 116, 97, 110, 99, 101, 115], [97]), ([97, 95, 100, 98, 110, 97, 109, 101],
     [100]), ([97, 95, 104, 111, 115, 116], [104]), ([97, 95, 109, 97, 120, 99, 111, 110, 110, 99, 110, 116],
     [52]), ([97, 95, 112, 97, 115, 115, 119, 111, 114, 100], [112]), ([97, 95, 112, 111, 114, 116], [49]),
     ([97, 95, 117, 115, 101, 114, 110, 97, 109, 101], [117])],
     m_config_file = [102]\<rparr>"

section \<open>The contract of a pool\<close>

text \<open>
  \<open>free\<close>, \<open>cur\<close>, \<open>cap\<close> and \<open>fresh\<close> read the idle list, the number of connections, its bound and
  the next address of a pool.
\<close>

locale conn_pool =
  fixes get :: "'e \<Rightarrow> 'p \<Rightarrow> (get_result \<times> 'p) option"
    and rel :: "nat \<Rightarrow> 'p \<Rightarrow> 'p"
    and free :: "'p \<Rightarrow> nat list"
    and cur :: "'p \<Rightarrow> int"
    and cap :: "'p \<Rightarrow> int"
    and fresh :: "'p \<Rightarrow> nat"
  assumes get_total: "get e p \<noteq> None"
    and get_waiting: "get e p = Some (Waiting, p') \<Longrightarrow> free p = [] \<and> cap p \<le> cur p \<and> p' = p"
    and get_null: "get e p = Some (Null, p') \<Longrightarrow>
      free p = [] \<and> free p' = [] \<and> cur p' = cur p \<and> cap p' = cap p \<and> fresh p' = fresh p + 1"
    and get_got: "get e p = Some (Got c, p') \<Longrightarrow> cap p' = cap p \<and>
      (free p = c # free p' \<and> cur p' = cur p \<and> fresh p' = fresh p \<or>
       free p = [] \<and> free p' = [] \<and> c = fresh p \<and> fresh p' = fresh p + 1 \<and> cur p' = cur p + 1 \<and> cur p < cap p)"
    and rel_free: "free (rel c p) = (if c \<in> set (free p) then free p else free p @ [c])"
    and rel_rest: "cur (rel c p) = cur p \<and> cap (rel c p) = cap p \<and> fresh (rel c p) = fresh p"
begin

lemma remove1_held:
  "(t, c) \<in> set h \<Longrightarrow> distinct (map snd h) \<Longrightarrow>
   map snd (remove1 (t, c) h) = remove1 c (map snd h) \<and> length h = length (remove1 (t, c) h) + 1"
  by (induction h) (force simp: length_remove1)+

lemma step_inv: "pool_step get rel s s' \<Longrightarrow> pool_inv free cur cap fresh s \<Longrightarrow> pool_inv free cur cap fresh s'"
proof (induction rule: pool_step.induct)
  case (acquire e s c p t)
  define hs where "hs = map snd (sys_held s)"
  have hs: "map snd ((t, c) # sys_held s) = c # hs" "length (sys_held s) = length hs" by (simp_all add: hs_def)
  show ?case
    using get_got [OF acquire(1)] acquire(2) unfolding pool_inv_def Let_def
    by (auto simp del: list.map simp add: hs hs_def [symmetric] list_all_iff less_Suc_eq)
next
  case (block e s p t)
  with get_waiting [OF block(1)] show ?case by (simp add: pool_inv_def Let_def list_all_iff)
next
  case (refuse e s p t)
  with get_null [OF refuse(1)] show ?case by (auto simp: pool_inv_def Let_def list_all_iff less_Suc_eq)
next
  case (release t c s)
  then have d: "distinct (map snd (sys_held s))" by (simp add: pool_inv_def Let_def list_all_iff)
  have c: "c \<in> snd ` set (sys_held s)" using release(1) by force
  then have nf: "c \<notin> set (free (sys_pool s))" using release(2) by (auto simp: pool_inv_def Let_def list_all_iff)
  note r = remove1_held [OF release(1) d]
  have set_rem: "snd ` set (remove1 (t, c) (sys_held s)) = snd ` set (sys_held s) - {c}"
    using r d by (metis list.set_map set_remove1_eq)
  have dist: "distinct (map snd (remove1 (t, c) (sys_held s)))" using r d by simp
  have len: "length (remove1 c (map snd (sys_held s))) + 1 = length (sys_held s)"
    using r by (metis length_map)
  from release(2) c nf r set_rem dist len show ?case
    by (auto simp: pool_inv_def Let_def list_all_iff rel_free rel_rest)
qed

lemma reachable_inv: "(pool_step get rel)\<^sup>*\<^sup>* s s' \<Longrightarrow> pool_inv free cur cap fresh s \<Longrightarrow> pool_inv free cur cap fresh s'"
  by (induction rule: rtranclp_induct) (auto intro: step_inv)

lemma start_inv:
  "distinct (free p) \<Longrightarrow> \<forall>c \<in> set (free p). c < fresh p \<Longrightarrow> length (free p) = 2 \<Longrightarrow> cur p = 2 \<Longrightarrow>
   pool_inv free cur cap fresh (start_sys p)"
  by (simp add: pool_inv_def Let_def list_all_iff start_sys_def)

lemma get_after_release:
  assumes "pool_inv free cur cap fresh s" and "(t, c) \<in> set (sys_held s)"
  shows "\<exists>c' p'. get e (rel c (sys_pool s)) = Some (Got c', p')"
proof -
  obtain r p' where g: "get e (rel c (sys_pool s)) = Some (r, p')"
    using get_total [of e "rel c (sys_pool s)"] by auto
  have "free (rel c (sys_pool s)) \<noteq> []" by (simp add: rel_free) auto
  then have "r \<noteq> Waiting" "r \<noteq> Null" using g get_waiting get_null by blast+
  with g show ?thesis by (cases r) auto
qed

lemma waiting_progress:
  assumes "pool_inv free cur cap fresh s" and "get e (sys_pool s) = Some (Waiting, p')"
  shows "\<exists>t c. (t, c) \<in> set (sys_held s) \<and> (\<forall>e'. \<exists>c' q. get e' (rel c (sys_pool s)) = Some (Got c', q))"
proof -
  from get_waiting [OF assms(2)] assms(1) have "sys_held s \<noteq> []" by (auto simp: pool_inv_def Let_def list_all_iff)
  then obtain t c where "(t, c) \<in> set (sys_held s)" by (cases "sys_held s") auto
  with get_after_release [OF assms(1)] show ?thesis by blast
qed

end
section \<open>Both pools satisfy the contract\<close>

lemma db_connect_cases:
  obtains (failed) ret p1 where "db_connect e p = (ret, p1)" "ret \<noteq> 0" "db_free_list p1 = db_free_list p"
      "db_next p1 = db_next p + 1" "m_db_cur_conn_cnt p1 = m_db_cur_conn_cnt p" "m_db_max_conn_cnt p1 = m_db_max_conn_cnt p"
      "db_pool_name p1 = db_pool_name p"
    | (opened) p1 where "db_connect e p = (0, p1)" "db_free_list p1 = db_free_list p @ [db_next p]"
      "db_next p1 = db_next p + 1" "m_db_cur_conn_cnt p1 = m_db_cur_conn_cnt p" "m_db_max_conn_cnt p1 = m_db_max_conn_cnt p"
      "db_pool_name p1 = db_pool_name p"
proof (cases "fst (dbc_Init (fst e) (CDBConn (snd e), db_mysql p)) = 0")
  case True
  then show ?thesis
    by (intro opened [of "snd (db_connect e p)"]) (auto simp: db_connect_def Let_def split: prod.splits)
next
  case False
  then show ?thesis
    by (intro failed [of "fst (db_connect e p)" "snd (db_connect e p)"])
      (auto simp: db_connect_def Let_def split: prod.splits)
qed

lemma GetDBConn_cons:
  "db_free_list p = c # rest \<Longrightarrow> GetDBConn e p = (Got c, p\<lparr>db_free_list := rest\<rparr>)"
  by (simp add: GetDBConn.simps)

lemma GetDBConn_cases:
  obtains (pop) c rest where "db_free_list p = c # rest" "GetDBConn e p = (Got c, p\<lparr>db_free_list := rest\<rparr>)"
    | (wait) "db_free_list p = []" "m_db_max_conn_cnt p \<le> m_db_cur_conn_cnt p" "GetDBConn e p = (Waiting, p)"
    | (failed) p1 where "db_free_list p = []" "m_db_cur_conn_cnt p < m_db_max_conn_cnt p" "GetDBConn e p = (Null, p1)"
      "db_free_list p1 = []" "db_next p1 = db_next p + 1" "m_db_cur_conn_cnt p1 = m_db_cur_conn_cnt p"
      "m_db_max_conn_cnt p1 = m_db_max_conn_cnt p"
    | (opened) p1 where "db_free_list p = []" "m_db_cur_conn_cnt p < m_db_max_conn_cnt p"
      "GetDBConn e p = (Got (db_next p), p1)" "db_free_list p1 = []" "db_next p1 = db_next p + 1"
      "m_db_cur_conn_cnt p1 = m_db_cur_conn_cnt p + 1" "m_db_max_conn_cnt p1 = m_db_max_conn_cnt p"
proof (cases "db_free_list p")
  case (Cons c rest)
  with pop GetDBConn_cons show ?thesis by blast
next
  case Nil
  show ?thesis
  proof (cases "m_db_max_conn_cnt p \<le> m_db_cur_conn_cnt p")
    case True
    with Nil wait show ?thesis by (simp add: GetDBConn.simps [of e p])
  next
    case room: False
    show ?thesis
    proof (cases rule: db_connect_cases [of e p])
      case (failed ret p1)
      with Nil room show ?thesis
        by (intro that(3) [of p1]) (simp_all add: GetDBConn.simps [of e p])
    next
      case (opened p1)
      with Nil room show ?thesis
        by (intro that(4) [of "p1\<lparr>m_db_cur_conn_cnt := m_db_cur_conn_cnt p1 + 1, db_free_list := []\<rparr>"])
          (simp_all add: GetDBConn.simps [of e p] GetDBConn_cons [of _ "db_next p" "[]"])
    qed
  qed
qed

interpretation dbp: conn_pool db_get RelDBConn db_free_list m_db_cur_conn_cnt m_db_max_conn_cnt db_next
proof (unfold_locales, goal_cases)
  case (2 e p p') then show ?case by (cases rule: GetDBConn_cases [of p e]) auto
next
  case (3 e p p') then show ?case by (cases rule: GetDBConn_cases [of p e]) auto
next
  case (4 e p c p') then show ?case by (cases rule: GetDBConn_cases [of p e]) auto
qed (simp_all add: RelDBConn_def)

lemma cc_Init_CacheConn:
  obtains ret c where "cc_Init e a d CacheConn = Some (ret, c)" "cc_destroy c \<noteq> None"
proof -
  obtain ret c where i: "cc_Init e a d CacheConn = Some (ret, c)" "cc_inv False c"
    using cc_Init_inv [OF CacheConn_inv, of False e a d] by blast
  then have "cc_wf c" by (simp add: cc_inv_def)
  then have "cc_destroy c \<noteq> None"
    by (cases rule: cc_wf_cases) (simp_all add: cc_destroy_def redisFree_def)
  with i that show ?thesis by blast
qed

lemma cache_connect_cases:
  obtains (failed) ret p1 where "cache_connect e p = Some (ret, p1)" "ret \<noteq> 0" "m_free_list p1 = m_free_list p"
      "cache_next p1 = cache_next p + 1" "m_cur_conn_cnt p1 = m_cur_conn_cnt p" "m_max_conn_cnt p1 = m_max_conn_cnt p"
      "cache_pool_name p1 = cache_pool_name p"
    | (opened) p1 where "cache_connect e p = Some (0, p1)" "m_free_list p1 = m_free_list p @ [cache_next p]"
      "cache_next p1 = cache_next p + 1" "m_cur_conn_cnt p1 = m_cur_conn_cnt p" "m_max_conn_cnt p1 = m_max_conn_cnt p"
      "cache_pool_name p1 = cache_pool_name p"
proof -
  obtain ret c where i: "cc_Init e (m_auth p) (m_db_num p) CacheConn = Some (ret, c)" "cc_destroy c \<noteq> None"
    by (rule cc_Init_CacheConn)
  show ?thesis
  proof (cases "ret = 0")
    case True
    with i show ?thesis by (intro opened [of "snd (the (cache_connect e p))"]) (auto simp: cache_connect_def Let_def)
  next
    case False
    with i show ?thesis by (intro failed [of ret "snd (the (cache_connect e p))"]) (auto simp: cache_connect_def Let_def)
  qed
qed

lemma GetCacheConn_cons:
  "m_free_list p = c # rest \<Longrightarrow> GetCacheConn e p = Some (Got c, p\<lparr>m_free_list := rest\<rparr>)"
  by (simp add: GetCacheConn.simps)

lemma GetCacheConn_cases:
  obtains (pop) c rest where "m_free_list p = c # rest" "GetCacheConn e p = Some (Got c, p\<lparr>m_free_list := rest\<rparr>)"
    | (wait) "m_free_list p = []" "m_max_conn_cnt p \<le> m_cur_conn_cnt p" "GetCacheConn e p = Some (Waiting, p)"
    | (failed) p1 where "m_free_list p = []" "m_cur_conn_cnt p < m_max_conn_cnt p" "GetCacheConn e p = Some (Null, p1)"
      "m_free_list p1 = []" "cache_next p1 = cache_next p + 1" "m_cur_conn_cnt p1 = m_cur_conn_cnt p"
      "m_max_conn_cnt p1 = m_max_conn_cnt p"
    | (opened) p1 where "m_free_list p = []" "m_cur_conn_cnt p < m_max_conn_cnt p"
      "GetCacheConn e p = Some (Got (cache_next p), p1)" "m_free_list p1 = []" "cache_next p1 = cache_next p + 1"
      "m_cur_conn_cnt p1 = m_cur_conn_cnt p + 1" "m_max_conn_cnt p1 = m_max_conn_cnt p"
proof (cases "m_free_list p")
  case (Cons c rest)
  with pop GetCacheConn_cons show ?thesis by blast
next
  case Nil
  show ?thesis
  proof (cases "m_max_conn_cnt p \<le> m_cur_conn_cnt p")
    case True
    with Nil wait show ?thesis by (simp add: GetCacheConn.simps [of e p])
  next
    case room: False
    show ?thesis
    proof (cases rule: cache_connect_cases [of e p])
      case (failed ret p1)
      with Nil room show ?thesis
        by (intro that(3) [of p1]) (simp_all add: GetCacheConn.simps [of e p])
    next
      case (opened p1)
      with Nil room show ?thesis
        by (intro that(4) [of "p1\<lparr>m_cur_conn_cnt := m_cur_conn_cnt p1 + 1, m_free_list := []\<rparr>"])
          (simp_all add: GetCacheConn.simps [of e p] GetCacheConn_cons [of _ "cache_next p" "[]"])
    qed
  qed
qed

interpretation cp: conn_pool GetCacheConn RelCacheConn m_free_list m_cur_conn_cnt m_max_conn_cnt cache_next
proof (unfold_locales, goal_cases)
  case (1 e p) then show ?case by (cases rule: GetCacheConn_cases [of p e]) auto
next
  case (2 e p p') then show ?case by (cases rule: GetCacheConn_cases [of p e]) auto
next
  case (3 e p p') then show ?case by (cases rule: GetCacheConn_cases [of p e]) auto
next
  case (4 e p c p') then show ?case by (cases rule: GetCacheConn_cases [of p e]) auto
qed (simp_all add: RelCacheConn_def)

section \<open>Pools as they start\<close>

lemma db_init_loop_free:
  "db_init_loop es n p = (0, q) \<Longrightarrow> db_free_list q = db_free_list p @ [db_next p..<db_next p + n] \<and>
     db_next q = db_next p + n \<and> m_db_cur_conn_cnt q = m_db_cur_conn_cnt p \<and> m_db_max_conn_cnt q = m_db_max_conn_cnt p
     \<and> db_pool_name q = db_pool_name p"
proof (induction es n p rule: db_init_loop.induct)
  case (3 e es n p)
  show ?case
  proof (cases rule: db_connect_cases [of e p])
    case (failed ret p1) with 3 show ?thesis by auto
  next
    case (opened p1) with 3 show ?thesis by (auto simp: upt_conv_Cons)
  qed
qed simp_all

lemma cache_init_loop_free:
  "cache_init_loop es n p = Some (0, q) \<Longrightarrow> m_free_list q = m_free_list p @ [cache_next p..<cache_next p + n] \<and>
     cache_next q = cache_next p + n \<and> m_cur_conn_cnt q = m_cur_conn_cnt p \<and> m_max_conn_cnt q = m_max_conn_cnt p
     \<and> cache_pool_name q = cache_pool_name p"
proof (induction es n p rule: cache_init_loop.induct)
  case (3 e es n p)
  show ?case
  proof (cases rule: cache_connect_cases [of e p])
    case (failed ret p1) with 3 show ?thesis by auto
  next
    case (opened p1) with 3 show ?thesis by (auto simp: upt_conv_Cons)
  qed
qed simp_all

lemma dbp_Init_start:
  "dbp_Init es (CDBPool n ip port u pw d mx) = (0, p) \<Longrightarrow>
   db_free_list p = [0, 1] \<and> db_next p = 2 \<and> m_db_cur_conn_cnt p = 2 \<and> m_db_max_conn_cnt p = mx \<and> db_pool_name p = n"
  using db_init_loop_free [of es 2 "CDBPool n ip port u pw d mx" p]
  by (simp add: dbp_Init_def CDBPool_def upt_rec)

lemma cp_Init_start:
  "cp_Init es (CachePool n ip port a d mx) = Some (0, p) \<Longrightarrow>
   m_free_list p = [0, 1] \<and> cache_next p = 2 \<and> m_cur_conn_cnt p = 2 \<and> m_max_conn_cnt p = mx \<and> cache_pool_name p = n"
  using cache_init_loop_free [of es 2 "CachePool n ip port a d mx" p]
  by (simp add: cp_Init_def CachePool_def upt_rec)

lemma dbp_reachable:
  assumes "dbp_Init es (CDBPool n ip port u pw d mx) = (0, p)"
    and "(pool_step db_get RelDBConn)\<^sup>*\<^sup>* (start_sys p) s"
  shows "pool_inv db_free_list m_db_cur_conn_cnt m_db_max_conn_cnt db_next s"
  using dbp.reachable_inv [OF assms(2)] dbp.start_inv [of p] dbp_Init_start [OF assms(1)] by simp

lemma cp_reachable:
  assumes "cp_Init es (CachePool n ip port a d mx) = Some (0, p)"
    and "(pool_step GetCacheConn RelCacheConn)\<^sup>*\<^sup>* (start_sys p) s"
  shows "pool_inv m_free_list m_cur_conn_cnt m_max_conn_cnt cache_next s"
  using cp.reachable_inv [OF assms(2)] cp.start_inv [of p] cp_Init_start [OF assms(1)] by simp
section \<open>Properties\<close>

text \<open>
  C11. Whatever threads do with a started database or cache pool (take connections, block, fail
  to open new ones, give back what they hold, in any order), no connection is ever held by two
  threads or idle while held, none is lost, and their number stays between two and the
  configured bound (or two, when the bound is smaller).
\<close>

theorem pools_invariant:
  "(dbp_Init es (CDBPool n ip port u pw d mx) = (0, p) \<and> (pool_step db_get RelDBConn)\<^sup>*\<^sup>* (start_sys p) s \<longrightarrow>
      pool_inv db_free_list m_db_cur_conn_cnt m_db_max_conn_cnt db_next s) \<and>
   (cp_Init es' (CachePool n ip cport a num mx) = Some (0, q) \<and>
      (pool_step GetCacheConn RelCacheConn)\<^sup>*\<^sup>* (start_sys q) s' \<longrightarrow>
      pool_inv m_free_list m_cur_conn_cnt m_max_conn_cnt cache_next s')"
  using dbp_reachable cp_reachable by blast

lemma db_pool1_Init: "dbp_Init [db_up, db_up] (CDBPool [] [] 0 [] [] [] 1) = (0, db_pool1)"
  by (simp add: db_pool1_def db_up_def dbp_Init_def CDBPool_def numeral_2_eq_2 db_connect_def dbc_Init_def)

lemma cache_pool1_Init: "cp_Init [env_get, env_get] (CachePool [] [] 0 [] 0 1) = Some (0, cache_pool1)"
proof -
  have "cc_Init env_get [] 0 CacheConn \<noteq> None \<and> fst (the (cc_Init env_get [] 0 CacheConn)) = 0"
    by (simp add: cc_Init_def CacheConn_def env_get_def reply_OK_def redisCommand_def freeReplyObject_def
        is_OK_def cstr_def)
  then obtain c where c: "cc_Init env_get [] 0 CacheConn = Some (0, c)" by auto
  show ?thesis
    by (simp add: cache_pool1_def cp_Init_def CachePool_def numeral_2_eq_2 cache_connect_def c)
qed

lemmas pool1_start = dbp_Init_start [OF db_pool1_Init] cp_Init_start [OF cache_pool1_Init]

lemma db_sys2_reachable: "(pool_step db_get RelDBConn)\<^sup>*\<^sup>* (start_sys db_pool1) db_sys2"
proof -
  have "pool_step db_get RelDBConn (start_sys db_pool1)
      \<lparr>sys_pool = db_pool1\<lparr>db_free_list := [1]\<rparr>, sys_held = [(1, 0)], sys_waiting = {}\<rparr>"
    using pool_step.acquire [of db_get db_up "start_sys db_pool1" 0 "db_pool1\<lparr>db_free_list := [1]\<rparr>" RelDBConn 1]
      pool1_start(1) by (simp add: start_sys_def GetDBConn_cons [of _ 0 "[1]"])
  moreover have "pool_step db_get RelDBConn
      \<lparr>sys_pool = db_pool1\<lparr>db_free_list := [1]\<rparr>, sys_held = [(1, 0)], sys_waiting = {}\<rparr> db_sys2"
    using pool_step.acquire [of db_get db_up
        "\<lparr>sys_pool = db_pool1\<lparr>db_free_list := [1]\<rparr>, sys_held = [(1, 0)], sys_waiting = {}\<rparr>"
        1 "db_pool1\<lparr>db_free_list := []\<rparr>" RelDBConn 2]
    by (simp add: db_sys2_def GetDBConn_cons [of _ 1 "[]"])
  ultimately show ?thesis by (meson converse_rtranclp_into_rtranclp rtranclp.rtrancl_refl)
qed

theorem pools_invariant_witness:
  "pool_inv db_free_list m_db_cur_conn_cnt m_db_max_conn_cnt db_next db_sys2 \<and>
   pool_inv m_free_list m_cur_conn_cnt m_max_conn_cnt cache_next (start_sys cache_pool1)"
  using pools_invariant [of "[db_up, db_up]" "[]" "[]" 0 "[]" "[]" "[]" 1 db_pool1 db_sys2
      "[env_get, env_get]" 0 "[]" 0 cache_pool1 "start_sys cache_pool1"]
    db_pool1_Init cache_pool1_Init db_sys2_reachable by blast



text \<open>A connection attempt that fails after \<open>mysql_init\<close> leaves a handle that no connection owns.\<close>

lemma failed_connect_leaks:
  assumes "de_init (fst e)" and "\<not> de_connect (fst e)"
  shows "\<exists>p1. db_connect e p = (2, p1) \<and> my_handles (db_mysql p1) = my_next (db_mysql p) # my_handles (db_mysql p)
     \<and> db_conns p1 = db_conns p"
  using assms by (simp add: db_connect_def dbc_Init_def dbc_destroy_def Let_def)
lemma CStrExplode_fields:
  assumes "[] \<notin> set (split_fields sep s)"
  shows "CStrExplode s sep = Some \<lparr>m_item_cnt = length (split_fields sep s),
     m_item_list = map Some (split_fields sep s)\<rparr>"
  using emitted_fields(2) [OF assms] by (simp add: CStrExplode_emitted)

lemma GetItem_all:
  "map (GetItem \<lparr>m_item_cnt = length fs, m_item_list = map Some fs\<rparr>) [0..<length fs] = map Some fs"
  by (rule nth_equalityI) (simp_all add: GetItem_def)

lemma pool_insert_lookup:
  "map_of (pool_insert n p m) k = (if k = n \<and> map_of m n = None then Some p else map_of m k)"
  by (auto simp: pool_insert_def map_add_def split: option.splits)

lemma dbm_loop_pools:
  assumes "dbm_loop cfg oks i (map Some names) m = Some (0, m')" and "db_pools_idle m"
  shows "db_pools_idle m' \<and> (\<forall>n. map_of m n \<noteq> None \<or> n \<in> cstr ` set names \<longrightarrow> map_of m' n \<noteq> None)"
  using assms
proof (induction names arbitrary: i m)
  case (Cons x xs)
  from Cons.prems(1) obtain pool where s: "db_settings cfg x = Some (Some pool)"
    by (auto split: bind_splits option.splits)
  then obtain ip port u pw d mx where pool: "pool = CDBPool (cstr x) ip port u pw d mx"
    by (auto simp: db_settings_def split: option.splits bind_splits)
  obtain ret p where i0: "dbp_Init (oks i) pool = (ret, p)" by (cases "dbp_Init (oks i) pool")
  with Cons.prems(1) s have ret: "ret = 0" by (auto split: if_splits)
  have st: "db_free_list p = [0, 1]" "m_db_cur_conn_cnt p = 2" "db_pool_name p = cstr x"
    using dbp_Init_start [of "oks i" "cstr x" ip port u pw d mx p] i0 pool ret by simp_all
  from Cons.prems s i0 ret have l: "dbm_loop cfg oks (i + 1) (map Some xs) (pool_insert (cstr x) p m) = Some (0, m')"
    by simp
  have "db_pools_idle (pool_insert (cstr x) p m)"
    using Cons.prems(2) st by (auto simp: db_pools_idle_def pool_insert_lookup split: if_splits)
  from Cons.IH [OF l this] show ?case by (auto simp: pool_insert_lookup split: if_splits)
qed auto

text \<open>
  C14. When \<open>CDBManager::Init\<close> returns 0, every instance named in the configuration has a pool
  that carries its name and holds its two connections idle, and a request for one of these
  names is answered at once with a connection.
\<close>

theorem db_manager_started:
  assumes "CConfigFileReader junk f content = Some cfg"
    and "GetConfigName [68, 66, 73, 110, 115, 116, 97, 110, 99, 101, 115] cfg = Some inst"
    and "[] \<notin> set (split_fields 44 inst)"
    and "dbm_Init oks junk (Some f) content = Some (0, m)"
    and "name \<in> set (split_fields 44 inst)"
  shows "\<exists>p. map_of m (cstr name) = Some p \<and> db_pool_name p = cstr name \<and> db_free_list p = [0, 1] \<and>
     (\<forall>e. \<exists>m'. dbm_GetDBConn e (cstr name) m = (Got 0, m'))"
proof -
  have "dbm_loop cfg oks 0 (map Some (split_fields 44 inst)) [] = Some (0, m)"
    using assms(1,2,4) CStrExplode_fields [OF assms(3)]
    by (auto simp: dbm_Init_def GetItem_all split: bind_splits)
  from dbm_loop_pools [OF this] assms(5)
  obtain p where p: "map_of m (cstr name) = Some p" "db_pool_name p = cstr name" "db_free_list p = [0, 1]"
    by (auto simp: db_pools_idle_def)
  then show ?thesis by (auto simp: dbm_GetDBConn_def GetDBConn_cons [of p 0 "[1]"])
qed
definition db_conf_file :: bytes where
  "db_conf_file =
     [68, 66, 73, 110, 115, 116, 97, 110, 99, 101, 115, 61, 97, 10, 97, 95, 104, 111, 115, 116, 61, 104, 10,
     97, 95, 112, 111, 114, 116, 61, 49, 10, 97, 95, 100, 98, 110, 97, 109, 101, 61, 100, 10, 97, 95, 117,
     115, 101, 114, 110, 97, 109, 101, 61, 117, 10, 97, 95, 112, 97, 115, 115, 119, 111, 114, 100, 61, 112,
     10, 97, 95, 109, 97, 120, 99, 111, 110, 110, 99, 110, 116, 61, 52, 10]"

lemma db_conf_loaded: "CConfigFileReader False [102] (Some db_conf_file) = Some db_conf"
  by code_simp

lemma db_conf_Init: "\<exists>m. dbm_Init (\<lambda>_. [db_up, db_up]) False (Some [102]) (Some db_conf_file) = Some (0, m)"
proof -
  have g: "GetConfigName [68, 66, 73, 110, 115, 116, 97, 110, 99, 101, 115] db_conf = Some [97]" by code_simp
  have c:
    "GetConfigName (key64 [97] [95, 104, 111, 115, 116]) db_conf = Some [104]"
    "GetConfigName (key64 [97] [95, 112, 111, 114, 116]) db_conf = Some [49]"
    "GetConfigName (key64 [97] [95, 100, 98, 110, 97, 109, 101]) db_conf = Some [100]"
    "GetConfigName (key64 [97] [95, 117, 115, 101, 114, 110, 97, 109, 101]) db_conf = Some [117]"
    "GetConfigName (key64 [97] [95, 112, 97, 115, 115, 119, 111, 114, 100]) db_conf = Some [112]"
    "GetConfigName (key64 [97] [95, 109, 97, 120, 99, 111, 110, 110, 99, 110, 116]) db_conf = Some [52]"
    by code_simp+
  have a: "atoi [49] = Some 1" "atoi [52] = Some 4" "cstr [97] = [97]" by code_simp+
  have s: "db_settings db_conf [97] = Some (Some (CDBPool [97] [104] 1 [117] [112] [100] 4))"
    by (simp add: db_settings_def c a)
  have e: "CStrExplode [97] 44 = Some \<lparr>m_item_cnt = 1, m_item_list = [Some [97]]\<rparr>" by code_simp
  have i: "fst (dbp_Init [db_up, db_up] (CDBPool [97] [104] 1 [117] [112] [100] 4)) = 0"
    by (simp add: db_up_def dbp_Init_def CDBPool_def numeral_2_eq_2 db_connect_def dbc_Init_def)
  show ?thesis
    using i by (auto simp: dbm_Init_def db_conf_loaded g e s GetItem_def explode_destroy_def a split: prod.splits)
qed

theorem db_manager_started_witness:
  "\<exists>m p. dbm_Init (\<lambda>_. [db_up, db_up]) False (Some [102]) (Some db_conf_file) = Some (0, m) \<and>
     map_of m (cstr [97]) = Some p \<and> db_pool_name p = cstr [97] \<and> db_free_list p = [0, 1]"
proof -
  obtain m where m: "dbm_Init (\<lambda>_. [db_up, db_up]) False (Some [102]) (Some db_conf_file) = Some (0, m)"
    using db_conf_Init by blast
  have g: "GetConfigName [68, 66, 73, 110, 115, 116, 97, 110, 99, 101, 115] db_conf = Some [97]" by code_simp
  from db_manager_started [OF db_conf_loaded g _ m, of "[97]"] m show ?thesis by auto
qed

end
