(* ===== verification/Inter_Login.thy ===== *)
theory Inter_Login
  imports Conn_Pools
begin

text \<open>
  \<^verbatim>\<open>src/ptp_server/services/InterLogin.cpp\<close>: the login of a user by a signature over a captcha, with
  the user's number and profile in the cache.

  The recovery of the public key and the address from a signature is the argument \<open>recover\<close>
  (it is the elliptic curve library's); the outcomes of the calls to Redis are the fields of
  \<open>login_env\<close>. The messages are records of the fields the code reads and writes. \<open>None\<close> is
  undefined behaviour: a freed Redis context, a number out of range in \<open>atoi\<close>, reading past the
  end of the reply list, or logging 65 bytes of a shorter signature (\<open>c_str\<close> adds one zero byte).
\<close>

section \<open>Messages\<close>

datatype ERR = NO_ERROR | E_SYSTEM | E_REASON_NO_DB_SERVER | E_LOGIN_ERROR | E_PB_PARSE_ERROR | Other_ERR int

record user_info =
  ui_uid :: u32
  ui_address :: bytes
  ui_pub_key :: bytes
  ui_avatar :: bytes
  ui_nick_name :: bytes
  ui_user_name :: bytes
  ui_sign_info :: bytes
  ui_first_name :: bytes
  ui_last_name :: bytes
  ui_login_time :: u32
  ui_status :: u32

definition no_user_info :: user_info where
  "no_user_info = \<lparr>ui_uid = 0, ui_address = [], ui_pub_key = [], ui_avatar = [], ui_nick_name = [], ui_user_name = [],
     ui_sign_info = [], ui_first_name = [], ui_last_name = [], ui_login_time = 0, ui_status = 0\<rparr>"

record server_login_req =
  sq_address :: bytes
  sq_captcha :: bytes
  sq_sign :: bytes
  sq_attach_data :: bytes

section \<open>The text that is signed\<close>

definition str_bytes :: "string \<Rightarrow> bytes" where
  "str_bytes s = map (\<lambda>c. of_nat (of_char c)) s"

datatype SignMsgType = SignMsgType_eth | SignMsgType_ptp | SignMsgType_ptp_group

definition format_sign_msg_data :: "bytes \<Rightarrow> SignMsgType \<Rightarrow> bytes" where
  "format_sign_msg_data message t =
     [0x19] @
     (if t = SignMsgType_ptp then str_bytes ''PTP Signed Message:''
      else if t = SignMsgType_ptp_group then str_bytes ''PTP GROUP Signed Message:''
      else str_bytes ''Ethereum Signed Message:'') @ [10] @ decimal (length message) @ message"

section \<open>Keys of the cache\<close>

definition CACHE_USER_ADR_ID_PREFIX :: bytes where "CACHE_USER_ADR_ID_PREFIX = str_bytes ''user_adr_id_prefix:''"
definition CACHE_INCR_USER_ID :: bytes where "CACHE_INCR_USER_ID = str_bytes ''user_id_incr:''"
definition CACHE_USER_ID_PUB_KEY_PREFIX :: bytes where "CACHE_USER_ID_PUB_KEY_PREFIX = str_bytes ''user_id_pub_key_prefix:''"
definition CACHE_USER_ID_ADR_PREFIX :: bytes where "CACHE_USER_ID_ADR_PREFIX = str_bytes ''user_id_adr_prefix:''"
definition CACHE_USER_ID_AVATAR_PREFIX :: bytes where "CACHE_USER_ID_AVATAR_PREFIX = str_bytes ''user_id_avatar_prefix:''"
definition CACHE_USER_ID_NICKNAME_PREFIX :: bytes where "CACHE_USER_ID_NICKNAME_PREFIX = str_bytes ''user_id_nickname_prefix:''"
definition CACHE_USER_ID_USERNAME_PREFIX :: bytes where "CACHE_USER_ID_USERNAME_PREFIX = str_bytes ''user_id_username_prefix:''"
definition CACHE_USER_ID_SIGN_INFO_PREFIX :: bytes where "CACHE_USER_ID_SIGN_INFO_PREFIX = str_bytes ''user_id_sign_info_prefix:''"
definition CACHE_USER_ID_FIRST_NAME_PREFIX :: bytes where "CACHE_USER_ID_FIRST_NAME_PREFIX = str_bytes ''user_id_first_name_prefix:''"
definition CACHE_USER_ID_LAST_NAME_PREFIX :: bytes where "CACHE_USER_ID_LAST_NAME_PREFIX = str_bytes ''user_id_last_name_prefix:''"
definition CACHE_USER_ID_STATUS_PREFIX :: bytes where "CACHE_USER_ID_STATUS_PREFIX = str_bytes ''user_id_status_prefix:''"
definition CACHE_USER_ID_LOGIN_TIME_PREFIX :: bytes where "CACHE_USER_ID_LOGIN_TIME_PREFIX = str_bytes ''user_id_login_time_prefix:''"

definition auth_name :: bytes where "auth_name = str_bytes ''auth''"

section \<open>ServerLogin\<close>

record login_env =
  le_conn :: redis_env
  le_get :: redis_env
  le_incr :: redis_env
  le_incrBy :: redis_env
  le_mset :: redis_env
  le_mget :: redis_env
  le_now :: u32

text \<open>A command on connection \<open>c\<close> of the pool \<open>auth\<close>.\<close>

definition on_conn ::
  "(bytes \<Rightarrow> int \<Rightarrow> cache_conn \<Rightarrow> ('a \<times> cache_conn) option) \<Rightarrow> nat \<Rightarrow> cache_manager \<Rightarrow> ('a \<times> cache_manager) option" where
  "on_conn f c m = do {
     p \<leftarrow> map_of m auth_name;
     k \<leftarrow> cache_conns p c;
     (v, k') \<leftarrow> f (m_auth p) (m_db_num p) k;
     Some (v, pool_update auth_name (p\<lparr>cache_conns := (cache_conns p)(c \<mapsto> k')\<rparr>) m) }"

text \<open>The number of the user: read, or made and stored with key, address and time of the first login.\<close>

definition login_user_id ::
  "login_env \<Rightarrow> bytes \<Rightarrow> bytes \<Rightarrow> nat \<Rightarrow> cache_manager \<Rightarrow> (u32 \<times> cache_manager) option" where
  "login_user_id le pub_key_33 address_hex c m = do {
     pub_key_33_hex \<leftarrow> bytes_to_hex_string pub_key_33 33;
     (user_id_str, m1) \<leftarrow> on_conn (\<lambda>a d. cc_get (le_get le) a d (CACHE_USER_ADR_ID_PREFIX @ address_hex)) c m;
     if user_id_str = [] then do {
       (l, m2) \<leftarrow> on_conn (\<lambda>a d. cc_incr (le_incr le) a d CACHE_INCR_USER_ID) c m1;
       (user_id_long, m3) \<leftarrow>
         (if l = 1 then on_conn (\<lambda>a d. cc_incrBy (le_incrBy le) a d CACHE_INCR_USER_ID 99999) c m2 else Some (l, m2));
       let user_id_str1 = int2string (of_int user_id_long);
       (ok, m4) \<leftarrow> on_conn (\<lambda>a d. cc_exec (le_mset le) a d
         [str_bytes ''MSET'', CACHE_USER_ADR_ID_PREFIX @ address_hex, user_id_str1,
          CACHE_USER_ID_PUB_KEY_PREFIX @ user_id_str1, pub_key_33_hex,
          CACHE_USER_ID_ADR_PREFIX @ user_id_str1, address_hex,
          CACHE_USER_ID_LOGIN_TIME_PREFIX @ user_id_str1, int2string (le_now le)] None) c m3;
       i \<leftarrow> atoi (cstr user_id_str1);
       Some (of_int i, m4) }
     else do { i \<leftarrow> atoi (cstr user_id_str); Some (of_int i, m1) } }"

text \<open>The profile: eight values, in the order of the keys.\<close>

definition login_user_info ::
  "login_env \<Rightarrow> u32 \<Rightarrow> bytes \<Rightarrow> bytes \<Rightarrow> nat \<Rightarrow> cache_manager \<Rightarrow> (user_info \<times> cache_manager) option" where
  "login_user_info le user_id pub_key_33 address_hex c m = do {
     let uid_str = int2string user_id;
     ((ok, out), m1) \<leftarrow> on_conn (\<lambda>a d. cc_exec (le_mget le) a d
       [str_bytes ''MGET'', CACHE_USER_ID_AVATAR_PREFIX @ uid_str, CACHE_USER_ID_NICKNAME_PREFIX @ uid_str,
        CACHE_USER_ID_USERNAME_PREFIX @ uid_str, CACHE_USER_ID_SIGN_INFO_PREFIX @ uid_str,
        CACHE_USER_ID_FIRST_NAME_PREFIX @ uid_str, CACHE_USER_ID_LAST_NAME_PREFIX @ uid_str,
        CACHE_USER_ID_LOGIN_TIME_PREFIX @ uid_str, CACHE_USER_ID_STATUS_PREFIX @ uid_str] (Some [])) c m;
     list_ret \<leftarrow> out;
     if length list_ret < 8 then None
     else do {
       login_time \<leftarrow> string2int (cstr (list_ret ! 6));
       status \<leftarrow> (if list_ret ! 7 = [] then Some 0 else string2int (cstr (list_ret ! 7)));
       Some (\<lparr>ui_uid = user_id, ui_address = address_hex, ui_pub_key = take 33 pub_key_33,
             ui_avatar = cstr (list_ret ! 0), ui_nick_name = cstr (list_ret ! 1), ui_user_name = cstr (list_ret ! 2),
             ui_sign_info = cstr (list_ret ! 3), ui_first_name = cstr (list_ret ! 4), ui_last_name = cstr (list_ret ! 5),
             ui_login_time = login_time, ui_status = status\<rparr>, m1) } }"

text \<open>
  The outcome is what the caller can see, \<open>error\<close> and \<open>user\<close>; the returned \<open>bRet\<close> is never assigned
  and is false on every path. \<open>Blocked\<close>: \<open>GetCacheConn\<close> waits for a connection to be released.
\<close>

datatype login_outcome = Blocked | Failed ERR | LoggedIn user_info

definition ServerLogin ::
  "login_env \<Rightarrow> (bytes \<Rightarrow> bytes \<Rightarrow> (bytes \<times> bytes) option) \<Rightarrow> server_login_req \<Rightarrow> cache_manager \<Rightarrow>
   (login_outcome \<times> cache_manager) option" where
  "ServerLogin le recover msg m = do {
     logged \<leftarrow> bytes_to_hex_string (sq_sign msg @ [0]) 65;
     (r, m1) \<leftarrow> cm_GetCacheConn (le_conn le) auth_name m;
     (case r of
        Waiting \<Rightarrow> Some (Blocked, m1)
      | Null \<Rightarrow> Some (Failed E_SYSTEM, m1)
      | Got c \<Rightarrow>
          (case recover (sq_sign msg) (format_sign_msg_data (sq_captcha msg) SignMsgType_ptp) of
             None \<Rightarrow> Some (Failed E_LOGIN_ERROR, m1)
           | Some (pub_key_33, address_hex) \<Rightarrow>
               if address_hex \<noteq> sq_address msg then Some (Failed E_LOGIN_ERROR, m1)
               else do {
                 (user_id, m2) \<leftarrow> login_user_id le pub_key_33 address_hex c m1;
                 (user, m3) \<leftarrow> login_user_info le user_id pub_key_33 address_hex c m2;
                 Some (LoggedIn user, cm_RelCacheConn (Some (auth_name, c)) m3) })) }"

fun server_logins ::
  "(bytes \<Rightarrow> bytes \<Rightarrow> (bytes \<times> bytes) option) \<Rightarrow> (login_env \<times> server_login_req) list \<Rightarrow> cache_manager \<Rightarrow>
   (login_outcome list \<times> cache_manager) option" where
  "server_logins recover [] m = Some ([], m)"
| "server_logins recover ((le, msg) # xs) m = do {
     (r, m1) \<leftarrow> ServerLogin le recover msg m;
     (rs, m2) \<leftarrow> server_logins recover xs m1;
     Some (r # rs, m2) }"

section \<open>Specification\<close>

text \<open>How many connections of the pool \<open>auth\<close> can still be handed out: idle ones, and new ones up to the bound.\<close>

definition login_capacity :: "cache_manager \<Rightarrow> int" where
  "login_capacity m =
     (case map_of m auth_name of None \<Rightarrow> 0
      | Some p \<Rightarrow> int (length (m_free_list p)) + max 0 (m_max_conn_cnt p - m_cur_conn_cnt p))"

section \<open>Lemmas\<close>

definition pool_view :: "cache_manager \<Rightarrow> (nat list \<times> int \<times> int) option" where
  "pool_view m = map_option (\<lambda>p. (m_free_list p, m_cur_conn_cnt p, m_max_conn_cnt p)) (map_of m auth_name)"

lemma capacity_view: "login_capacity m =
     (case pool_view m of None \<Rightarrow> 0 | Some (f, cur, cap) \<Rightarrow> int (length f) + max 0 (cap - cur))"
  by (simp add: login_capacity_def pool_view_def split: option.splits)

lemma map_of_pool_update: "map_of (pool_update n p m) k = (if k = n \<and> map_of m n \<noteq> None then Some p else map_of m k)"
  by (induction m) (auto simp: pool_update_def)

lemma on_conn_view: "on_conn f c m = Some (v, m') \<Longrightarrow> pool_view m' = pool_view m"
  by (auto simp: on_conn_def pool_view_def map_of_pool_update split: bind_splits)

lemma login_user_id_view: "login_user_id le pk adr c m = Some (u, m') \<Longrightarrow> pool_view m' = pool_view m"
  by (auto simp: login_user_id_def Let_def dest!: on_conn_view split: bind_splits if_splits)

lemma login_user_info_view:
  "login_user_info le uid pk adr c m = Some (u, m') \<Longrightarrow>
   pool_view m' = pool_view m \<and> ui_address u = adr \<and> ui_uid u = uid \<and> ui_pub_key u = take 33 pk"
  by (auto simp: login_user_info_def Let_def dest!: on_conn_view split: bind_splits if_splits)

lemma GetCacheConn_view:
  assumes "cm_GetCacheConn e auth_name m = Some (Got c, m1)"
  shows "\<exists>f cur f1 cur1 cap. pool_view m = Some (f, cur, cap) \<and> pool_view m1 = Some (f1, cur1, cap) \<and>
     (f = c # f1 \<and> cur1 = cur \<or> f = [] \<and> f1 = [] \<and> cur1 = cur + 1 \<and> cur < cap)"
  using assms by (auto simp: cm_GetCacheConn_def pool_view_def map_of_pool_update
      dest!: cp.get_got split: option.splits bind_splits)

lemma ServerLogin_failed:
  assumes "ServerLogin le recover msg m = Some (Failed E_LOGIN_ERROR, m')"
  shows "login_capacity m' = login_capacity m - 1" and "pool_view m' \<noteq> None"
proof -
  from assms obtain c where "cm_GetCacheConn (le_conn le) auth_name m = Some (Got c, m')"
    by (auto simp: ServerLogin_def split: bind_splits get_result.splits option.splits if_splits)
  from GetCacheConn_view [OF this] show "login_capacity m' = login_capacity m - 1" and "pool_view m' \<noteq> None"
    by (auto simp: capacity_view)
qed

lemma ServerLogin_logged_in:
  assumes "ServerLogin le recover msg m = Some (LoggedIn u, m')"
  shows "\<exists>c m1 m3 pk. cm_GetCacheConn (le_conn le) auth_name m = Some (Got c, m1) \<and>
    recover (sq_sign msg) (format_sign_msg_data (sq_captcha msg) SignMsgType_ptp) = Some (pk, sq_address msg) \<and>
    ui_address u = sq_address msg \<and> ui_pub_key u = take 33 pk \<and>
    pool_view m3 = pool_view m1 \<and> m' = cm_RelCacheConn (Some (auth_name, c)) m3"
proof -
  from assms obtain c m1 pk uid m2 m3 where *: "cm_GetCacheConn (le_conn le) auth_name m = Some (Got c, m1)"
    "recover (sq_sign msg) (format_sign_msg_data (sq_captcha msg) SignMsgType_ptp) = Some (pk, sq_address msg)"
    "login_user_id le pk (sq_address msg) c m1 = Some (uid, m2)"
    "login_user_info le uid pk (sq_address msg) c m2 = Some (u, m3)" "m' = cm_RelCacheConn (Some (auth_name, c)) m3"
    by (auto simp: ServerLogin_def split: bind_splits get_result.splits option.splits if_splits)
  from login_user_id_view [OF *(3)] login_user_info_view [OF *(4)] *(1,2,5) show ?thesis by metis
qed

lemma RelCacheConn_capacity:
  assumes "pool_view m3 = Some (f1, cur, cap)" and "c \<notin> set f1"
  shows "login_capacity (cm_RelCacheConn (Some (auth_name, c)) m3) = int (length f1) + 1 + max 0 (cap - cur)"
  using assms by (auto simp: pool_view_def cm_RelCacheConn_def login_capacity_def map_of_pool_update RelCacheConn_def)

lemma ServerLogin_blocked:
  assumes "pool_view m \<noteq> None" and "login_capacity m = 0" and "64 \<le> length (sq_sign msg)"
  shows "\<exists>m'. ServerLogin le recover msg m = Some (Blocked, m') \<and> pool_view m' = pool_view m"
proof -
  from assms obtain p where p: "map_of m auth_name = Some p" by (auto simp: pool_view_def)
  with assms(2) have "m_free_list p = []" "m_max_conn_cnt p \<le> m_cur_conn_cnt p"
    using max.cobounded1 [of 0 "m_max_conn_cnt p - m_cur_conn_cnt p"] max.cobounded2 [of "m_max_conn_cnt p - m_cur_conn_cnt p" 0]
    by (simp_all add: login_capacity_def)
  moreover obtain t where "bytes_to_hex_string (sq_sign msg @ [0]) 65 = Some t"
    using assms(3) by (simp add: bytes_to_hex_string_def mem_read_def)
  ultimately show ?thesis using p
    by (auto simp: ServerLogin_def cm_GetCacheConn_def GetCacheConn.simps pool_view_def map_of_pool_update)
qed

lemma server_logins_failed:
  assumes "server_logins recover xs m = Some (rs, m')" and "\<forall>r \<in> set rs. r = Failed E_LOGIN_ERROR" and "pool_view m \<noteq> None"
  shows "login_capacity m' = login_capacity m - int (length xs) \<and> pool_view m' \<noteq> None"
  using assms
proof (induction xs arbitrary: m rs)
  case (Cons x xs)
  obtain le msg where x: "x = (le, msg)" by (cases x)
  from Cons.prems(1) obtain r rs' m1 where 1: "ServerLogin le recover msg m = Some (r, m1)"
    "server_logins recover xs m1 = Some (rs', m')" "rs = r # rs'" by (auto simp: x split: bind_splits)
  with Cons.prems(2) have "ServerLogin le recover msg m = Some (Failed E_LOGIN_ERROR, m1)" by simp
  note f = ServerLogin_failed [OF this]
  from Cons.IH [OF 1(2)] Cons.prems(2) 1(3) f show ?case by simp
qed simp

section \<open>Properties\<close>

text \<open>
  C19. Logging in needs the key of the address: when \<open>ServerLogin\<close> succeeds, the signature over the
  captcha is by the key that has the claimed address, and the profile returned carries that
  address and key. The cache connection it used is given back.
\<close>

theorem login_needs_signature:
  assumes "ServerLogin le recover msg m = Some (LoggedIn u, m')"
    and "pool_view m = Some (free, cur, cap)" and "distinct free"
  shows "(\<exists>pk. recover (sq_sign msg) (format_sign_msg_data (sq_captcha msg) SignMsgType_ptp) = Some (pk, sq_address msg)
       \<and> ui_address u = sq_address msg \<and> ui_pub_key u = take 33 pk)
     \<and> login_capacity m' = login_capacity m"
proof -
  from ServerLogin_logged_in [OF assms(1)] obtain c m1 m3 pk where *: "cm_GetCacheConn (le_conn le) auth_name m = Some (Got c, m1)"
    "recover (sq_sign msg) (format_sign_msg_data (sq_captcha msg) SignMsgType_ptp) = Some (pk, sq_address msg)"
    "ui_address u = sq_address msg" "ui_pub_key u = take 33 pk"
    "pool_view m3 = pool_view m1" "m' = cm_RelCacheConn (Some (auth_name, c)) m3" by blast
  from GetCacheConn_view [OF *(1)] assms(2,3) obtain f1 cur1 where
    f1: "pool_view m1 = Some (f1, cur1, cap)" "c \<notin> set f1"
      "int (length f1) + 1 + max 0 (cap - cur1) = login_capacity m" by (auto simp: capacity_view)
  have "login_capacity m' = login_capacity m"
    using RelCacheConn_capacity [of m3 f1 cur1 cap c] f1 *(5,6) by simp
  with *(2,3,4) show ?thesis by blast
qed

text \<open>
  C20. A login refused for its signature keeps its cache connection: as many refused logins as the
  pool has connections leave none, and from then on every login, with any signature, waits
  forever for a connection that nobody will release.
\<close>

theorem refused_logins_block:
  assumes "server_logins recover xs m = Some (replicate (length xs) (Failed E_LOGIN_ERROR), m')"
    and "int (length xs) = login_capacity m" and "map_of m auth_name \<noteq> None"
    and "64 \<le> length (sq_sign msg)"
  shows "\<exists>m''. ServerLogin le recover' msg m' = Some (Blocked, m'')"
proof -
  have "pool_view m \<noteq> None" using assms(3) by (simp add: pool_view_def)
  from server_logins_failed [OF assms(1) _ this] assms(2) have "login_capacity m' = 0" "pool_view m' \<noteq> None" by auto
  from ServerLogin_blocked [OF this(2,1) assms(4)] show ?thesis by blast
qed

section \<open>Concrete logins\<close>

definition sample_manager :: cache_manager where
  "sample_manager = [(auth_name, cache_pool1)]"

definition sample_env :: login_env where
  "sample_env = \<lparr>le_conn = env_get, le_get = env_get\<lparr>re_reply := Some (Reply REDIS_REPLY_STRING (Some [55]) 0 [])\<rparr>,
     le_incr = env_get, le_incrBy = env_get, le_mset = env_get,
     le_mget = env_get\<lparr>re_reply := Some (Reply REDIS_REPLY_ARRAY None 0 (replicate 8 (Reply REDIS_REPLY_STRING (Some []) 0 [])))\<rparr>,
     le_now = 0\<rparr>"

definition sample_login :: server_login_req where
  "sample_login = \<lparr>sq_address = [65], sq_captcha = [49], sq_sign = replicate 65 7, sq_attach_data = []\<rparr>"

lemma sample_login_ok:
  "\<exists>u m'. ServerLogin sample_env (\<lambda>_ _. Some (replicate 33 2, [65])) sample_login sample_manager = Some (LoggedIn u, m')"
proof -
  have "case ServerLogin sample_env (\<lambda>_ _. Some (replicate 33 2, [65])) sample_login sample_manager of
      Some (LoggedIn u, m') \<Rightarrow> True | _ \<Rightarrow> False" by code_simp
  then show ?thesis by (auto split: option.splits login_outcome.splits)
qed

lemma sample_pool: "pool_view sample_manager = Some ([0, 1], 2, 1)" "login_capacity sample_manager = 2"
  by code_simp+

theorem login_needs_signature_witness:
  "\<exists>u m'. ServerLogin sample_env (\<lambda>_ _. Some (replicate 33 2, [65])) sample_login sample_manager = Some (LoggedIn u, m') \<and>
     ui_address u = [65] \<and> login_capacity m' = 2"
proof -
  from sample_login_ok obtain u m' where
    u: "ServerLogin sample_env (\<lambda>_ _. Some (replicate 33 2, [65])) sample_login sample_manager = Some (LoggedIn u, m')"
    by blast
  from login_needs_signature [OF this sample_pool(1)] sample_pool(2) u show ?thesis
    by (auto simp: sample_login_def)
qed

lemma sample_refused:
  "\<exists>m'. server_logins (\<lambda>_ _. None) [(sample_env, sample_login), (sample_env, sample_login)] sample_manager
     = Some (replicate 2 (Failed E_LOGIN_ERROR), m')"
proof -
  have "map_option fst (server_logins (\<lambda>_ _. None) [(sample_env, sample_login), (sample_env, sample_login)] sample_manager)
     = Some (replicate 2 (Failed E_LOGIN_ERROR))" by code_simp
  then show ?thesis by auto
qed

theorem refused_logins_block_witness:
  "\<exists>m' m''. server_logins (\<lambda>_ _. None) [(sample_env, sample_login), (sample_env, sample_login)] sample_manager
      = Some (replicate 2 (Failed E_LOGIN_ERROR), m') \<and>
     ServerLogin sample_env (\<lambda>_ _. Some (replicate 33 2, [65])) sample_login m' = Some (Blocked, m'')"
proof -
  from sample_refused obtain m' where
    m': "server_logins (\<lambda>_ _. None) [(sample_env, sample_login), (sample_env, sample_login)] sample_manager
      = Some (replicate 2 (Failed E_LOGIN_ERROR), m')" by blast
  have l: "length [(sample_env, sample_login), (sample_env, sample_login)] = 2" by simp
  have "map_of sample_manager auth_name \<noteq> None" by (simp add: sample_manager_def)
  moreover have "64 \<le> length (sq_sign sample_login)" by (simp add: sample_login_def)
  ultimately show ?thesis using sample_pool(2) m'
    refused_logins_block [of "\<lambda>_ _. None" "[(sample_env, sample_login), (sample_env, sample_login)]", unfolded l, OF m', of sample_login]
    by auto
qed

end
