(* ===== verification/Attach_Data.thy ===== *)
theory Attach_Data
  imports Util_Pdu
begin

text \<open>
  \<^verbatim>\<open>src/ptp_global/AttachData.cpp\<close>: the data a server attaches to a request so that the answer finds its
  way back, written to and read from a byte stream. \<open>CDbAttachData\<close> holds a type, the handle of
  the connection and a service type, \<open>CPduAttachData\<close> a packet besides.
\<close>

section \<open>Writing\<close>

text \<open>What the stream has written to its \<open>CSimpleBuffer\<close>, the member \<open>m_buf\<close>.\<close>

definition stream_buffer :: "byte_stream \<Rightarrow> simple_buffer option" where
  "stream_buffer s = (case bs_back s of Simp b \<Rightarrow> Some b | _ \<Rightarrow> None)"

definition CDbAttachData :: "(nat \<Rightarrow> byte) \<Rightarrow> u32 \<Rightarrow> u32 \<Rightarrow> u32 \<Rightarrow> simple_buffer option" where
  "CDbAttachData garb type handle service_type = do {
     s1 \<leftarrow> out_u32 garb type (CByteStream_simp CSimpleBuffer 0);
     s2 \<leftarrow> out_u32 garb handle s1;
     s3 \<leftarrow> out_u32 garb service_type s2;
     stream_buffer s3 }"

definition CPduAttachData :: "(nat \<Rightarrow> byte) \<Rightarrow> u32 \<Rightarrow> u32 \<Rightarrow> bytes \<Rightarrow> u32 \<Rightarrow> u32 \<Rightarrow> simple_buffer option" where
  "CPduAttachData garb type handle pdu pduLength service_type = do {
     s1 \<leftarrow> out_u32 garb type (CByteStream_simp CSimpleBuffer 0);
     s2 \<leftarrow> out_u32 garb handle s1;
     s3 \<leftarrow> out_u32 garb service_type s2;
     s4 \<leftarrow> WriteData garb pdu pduLength s3;
     stream_buffer s4 }"

section \<open>Reading\<close>

record attach_data =
  at_type :: u32
  at_handle :: u32
  at_service_type :: u32

definition CDbAttachData_read :: "bytes \<Rightarrow> u32 \<Rightarrow> attach_data stream_res" where
  "CDbAttachData_read data len =
     stream_bind (in_u32 (CByteStream_raw data len)) (\<lambda>t s1.
     stream_bind (in_u32 s1) (\<lambda>h s2.
     stream_bind (in_u32 s2) (\<lambda>v s3.
       Some (Inr (\<lparr>at_type = t, at_handle = h, at_service_type = v\<rparr>, s3)))))"

text \<open>The packet is a pointer into the attached data: its offset and its length.\<close>

definition CPduAttachData_read :: "bytes \<Rightarrow> u32 \<Rightarrow> (attach_data \<times> nat \<times> u32) stream_res" where
  "CPduAttachData_read data len =
     stream_bind (CDbAttachData_read data len) (\<lambda>a s.
     stream_bind (ReadData s) (\<lambda>p s'. Some (Inr ((a, p), s'))))"

section \<open>Lemmas\<close>

lemma simp_write:
  assumes "bs_back s = Simp b" and "sb_wf b" and "length d = unat len" and "sb_fits b (unat len)"
  shows "\<exists>b' s'. bs_WriteByte garb d len s = Some s' \<and> bs_back s' = Simp b' \<and> sb_wf b' \<and> sb_contents b' = sb_contents b @ d"
  using sb_Write_spec [OF assms(2-4), of garb] assms(1) by (auto simp: bs_WriteByte_def)

lemma length_put_u32 [simp]: "length (put_u32 x) = 4"
  by (simp add: put_u32_def)

text \<open>Room for \<open>n\<close> more bytes, in terms of the contents.\<close>

lemma sb_fits_contents: "sb_wf b \<Longrightarrow> length (sb_contents b) + n < 3000000000 \<Longrightarrow> sb_fits b n"
  by (auto simp: sb_fits_def Let_def length_sb_contents)

lemma simp_out_u32:
  assumes "bs_back s = Simp b" and "sb_wf b" and "length (sb_contents b) < 2000000000"
  shows "\<exists>b' s'. out_u32 garb x s = Some s' \<and> bs_back s' = Simp b' \<and> sb_wf b' \<and> sb_contents b' = sb_contents b @ put_u32 x"
  using simp_write [OF assms(1,2), of "put_u32 x" 4 garb] sb_fits_contents [OF assms(2), of 4] assms(3)
  by (simp add: out_u32_def)

lemma three_words:
  obtains b s where "do { s1 \<leftarrow> out_u32 garb t (CByteStream_simp CSimpleBuffer 0); s2 \<leftarrow> out_u32 garb h s1; out_u32 garb v s2 } = Some s"
    "bs_back s = Simp b" "sb_wf b" "sb_contents b = put_u32 t @ put_u32 h @ put_u32 v"
proof -
  obtain b1 s1 where 1: "out_u32 garb t (CByteStream_simp CSimpleBuffer 0) = Some s1" "bs_back s1 = Simp b1" "sb_wf b1"
    "sb_contents b1 = put_u32 t"
    using simp_out_u32 [of "CByteStream_simp CSimpleBuffer 0" CSimpleBuffer garb t] by (auto simp: CByteStream_simp_def)
  obtain b2 s2 where 2: "out_u32 garb h s1 = Some s2" "bs_back s2 = Simp b2" "sb_wf b2"
    "sb_contents b2 = put_u32 t @ put_u32 h" using simp_out_u32 [OF 1(2,3), of garb h] 1(4) by auto
  obtain b3 s3 where 3: "out_u32 garb v s2 = Some s3" "bs_back s3 = Simp b3" "sb_wf b3"
    "sb_contents b3 = put_u32 t @ put_u32 h @ put_u32 v" using simp_out_u32 [OF 2(2,3), of garb v] 2(4) by auto
  show ?thesis by (rule that [of s3 b3]) (use 1 2 3 in simp_all)
qed

lemma read_three:
  assumes "length data = unat len" and "data = put_u32 t @ put_u32 h @ put_u32 v @ rest"
  shows "CDbAttachData_read data len =
     Some (Inr (\<lparr>at_type = t, at_handle = h, at_service_type = v\<rparr>, \<lparr>bs_back = Raw data, m_len = len, m_pos = 12\<rparr>))"
  using assms
  by (simp add: CDbAttachData_read_def CByteStream_raw_def in_u32_raw [of _ data] stream_bind_def be32_put)

text \<open>What is read is what was written, and a short attachment is a parse error, not a wrong result.\<close>

lemma attach_roundtrip:
  "\<exists>b. CDbAttachData garb t h v = Some b \<and> sb_contents b = put_u32 t @ put_u32 h @ put_u32 v \<and>
     (\<exists>s. CDbAttachData_read (sb_contents b) 12 = Some (Inr (\<lparr>at_type = t, at_handle = h, at_service_type = v\<rparr>, s)))"
proof -
  obtain b s where s: "do { s1 \<leftarrow> out_u32 garb t (CByteStream_simp CSimpleBuffer 0); s2 \<leftarrow> out_u32 garb h s1; out_u32 garb v s2 } = Some s"
    "bs_back s = Simp b" "sb_wf b" "sb_contents b = put_u32 t @ put_u32 h @ put_u32 v" by (rule three_words)
  then have "CDbAttachData garb t h v = Some b"
    by (auto simp: CDbAttachData_def stream_buffer_def split: bind_splits)
  with s(4) read_three [of "sb_contents b" 12 t h v "[]"] show ?thesis by auto
qed

end
