(* ===== verification/Msg_Server.thy ===== *)
theory Msg_Server
  imports Im_User Im_Conn Serv_Info Inter_Login Attach_Data
begin

text \<open>
  \<^verbatim>\<open>src/ptp_server/MsgSrvConn.cpp\<close>, \<^verbatim>\<open>src/ptp_server/HandlerMap.cpp\<close>, \<^verbatim>\<open>Request.cpp\<close>, \<^verbatim>\<open>Response.cpp\<close> and
  \<^verbatim>\<open>src/ptp_server/actions/AuthAction.cpp\<close>: the message server. It accepts connections, hands every PDU
  to the handler of its command, and answers, passes the handler's message on to the next handler or sends
  it to a business server.

  Parsing and serialisation of the messages (generated by protoc), the recovery of a key from a signature
  and the key agreement are the fields of \<open>srv_lib\<close>; what a call reads from the world (random numbers, time,
  uninitialised memory, the answers of Redis) are the fields of \<open>srv_env\<close>. The result \<open>None\<close> is undefined
  behaviour or an exception nobody catches; otherwise a handler returns, throws \<open>CPduException\<close> or blocks.
\<close>

section \<open>Commands and messages\<close>

abbreviation CID_AuthLoginReq :: u16 where "CID_AuthLoginReq \<equiv> 0x0101"
abbreviation CID_AuthLoginRes :: u16 where "CID_AuthLoginRes \<equiv> 0x0102"
abbreviation CID_AuthCaptchaReq :: u16 where "CID_AuthCaptchaReq \<equiv> 0x0105"
abbreviation CID_AuthCaptchaRes :: u16 where "CID_AuthCaptchaRes \<equiv> 0x0106"
abbreviation CID_ServerLoginReq :: u16 where "CID_ServerLoginReq \<equiv> 0x0601"
abbreviation CID_ServerLoginRes :: u16 where "CID_ServerLoginRes \<equiv> 0x0602"
abbreviation CID_HeartBeatNotify :: u16 where "CID_HeartBeatNotify \<equiv> 0x0701"
abbreviation USER_STAT_ONLINE :: u32 where "USER_STAT_ONLINE \<equiv> 1"
abbreviation ATTACH_TYPE_HANDLE :: u32 where "ATTACH_TYPE_HANDLE \<equiv> 1"

record captcha_fields =
  cf_captcha :: bytes
  cf_address :: bytes
  cf_iv :: bytes
  cf_aad :: bytes
  cf_sign :: bytes

record login_req =
  lq_address :: bytes
  lq_captcha :: bytes
  lq_client_type :: u32
  lq_client_version :: bytes
  lq_sign :: bytes

text \<open>The optional field \<open>user_info\<close>: absent, present with nothing set, or complete.\<close>

datatype user_field = NoUser | EmptyUser | User user_info

fun the_user_info :: "user_field \<Rightarrow> user_info" where
  "the_user_info (User u) = u"
| "the_user_info _ = no_user_info"

record server_login_res =
  sr_error :: ERR
  sr_user :: user_field
  sr_attach_data :: bytes

text \<open>
  \<open>ParseFromArray\<close> of \<open>ServerLoginReq\<close> gives its result and the fields it has set, which the code uses also
  when it failed. \<open>lib_ecdh\<close> is \<open>None\<close> when the public key does not parse or the agreement fails.
\<close>

record srv_lib =
  lib_parse_captcha_req :: "bytes \<Rightarrow> bool"
  lib_ser_captcha_res :: "captcha_fields option \<Rightarrow> ERR \<Rightarrow> bytes option"
  lib_parse_login_req :: "bytes \<Rightarrow> login_req option"
  lib_ser_login_res :: "ERR \<Rightarrow> user_field \<Rightarrow> bytes option"
  lib_parse_server_login_req :: "bytes \<Rightarrow> bool \<times> server_login_req"
  lib_ser_server_login_req :: "server_login_req \<Rightarrow> bytes option"
  lib_parse_server_login_res :: "bytes \<Rightarrow> server_login_res option"
  lib_ser_server_login_res :: "server_login_res \<Rightarrow> bytes option"
  lib_ser_heartbeat :: "bytes option"
  lib_recover :: "bytes \<Rightarrow> bytes \<Rightarrow> (bytes \<times> bytes) option"
  lib_ecdh :: "bytes \<Rightarrow> bytes \<Rightarrow> bytes option"

record srv_env =
  se_garb :: "nat \<Rightarrow> byte"
  se_junk :: u32
  se_tick :: u64
  se_random :: "nat \<Rightarrow> u64 \<times> u64 \<times> u64"
  se_iv :: bytes
  se_aad :: bytes
  se_prv_key :: bytes
  se_address :: bytes
  se_sign65 :: bytes
  se_time :: u32
  se_login :: login_env

section \<open>The server\<close>

record msg_server = im_state +
  ms_cache :: cache_manager
  ms_biz :: biz
  ms_closed :: "u32 list"

datatype 'a outcome = Returns 'a | Throws pdu_exception | Blocks

definition FindMsgSrvConnByHandle :: "u32 \<Rightarrow> 'a im_state_scheme \<Rightarrow> nat option" where
  "FindMsgSrvConnByHandle conn_handle s = map_of (ms_conn_map s) conn_handle"

definition addMsgSrvConnByHandle :: "u32 \<Rightarrow> nat \<Rightarrow> 'a im_state_scheme \<Rightarrow> 'a im_state_scheme" where
  "addMsgSrvConnByHandle conn_handle p s = s\<lparr>ms_conn_map := umap_insert conn_handle p (ms_conn_map s)\<rparr>"

section \<open>Requests and responses\<close>

record response =
  rs_pdu :: "im_pdu option"
  rs_next :: bool

definition CResponse :: response where
  "CResponse = \<lparr>rs_pdu = None, rs_next = False\<rparr>"

definition isPduValid :: "response \<Rightarrow> bool option" where
  "isPduValid r =
     (case rs_pdu r of
        None \<Rightarrow> Some False
      | Some pdu \<Rightarrow>
          if pdu_GetBuffer pdu = [] then Some False
          else do { pdu_len \<leftarrow> ReadUint32 (pdu_GetBuffer pdu) 0; Some (pdu_len \<le> pdu_GetLength pdu) })"

definition rsp_Next :: "srv_env \<Rightarrow> bytes option \<Rightarrow> u16 \<Rightarrow> u16 \<Rightarrow> response option" where
  "rsp_Next e ser command_id seq_num = do {
     pdu \<leftarrow> ImPdu_SetPBMsg_cmd (se_garb e) ser command_id seq_num (CImPdu (se_junk e));
     Some \<lparr>rs_pdu = Some pdu, rs_next = True\<rparr> }"

definition rsp_SendMsg :: "srv_env \<Rightarrow> bytes option \<Rightarrow> u16 \<Rightarrow> u16 \<Rightarrow> bool \<Rightarrow> response option" where
  "rsp_SendMsg e ser command_id seq_num encrypt = do {
     pdu \<leftarrow> ImPdu_SetPBMsg_cmd (se_garb e) ser command_id seq_num (CImPdu (se_junk e));
     pdu1 \<leftarrow> pdu_SetReversed (if encrypt then 1 else 0) pdu;
     Some \<lparr>rs_pdu = Some pdu1, rs_next = False\<rparr> }"

section \<open>Random text\<close>

definition alphanum :: bytes where
  "alphanum = str_bytes ''0123456789ABCDEFGHIJKLMNOPQRSTUVWXYZabcdefghijklmnopqrstuvwxyz''"

text \<open>What round \<open>i\<close> of the loop reads: the time and two results of \<open>rand()\<close>.\<close>

definition gen_random :: "(nat \<Rightarrow> u64 \<times> u64 \<times> u64) \<Rightarrow> nat \<Rightarrow> bytes" where
  "gen_random r len = map (\<lambda>i. case r i of (t, a, b) \<Rightarrow> alphanum ! unat ((t * a + b) mod 62)) [0..<len]"

section \<open>Handlers\<close>

type_synonym handler_fun =
  "srv_lib \<Rightarrow> srv_env \<Rightarrow> u32 \<Rightarrow> im_pdu \<Rightarrow> msg_server \<Rightarrow> (response outcome \<times> msg_server) option"

definition reply :: "response option \<Rightarrow> msg_server \<Rightarrow> (response outcome \<times> msg_server) option" where
  "reply r s = map_option (\<lambda>x. (Returns x, s)) r"

text \<open>\<open>address.substr(2)\<close> and \<open>hex_to_string\<close>, with exceptions nobody catches.\<close>

definition unhex0x :: "bytes \<Rightarrow> bytes option" where
  "unhex0x a = (if length a < 2 then None else case hex_to_string (drop 2 a) of Inl _ \<Rightarrow> None | Inr b \<Rightarrow> Some b)"

definition AuthCaptchaReq :: handler_fun where
  "AuthCaptchaReq lib e handle pdu s =
     (case FindMsgSrvConnByHandle handle s of
        None \<Rightarrow> Some (Returns CResponse, s)
      | Some p \<Rightarrow> do {
          c \<leftarrow> ms_conns s p;
          body \<leftarrow> pdu_body pdu;
          if \<not> lib_parse_captcha_req lib body then
            reply (rsp_SendMsg e (lib_ser_captcha_res lib None E_PB_PARSE_ERROR) CID_AuthCaptchaRes (pdu_GetSeqNum pdu) False) s
          else do {
            let captcha = gen_random (se_random e) 6;
            address \<leftarrow> unhex0x (se_address e);
            iv_hex \<leftarrow> bytes_to_hex_string (se_iv e) 16;
            aad_hex \<leftarrow> bytes_to_hex_string (se_aad e) 16;
            let c1 = c\<lparr>mc_captcha := captcha, mc_prv_key := se_prv_key e, mc_iv := iv_hex, mc_aad := aad_hex\<rparr>;
            reply (rsp_SendMsg e
                (lib_ser_captcha_res lib
                   (Some \<lparr>cf_captcha = captcha, cf_address = address, cf_iv = take 16 (se_iv e), cf_aad = take 16 (se_aad e),
                          cf_sign = take 65 (se_sign65 e)\<rparr>) NO_ERROR)
                CID_AuthCaptchaRes (pdu_GetSeqNum pdu) False) (put_conn p c1 s) } })"

definition login_error :: "srv_lib \<Rightarrow> srv_env \<Rightarrow> ERR \<Rightarrow> im_pdu \<Rightarrow> msg_server \<Rightarrow> (response outcome \<times> msg_server) option" where
  "login_error lib e error pdu s =
     reply (rsp_SendMsg e (lib_ser_login_res lib error NoUser) CID_AuthLoginRes (pdu_GetSeqNum pdu) False) s"

text \<open>The user of an address, made when it is not there.\<close>

definition user_for_address :: "bytes \<Rightarrow> msg_server \<Rightarrow> nat \<times> msg_server" where
  "user_for_address address s =
     (case GetImUserByAddress address s of
        Some u \<Rightarrow> (u, s)
      | None \<Rightarrow> (let (u, s1) = CImUser address s in (u, snd (AddImUserByAddress address u s1))))"

definition AuthLoginReq :: handler_fun where
  "AuthLoginReq lib e handle pdu s =
     (case FindMsgSrvConnByHandle handle s of
        None \<Rightarrow> Some (Returns CResponse, s)
      | Some p \<Rightarrow> do {
          c \<leftarrow> ms_conns s p;
          if mc_address_hex c \<noteq> [] then login_error lib e E_LOGIN_ERROR pdu s
          else if mc_captcha c = [] then login_error lib e E_LOGIN_ERROR pdu s
          else do {
            body \<leftarrow> pdu_body pdu;
            (case lib_parse_login_req lib body of
               None \<Rightarrow> login_error lib e E_PB_PARSE_ERROR pdu s
             | Some msg \<Rightarrow>
                 if lq_captcha msg \<noteq> mc_captcha c then login_error lib e E_LOGIN_ERROR pdu s
                 else do {
                   let c1 = c\<lparr>mc_captcha := [], mc_address_hex := lq_address msg, mc_client_version := lq_client_version msg,
                              mc_client_type := lq_client_type msg, mc_online_status := USER_STAT_ONLINE,
                              mc_login_time := se_time e\<rparr>;
                   let (u, s1) = user_for_address (lq_address msg) (put_conn p c1 s);
                   s2 \<leftarrow> AddMsgConn (mc_handle c1) p u s1;
                   b \<leftarrow> CDbAttachData (se_garb e) ATTACH_TYPE_HANDLE (mc_handle c1) 0;
                   attach \<leftarrow> mem_read (m_buffer b) 0 (unat (m_write_offset b));
                   reply (rsp_Next e
                       (lib_ser_server_login_req lib
                          \<lparr>sq_address = lq_address msg, sq_captcha = lq_captcha msg, sq_sign = lq_sign msg, sq_attach_data = attach\<rparr>)
                       CID_ServerLoginReq (pdu_GetSeqNum pdu)) s2 }) } })"

definition ServerLoginReq :: handler_fun where
  "ServerLoginReq lib e handle pdu s = do {
     body \<leftarrow> pdu_body pdu;
     let (ok, msg) = lib_parse_server_login_req lib body;
     let next = (\<lambda>error user s'. reply (rsp_Next e
           (lib_ser_server_login_res lib \<lparr>sr_error = error, sr_user = user, sr_attach_data = sq_attach_data msg\<rparr>)
           CID_ServerLoginRes (pdu_GetSeqNum pdu)) s');
     if \<not> ok then next E_PB_PARSE_ERROR NoUser s
     else do {
       (r, cache) \<leftarrow> ServerLogin (se_login e) (lib_recover lib) msg (ms_cache s);
       let s1 = s\<lparr>ms_cache := cache\<rparr>;
       (case r of
          Blocked \<Rightarrow> Some (Blocks, s1)
        | Failed error \<Rightarrow> next error EmptyUser s1
        | LoggedIn user \<Rightarrow> next NO_ERROR (User user) s1) } }"

text \<open>
  \<open>error\<close> is read from the message before it is parsed, so it starts as \<open>NO_ERROR\<close> whatever the sender
  reports. The fields copied into the answer are those of \<open>answer_user\<close>.
\<close>

definition answer_user :: "user_info \<Rightarrow> user_info" where
  "answer_user v = v\<lparr>ui_first_name := [], ui_last_name := [], ui_login_time := 0\<rparr>"

definition open_session ::
  "nat \<Rightarrow> msg_conn \<Rightarrow> nat \<Rightarrow> im_user \<Rightarrow> u32 \<Rightarrow> bytes \<Rightarrow> u32 \<Rightarrow> msg_server \<Rightarrow> msg_server" where
  "open_session p c u x handle share_key user_id s =
     (let s1 = put_conn p (c\<lparr>mc_share_key := share_key, mc_user_id := user_id\<rparr>) s;
          s2 = put_user u (x\<lparr>iu_user_id := user_id, iu_handle := handle\<rparr>) s1;
          s3 = snd (AddImUserById user_id u s2)
      in put_conn p (c\<lparr>mc_share_key := share_key, mc_user_id := user_id, mc_bOpen := True\<rparr>) s3)"

definition ServerLoginRes :: handler_fun where
  "ServerLoginRes lib e handle pdu s =
     (let answer = (\<lambda>error user s'.
            reply (rsp_SendMsg e (lib_ser_login_res lib error user) CID_AuthLoginRes (pdu_GetSeqNum pdu) False) s')
      in do {
        body \<leftarrow> pdu_body pdu;
        (case lib_parse_server_login_res lib body of
           None \<Rightarrow> answer E_PB_PARSE_ERROR NoUser s
         | Some msg \<Rightarrow> do {
             a \<leftarrow> CDbAttachData_read (sr_attach_data msg) (of_nat (length (sr_attach_data msg)));
             (case a of
                Inl x \<Rightarrow> Some (Throws x, s)
              | Inr _ \<Rightarrow>
                  (let v = the_user_info (sr_user msg)
                   in case GetImUserByAddress (ui_address v) s of
                        None \<Rightarrow> answer E_LOGIN_ERROR NoUser s
                      | Some u \<Rightarrow> do {
                          let user = User (answer_user v);
                          p \<leftarrow> FindMsgSrvConnByHandle handle s;
                          c \<leftarrow> ms_conns s p;
                          if mc_prv_key c = [] then answer E_LOGIN_ERROR user s
                          else do {
                            pub_key_33 \<leftarrow> mem_read (ui_pub_key v @ [0]) 0 33;
                            (case lib_ecdh lib pub_key_33 (mc_prv_key c) of
                               None \<Rightarrow> answer E_LOGIN_ERROR user s
                             | Some shared_secret \<Rightarrow> do {
                                 share_key \<leftarrow> bytes_to_hex_string shared_secret 32;
                                 x \<leftarrow> ms_users s u;
                                 answer NO_ERROR user (open_session p c u x handle share_key (ui_uid v) s) }) } })) }) })"

definition HeartBeatNotify :: handler_fun where
  "HeartBeatNotify lib e handle pdu s = Some (Returns CResponse, s)"

definition GetHandler :: "u16 \<Rightarrow> handler_fun option" where
  "GetHandler pdu_cid =
     (if pdu_cid = CID_AuthCaptchaReq then Some AuthCaptchaReq
      else if pdu_cid = CID_AuthLoginReq then Some AuthLoginReq
      else if pdu_cid = CID_ServerLoginReq then Some ServerLoginReq
      else if pdu_cid = CID_ServerLoginRes then Some ServerLoginRes
      else if pdu_cid = CID_HeartBeatNotify then Some HeartBeatNotify
      else None)"

section \<open>Dispatch\<close>

text \<open>A handler passes on only to a command later in this order: the recursion ends.\<close>

definition cid_rank :: "u16 \<Rightarrow> nat" where
  "cid_rank cid = (if cid = CID_AuthLoginReq then 2 else if cid = CID_ServerLoginReq then 1 else 0)"

lemma SetPBMsg_cmd_header:
  "ImPdu_SetPBMsg_cmd garb ser cid seq p = Some p' \<Longrightarrow> pdu_GetCommandId p' = cid \<and> pdu_GetSeqNum p' = seq"
  by (auto simp: ImPdu_SetPBMsg_cmd_def pdu_reset_def pdu_append_def pdu_WriteHeader_def pdu_with_buffer_def Let_def
      split: bind_splits option.splits)

lemma rsp_next_cid: "rsp_Next e ser cid seq = Some r \<Longrightarrow> rs_pdu r = Some pdu \<Longrightarrow> pdu_GetCommandId pdu = cid"
  by (auto simp: rsp_Next_def dest: SetPBMsg_cmd_header split: bind_splits)

lemma rsp_SendMsg_last: "rsp_SendMsg e ser cid seq b = Some r \<Longrightarrow> \<not> rs_next r"
  by (auto simp: rsp_SendMsg_def split: bind_splits)

lemma reply_result: "reply r s = Some (out, s') \<longleftrightarrow> (\<exists>x. r = Some x \<and> out = Returns x \<and> s' = s)"
  by (auto simp: reply_def)

lemma handler_next:
  assumes "GetHandler cid = Some h" and "h lib e handle pdu s = Some (Returns r, s')" and "rs_next r" and "rs_pdu r = Some pdu'"
  shows "cid = CID_AuthLoginReq \<and> pdu_GetCommandId pdu' = CID_ServerLoginReq \<or>
     cid = CID_ServerLoginReq \<and> pdu_GetCommandId pdu' = CID_ServerLoginRes"
proof -
  note defs = AuthCaptchaReq_def ServerLoginRes_def HeartBeatNotify_def AuthLoginReq_def ServerLoginReq_def login_error_def
  from assms show ?thesis
    by (auto simp: GetHandler_def defs reply_result CResponse_def Let_def dest: rsp_SendMsg_last rsp_next_cid
        split: if_splits option.splits bind_splits prod.splits login_outcome.splits sum.splits)
qed

lemma handler_rank:
  assumes "GetHandler cid = Some h" and "h lib e handle pdu s = Some (Returns r, s')" and "rs_next r" and "rs_pdu r = Some pdu'"
  shows "cid_rank (pdu_GetCommandId pdu') < cid_rank cid"
  using handler_next [OF assms] by (auto simp: cid_rank_def)

text \<open>
  \<open>HandleNextResponse\<close> of connection \<open>p\<close>. The connection chosen at the start is used only to see whether
  a business server is there; \<open>E_REASON_NO_DB_SERVER\<close> is 7.
\<close>

function HandleNextResponse ::
  "srv_lib \<Rightarrow> srv_env \<Rightarrow> im_pdu \<Rightarrow> nat \<Rightarrow> msg_server \<Rightarrow> (unit outcome \<times> msg_server) option" where
  "HandleNextResponse lib e pPdu p s =
     (case GetHandler (pdu_GetCommandId pPdu) of
        None \<Rightarrow> map_option (Pair (Returns ())) (msg_SendPdu (se_garb e) pPdu p s)
      | Some h \<Rightarrow> do {
          c \<leftarrow> ms_conns s p;
          (q, z) \<leftarrow> get_business_serv_conn_for_login (se_tick e) (se_junk e) (ms_biz s);
          b \<leftarrow> bz_conns z q;
          if bz_async z \<and> pdu_GetCommandId pPdu = CID_AuthLoginReq \<and> \<not> bc_open b then do {
            err \<leftarrow> ImPdu_SetPBMsg_cmd (se_garb e) (lib_ser_login_res lib E_REASON_NO_DB_SERVER NoUser) CID_AuthLoginRes
                    (pdu_GetSeqNum pPdu) (CImPdu (se_junk e));
            map_option (Pair (Returns ())) (msg_SendPdu (se_garb e) err p (s\<lparr>ms_biz := z\<rparr>)) }
          else do {
            (out, s1) \<leftarrow> h lib e (mc_handle c) pPdu (s\<lparr>ms_biz := z\<rparr>);
            (case out of
               Throws x \<Rightarrow> Some (Throws x, s1)
             | Blocks \<Rightarrow> Some (Blocks, s1)
             | Returns response \<Rightarrow> do {
                 valid \<leftarrow> isPduValid response;
                 if \<not> valid then Some (Returns (), s1)
                 else (case rs_pdu response of
                    None \<Rightarrow> None
                  | Some pdu \<Rightarrow>
                      if \<not> rs_next response then map_option (Pair (Returns ())) (msg_SendPdu (se_garb e) pdu p s1)
                      else do {
                        (q2, z2) \<leftarrow> get_business_serv_conn (se_tick e) (se_junk e) (ms_biz s1);
                        b2 \<leftarrow> bz_conns z2 q2;
                        if \<not> bz_async z2 then HandleNextResponse lib e pdu p (s1\<lparr>ms_biz := z2\<rparr>)
                        else if bc_open b2 then do {
                          pdu1 \<leftarrow> pdu_SetReversed (mc_handle c) pdu;
                          d \<leftarrow> pdu_bytes pdu1;
                          z3 \<leftarrow> biz_Send (se_tick e) d q2 z2;
                          Some (Returns (), s1\<lparr>ms_biz := z3\<rparr>) }
                        else do {
                          err \<leftarrow> ImPdu_SetPBMsg_cmd (se_garb e) (lib_ser_heartbeat lib) (pdu_GetCommandId pdu)
                                  (pdu_GetSeqNum pdu) (CImPdu (se_junk e));
                          err1 \<leftarrow> pdu_SetFlag 7 err;
                          map_option (Pair (Returns ())) (msg_SendPdu (se_garb e) err1 p (s1\<lparr>ms_biz := z2\<rparr>)) } }) }) } })"
  by pat_completeness auto
termination
proof (relation "measure (\<lambda>(lib, e, pdu, p, s). cid_rank (pdu_GetCommandId pdu))", goal_cases)
  case 1
  show ?case by simp
next
  case prems: 2
  then show ?case by (auto dest: handler_rank)
qed

declare HandleNextResponse.simps [simp del]

section \<open>The life of a connection\<close>

definition CMsgSrvConn :: "u32 \<Rightarrow> u32 \<Rightarrow> u64 \<Rightarrow> msg_conn" where
  "CMsgSrvConn client_type login_time tick =
     \<lparr>mc_handle = -1, mc_refs = 1, mc_last_recv_tick = tick, mc_in_buf = CSimpleBuffer, mc_client_type = client_type, mc_online_status = USER_STAT_ONLINE,
      mc_client_version = [], mc_login_time = login_time, mc_user_id = 0, mc_bOpen = False, mc_bKickOff = False,
      mc_connected_time = 0, mc_last_seq_no = 0, mc_send_msg_list = [], mc_msg_cnt_per_sec = 0, mc_share_key = [],
      mc_iv = [], mc_aad = [], mc_prv_key = [], mc_captcha = [], mc_address_hex = [], mc_test = False,
      mc_test_buf = CSimpleBuffer\<rparr>"

definition msg_OnConnect :: "u32 \<Rightarrow> u64 \<Rightarrow> nat \<Rightarrow> 'a im_state_scheme \<Rightarrow> 'a im_state_scheme option" where
  "msg_OnConnect handle tick p s = do {
     c \<leftarrow> ms_conns s p;
     Some (addMsgSrvConnByHandle handle p (put_conn p (c\<lparr>mc_handle := handle, mc_connected_time := tick\<rparr>) s)) }"

text \<open>A new connection: the type of the client and the login time are not initialised.\<close>

definition ptp_server_msg_callback :: "u32 \<Rightarrow> u32 \<Rightarrow> u64 \<Rightarrow> u32 \<Rightarrow> 'a im_state_scheme \<Rightarrow> 'a im_state_scheme option" where
  "ptp_server_msg_callback junk1 junk2 tick handle s =
     msg_OnConnect handle tick (ms_fresh s)
       (put_conn (ms_fresh s) (CMsgSrvConn junk1 junk2 tick) (s\<lparr>ms_fresh := ms_fresh s + 1\<rparr>))"

definition msg_AddRef :: "nat \<Rightarrow> 'a im_state_scheme \<Rightarrow> 'a im_state_scheme option" where
  "msg_AddRef p s = do { c \<leftarrow> ms_conns s p; Some (put_conn p (c\<lparr>mc_refs := mc_refs c + 1\<rparr>) s) }"

definition msg_ReleaseRef :: "nat \<Rightarrow> 'a im_state_scheme \<Rightarrow> 'a im_state_scheme option" where
  "msg_ReleaseRef p s = do {
     c \<leftarrow> ms_conns s p;
     Some (if mc_refs c - 1 = 0 then s\<lparr>ms_conns := (ms_conns s)(p := None)\<rparr>
           else put_conn p (c\<lparr>mc_refs := mc_refs c - 1\<rparr>) s) }"

definition leave_user :: "u32 \<Rightarrow> nat \<Rightarrow> 'a im_state_scheme \<Rightarrow> 'a im_state_scheme option" where
  "leave_user handle u s = do {
     s1 \<leftarrow> DelMsgConn handle u s;
     empty \<leftarrow> IsMsgConnEmpty u s1;
     if empty then RemoveImUser (Some u) s1 else Some s1 }"

definition msg_Close :: "nat \<Rightarrow> msg_server \<Rightarrow> msg_server option" where
  "msg_Close p s = do {
     c \<leftarrow> ms_conns s p;
     let s1 = (if mc_handle c \<noteq> -1
               then s\<lparr>ms_closed := ms_closed s @ [mc_handle c], ms_conn_map := omap_erase (mc_handle c) (ms_conn_map s)\<rparr> else s);
     s2 \<leftarrow> (case GetImUserByAddress (mc_address_hex c) s1 of None \<Rightarrow> Some s1 | Some u \<Rightarrow> leave_user (mc_handle c) u s1);
     msg_ReleaseRef p s2 }"

definition msg_OnClose :: "nat \<Rightarrow> msg_server \<Rightarrow> msg_server option" where
  "msg_OnClose p s = msg_Close p s"

abbreviation TIMEOUT_WATI_LOGIN_RESPONSE :: u64 where "TIMEOUT_WATI_LOGIN_RESPONSE \<equiv> 15000"
abbreviation TIMEOUT_WAITING_MSG_DATA_ACK :: u64 where "TIMEOUT_WAITING_MSG_DATA_ACK \<equiv> 15000"
abbreviation CLIENT_TIMEOUT :: u64 where "CLIENT_TIMEOUT \<equiv> 120000"
abbreviation MOBILE_CLIENT_TIMEOUT :: u64 where "MOBILE_CLIENT_TIMEOUT \<equiv> 60000 * 5"

definition CHECK_CLIENT_TYPE_MOBILE :: "u32 \<Rightarrow> bool" where
  "CHECK_CLIENT_TYPE_MOBILE type \<longleftrightarrow> type AND 0x10 = 0x10"

fun drop_missed :: "u64 \<Rightarrow> msg_ack list \<Rightarrow> msg_ack list" where
  "drop_missed curr_tick [] = []"
| "drop_missed curr_tick (m # ms) =
     (if curr_tick \<ge> ma_timestamp m + TIMEOUT_WAITING_MSG_DATA_ACK then drop_missed curr_tick ms else m # ms)"

definition client_timed_out :: "u64 \<Rightarrow> msg_conn \<Rightarrow> bool" where
  "client_timed_out curr_tick c \<longleftrightarrow>
     (if CHECK_CLIENT_TYPE_MOBILE (mc_client_type c) then curr_tick > mc_last_recv_tick c + MOBILE_CLIENT_TIMEOUT
      else curr_tick > mc_last_recv_tick c + CLIENT_TIMEOUT)"

definition login_timed_out :: "u64 \<Rightarrow> msg_conn \<Rightarrow> bool" where
  "login_timed_out curr_tick c \<longleftrightarrow> \<not> mc_bOpen c \<and> curr_tick > mc_connected_time c + TIMEOUT_WATI_LOGIN_RESPONSE"

definition msg_OnTimer :: "u64 \<Rightarrow> nat \<Rightarrow> msg_server \<Rightarrow> msg_server option" where
  "msg_OnTimer curr_tick p s = do {
     c \<leftarrow> ms_conns s p;
     let s1 = put_conn p (c\<lparr>mc_msg_cnt_per_sec := 0\<rparr>) s;
     if client_timed_out curr_tick c then msg_Close p s1
     else if login_timed_out curr_tick c then msg_Close p s1
     else Some (put_conn p (c\<lparr>mc_msg_cnt_per_sec := 0, mc_send_msg_list := drop_missed curr_tick (mc_send_msg_list c)\<rparr>) s1) }"

fun msg_timer_loop :: "u64 \<Rightarrow> (u32 \<times> nat) list \<Rightarrow> msg_server \<Rightarrow> msg_server option" where
  "msg_timer_loop cur_time [] s = Some s"
| "msg_timer_loop cur_time ((h, p) # es) s = do { s1 \<leftarrow> msg_OnTimer cur_time p s; msg_timer_loop cur_time es s1 }"

definition msg_conn_timer_callback :: "u64 \<Rightarrow> msg_server \<Rightarrow> msg_server option" where
  "msg_conn_timer_callback cur_time s = msg_timer_loop cur_time (ms_conn_map s) s"

text \<open>
  \<open>OnRead\<close>: the received bytes are cut into PDUs as in \<open>conn_OnRead\<close>, and \<open>HandlePdu\<close> is called for each, with what
  its handler reads from the world. The handlers do not touch the receive buffer, so cutting first and handling
  then is the code's loop. A \<open>CPduException\<close>, from a handler or from the framing, closes the connection.
\<close>

definition read_conn :: "msg_conn \<Rightarrow> im_conn" where
  "read_conn c = \<lparr>m_handle = uint (mc_handle c), m_busy = False, m_in_buf = mc_in_buf c, m_out_buf = CSimpleBuffer,
     m_recv_bytes = 0, m_last_send_tick = 0, m_last_recv_tick = mc_last_recv_tick c\<rparr>"

fun msg_read_loop :: "srv_lib \<Rightarrow> (srv_env \<times> im_pdu) list \<Rightarrow> nat \<Rightarrow> msg_server \<Rightarrow> (unit outcome \<times> msg_server) option" where
  "msg_read_loop lib [] p s = Some (Returns (), s)"
| "msg_read_loop lib ((e, pdu) # pdus) p s = do {
     (out, s1) \<leftarrow> HandleNextResponse lib e pdu p s;
     (case out of Returns _ \<Rightarrow> msg_read_loop lib pdus p s1 | _ \<Rightarrow> Some (out, s1)) }"

definition msg_OnRead ::
  "srv_lib \<Rightarrow> (nat \<Rightarrow> byte) \<Rightarrow> u32 \<Rightarrow> recv_event list \<Rightarrow> (nat \<Rightarrow> srv_env) \<Rightarrow> nat \<Rightarrow> msg_server \<Rightarrow> (bool \<times> msg_server) option" where
  "msg_OnRead lib garb junk rs es p s = do {
     c \<leftarrow> ms_conns s p;
     (k, pdus, bad) \<leftarrow> conn_OnRead garb junk collect_pdu rs (read_conn c) [];
     (out, s1) \<leftarrow> msg_read_loop lib (zip (map es [0..<length pdus]) pdus) p
       (put_conn p (c\<lparr>mc_in_buf := m_in_buf k, mc_last_recv_tick := m_last_recv_tick k\<rparr>) s);
     (case out of
        Returns _ \<Rightarrow> if bad then map_option (Pair False) (msg_OnClose p s1) else Some (False, s1)
      | Throws _ \<Rightarrow> map_option (Pair False) (msg_OnClose p s1)
      | Blocks \<Rightarrow> Some (True, s1)) }"

text \<open>\<open>imconn_callback\<close> keeps the connection alive during the call.\<close>

definition on_imconn :: "u32 \<Rightarrow> (nat \<Rightarrow> msg_server \<Rightarrow> (bool \<times> msg_server) option) \<Rightarrow> msg_server \<Rightarrow> (bool \<times> msg_server) option" where
  "on_imconn handle f s =
     (case FindMsgSrvConnByHandle handle s of
        None \<Rightarrow> Some (False, s)
      | Some p \<Rightarrow> do {
          s1 \<leftarrow> msg_AddRef p s;
          (blocked, s2) \<leftarrow> f p s1;
          if blocked then Some (True, s2) else map_option (Pair False) (msg_ReleaseRef p s2) })"

text \<open>A PDU from a business server belongs to the connection whose handle it carries.\<close>

definition biz_HandlePdu :: "srv_lib \<Rightarrow> srv_env \<Rightarrow> im_pdu \<Rightarrow> msg_server \<Rightarrow> (unit outcome \<times> msg_server) option" where
  "biz_HandlePdu lib e pPdu s =
     (if GetHandler (pdu_GetCommandId pPdu) = None then Some (Returns (), s)
      else case FindMsgSrvConnByHandle (pdu_GetReversed pPdu) s of
             None \<Rightarrow> Some (Returns (), s)
           | Some p \<Rightarrow> HandleNextResponse lib e pPdu p s)"

section \<open>Runs of the server\<close>

text \<open>What the timer closes for, and who is online: address and handle of the connections users have.\<close>

definition timed_out :: "u64 \<Rightarrow> 'a im_state_scheme \<Rightarrow> nat \<Rightarrow> bool" where
  "timed_out t s p \<longleftrightarrow> (case ms_conns s p of None \<Rightarrow> False | Some c \<Rightarrow> client_timed_out t c \<or> login_timed_out t c)"

definition online :: "'a im_state_scheme \<Rightarrow> (bytes \<times> u32) set" where
  "online s = {(a, h). \<exists>u x p. ms_users s u = Some x \<and> iu_address_hex x = a \<and> (h, p) \<in> set (iu_conn_map x)}"

datatype msg_event =
    Accept u32 u32 u64 u32
  | Receive u32 "nat \<Rightarrow> byte" u32 "recv_event list" "nat \<Rightarrow> srv_env"
  | Hangup u32
  | Second u64
  | FromBusiness int srv_env im_pdu

text \<open>The flag says that the single thread of the server waits for a cache connection, for good.\<close>

fun msg_step :: "srv_lib \<Rightarrow> msg_event \<Rightarrow> msg_server \<Rightarrow> (bool \<times> msg_server) option" where
  "msg_step lib (Accept junk1 junk2 tick h) s = map_option (Pair False) (ptp_server_msg_callback junk1 junk2 tick h s)"
| "msg_step lib (Receive h garb junk rs es) s = on_imconn h (msg_OnRead lib garb junk rs es) s"
| "msg_step lib (Hangup h) s = on_imconn h (\<lambda>p s'. map_option (Pair False) (msg_OnClose p s')) s"
| "msg_step lib (Second tick) s = map_option (Pair False) (msg_conn_timer_callback tick s)"
| "msg_step lib (FromBusiness h e pdu) s =
     (case map_of (bz_map (ms_biz s)) h of
        None \<Rightarrow> Some (False, s)
      | Some q \<Rightarrow> do {
          (out, s1) \<leftarrow> biz_HandlePdu lib e pdu s;
          (case out of
             Returns _ \<Rightarrow> Some (False, s1)
           | Throws _ \<Rightarrow> do { z \<leftarrow> biz_OnClose q (ms_biz s1); Some (False, s1\<lparr>ms_biz := z\<rparr>) }
           | Blocks \<Rightarrow> Some (True, s1)) })"

fun msg_run :: "srv_lib \<Rightarrow> msg_event list \<Rightarrow> msg_server \<Rightarrow> (bool \<times> msg_server) option" where
  "msg_run lib [] s = Some (False, s)"
| "msg_run lib (ev # evs) s = do {
     (blocked, s1) \<leftarrow> msg_step lib ev s;
     if blocked then Some (True, s1) else msg_run lib evs s1 }"

section \<open>Lemmas\<close>

subsection \<open>Connections keep the invariant\<close>

lemma im_inv_biz [simp]: "im_inv uid k (s\<lparr>ms_biz := z\<rparr>) = im_inv uid k s"
  by (simp add: im_inv_def)

lemma im_inv_cache [simp]: "im_inv uid k (s\<lparr>ms_cache := m\<rparr>) = im_inv uid k s"
  by (simp add: im_inv_def)

lemma msg_Close_inv:
  assumes "im_inv uid k s" and "(h, p) \<in> set (ms_conn_map s)"
  shows "\<exists>s'. msg_Close p s = Some s' \<and> im_inv uid k s' \<and> ms_conn_map s' = omap_erase h (ms_conn_map s) \<and>
     ms_closed s' = ms_closed s @ [h] \<and> (\<forall>q. q \<noteq> p \<longrightarrow> ms_conns s' q = ms_conns s q)"
proof -
  note inv = im_invD [OF assms(1)]
  from inv(4) [OF assms(2)] obtain c where c: "ms_conns s p = Some c" "mc_handle c = h" "h \<noteq> -1"
    "mc_refs c = (if k = Some p then 2 else 1)" by auto
  let ?a = "mc_address_hex c" and ?m = "omap_erase h (ms_conn_map s)"
  let ?s1 = "s\<lparr>ms_closed := ms_closed s @ [h], ms_conn_map := ?m\<rparr>"
  let ?d = "if k = Some p then Some (c\<lparr>mc_refs := 1\<rparr>) else None"
  have rel: "msg_ReleaseRef p t = Some (t\<lparr>ms_conns := (ms_conns t)(p := ?d)\<rparr>)" if "ms_conns t p = Some c" for t :: msg_server
    using that c(4) by (auto simp: msg_ReleaseRef_def put_conn_def)
  note leave = leave_inv [OF assms c(1)]
  show ?thesis
  proof (cases "GetImUserByAddress ?a s")
    case None
    have "iu_address_hex y \<noteq> ?a" if "ms_users s v = Some y" for v y
      using inv(8) [OF that] None by (force simp: GetImUserByAddress_def map_of_eq_None_iff)
    then have "set (iu_conn_map y) = {e \<in> set (iu_conn_map y). snd e \<noteq> p}" if "ms_users s v = Some y" for v y
      using no_member [OF assms(1) c(1) that] that by blast
    then have "im_inv uid k (?s1\<lparr>ms_conns := (ms_conns s)(p := ?d)\<rparr>)"
      using inv(2,3,6,7,8) by (intro leave) (simp_all, blast+)
    with None c rel [of ?s1] show ?thesis
      by (auto simp: msg_Close_def GetImUserByAddress_def)
  next
    case (Some u)
    then have au: "(?a, u) \<in> set (ms_address_map s)" by (auto simp: GetImUserByAddress_def dest: map_of_in)
    with inv(6) obtain x where x: "ms_users s u = Some x" "iu_address_hex x = ?a" by blast
    have ox: "ordered (iu_conn_map x)" using inv(8) [OF x(1)] by blast
    have keys: "g \<noteq> h \<longleftrightarrow> q \<noteq> p" if "(g, q) \<in> set (iu_conn_map x)" for g q
    proof -
      have "(g, q) \<in> set (ms_conn_map s)" using inv(8) [OF x(1)] that by blast
      then show ?thesis using inv(4) [of g q] c(1,2) eq_key_imp_eq_value [OF inv(1) assms(2), of q] by auto
    qed
    let ?m' = "omap_erase h (iu_conn_map x)"
    have em: "set ?m' = {e \<in> set (iu_conn_map x). snd e \<noteq> p}" using keys by fastforce
    have others: "set (iu_conn_map y) = {e \<in> set (iu_conn_map y). snd e \<noteq> p}" if "ms_users s v = Some y" "v \<noteq> u" for v y
      using no_member [OF assms(1) c(1) that(1)] address_unique [OF assms(1) that(1) x(1)] that(2) x(2) by metis
    show ?thesis
    proof (cases "?m' = []")
      case False
      let ?t = "?s1\<lparr>ms_users := (ms_users s)(u \<mapsto> x\<lparr>iu_conn_map := ?m'\<rparr>), ms_conns := (ms_conns s)(p := ?d)\<rparr>"
      have "im_inv uid k ?t"
      proof (rule leave)
        show "\<exists>y. ms_users s v = Some y \<and> iu_address_hex y' = iu_address_hex y \<and> iu_user_id y' = iu_user_id y \<and>
            ordered (iu_conn_map y') \<and> set (iu_conn_map y') = {e \<in> set (iu_conn_map y). snd e \<noteq> p}"
          if "ms_users ?t v = Some y'" for v y'
          using that x em ordered_erase [OF ox] others [of v y'] inv(8) [of v y'] by (cases "v = u") auto
        show "(b, v) \<in> set (ms_address_map ?t) \<longleftrightarrow> (b, v) \<in> set (ms_address_map s) \<and> ms_users ?t v \<noteq> None" for b v
          using inv(6) [of b v] by (cases "v = u") auto
        show "(i, v) \<in> set (ms_id_map s) \<and> ms_users ?t v \<noteq> None" if "(i, v) \<in> set (ms_id_map ?t)" for i v
          using that inv(7) [of i v] by (cases "v = u") auto
      qed (use inv(2,3) in simp_all)
      moreover have "msg_Close p s = Some ?t"
        using c Some x False rel by (simp add: msg_Close_def GetImUserByAddress_def leave_user_def DelMsgConn_def IsMsgConnEmpty_def put_user_def)
      ultimately show ?thesis by auto
    next
      case True
      let ?am = "omap_erase ?a (ms_address_map s)" and ?im = "omap_erase (iu_user_id x) (ms_id_map s)"
      let ?t = "?s1\<lparr>ms_users := (ms_users s)(u := None), ms_address_map := ?am, ms_id_map := ?im, ms_conns := (ms_conns s)(p := ?d)\<rparr>"
      have "im_inv uid k ?t"
      proof (rule leave)
        show "\<exists>y. ms_users s v = Some y \<and> iu_address_hex y' = iu_address_hex y \<and> iu_user_id y' = iu_user_id y \<and>
            ordered (iu_conn_map y') \<and> set (iu_conn_map y') = {e \<in> set (iu_conn_map y). snd e \<noteq> p}"
          if "ms_users ?t v = Some y'" for v y'
          using that others [of v y'] inv(8) [of v y'] by (cases "v = u") auto
        show "(b, v) \<in> set (ms_address_map ?t) \<longleftrightarrow> (b, v) \<in> set (ms_address_map s) \<and> ms_users ?t v \<noteq> None" for b v
        proof (cases "v = u")
          case True
          then show ?thesis using inv(6) [of b u] x by auto
        next
          case False
          then have "(b, v) \<in> set (ms_address_map s) \<longrightarrow> b \<noteq> ?a"
            using eq_key_imp_eq_value [OF ordered_distinct [OF inv(3)] au, of v] by blast
          with False inv(6) [of b v] show ?thesis by auto
        qed
        show "(i, v) \<in> set (ms_id_map s) \<and> ms_users ?t v \<noteq> None" if "(i, v) \<in> set (ms_id_map ?t)" for i v
          using that inv(7) [of i v] x(1) by (cases "v = u") auto
      qed (use inv(2,3) ordered_erase in simp_all)
      moreover have "msg_Close p s = Some ?t"
        using c Some x True rel by (simp add: msg_Close_def GetImUserByAddress_def leave_user_def DelMsgConn_def IsMsgConnEmpty_def
            put_user_def RemoveImUser_def RemoveImUserById_def RemoveImUserByAddress_def Let_def)
      ultimately show ?thesis by auto
    qed
  qed
qed

lemma accept_inv:
  assumes "im_inv uid None s" and "h \<noteq> -1" and "h \<notin> fst ` set (ms_conn_map s)"
  shows "\<exists>s'. ptp_server_msg_callback j1 j2 tick h s = Some s' \<and> im_inv uid None s'"
proof -
  note inv = im_invD [OF assms(1)]
  let ?p = "ms_fresh s" and ?c = "(CMsgSrvConn j1 j2 tick)\<lparr>mc_handle := h, mc_connected_time := tick\<rparr>"
  let ?s = "s\<lparr>ms_fresh := ms_fresh s + 1, ms_conns := (ms_conns s)(?p \<mapsto> ?c), ms_conn_map := ms_conn_map s @ [(h, ?p)]\<rparr>"
  have none: "ms_conns s ?p = None" using inv(9) [of ?p] by (cases "ms_conns s ?p") auto
  have "map_of (ms_conn_map s) h = None" using assms(3) by (simp add: map_of_eq_None_iff)
  then have eq: "ptp_server_msg_callback j1 j2 tick h s = Some ?s"
    by (simp add: ptp_server_msg_callback_def msg_OnConnect_def addMsgSrvConnByHandle_def put_conn_def umap_insert_def)
  have "g \<noteq> -1 \<and> (\<exists>c. ms_conns ?s q = Some c \<and> mc_handle c = g \<and> mc_refs c = 1)" if "(g, q) \<in> set (ms_conn_map ?s)" for g q
    using that inv(4) [of g q] none assms(2) by (cases "q = ?p") (auto simp: CMsgSrvConn_def)
  moreover have "(iu_address_hex x, u) \<in> set (ms_address_map s) \<and> ordered (iu_conn_map x) \<and>
      (\<forall>g q. (g, q) \<in> set (iu_conn_map x) \<longrightarrow>
         (g, q) \<in> set (ms_conn_map ?s) \<and> (\<exists>d. ms_conns ?s q = Some d \<and> mc_address_hex d = iu_address_hex x))"
    if "ms_users s u = Some x" for u x
    using inv(8) [OF that] none by fastforce
  moreover have "ms_conns ?s q \<noteq> None \<Longrightarrow> q < ms_fresh s + 1" for q using inv(9) [of q] by (cases "q = ?p") auto
  moreover have "ms_users s u \<noteq> None \<Longrightarrow> u < ms_fresh s + 1" for u using inv(10) [of u] by auto
  ultimately have "im_inv uid None ?s"
    using inv(1-3,6,7) assms(3) unfolding im_inv_def by simp
  with eq show ?thesis by blast
qed

lemma AddRef_inv:
  assumes "im_inv uid None s" and "(h, p) \<in> set (ms_conn_map s)"
  shows "\<exists>s'. msg_AddRef p s = Some s' \<and> im_inv uid (Some p) s' \<and> ms_conn_map s' = ms_conn_map s"
proof -
  note inv = im_invD [OF assms(1)]
  from inv(4) [OF assms(2)] obtain c where c: "ms_conns s p = Some c" "mc_handle c = h" "mc_refs c = 1" by auto
  let ?s = "s\<lparr>ms_conns := (ms_conns s)(p \<mapsto> c\<lparr>mc_refs := 2\<rparr>)\<rparr>"
  have eq: "msg_AddRef p s = Some ?s" using c by (simp add: msg_AddRef_def put_conn_def numeral_2_eq_2)
  have "g \<noteq> -1 \<and> (\<exists>d. ms_conns ?s q = Some d \<and> mc_handle d = g \<and> mc_refs d = (if Some p = Some q then 2 else 1))"
    if "(g, q) \<in> set (ms_conn_map s)" for g q
    using inv(4) [OF that] c by (cases "q = p") auto
  moreover have "\<exists>d. ms_conns ?s p = Some d \<and> ((mc_handle d, p) \<in> set (ms_conn_map s) \<or> mc_refs d = 1)" using c assms(2) by simp
  moreover have "(iu_address_hex x, u) \<in> set (ms_address_map s) \<and> ordered (iu_conn_map x) \<and>
      (\<forall>g q. (g, q) \<in> set (iu_conn_map x) \<longrightarrow>
         (g, q) \<in> set (ms_conn_map s) \<and> (\<exists>d. ms_conns ?s q = Some d \<and> mc_address_hex d = iu_address_hex x))"
    if "ms_users s u = Some x" for u x
    using inv(8) [OF that] c by fastforce
  moreover have "ms_conns ?s q \<noteq> None \<Longrightarrow> q < ms_fresh s" for q using inv(9) [of q] inv(9) [of p] c by (cases "q = p") auto
  ultimately have "im_inv uid (Some p) ?s"
    using inv(1-3,6,7,10) unfolding im_inv_def by simp
  with eq show ?thesis by auto
qed

lemma ReleaseRef_inv:
  assumes "im_inv uid (Some p) s"
  shows "\<exists>s'. msg_ReleaseRef p s = Some s' \<and> im_inv uid None s'"
proof -
  note inv = im_invD [OF assms]
  from inv(5) obtain c where c: "ms_conns s p = Some c" "(mc_handle c, p) \<in> set (ms_conn_map s) \<or> mc_refs c = 1" by blast
  have reg: "mc_refs c = 2" if "(g, p) \<in> set (ms_conn_map s)" for g using inv(4) [OF that] c(1) by auto
  let ?d = "if mc_refs c = 2 then Some (c\<lparr>mc_refs := 1\<rparr>) else None"
  let ?s = "s\<lparr>ms_conns := (ms_conns s)(p := ?d)\<rparr>"
  have two: "mc_refs c = 2 \<or> mc_refs c = 1" using c(2) reg by auto
  then have eq: "msg_ReleaseRef p s = Some ?s" using c(1) by (auto simp: msg_ReleaseRef_def put_conn_def)
  have "g \<noteq> -1 \<and> (\<exists>d. ms_conns ?s q = Some d \<and> mc_handle d = g \<and> mc_refs d = 1)" if "(g, q) \<in> set (ms_conn_map s)" for g q
    using inv(4) [OF that] c reg [of g] that by (cases "q = p") auto
  moreover have "(iu_address_hex x, u) \<in> set (ms_address_map s) \<and> ordered (iu_conn_map x) \<and>
      (\<forall>g q. (g, q) \<in> set (iu_conn_map x) \<longrightarrow>
         (g, q) \<in> set (ms_conn_map s) \<and> (\<exists>d. ms_conns ?s q = Some d \<and> mc_address_hex d = iu_address_hex x))"
    if "ms_users s u = Some x" for u x
  proof -
    have "\<exists>d. ms_conns ?s q = Some d \<and> mc_address_hex d = iu_address_hex x" if m: "(g, q) \<in> set (iu_conn_map x)" for g q
      using inv(8) [OF \<open>ms_users s u = Some x\<close>] m c(1) reg [of g] by (cases "q = p") fastforce+
    with inv(8) [OF that] show ?thesis by blast
  qed
  moreover have "ms_conns ?s q \<noteq> None \<Longrightarrow> q < ms_fresh s" for q using inv(9) [of q] inv(9) [of p] c by (cases "q = p") auto
  ultimately have "im_inv uid None ?s"
    using inv(1-3,6,7,10) unfolding im_inv_def by simp
  with eq show ?thesis by blast
qed

subsection \<open>Who is online\<close>

lemma online_iff: "(a, h) \<in> online s \<longleftrightarrow> (\<exists>u x p. ms_users s u = Some x \<and> iu_address_hex x = a \<and> (h, p) \<in> set (iu_conn_map x))"
  by (simp add: online_def)

lemma online_leave:
  assumes "\<And>v y'. ms_users s' v = Some y' \<Longrightarrow> \<exists>y. ms_users s v = Some y \<and> iu_address_hex y' = iu_address_hex y \<and>
       set (iu_conn_map y') = {e \<in> set (iu_conn_map y). fst e \<noteq> h}"
    and "\<And>v y. ms_users s v = Some y \<Longrightarrow> ms_users s' v = None \<Longrightarrow> {e \<in> set (iu_conn_map y). fst e \<noteq> h} = {}"
  shows "online s' = {e \<in> online s. snd e \<noteq> h}"
proof (intro set_eqI iffI)
  fix e assume "e \<in> online s'"
  then obtain a g u y' p where e: "e = (a, g)" "ms_users s' u = Some y'" "iu_address_hex y' = a" "(g, p) \<in> set (iu_conn_map y')"
    by (cases e) (auto simp: online_iff)
  from assms(1) [OF e(2)] e(3,4) obtain y where "ms_users s u = Some y" "iu_address_hex y = a" "(g, p) \<in> set (iu_conn_map y)" "g \<noteq> h"
    by auto
  then show "e \<in> {e \<in> online s. snd e \<noteq> h}" by (simp add: e(1) online_iff) blast
next
  fix e assume "e \<in> {e \<in> online s. snd e \<noteq> h}"
  then obtain a g u y p where e: "e = (a, g)" "ms_users s u = Some y" "iu_address_hex y = a" "(g, p) \<in> set (iu_conn_map y)" "g \<noteq> h"
    by (cases e) (auto simp: online_iff)
  with assms(2) [OF e(2)] obtain y' where y': "ms_users s' u = Some y'" by fastforce
  from assms(1) [OF this] e have "iu_address_hex y' = a" "(g, p) \<in> set (iu_conn_map y')" by auto
  with e(1) y' show "e \<in> online s'" by (auto simp: online_iff)
qed

lemma msg_Close_online:
  assumes "im_inv uid k s" and "(h, p) \<in> set (ms_conn_map s)" and "msg_Close p s = Some s'"
  shows "online s' = {e \<in> online s. snd e \<noteq> h}"
proof -
  note inv = im_invD [OF assms(1)]
  from inv(4) [OF assms(2)] obtain c where c: "ms_conns s p = Some c" "mc_handle c = h" "h \<noteq> -1" by auto
  let ?a = "mc_address_hex c"
  have keep: "set (iu_conn_map y) = {e \<in> set (iu_conn_map y). fst e \<noteq> h}" if y: "ms_users s v = Some y" "iu_address_hex y \<noteq> ?a" for v y
  proof -
    have "g \<noteq> h" if "(g, q) \<in> set (iu_conn_map y)" for g q
    proof
      assume "g = h"
      with that inv(8) [OF y(1)] have "(h, q) \<in> set (ms_conn_map s)" by blast
      from eq_key_imp_eq_value [OF inv(1) this assms(2)] that inv(8) [OF y(1)] c(1) y(2) show False by fastforce
    qed
    then show ?thesis by fastforce
  qed
  have rel: "ms_users t' = ms_users t" if "msg_ReleaseRef p t = Some t'" for t t' :: msg_server
    using that by (auto simp: msg_ReleaseRef_def put_conn_def split: bind_splits if_splits)
  show ?thesis
  proof (cases "GetImUserByAddress ?a s")
    case None
    then have "iu_address_hex y \<noteq> ?a" if "ms_users s v = Some y" for v y
      using inv(8) [OF that] by (force simp: GetImUserByAddress_def map_of_eq_None_iff)
    moreover have "ms_users s' = ms_users s"
      using assms(3) c None by (auto simp: msg_Close_def GetImUserByAddress_def dest!: rel)
    ultimately show ?thesis using keep by (intro online_leave) auto
  next
    case (Some u)
    then have au: "(?a, u) \<in> set (ms_address_map s)" by (auto simp: GetImUserByAddress_def dest: map_of_in)
    with inv(6) obtain x where x: "ms_users s u = Some x" "iu_address_hex x = ?a" by blast
    have others: "iu_address_hex y \<noteq> ?a" if "ms_users s v = Some y" "v \<noteq> u" for v y
      using address_unique [OF assms(1) that(1) x(1)] x(2) that(2) by auto
    let ?m = "omap_erase h (iu_conn_map x)"
    have "ms_users s' = (ms_users s)(u := if ?m = [] then None else Some (x\<lparr>iu_conn_map := ?m\<rparr>))"
      using assms(3) c Some x
      by (auto simp: msg_Close_def GetImUserByAddress_def leave_user_def DelMsgConn_def IsMsgConnEmpty_def put_user_def
          RemoveImUser_def RemoveImUserById_def RemoveImUserByAddress_def Let_def dest!: rel split: bind_splits if_splits)
    moreover have "fst e = h" if "?m = []" "e \<in> set (iu_conn_map x)" for e
      using that set_omap_erase [of h "iu_conn_map x"] by (cases e) auto
    ultimately show ?thesis using x keep others
      by (intro online_leave) (auto split: if_splits)
  qed
qed

subsection \<open>Timers\<close>

lemma msg_OnTimer_inv:
  assumes "im_inv uid None s" and "(h, p) \<in> set (ms_conn_map s)"
  shows "\<exists>s'. msg_OnTimer t p s = Some s' \<and> im_inv uid None s' \<and>
     ms_conn_map s' = (if timed_out t s p then omap_erase h (ms_conn_map s) else ms_conn_map s) \<and>
     ms_closed s' = ms_closed s @ (if timed_out t s p then [h] else []) \<and>
     (\<forall>q. q \<noteq> p \<longrightarrow> ms_conns s' q = ms_conns s q)"
proof -
  from im_invD(4) [OF assms] obtain c where c: "ms_conns s p = Some c" "mc_handle c = h" by auto
  let ?s1 = "put_conn p (c\<lparr>mc_msg_cnt_per_sec := 0\<rparr>) s"
  have inv1: "im_inv uid None ?s1" by (rule im_inv_conn [OF assms(1) c(1)]) simp_all
  have m1: "(h, p) \<in> set (ms_conn_map ?s1)" using assms(2) by (simp add: put_conn_def)
  show ?thesis
  proof (cases "timed_out t s p")
    case True
    with c(1) have "msg_OnTimer t p s = msg_Close p ?s1" by (auto simp: msg_OnTimer_def Let_def timed_out_def)
    with msg_Close_inv [OF inv1 m1] True show ?thesis by (auto simp: put_conn_def)
  next
    case False
    let ?c = "c\<lparr>mc_msg_cnt_per_sec := 0, mc_send_msg_list := drop_missed t (mc_send_msg_list c)\<rparr>"
    have "im_inv uid None (put_conn p ?c ?s1)" 
      by (rule im_inv_conn [OF inv1, of p "c\<lparr>mc_msg_cnt_per_sec := 0\<rparr>"]) (simp_all add: put_conn_def)
    with False c(1) show ?thesis
      by (auto simp: msg_OnTimer_def Let_def put_conn_def timed_out_def)
  qed
qed

lemma msg_timer_loop_inv:
  assumes "im_inv uid None s" and "set es \<subseteq> set (ms_conn_map s)" and "distinct (map fst es)"
  shows "\<exists>s'. msg_timer_loop t es s = Some s' \<and> im_inv uid None s' \<and>
     set (ms_conn_map s') = {e \<in> set (ms_conn_map s). \<not> (e \<in> set es \<and> timed_out t s (snd e))} \<and>
     ms_closed s' = ms_closed s @ map fst (filter (\<lambda>e. timed_out t s (snd e)) es)"
  using assms
proof (induction es arbitrary: s)
  case (Cons e es)
  obtain h p where e: "e = (h, p)" by (cases e)
  with Cons.prems(2) have hp: "(h, p) \<in> set (ms_conn_map s)" by simp
  from msg_OnTimer_inv [OF Cons.prems(1) hp, of t] obtain s1 where
    s1: "msg_OnTimer t p s = Some s1" "im_inv uid None s1"
      "ms_conn_map s1 = (if timed_out t s p then omap_erase h (ms_conn_map s) else ms_conn_map s)"
      "ms_closed s1 = ms_closed s @ (if timed_out t s p then [h] else [])"
      "\<forall>q. q \<noteq> p \<longrightarrow> ms_conns s1 q = ms_conns s q" by blast
  have ne: "fst x \<noteq> h" if "x \<in> set es" for x using Cons.prems(3) e that by auto
  then have es: "set es \<subseteq> set (ms_conn_map s1)" using s1(3) Cons.prems(2) by auto
  have np: "g = h" if "(g, p) \<in> set (ms_conn_map s)" for g
    using im_invD(4) [OF Cons.prems(1) that] im_invD(4) [OF Cons.prems(1) hp] by auto
  then have same: "timed_out t s1 (snd x) = timed_out t s (snd x)" if "x \<in> set es" for x
    using ne [OF that] that Cons.prems(2) s1(5) by (cases x; cases "snd x = p") (auto simp: timed_out_def)
  have ph: "q = p" if "(h, q) \<in> set (ms_conn_map s)" for q
    using eq_key_imp_eq_value [OF im_invD(1) [OF Cons.prems(1)] that hp] .
  from Cons.IH [OF s1(2) es] Cons.prems(3) obtain s' where
    s': "msg_timer_loop t es s1 = Some s'" "im_inv uid None s'"
      "set (ms_conn_map s') = {e \<in> set (ms_conn_map s1). \<not> (e \<in> set es \<and> timed_out t s1 (snd e))}"
      "ms_closed s' = ms_closed s1 @ map fst (filter (\<lambda>e. timed_out t s1 (snd e)) es)" by auto
  have f: "filter (\<lambda>e. timed_out t s1 (snd e)) es = filter (\<lambda>e. timed_out t s (snd e)) es"
    using same by (rule filter_cong [OF refl])
  have "set (ms_conn_map s') = {x \<in> set (ms_conn_map s). \<not> (x \<in> set (e # es) \<and> timed_out t s (snd x))}"
  proof (intro set_eqI)
    fix x
    show "x \<in> set (ms_conn_map s') \<longleftrightarrow> x \<in> {x \<in> set (ms_conn_map s). \<not> (x \<in> set (e # es) \<and> timed_out t s (snd x))}"
      using same [of x] ne [of x] ph [of "snd x"] by (cases x) (auto simp: s'(3) s1(3) e)
  qed
  with s1(1,4) s'(1,2,4) f e show ?case by auto
qed simp

subsection \<open>PDUs that are built\<close>

lemma SetPBMsg_cmd_buf:
  assumes "pdu_wf p" and "length d < 2147483648"
  shows "ImPdu_SetPBMsg_cmd garb (Some d) cid seq p =
     CImPdu_SetPBMsg_buf garb d (p\<lparr>m_pdu_header := (m_pdu_header p)\<lparr>h_command_id := cid, h_seq_num := seq\<rparr>\<rparr>)"
proof -
  let ?p = "p\<lparr>m_pdu_header := (m_pdu_header p)\<lparr>h_command_id := cid, h_seq_num := seq\<rparr>\<rparr>"
  have "pdu_wf ?p" using assms(1) by (simp add: pdu_wf_def)
  from pdu_reset_spec [OF this, of garb] obtain p1 where p1: "pdu_reset garb ?p = Some p1" "pdu_wf p1"
    "length (pdu_contents p1) = 16" by blast
  then have "sb_fits (m_buf p1) (length d)"
    using assms(2) by (simp add: sb_fits_def pdu_wf_def length_sb_contents Let_def)
  from pdu_append_spec [OF p1(2) this, of garb] obtain p2 where p2: "pdu_append garb d p1 = Some p2" "pdu_wf p2"
    "pdu_contents p2 = pdu_contents p1 @ d" by auto
  have "unat (pdu_GetLength p2) = 16 + length d" using p1(3) p2 by (simp add: pdu_GetLength_contents)
  then have "m_write_offset (m_buf p2) = of_nat (length d) + 16"
    using length_of_nat_16 [OF assms(2)] by (simp add: pdu_GetLength_def word_unat_eq_iff add.commute)
  then have "p2\<lparr>m_buf := sb_Position (of_nat (length d) + 16) (m_buf p2)\<rparr> = p2" by (simp add: sb_Position_def)
  with p1(1) p2(1) show ?thesis by (simp add: ImPdu_SetPBMsg_cmd_def CImPdu_SetPBMsg_buf_def Let_def)
qed

lemma CImPdu_wf [simp]: "pdu_wf (CImPdu junk)"
  by (simp add: pdu_wf_def CImPdu_def)

text \<open>The PDU of a message: its header, its body and, once its reserved word is set, the same again.\<close>

lemma built_pdu:
  assumes "length d < 2147483648"
  shows "\<exists>pdu. ImPdu_SetPBMsg_cmd garb (Some d) cid seq (CImPdu junk) = Some pdu \<and> pdu_wf pdu \<and>
     pdu_GetCommandId pdu = cid \<and> pdu_GetSeqNum pdu = seq \<and> pdu_body pdu = Some d \<and> pdu_GetBuffer pdu \<noteq> [] \<and>
     ReadUint32 (pdu_GetBuffer pdu) 0 = Some (pdu_GetLength pdu) \<and> unat (pdu_GetLength pdu) = 16 + length d \<and>
     pdu_bytes pdu = Some (pdu_contents pdu)"
proof -
  let ?p = "(CImPdu junk)\<lparr>m_pdu_header := (m_pdu_header (CImPdu junk))\<lparr>h_command_id := cid, h_seq_num := seq\<rparr>\<rparr>"
  let ?L = "of_nat (16 + length d) :: u32"
  have "pdu_wf ?p" by (simp add: pdu_wf_def CImPdu_def)
  from SetPBMsg_buf_spec [OF this assms, of garb] obtain pdu x where p: "CImPdu_SetPBMsg_buf garb d ?p = Some pdu" "pdu_wf pdu"
    "m_pdu_header pdu = m_pdu_header ?p" "pdu_GetLength pdu = ?L" "length x = 2"
    "pdu_contents pdu = header_bytes ?L (m_pdu_header ?p) @ x @ d" by blast
  have "pdu_body pdu = Some d" using pdu_body_contents [OF p(2)] p(5,6) by simp
  moreover have l: "unat (pdu_GetLength pdu) = 16 + length d" using p(4) length_of_nat_16 [OF assms] by simp
  moreover have wf: "unat (pdu_GetLength pdu) \<le> length (pdu_GetBuffer pdu)" "take (unat (pdu_GetLength pdu)) (pdu_GetBuffer pdu) = pdu_contents pdu"
    using p(2) by (auto simp: pdu_wf_def sb_wf_def pdu_GetLength_def pdu_GetBuffer_def sb_contents_def)
  moreover have "take 4 (pdu_GetBuffer pdu) = take 4 (pdu_contents pdu)" 
    using l by (simp flip: wf(2) add: min_def)
  then have "ReadUint32 (pdu_GetBuffer pdu) 0 = Some (pdu_GetLength pdu)"
    using wf l p(4,6) by (simp add: ReadUint32_ok header_bytes_def be32_put)
  ultimately show ?thesis using p SetPBMsg_cmd_buf [OF CImPdu_wf assms]
    by (auto simp: pdu_bytes_def mem_read_def)
qed

lemma unbuilt_pdu:
  assumes "ImPdu_SetPBMsg_cmd garb None cid seq (CImPdu junk) = Some pdu"
  shows "pdu_body pdu = Some []"
proof -
  let ?p = "(CImPdu junk)\<lparr>m_pdu_header := (m_pdu_header (CImPdu junk))\<lparr>h_command_id := cid, h_seq_num := seq\<rparr>\<rparr>"
  have "pdu_wf ?p" by (simp add: pdu_wf_def CImPdu_def)
  from pdu_reset_spec [OF this, of garb] obtain p1 where "pdu_reset garb ?p = Some p1" "pdu_wf p1" "length (pdu_contents p1) = 16"
    by blast
  with assms pdu_body_contents [of p1] show ?thesis by (simp add: ImPdu_SetPBMsg_cmd_def)
qed

subsection \<open>Handlers keep the invariant\<close>

text \<open>
  What is assumed of the message library: a message is parsed back from its serialisation, which is
  shorter than two gigabytes, unless a required field is missing; the empty text is no message.
\<close>

definition codec_ok :: "srv_lib \<Rightarrow> bool" where
  "codec_ok lib \<longleftrightarrow>
     (\<forall>m d. lib_ser_server_login_res lib m = Some d \<longrightarrow>
        length d < 2147483648 \<and> lib_parse_server_login_res lib d = (if sr_user m = EmptyUser then None else Some m)) \<and>
     lib_parse_server_login_res lib [] = None \<and>
     (\<forall>m d. lib_ser_server_login_req lib m = Some d \<longrightarrow>
        length d < 2147483648 \<and> lib_parse_server_login_req lib d = (True, m)) \<and>
     \<not> fst (lib_parse_server_login_req lib [])"

text \<open>Redis answers with the number \<open>uid\<close> of an address.\<close>

definition env_ok :: "srv_lib \<Rightarrow> (bytes \<Rightarrow> u32) \<Rightarrow> srv_env \<Rightarrow> bool" where
  "env_ok lib uid e \<longleftrightarrow>
     (\<forall>m cm u cm'. ServerLogin (se_login e) (lib_recover lib) m cm = Some (LoggedIn u, cm') \<longrightarrow> ui_uid u = uid (ui_address u))"

text \<open>A login with an address; an internal answer with the number of its address.\<close>

definition honest_pdu :: "srv_lib \<Rightarrow> (bytes \<Rightarrow> u32) \<Rightarrow> im_pdu \<Rightarrow> bool" where
  "honest_pdu lib uid pdu \<longleftrightarrow>
     (\<forall>body. pdu_body pdu = Some body \<longrightarrow>
        (pdu_GetCommandId pdu = CID_AuthLoginReq \<longrightarrow>
           (\<forall>m. lib_parse_login_req lib body = Some m \<longrightarrow> lq_address m \<noteq> [])) \<and>
        (pdu_GetCommandId pdu = CID_ServerLoginRes \<longrightarrow>
           (\<forall>m v. lib_parse_server_login_res lib body = Some m \<longrightarrow> sr_user m = User v \<longrightarrow> ui_uid v = uid (ui_address v))))"

lemma find_registered: "FindMsgSrvConnByHandle h s = Some p \<Longrightarrow> (h, p) \<in> set (ms_conn_map s)"
  by (simp add: FindMsgSrvConnByHandle_def map_of_in)

lemma AuthCaptchaReq_inv:
  assumes "AuthCaptchaReq lib e h pdu s = Some (out, s')" and "im_inv uid k s"
  shows "im_inv uid k s' \<and> ms_conn_map s' = ms_conn_map s"
  using assms im_inv_conn [OF assms(2)]
  by (auto simp: AuthCaptchaReq_def reply_result Let_def put_conn_def split: option.splits bind_splits if_splits)

lemma login_error_inv: "login_error lib e err pdu s = Some (out, s') \<Longrightarrow> s' = s"
  by (auto simp: login_error_def reply_result)

lemma user_for_address_inv:
  assumes "im_inv uid k s" and "a \<noteq> []" and "user_for_address a s = (u, s')"
  shows "im_inv uid k s' \<and> (a, u) \<in> set (ms_address_map s') \<and> ms_conns s' = ms_conns s \<and> ms_conn_map s' = ms_conn_map s"
proof (cases "GetImUserByAddress a s")
  case None
  with assms(3) have "s' = snd (AddImUserByAddress a (fst (CImUser a s)) (snd (CImUser a s)))" "u = fst (CImUser a s)"
    by (auto simp: user_for_address_def split: prod.splits)
  with new_user_inv [OF assms(1) None assms(2)] show ?thesis
    by (auto simp: AddImUserByAddress_def CImUser_def)
next
  case (Some v)
  with assms show ?thesis by (auto simp: user_for_address_def GetImUserByAddress_def dest: map_of_in)
qed

lemma user_for_address_conn:
  "user_for_address a (put_conn p c s) =
     (fst (user_for_address a s), put_conn p c (snd (user_for_address a s)))"
  by (auto simp: user_for_address_def GetImUserByAddress_def AddImUserByAddress_def CImUser_def put_conn_def split: option.splits prod.splits)

lemma AuthLoginReq_inv:
  assumes "AuthLoginReq lib e h pdu s = Some (out, s')" and "im_inv uid k s" and "honest_pdu lib uid pdu"
    and "pdu_GetCommandId pdu = CID_AuthLoginReq"
  shows "im_inv uid k s' \<and> ms_conn_map s' = ms_conn_map s"
proof (cases "s' = s")
  case False
  with assms(1) login_error_inv obtain p c body m u s1 s2 where
    *: "FindMsgSrvConnByHandle h s = Some p" "ms_conns s p = Some c" "mc_address_hex c = []" "pdu_body pdu = Some body"
      "lib_parse_login_req lib body = Some m"
    and u: "user_for_address (lq_address m) (put_conn p (c\<lparr>mc_captcha := [], mc_address_hex := lq_address m, mc_client_version := lq_client_version m,
        mc_client_type := lq_client_type m, mc_online_status := USER_STAT_ONLINE, mc_login_time := se_time e\<rparr>) s) = (u, s1)"
      "AddMsgConn (mc_handle c) p u s1 = Some s2" "s' = s2"
    by (fastforce simp: AuthLoginReq_def reply_result Let_def split: option.splits bind_splits if_splits prod.splits)
  have a: "lq_address m \<noteq> []" using assms(3,4) *(4,5) by (auto simp: honest_pdu_def)
  let ?c = "c\<lparr>mc_captcha := [], mc_address_hex := lq_address m, mc_client_version := lq_client_version m,
        mc_client_type := lq_client_type m, mc_online_status := USER_STAT_ONLINE, mc_login_time := se_time e\<rparr>"
  obtain t where t: "user_for_address (lq_address m) s = (u, t)" "s1 = put_conn p ?c t"
    using u(1) by (cases "user_for_address (lq_address m) s") (simp add: user_for_address_conn)
  from user_for_address_inv [OF assms(2) a t(1)] have
    inv: "im_inv uid k t" "(lq_address m, u) \<in> set (ms_address_map t)" "ms_conns t = ms_conns s" "ms_conn_map t = ms_conn_map s" by blast+
  from im_invD(6) [OF inv(1,2)] obtain x where x: "ms_users t u = Some x" by blast
  have hc: "mc_handle c = h" using im_invD(4) [OF assms(2) find_registered [OF *(1)]] *(2) by auto
  have "s' = put_user u (x\<lparr>iu_conn_map := omap_put (mc_handle c) p (iu_conn_map x)\<rparr>) (put_conn p ?c t)"
    using u(2,3) t(2) x by (simp add: AddMsgConn_def put_conn_def)
  with join_user [OF inv(1) _ _ *(3) _ _ _ a inv(2) x, of p ?c] *(2) find_registered [OF *(1)] hc inv(3,4) show ?thesis
    by (simp add: put_user_def put_conn_def)
qed (use assms(2) in simp)

lemma ServerLoginReq_inv:
  assumes "ServerLoginReq lib e h pdu s = Some (out, s')" and "im_inv uid k s"
  shows "im_inv uid k s' \<and> ms_conn_map s' = ms_conn_map s"
  using assms
  by (auto simp: ServerLoginReq_def reply_result Let_def split: bind_splits if_splits prod.splits login_outcome.splits)

lemma open_session_inv:
  assumes "im_inv uid k s" and "ms_conns s p = Some c" and "ms_users s u = Some x" and "i = uid (iu_address_hex x)"
  shows "im_inv uid k (open_session p c u x h key i s) \<and> ms_conn_map (open_session p c u x h key i s) = ms_conn_map s"
proof -
  let ?c1 = "c\<lparr>mc_share_key := key, mc_user_id := i\<rparr>" and ?c2 = "c\<lparr>mc_share_key := key, mc_user_id := i, mc_bOpen := True\<rparr>"
  let ?s1 = "put_conn p ?c1 s"
  have 1: "im_inv uid k ?s1" by (rule im_inv_conn [OF assms(1,2)]) simp_all
  have u1: "ms_users ?s1 u = Some x" using assms(3) by (simp add: put_conn_def)
  let ?s3 = "snd (AddImUserById i u (put_user u (x\<lparr>iu_user_id := i, iu_handle := h\<rparr>) ?s1))"
  have 3: "im_inv uid k ?s3" by (rule set_id_inv [OF 1 u1 assms(4)])
  have c3: "ms_conns ?s3 p = Some ?c1" by (simp add: AddImUserById_def put_user_def put_conn_def)
  have "im_inv uid k (put_conn p ?c2 ?s3)" by (rule im_inv_conn [OF 3 c3]) simp_all
  moreover have "open_session p c u x h key i s = put_conn p ?c2 ?s3" by (simp add: open_session_def Let_def)
  moreover have "ms_conn_map (put_conn p ?c2 ?s3) = ms_conn_map s" by (simp add: AddImUserById_def put_user_def put_conn_def)
  ultimately show ?thesis by simp
qed

lemma ServerLoginRes_inv:
  assumes "ServerLoginRes lib e h pdu s = Some (out, s')" and "im_inv uid k s" and "honest_pdu lib uid pdu"
    and "pdu_GetCommandId pdu = CID_ServerLoginRes"
  shows "im_inv uid k s' \<and> ms_conn_map s' = ms_conn_map s"
proof (cases "s' = s")
  case False
  with assms(1) obtain body m v p c u x key where
    *: "pdu_body pdu = Some body" "lib_parse_server_login_res lib body = Some m" "v = the_user_info (sr_user m)"
      "GetImUserByAddress (ui_address v) s = Some u" "ms_conns s p = Some c" "ms_users s u = Some x"
      "s' = open_session p c u x h key (ui_uid v) s"
    by (auto simp: ServerLoginRes_def reply_result Let_def split: bind_splits if_splits option.splits sum.splits)
  have au: "(ui_address v, u) \<in> set (ms_address_map s)" using *(4) by (auto simp: GetImUserByAddress_def dest: map_of_in)
  from im_invD(6) [OF assms(2) this] *(6) have xa: "iu_address_hex x = ui_address v" "ui_address v \<noteq> []" by auto
  then have "sr_user m = User v" using *(3) by (cases "sr_user m") (auto simp: no_user_info_def)
  with assms(3,4) *(1,2) have "ui_uid v = uid (ui_address v)" by (auto simp: honest_pdu_def)
  with open_session_inv [OF assms(2) *(5,6)] *(7) xa show ?thesis by simp
qed (use assms(2) in simp)

lemma handler_inv:
  assumes "GetHandler (pdu_GetCommandId pdu) = Some f" and "f lib e h pdu s = Some (out, s')"
    and "im_inv uid k s" and "honest_pdu lib uid pdu"
  shows "im_inv uid k s' \<and> ms_conn_map s' = ms_conn_map s"
  using assms AuthCaptchaReq_inv AuthLoginReq_inv ServerLoginReq_inv ServerLoginRes_inv
  by (auto simp: GetHandler_def HeartBeatNotify_def split: if_splits)

subsection \<open>Dispatch keeps the invariant\<close>

lemma server_login_next_honest:
  assumes "ServerLoginReq lib e h pdu s = Some (Returns r, s')" and "rs_pdu r = Some pdu'"
    and "codec_ok lib" and "env_ok lib uid e"
  shows "honest_pdu lib uid pdu'"
proof -
  from assms(1) obtain m where m: "rsp_Next e (lib_ser_server_login_res lib m) CID_ServerLoginRes (pdu_GetSeqNum pdu) = Some r"
    "\<forall>v. sr_user m = User v \<longrightarrow> ui_uid v = uid (ui_address v)"
    using assms(4) unfolding env_ok_def
    by (fastforce simp: ServerLoginReq_def reply_result Let_def split: bind_splits if_splits prod.splits login_outcome.splits)
  then have p: "ImPdu_SetPBMsg_cmd (se_garb e) (lib_ser_server_login_res lib m) CID_ServerLoginRes (pdu_GetSeqNum pdu) (CImPdu (se_junk e)) = Some pdu'"
    using assms(2) by (auto simp: rsp_Next_def split: bind_splits)
  show ?thesis
  proof (cases "lib_ser_server_login_res lib m")
    case None
    with p unbuilt_pdu have "pdu_body pdu' = Some []" by fastforce
    with SetPBMsg_cmd_header [OF p] assms(3) show ?thesis by (simp add: honest_pdu_def codec_ok_def)
  next
    case (Some d)
    then have "length d < 2147483648" "lib_parse_server_login_res lib d = (if sr_user m = EmptyUser then None else Some m)"
      using assms(3) by (simp_all add: codec_ok_def)
    with built_pdu [OF this(1), of "se_garb e" CID_ServerLoginRes "pdu_GetSeqNum pdu" "se_junk e"] p Some m(2) show ?thesis
      by (auto simp: honest_pdu_def)
  qed
qed

lemma next_honest:
  assumes "GetHandler cid = Some f" and "f lib e h pdu s = Some (Returns r, s')" and "rs_next r" and "rs_pdu r = Some pdu'"
    and "codec_ok lib" and "env_ok lib uid e"
  shows "honest_pdu lib uid pdu'"
  using handler_next [OF assms(1-4)]
proof (elim disjE conjE)
  assume "cid = CID_ServerLoginReq"
  with assms show ?thesis by (auto simp: GetHandler_def intro: server_login_next_honest)
qed (simp add: honest_pdu_def)

lemma msg_SendPdu_map: "msg_SendPdu garb pdu p s = Some s' \<Longrightarrow> ms_conn_map s' = ms_conn_map s"
  by (auto simp: msg_SendPdu_def put_conn_def split: bind_splits if_splits)

text \<open>What a dispatch does with a handler: an error to the client, or the handler and then one of four things.\<close>

lemma HandleNextResponse_cases:
  assumes "HandleNextResponse lib e pPdu p s = Some (out, s')" and "GetHandler (pdu_GetCommandId pPdu) = Some h"
  obtains (no_server) z q where "msg_SendPdu (se_garb e) q p (s\<lparr>ms_biz := z\<rparr>) = Some s'" and "out = Returns ()"
  | (finished) c z r s1 z1 where "ms_conns s p = Some c" and "h lib e (mc_handle c) pPdu (s\<lparr>ms_biz := z\<rparr>) = Some (r, s1)"
      and "s' = s1\<lparr>ms_biz := z1\<rparr>"
  | (answer) c z r s1 z1 q where "ms_conns s p = Some c" and "h lib e (mc_handle c) pPdu (s\<lparr>ms_biz := z\<rparr>) = Some (r, s1)"
      and "msg_SendPdu (se_garb e) q p (s1\<lparr>ms_biz := z1\<rparr>) = Some s'" and "out = Returns ()"
  | (passed) c z x s1 z1 pdu where "ms_conns s p = Some c"
      and "h lib e (mc_handle c) pPdu (s\<lparr>ms_biz := z\<rparr>) = Some (Returns x, s1)"
      and "rs_next x" and "rs_pdu x = Some pdu" and "\<not> bz_async z1"
      and "HandleNextResponse lib e pdu p (s1\<lparr>ms_biz := z1\<rparr>) = Some (out, s')"
proof -
  note eq = assms(1) [unfolded HandleNextResponse.simps [of lib e pPdu p s] assms(2) option.case]
  from eq obtain c q z b where c: "ms_conns s p = Some c"
    "get_business_serv_conn_for_login (se_tick e) (se_junk e) (ms_biz s) = Some (q, z)" "bz_conns z q = Some b"
    by (auto split: bind_splits prod.splits)
  show thesis
  proof (cases "bz_async z \<and> pdu_GetCommandId pPdu = CID_AuthLoginReq \<and> \<not> bc_open b")
    case True
    with eq c no_server show thesis by (auto split: bind_splits)
  next
    case False
    with eq c obtain r s1 where r: "h lib e (mc_handle c) pPdu (s\<lparr>ms_biz := z\<rparr>) = Some (r, s1)"
      by (auto split: bind_splits)
    note eq1 = eq [simplified c r Option.bind.simps prod.case if_not_P [OF False]]
    note finished = finished [OF c(1) r] and answer = answer [OF c(1) r]
    show thesis
    proof (cases r)
      case (Returns x)
      then obtain v where v: "isPduValid x = Some v" using eq1 by (cases "isPduValid x") simp_all
      show thesis
      proof (cases "v \<and> rs_next x")
        case True
        with eq1 Returns v obtain pdu q2 z2 b2 where z2: "rs_pdu x = Some pdu"
          "get_business_serv_conn (se_tick e) (se_junk e) (ms_biz s1) = Some (q2, z2)" "bz_conns z2 q2 = Some b2"
          by (auto split: bind_splits option.splits)
        note eq2 = eq1 [simplified Returns v True z2 outcome.case Option.bind.simps prod.case option.case]
        show thesis
        proof (cases "bz_async z2")
          case async: True
          with eq2 finished answer show thesis by (cases "bc_open b2") (auto split: bind_splits)
        next
          case False
          with eq2 passed [OF c(1) r [unfolded Returns] _ z2(1) False] True show thesis by simp
        qed
      next
        case False
        show thesis
        proof (cases v)
          case True
          with eq1 False Returns v answer [of _ "ms_biz s1"] show thesis by (auto split: option.splits)
        next
          case False
          with eq1 Returns v finished [of "ms_biz s1"] show thesis by simp
        qed
      qed
    qed (use eq1 finished [of "ms_biz s1"] in simp_all)
  qed
qed

lemma HandleNextResponse_inv:
  assumes "codec_ok lib" and "env_ok lib uid e" and "HandleNextResponse lib e pdu p s = Some (out, s')"
    and "im_inv uid k s" and "honest_pdu lib uid pdu"
  shows "im_inv uid k s' \<and> ms_conn_map s' = ms_conn_map s"
  using assms(3-5)
proof (induction "cid_rank (pdu_GetCommandId pdu)" arbitrary: pdu s rule: less_induct)
  case less
  have send: "im_inv uid k s' \<and> ms_conn_map s' = ms_conn_map t"
    if "msg_SendPdu g q p (t\<lparr>ms_biz := z\<rparr>) = Some s'" "im_inv uid k t" for g q z and t :: msg_server
    using msg_SendPdu_inv [OF that(1)] msg_SendPdu_map [OF that(1)] that(2) by simp
  show ?case
  proof (cases "GetHandler (pdu_GetCommandId pdu)")
    case None
    with less.prems(1,2) send [where t = s and z = "ms_biz s"] show ?thesis by (auto simp: HandleNextResponse.simps [of lib e pdu p s])
  next
    case (Some h)
    have handled: "im_inv uid k s1 \<and> ms_conn_map s1 = ms_conn_map s" if "h lib e i pdu (s\<lparr>ms_biz := z\<rparr>) = Some (r, s1)" for i z r s1
      using handler_inv [OF Some that, of uid k] less.prems(2,3) by simp
    from less.prems(1) Some show ?thesis
    proof (cases rule: HandleNextResponse_cases)
      case no_server
      with send less.prems(2) show ?thesis by blast
    next
      case (finished c z r s1 z1)
      with handled show ?thesis by fastforce
    next
      case (answer c z r s1 z1 q)
      with handled [OF answer(2)] send [OF answer(3)] show ?thesis by simp
    next
      case (passed c z x s1 z1 pdu')
      from handled [OF passed(2)] less.hyps [OF handler_rank [OF Some passed(2-4)] passed(6)]
        next_honest [OF Some passed(2-4) assms(1,2)] show ?thesis by simp
    qed
  qed
qed

subsection \<open>Steps keep the invariant\<close>

text \<open>
  The kernel gives a connection a handle that is not in use; what is received is honest, and Redis answers
  with the number of the address.
\<close>

fun honest_event :: "srv_lib \<Rightarrow> (bytes \<Rightarrow> u32) \<Rightarrow> msg_server \<Rightarrow> msg_event \<Rightarrow> bool" where
  "honest_event lib uid s (Accept _ _ _ h) \<longleftrightarrow> h \<noteq> -1 \<and> h \<notin> fst ` set (ms_conn_map s)"
| "honest_event lib uid s (Receive h garb junk rs es) \<longleftrightarrow>
     (\<forall>p c k pdus bad. FindMsgSrvConnByHandle h s = Some p \<longrightarrow> ms_conns s p = Some c \<longrightarrow>
        conn_OnRead garb junk collect_pdu rs (read_conn c) [] = Some (k, pdus, bad) \<longrightarrow>
        (\<forall>i < length pdus. env_ok lib uid (es i) \<and> honest_pdu lib uid (pdus ! i)))"
| "honest_event lib uid s (FromBusiness _ e pdu) \<longleftrightarrow> env_ok lib uid e \<and> honest_pdu lib uid pdu"
| "honest_event lib uid s _ \<longleftrightarrow> True"

definition fresh_server :: "msg_server \<Rightarrow> bool" where
  "fresh_server s \<longleftrightarrow> ms_conns s = (\<lambda>_. None) \<and> ms_users s = (\<lambda>_. None) \<and> ms_conn_map s = [] \<and> ms_id_map s = [] \<and> ms_address_map s = []"

inductive server_reaches :: "srv_lib \<Rightarrow> (bytes \<Rightarrow> u32) \<Rightarrow> msg_server \<Rightarrow> bool" for lib uid where
  start: "fresh_server s \<Longrightarrow> server_reaches lib uid s"
| step: "server_reaches lib uid s \<Longrightarrow> honest_event lib uid s ev \<Longrightarrow> msg_step lib ev s = Some (False, s') \<Longrightarrow> server_reaches lib uid s'"

lemma fresh_server_inv: "fresh_server s \<Longrightarrow> im_inv uid None s"
  by (simp add: fresh_server_def im_inv_def)

lemma msg_read_loop_inv:
  assumes "codec_ok lib" and "msg_read_loop lib pdus p s = Some (out, s')" and "im_inv uid k s"
    and "\<forall>(e, pdu) \<in> set pdus. env_ok lib uid e \<and> honest_pdu lib uid pdu"
  shows "im_inv uid k s' \<and> ms_conn_map s' = ms_conn_map s"
  using assms(2-)
proof (induction pdus arbitrary: s)
  case (Cons x pdus)
  obtain e pdu where x: "x = (e, pdu)" by (cases x)
  with Cons.prems(1) obtain o1 s1 where s1: "HandleNextResponse lib e pdu p s = Some (o1, s1)"
    by (auto split: bind_splits)
  from x Cons.prems(3) HandleNextResponse_inv [OF assms(1) _ s1 Cons.prems(2)] have
    inv: "im_inv uid k s1" "ms_conn_map s1 = ms_conn_map s" by auto
  with Cons x s1 show ?case by (cases o1) auto
qed simp

lemma msg_OnRead_inv:
  assumes "codec_ok lib" and "msg_OnRead lib garb junk rs es p s = Some (b, s')" and "im_inv uid (Some p) s"
    and "(h, p) \<in> set (ms_conn_map s)"
    and "\<And>c k pdus bad. ms_conns s p = Some c \<Longrightarrow> conn_OnRead garb junk collect_pdu rs (read_conn c) [] = Some (k, pdus, bad) \<Longrightarrow>
        \<forall>i < length pdus. env_ok lib uid (es i) \<and> honest_pdu lib uid (pdus ! i)"
  shows "im_inv uid (Some p) s'"
proof -
  from im_invD(4) [OF assms(3,4)] obtain c where c: "ms_conns s p = Some c" by blast
  with assms(2) obtain k pdus bad out s1 where k: "conn_OnRead garb junk collect_pdu rs (read_conn c) [] = Some (k, pdus, bad)"
    and l: "msg_read_loop lib (zip (map es [0..<length pdus]) pdus) p
       (put_conn p (c\<lparr>mc_in_buf := m_in_buf k, mc_last_recv_tick := m_last_recv_tick k\<rparr>) s) = Some (out, s1)"
    and e: "(case out of Returns _ \<Rightarrow> if bad then map_option (Pair False) (msg_OnClose p s1) else Some (False, s1)
      | Throws _ \<Rightarrow> map_option (Pair False) (msg_OnClose p s1) | Blocks \<Rightarrow> Some (True, s1)) = Some (b, s')"
    by (auto simp: msg_OnRead_def split: bind_splits)
  have "im_inv uid (Some p) (put_conn p (c\<lparr>mc_in_buf := m_in_buf k, mc_last_recv_tick := m_last_recv_tick k\<rparr>) s)"
    by (rule im_inv_conn [OF assms(3) c]) simp_all
  moreover have "\<forall>(e, pdu) \<in> set (zip (map es [0..<length pdus]) pdus). env_ok lib uid e \<and> honest_pdu lib uid pdu"
    using assms(5) [OF c k] by (auto simp: set_zip)
  ultimately have inv: "im_inv uid (Some p) s1" "ms_conn_map s1 = ms_conn_map s"
    using msg_read_loop_inv [OF assms(1) l] by (auto simp: put_conn_def)
  from msg_Close_inv [OF inv(1), of h p] assms(4) inv(2) obtain s2 where "msg_Close p s1 = Some s2" "im_inv uid (Some p) s2" by auto
  with e inv(1) show ?thesis by (auto simp: msg_OnClose_def split: outcome.splits if_splits)
qed

lemma on_imconn_inv:
  assumes "on_imconn h f s = Some (False, s')" and "im_inv uid None s"
    and "\<And>p s1 s2. FindMsgSrvConnByHandle h s = Some p \<Longrightarrow> msg_AddRef p s = Some s1 \<Longrightarrow> im_inv uid (Some p) s1 \<Longrightarrow>
       (h, p) \<in> set (ms_conn_map s1) \<Longrightarrow> f p s1 = Some (False, s2) \<Longrightarrow> im_inv uid (Some p) s2"
  shows "im_inv uid None s'"
proof (cases "FindMsgSrvConnByHandle h s")
  case None
  with assms(1,2) show ?thesis by (simp add: on_imconn_def)
next
  case (Some p)
  note hp = find_registered [OF Some]
  from AddRef_inv [OF assms(2) hp] obtain s1 where s1: "msg_AddRef p s = Some s1" "im_inv uid (Some p) s1" "ms_conn_map s1 = ms_conn_map s"
    by blast
  with assms(1) Some obtain s2 where s2: "f p s1 = Some (False, s2)" "msg_ReleaseRef p s2 = Some s'"
    by (auto simp: on_imconn_def split: bind_splits if_splits)
  from assms(3) [OF Some s1(1,2) _ s2(1)] hp s1(3) ReleaseRef_inv [of uid p s2] s2(2) show ?thesis by auto
qed

lemma biz_HandlePdu_inv:
  assumes "codec_ok lib" and "env_ok lib uid e" and "biz_HandlePdu lib e pdu s = Some (out, s')"
    and "im_inv uid k s" and "honest_pdu lib uid pdu"
  shows "im_inv uid k s'"
  using assms HandleNextResponse_inv [OF assms(1,2) _ assms(4,5)]
  by (auto simp: biz_HandlePdu_def split: if_splits option.splits)

lemma msg_step_inv:
  assumes "codec_ok lib" and "im_inv uid None s" and "honest_event lib uid s ev" and "msg_step lib ev s = Some (False, s')"
  shows "im_inv uid None s'"
proof (cases ev)
  case (Accept j1 j2 t h)
  with assms accept_inv [OF assms(2), of h j1 j2 t] show ?thesis by auto
next
  case (Receive h garb junk rs es)
  with assms(4) have r: "on_imconn h (msg_OnRead lib garb junk rs es) s = Some (False, s')" by simp
  show ?thesis
  proof (rule on_imconn_inv [OF r assms(2)])
    fix p s1 s2
    assume p: "FindMsgSrvConnByHandle h s = Some p" "msg_AddRef p s = Some s1" and "im_inv uid (Some p) s1"
      "(h, p) \<in> set (ms_conn_map s1)" "msg_OnRead lib garb junk rs es p s1 = Some (False, s2)"
    moreover have "\<forall>i < length pdus. env_ok lib uid (es i) \<and> honest_pdu lib uid (pdus ! i)"
      if "ms_conns s1 p = Some c" "conn_OnRead garb junk collect_pdu rs (read_conn c) [] = Some (k, pdus, bad)" for c k pdus bad
    proof -
      from p(2) that(1) obtain d where "ms_conns s p = Some d" "read_conn d = read_conn c"
        by (auto simp: msg_AddRef_def put_conn_def read_conn_def split: bind_splits)
      with assms(3) Receive p(1) that(2) show ?thesis by auto
    qed
    ultimately show "im_inv uid (Some p) s2" using msg_OnRead_inv [OF assms(1)] by blast
  qed
next
  case (Hangup h)
  with assms(4) have r: "on_imconn h (\<lambda>p t. map_option (Pair False) (msg_OnClose p t)) s = Some (False, s')" by simp
  show ?thesis by (rule on_imconn_inv [OF r assms(2)]) (auto simp: msg_OnClose_def dest: msg_Close_inv)
next
  case (Second t)
  with assms(4) msg_timer_loop_inv [OF assms(2) subset_refl im_invD(1) [OF assms(2)], of t] show ?thesis
    by (auto simp: msg_conn_timer_callback_def)
next
  case (FromBusiness h e pdu)
  with assms(3) have ok: "env_ok lib uid e" "honest_pdu lib uid pdu" by simp_all
  from biz_HandlePdu_inv [OF assms(1) ok(1) _ assms(2) ok(2)] assms(2,4) FromBusiness show ?thesis
    by (auto split: option.splits bind_splits outcome.splits)
qed

lemma server_reaches_inv:
  assumes "codec_ok lib" and "server_reaches lib uid s"
  shows "im_inv uid None s"
  using assms(2) by induction (auto intro: fresh_server_inv msg_step_inv [OF assms(1)])

end
