(* ===== verification/Msg_Login.thy ===== *)
theory Msg_Login
  imports Msg_Server
begin

text \<open>
  Who opens a session on the message server: the login dialogue of \<^verbatim>\<open>src/ptp_server/actions/AuthAction.cpp\<close> followed
  through the dispatch of \<^verbatim>\<open>MsgSrvConn.cpp\<close>, the properties of the server's reachable states, and concrete runs,
  one honest and one with forged internal answers.
\<close>

section \<open>Who opens a session\<close>

text \<open>What the login decides by: whether the session is open, its address and its captcha.\<close>

definition conn_view :: "msg_server \<Rightarrow> nat \<Rightarrow> (bool \<times> bytes \<times> bytes) option" where
  "conn_view s q = map_option (\<lambda>c. (mc_bOpen c, mc_address_hex c, mc_captcha c)) (ms_conns s q)"

text \<open>The session of connection \<open>h\<close> is opened, and nothing else changes, only when \<open>why\<close> holds.\<close>

definition opens_only :: "u32 \<Rightarrow> bool \<Rightarrow> msg_server \<Rightarrow> msg_server \<Rightarrow> bool" where
  "opens_only h why s s' \<longleftrightarrow> conn_view s' = conn_view s \<or>
     why \<and> (\<exists>p b a k. FindMsgSrvConnByHandle h s = Some p \<and> conn_view s p = Some (b, a, k) \<and>
        conn_view s' = (conn_view s)(p \<mapsto> (True, a, k)))"

lemma conn_view_simps [simp]:
  "conn_view (s\<lparr>ms_biz := z\<rparr>) = conn_view s" "conn_view (s\<lparr>ms_cache := m\<rparr>) = conn_view s"
  "FindMsgSrvConnByHandle h (s\<lparr>ms_biz := z\<rparr>) = FindMsgSrvConnByHandle h s"
  "FindMsgSrvConnByHandle h (s\<lparr>ms_cache := m\<rparr>) = FindMsgSrvConnByHandle h s"
  by (auto simp: conn_view_def FindMsgSrvConnByHandle_def)

lemma conn_view_at: "ms_conns s p = Some c \<Longrightarrow> conn_view s p = Some (mc_bOpen c, mc_address_hex c, mc_captcha c)"
  by (simp add: conn_view_def)

lemma conn_view_put: "conn_view (put_conn p c s) = (conn_view s)(p \<mapsto> (mc_bOpen c, mc_address_hex c, mc_captcha c))"
  by (auto simp: conn_view_def put_conn_def)

lemma msg_SendPdu_view: "msg_SendPdu garb pdu p s = Some s' \<Longrightarrow> conn_view s' = conn_view s"
  by (auto simp: msg_SendPdu_def conn_view_def put_conn_def split: bind_splits if_splits)

lemma AuthCaptchaReq_open:
  "AuthCaptchaReq lib e h pdu s = Some (out, s') \<Longrightarrow> map_option fst (conn_view s' q) = map_option fst (conn_view s q)"
  by (auto simp: AuthCaptchaReq_def reply_result Let_def conn_view_def put_conn_def split: bind_splits option.splits if_splits)

lemma ServerLoginReq_view: "ServerLoginReq lib e h pdu s = Some (out, s') \<Longrightarrow> conn_view s' = conn_view s"
  by (auto simp: ServerLoginReq_def reply_result Let_def split: bind_splits if_splits prod.splits login_outcome.splits)

lemma open_session_view:
  "ms_conns s p = Some c \<Longrightarrow>
   conn_view (open_session p c u x h key i s) = (conn_view s)(p \<mapsto> (True, mc_address_hex c, mc_captcha c))"
  by (auto simp: open_session_def Let_def conn_view_put AddImUserById_def put_user_def put_conn_def conn_view_def)

lemma ServerLoginRes_view:
  assumes "ServerLoginRes lib e h pdu s = Some (out, s')"
  shows "opens_only h (\<exists>body m. pdu_body pdu = Some body \<and> lib_parse_server_login_res lib body = Some m \<and>
     GetImUserByAddress (ui_address (the_user_info (sr_user m))) s \<noteq> None) s s'"
proof (cases "s' = s")
  case False
  with assms obtain body m p c u x key where *: "pdu_body pdu = Some body" "lib_parse_server_login_res lib body = Some m"
      "GetImUserByAddress (ui_address (the_user_info (sr_user m))) s = Some u" "FindMsgSrvConnByHandle h s = Some p"
      "ms_conns s p = Some c" "s' = open_session p c u x h key (ui_uid (the_user_info (sr_user m))) s"
    by (auto simp: ServerLoginRes_def reply_result Let_def split: bind_splits if_splits option.splits sum.splits)
  then have "FindMsgSrvConnByHandle h s = Some p \<and> conn_view s p = Some (mc_bOpen c, mc_address_hex c, mc_captcha c) \<and>
      conn_view s' = (conn_view s)(p \<mapsto> (True, mc_address_hex c, mc_captcha c))"
    by (simp add: open_session_view) (simp add: conn_view_def)
  with * show ?thesis unfolding opens_only_def by auto
qed (simp add: opens_only_def)

lemma ServerLoginRes_dispatch:
  assumes "HandleNextResponse lib e pdu p s = Some (out, s')" and "pdu_GetCommandId pdu = CID_ServerLoginRes"
    and "ms_conns s p = Some c"
  shows "opens_only (mc_handle c) (\<exists>body m. pdu_body pdu = Some body \<and> lib_parse_server_login_res lib body = Some m \<and>
     GetImUserByAddress (ui_address (the_user_info (sr_user m))) s \<noteq> None) s s'"
proof -
  have h: "GetHandler (pdu_GetCommandId pdu) = Some ServerLoginRes" using assms(2) by (simp add: GetHandler_def)
  note view = ServerLoginRes_view [unfolded opens_only_def]
  from assms(1) h show ?thesis
  proof (cases rule: HandleNextResponse_cases)
    case no_server
    then show ?thesis using msg_SendPdu_view by (fastforce simp: opens_only_def)
  next
    case (finished c' z r s1 z1)
    with view [OF finished(2)] assms(3) show ?thesis by (simp add: opens_only_def GetImUserByAddress_def)
  next
    case (answer c' z r s1 z1 q)
    with view [OF answer(2)] msg_SendPdu_view [OF answer(3)] assms(3) show ?thesis by (simp add: opens_only_def GetImUserByAddress_def)
  next
    case (passed c' z x s1 z1 pdu')
    with handler_next [OF h passed(2-4)] assms(2) show ?thesis by simp
  qed
qed

text \<open>A request to log in opens a session only when the signature was right.\<close>

lemma server_login_passed:
  assumes "ServerLoginReq lib e h pdu s = Some (Returns r, s1)" and "rs_pdu r = Some pdu'"
    and "pdu_body pdu' = Some body'" and "lib_parse_server_login_res lib body' = Some m'" and "codec_ok lib"
    and "ui_address (the_user_info (sr_user m')) \<noteq> []"
  shows "\<exists>body m v cm. pdu_body pdu = Some body \<and> lib_parse_server_login_req lib body = (True, m) \<and>
     ServerLogin (se_login e) (lib_recover lib) m (ms_cache s) = Some (LoggedIn v, cm)"
proof -
  from assms(1) obtain body m ok n where n: "pdu_body pdu = Some body" "lib_parse_server_login_req lib body = (ok, m)"
    "rsp_Next e (lib_ser_server_login_res lib n) CID_ServerLoginRes (pdu_GetSeqNum pdu) = Some r"
    "(\<forall>v. sr_user n \<noteq> User v) \<or> ok \<and> (\<exists>v cm. ServerLogin (se_login e) (lib_recover lib) m (ms_cache s) = Some (LoggedIn v, cm))"
    by (fastforce simp: ServerLoginReq_def reply_result Let_def split: bind_splits if_splits prod.splits login_outcome.splits)
  from n(3) assms(2) have p: "ImPdu_SetPBMsg_cmd (se_garb e) (lib_ser_server_login_res lib n) CID_ServerLoginRes (pdu_GetSeqNum pdu) (CImPdu (se_junk e)) = Some pdu'"
    by (auto simp: rsp_Next_def split: bind_splits)
  have "n = m'"
  proof (cases "lib_ser_server_login_res lib n")
    case None
    with p unbuilt_pdu have "pdu_body pdu' = Some []" by fastforce
    with assms(3-5) show ?thesis by (simp add: codec_ok_def)
  next
    case (Some d)
    then have "length d < 2147483648" "lib_parse_server_login_res lib d = (if sr_user n = EmptyUser then None else Some n)"
      using assms(5) by (simp_all add: codec_ok_def)
    with built_pdu [OF this(1), of "se_garb e" CID_ServerLoginRes "pdu_GetSeqNum pdu" "se_junk e"] p Some assms(3,4) show ?thesis
      by (auto split: if_splits)
  qed
  moreover have "\<exists>v. sr_user m' = User v" using assms(6) by (cases "sr_user m'") (auto simp: no_user_info_def)
  ultimately show ?thesis using n by auto
qed

lemma opens_only_from:
  assumes "opens_only h A t s'" and "A \<Longrightarrow> B" and "conn_view t = conn_view s" and "ms_conn_map t = ms_conn_map s"
  shows "opens_only h B s s'"
  using assms unfolding opens_only_def FindMsgSrvConnByHandle_def by metis

lemma ServerLoginReq_dispatch:
  assumes "HandleNextResponse lib e pdu p s = Some (out, s')" and "pdu_GetCommandId pdu = CID_ServerLoginReq"
    and "ms_conns s p = Some c" and "codec_ok lib" and "im_inv uid k s"
  shows "opens_only (mc_handle c) (\<exists>body m v cm. pdu_body pdu = Some body \<and> lib_parse_server_login_req lib body = (True, m) \<and>
     ServerLogin (se_login e) (lib_recover lib) m (ms_cache s) = Some (LoggedIn v, cm)) s s'"
proof -
  have h: "GetHandler (pdu_GetCommandId pdu) = Some ServerLoginReq" using assms(2) by (simp add: GetHandler_def)
  from assms(1) h show ?thesis
  proof (cases rule: HandleNextResponse_cases)
    case no_server
    then show ?thesis using msg_SendPdu_view by (fastforce simp: opens_only_def)
  next
    case (finished c' z r s1 z1)
    with ServerLoginReq_view [OF finished(2)] show ?thesis by (simp add: opens_only_def)
  next
    case (answer c' z r s1 z1 q)
    with ServerLoginReq_view [OF answer(2)] msg_SendPdu_view [OF answer(3)] show ?thesis by (simp add: opens_only_def)
  next
    case (passed c' z x s1 z1 pdu')
    from passed(2) have s1: "ms_conns s1 = ms_conns s" "ms_conn_map s1 = ms_conn_map s" "ms_address_map s1 = ms_address_map s"
      by (auto simp: ServerLoginReq_def reply_result Let_def split: bind_splits if_splits prod.splits login_outcome.splits)
    have cid: "pdu_GetCommandId pdu' = CID_ServerLoginRes" using handler_next [OF h passed(2-4)] assms(2) by simp
    have signed: "\<exists>body m v cm. pdu_body pdu = Some body \<and> lib_parse_server_login_req lib body = (True, m) \<and>
        ServerLogin (se_login e) (lib_recover lib) m (ms_cache s) = Some (LoggedIn v, cm)"
      if "pdu_body pdu' = Some body'" "lib_parse_server_login_res lib body' = Some m'"
        "GetImUserByAddress (ui_address (the_user_info (sr_user m'))) s1 \<noteq> None" for body' m'
    proof -
      from that(3) obtain u where "(ui_address (the_user_info (sr_user m')), u) \<in> set (ms_address_map s)"
        by (auto simp: GetImUserByAddress_def s1(3) dest: map_of_in)
      from im_invD(6) [OF assms(5) this] have "ui_address (the_user_info (sr_user m')) \<noteq> []" by blast
      from server_login_passed [OF passed(2,4) that(1,2) assms(4) this] show ?thesis by simp
    qed
    have "ms_conns (s1\<lparr>ms_biz := z1\<rparr>) p = Some c" using assms(3) s1 by simp
    note opened = ServerLoginRes_dispatch [OF passed(6) cid this]
    show ?thesis
    proof (rule opens_only_from [OF opened])
      assume "\<exists>body m. pdu_body pdu' = Some body \<and> lib_parse_server_login_res lib body = Some m \<and>
        GetImUserByAddress (ui_address (the_user_info (sr_user m))) (s1\<lparr>ms_biz := z1\<rparr>) \<noteq> None"
      then show "\<exists>body m v cm. pdu_body pdu = Some body \<and> lib_parse_server_login_req lib body = (True, m) \<and>
        ServerLogin (se_login e) (lib_recover lib) m (ms_cache s) = Some (LoggedIn v, cm)"
        by (elim exE conjE) (rule signed, assumption, assumption, simp add: GetImUserByAddress_def)
    qed (use s1 ServerLoginReq_view [OF passed(2)] in simp_all)
  qed
qed

lemma AuthLoginReq_view:
  assumes "AuthLoginReq lib e h pdu s = Some (out, s')"
  shows "conn_view s' = conn_view s \<and> \<not> (\<exists>r. out = Returns r \<and> rs_next r) \<or>
    (\<exists>p c body m attach r. FindMsgSrvConnByHandle h s = Some p \<and> ms_conns s p = Some c \<and> mc_captcha c \<noteq> [] \<and>
       pdu_body pdu = Some body \<and> lib_parse_login_req lib body = Some m \<and> lq_captcha m = mc_captcha c \<and>
       conn_view s' = (conn_view s)(p \<mapsto> (mc_bOpen c, lq_address m, [])) \<and> out = Returns r \<and>
       rsp_Next e (lib_ser_server_login_req lib
         \<lparr>sq_address = lq_address m, sq_captcha = lq_captcha m, sq_sign = lq_sign m, sq_attach_data = attach\<rparr>)
         CID_ServerLoginReq (pdu_GetSeqNum pdu) = Some r)"
proof -
  have user: "conn_view (snd (user_for_address a (put_conn p c t))) = conn_view (put_conn p c t)" for a p c t
    by (auto simp: user_for_address_def CImUser_def AddImUserByAddress_def conn_view_def put_conn_def split: option.splits)
  have join: "conn_view t' = conn_view t" if "AddMsgConn g p u t = Some t'" for g p u and t t' :: msg_server
    using that by (auto simp: AddMsgConn_def put_user_def conn_view_def split: bind_splits)
  have err: "conn_view s' = conn_view s \<and> \<not> (\<exists>r. out = Returns r \<and> rs_next r)" if "login_error lib e er pdu s = Some (out, s')" for er
    using that by (auto simp: login_error_def reply_result dest: rsp_SendMsg_last)
  show ?thesis
  proof (cases "conn_view s' = conn_view s \<and> \<not> (\<exists>r. out = Returns r \<and> rs_next r)")
    case False
    with assms obtain p c where p: "FindMsgSrvConnByHandle h s = Some p" "ms_conns s p = Some c"
      by (cases "FindMsgSrvConnByHandle h s") (auto simp: AuthLoginReq_def CResponse_def split: bind_splits)
    note eq = assms [unfolded AuthLoginReq_def, simplified p option.case Option.bind.simps]
    with False err obtain body where body: "pdu_body pdu = Some body" "mc_captcha c \<noteq> []" "mc_address_hex c = []"
      by (auto split: if_splits bind_splits)
    with eq False err obtain m where m: "lib_parse_login_req lib body = Some m" "lq_captcha m = mc_captcha c"
      by (auto split: if_splits option.splits)
    let ?c = "c\<lparr>mc_captcha := [], mc_address_hex := lq_address m, mc_client_version := lq_client_version m,
          mc_client_type := lq_client_type m, mc_online_status := USER_STAT_ONLINE, mc_login_time := se_time e\<rparr>"
    obtain u s1 where u1: "user_for_address (lq_address m) (put_conn p ?c s) = (u, s1)" by fastforce
    from eq body m u1 obtain attach r where u2: "AddMsgConn (mc_handle c) p u s1 = Some s'" "out = Returns r"
        "rsp_Next e (lib_ser_server_login_req lib
          \<lparr>sq_address = lq_address m, sq_captcha = lq_captcha m, sq_sign = lq_sign m, sq_attach_data = attach\<rparr>)
          CID_ServerLoginReq (pdu_GetSeqNum pdu) = Some r"
      by (auto simp: Let_def reply_result split: bind_splits)
    have "conn_view s1 = (conn_view s)(p \<mapsto> (mc_bOpen c, lq_address m, []))"
      using user [of "lq_address m" p ?c s] u1 by (simp add: conn_view_put)
    with join [OF u2(1)] have "conn_view s' = (conn_view s)(p \<mapsto> (mc_bOpen c, lq_address m, []))" by simp
    with p body m u2 show ?thesis by auto
  qed simp
qed

lemma login_passed_req:
  assumes "rsp_Next e (lib_ser_server_login_req lib m) CID_ServerLoginReq sq = Some r" and "rs_pdu r = Some pdu"
    and "pdu_body pdu = Some body" and "lib_parse_server_login_req lib body = (True, n)" and "codec_ok lib"
  shows "n = m"
proof -
  from assms(1,2) have p: "ImPdu_SetPBMsg_cmd (se_garb e) (lib_ser_server_login_req lib m) CID_ServerLoginReq sq (CImPdu (se_junk e)) = Some pdu"
    by (auto simp: rsp_Next_def split: bind_splits)
  show ?thesis
  proof (cases "lib_ser_server_login_req lib m")
    case None
    with p unbuilt_pdu have "pdu_body pdu = Some []" by fastforce
    with assms(3-5) show ?thesis by (simp add: codec_ok_def)
  next
    case (Some d)
    then have "length d < 2147483648" "lib_parse_server_login_req lib d = (True, m)"
      using assms(5) by (simp_all add: codec_ok_def)
    with built_pdu [OF this(1), of "se_garb e" CID_ServerLoginReq sq "se_junk e"] p Some assms(3,4) show ?thesis by simp
  qed
qed

text \<open>Only a login by captcha and signature opens a session, unless the sender speaks the servers' own commands.\<close>

lemma AuthLoginReq_dispatch:
  assumes "HandleNextResponse lib e pdu p s = Some (out, s')" and "pdu_GetCommandId pdu = CID_AuthLoginReq"
    and "codec_ok lib" and "im_inv uid k s" and "honest_pdu lib uid pdu" and "(h, p) \<in> set (ms_conn_map s)"
  shows "(\<forall>q. map_option fst (conn_view s' q) = map_option fst (conn_view s q)) \<or>
    (\<exists>c body m pk. ms_conns s p = Some c \<and> mc_captcha c \<noteq> [] \<and> pdu_body pdu = Some body \<and> lib_parse_login_req lib body = Some m \<and>
       lq_captcha m = mc_captcha c \<and>
       lib_recover lib (lq_sign m) (format_sign_msg_data (lq_captcha m) SignMsgType_ptp) = Some (pk, lq_address m) \<and>
       conn_view s' = (conn_view s)(p \<mapsto> (True, lq_address m, [])))"
proof -
  have hd: "GetHandler (pdu_GetCommandId pdu) = Some AuthLoginReq" using assms(2) by (simp add: GetHandler_def)
  have same: "\<forall>q. map_option fst (conn_view s1 q) = map_option fst (conn_view s q)"
    if "AuthLoginReq lib e i pdu (s\<lparr>ms_biz := z\<rparr>) = Some (r, s1)" for i z r s1
    using AuthLoginReq_view [OF that] by (auto simp: conn_view_at)
  from im_invD(4) [OF assms(4,6)] obtain c where c: "ms_conns s p = Some c" "mc_handle c = h" by auto
  from assms(1) hd show ?thesis
  proof (cases rule: HandleNextResponse_cases)
    case no_server
    then show ?thesis using msg_SendPdu_view by fastforce
  next
    case (finished c' z r s1 z1)
    with same [OF finished(2)] show ?thesis by simp
  next
    case (answer c' z r s1 z1 q)
    with same [OF answer(2)] msg_SendPdu_view [OF answer(3)] show ?thesis by simp
  next
    case (passed c' z x s1 z1 pdu')
    have cid: "pdu_GetCommandId pdu' = CID_ServerLoginReq" using handler_next [OF hd passed(2-4)] assms(2) by simp
    have inv: "im_inv uid k s1" "ms_conn_map s1 = ms_conn_map s"
      using AuthLoginReq_inv [OF passed(2) _ assms(5,2), of k] assms(4) by simp_all
    then have reg: "(h, p) \<in> set (ms_conn_map s1)" using assms(6) by simp
    from im_invD(4) [OF inv(1) this] obtain c1 where c1: "ms_conns s1 p = Some c1" "mc_handle c1 = h" by auto
    have f: "FindMsgSrvConnByHandle h s = Some p" using assms(6) im_invD(1) [OF assms(4)]
      by (simp add: FindMsgSrvConnByHandle_def)
    from AuthLoginReq_view [OF passed(2)] passed(3) c f passed(1) obtain body m attach where
      m: "mc_captcha c \<noteq> []" "pdu_body pdu = Some body" "lib_parse_login_req lib body = Some m" "lq_captcha m = mc_captcha c"
        "conn_view s1 = (conn_view s)(p \<mapsto> (mc_bOpen c, lq_address m, []))"
        "rsp_Next e (lib_ser_server_login_req lib
         \<lparr>sq_address = lq_address m, sq_captcha = lq_captcha m, sq_sign = lq_sign m, sq_attach_data = attach\<rparr>)
         CID_ServerLoginReq (pdu_GetSeqNum pdu) = Some x" by auto
    from ServerLoginReq_dispatch [OF passed(6) cid, of c1 uid k] c1 assms(3) inv(1) have
      "opens_only h (\<exists>body n v cm. pdu_body pdu' = Some body \<and> lib_parse_server_login_req lib body = (True, n) \<and>
         ServerLogin (se_login e) (lib_recover lib) n (ms_cache s1) = Some (LoggedIn v, cm)) s1 s'"
      by (simp add: opens_only_def)
    then consider "conn_view s' = conn_view s1" | body' n v cm where "pdu_body pdu' = Some body'"
        "lib_parse_server_login_req lib body' = (True, n)"
        "ServerLogin (se_login e) (lib_recover lib) n (ms_cache s1) = Some (LoggedIn v, cm)"
        "conn_view s' = (conn_view s1)(p \<mapsto> (True, lq_address m, []))"
      using f inv(2) m(5) by (auto simp: opens_only_def FindMsgSrvConnByHandle_def)
    then show ?thesis
    proof cases
      case 1
      with m(5) c(1) show ?thesis by (simp add: conn_view_at)
    next
      case 2
      from login_passed_req [OF m(6) passed(4) 2(1,2) assms(3)] ServerLogin_logged_in [OF 2(3)] obtain pk where
        "lib_recover lib (lq_sign m) (format_sign_msg_data (lq_captcha m) SignMsgType_ptp) = Some (pk, lq_address m)" by auto
      with 2(4) m c(1) show ?thesis by auto
    qed
  qed
qed

lemma other_dispatch:
  assumes "HandleNextResponse lib e pdu p s = Some (out, s')"
    and "pdu_GetCommandId pdu \<notin> {CID_AuthLoginReq, CID_ServerLoginReq, CID_ServerLoginRes}"
  shows "map_option fst (conn_view s' q) = map_option fst (conn_view s q)"
proof (cases "GetHandler (pdu_GetCommandId pdu)")
  case None
  with assms(1) msg_SendPdu_view show ?thesis by (auto simp: HandleNextResponse.simps [of lib e pdu p s])
next
  case (Some h)
  have same: "map_option fst (conn_view s1 q) = map_option fst (conn_view s q)"
    if "h lib e i pdu (s\<lparr>ms_biz := z\<rparr>) = Some (r, s1)" for i z r s1
    using Some assms(2) that AuthCaptchaReq_open [of lib e i pdu "s\<lparr>ms_biz := z\<rparr>" r s1 q]
    by (auto simp: GetHandler_def HeartBeatNotify_def split: if_splits)
  from assms(1) Some show ?thesis
  proof (cases rule: HandleNextResponse_cases)
    case no_server
    then show ?thesis using msg_SendPdu_view by fastforce
  next
    case (finished c' z r s1 z1)
    with same [OF finished(2)] show ?thesis by simp
  next
    case (answer c' z r s1 z1 q')
    with same [OF answer(2)] msg_SendPdu_view [OF answer(3)] show ?thesis by simp
  next
    case (passed c' z x s1 z1 pdu')
    with handler_next [OF Some passed(2-4)] assms(2) show ?thesis by simp
  qed
qed

section \<open>A concrete server\<close>

definition early :: "nat \<Rightarrow> cache_manager \<Rightarrow> bool" where
  "early c m \<longleftrightarrow> (\<exists>p k. map_of m auth_name = Some p \<and> cache_conns p c = Some k \<and> m_pContext k = None \<and> 100 < m_last_connect_time k + 4)"

lemma early_fails:
  assumes "on_conn f c m = Some (v, m')" and "early c m"
    and "\<And>a d k. m_pContext k = None \<Longrightarrow> 100 < m_last_connect_time k + 4 \<Longrightarrow> f a d k = Some (w, k)"
  shows "v = w \<and> early c m'"
  using assms by (auto simp: on_conn_def early_def map_of_pool_update split: bind_splits)

lemma sample_env_uid:
  assumes "ServerLogin sample_env recover m cm = Some (LoggedIn u, cm')"
  shows "ui_uid u = 7"
proof -
  from assms obtain c m1 pk a i m2 m3 where *: "login_user_id sample_env pk a c m1 = Some (i, m2)"
    "login_user_info sample_env i pk a c m2 = Some (u, m3)"
    by (auto simp: ServerLogin_def split: bind_splits get_result.splits option.splits if_splits)
  have u: "ui_uid u = i" using login_user_info_view [OF *(2)] by blast
  note fails = early_fails [of _ c]
  show ?thesis
  proof (cases "early c m1")
    case True
    have "early c m2"
      using *(1) True
      by (auto simp: login_user_id_def Let_def sample_env_def env_get_def split: bind_splits if_splits
          dest!: fails [where w = "[]"] fails [where w = "-1"] fails [where w = "(False, None)"]
          simp: cc_get_def cc_incr_def cc_exec_def redis_call_def cc_Init_def)
    with *(2) have False
      by (auto simp: login_user_info_def Let_def sample_env_def env_get_def split: bind_splits if_splits
          dest!: fails [where w = "(False, Some [])"] simp: cc_exec_def cc_Init_def)
    then show ?thesis ..
  next
    case False
    have ok: "is_OK (Some reply_OK)" by code_simp
    have get: "v = [55]" if "on_conn (\<lambda>a d. cc_get (le_get sample_env) a d key) c m1 = Some (v, m')" for v key m'
      using that False
      by (auto simp: on_conn_def early_def cc_get_def redis_call_def redis_do_def cc_Init_def redisCommand_def sample_env_def env_get_def
          if_string_def reply_text_def Let_def ok not_less split: bind_splits option.splits if_splits)
    have "atoi (cstr [55]) = Some 7" by code_simp
    with *(1) u show ?thesis by (auto simp: login_user_id_def split: bind_splits if_splits dest!: get)
  qed
qed

definition ada :: bytes where "ada = str_bytes ''0xada''"

text \<open>The messages of one login, and the PDUs that carry them; the texts stand for the protobuf encodings.\<close>

definition ada_login :: login_req where
  "ada_login = \<lparr>lq_address = ada, lq_captcha = (replicate 6 48), lq_client_type = 0, lq_client_version = [], lq_sign = replicate 65 7\<rparr>"

definition ada_req :: server_login_req where
  "ada_req = \<lparr>sq_address = ada, sq_captcha = (replicate 6 48), sq_sign = replicate 65 7, sq_attach_data = [0, 0, 0, 1, 0, 0, 0, 5, 0, 0, 0, 0]\<rparr>"

definition ada_info :: user_info where
  "ada_info = no_user_info\<lparr>ui_uid := 7, ui_address := ada, ui_pub_key := replicate 33 2\<rparr>"

definition ada_res :: server_login_res where
  "ada_res = \<lparr>sr_error = NO_ERROR, sr_user = User ada_info, sr_attach_data = [0, 0, 0, 1, 0, 0, 0, 5, 0, 0, 0, 0]\<rparr>"

definition sample_lib :: srv_lib where
  "sample_lib =
     \<lparr>lib_parse_captcha_req = (\<lambda>_. True), lib_ser_captcha_res = (\<lambda>_ _. Some [1]),
      lib_parse_login_req = (\<lambda>b. if b = [2] then Some ada_login else None), lib_ser_login_res = (\<lambda>_ _. Some [3]),
      lib_parse_server_login_req = (\<lambda>b. (b = [4], ada_req)), lib_ser_server_login_req = (\<lambda>m. if m = ada_req then Some [4] else None),
      lib_parse_server_login_res = (\<lambda>b. if b = [5] then Some ada_res else None),
      lib_ser_server_login_res = (\<lambda>m. if m = ada_res then Some [5] else None),
      lib_ser_heartbeat = Some [], lib_recover = (\<lambda>_ _. Some (replicate 33 2, ada)), lib_ecdh = (\<lambda>_ _. Some (replicate 32 9))\<rparr>"

definition sample_srv_env :: srv_env where
  "sample_srv_env =
     \<lparr>se_garb = (\<lambda>_. 0), se_junk = 0, se_tick = 0, se_random = (\<lambda>_. (0, 0, 0)), se_iv = replicate 16 0, se_aad = replicate 16 0,
      se_prv_key = [1], se_address = str_bytes ''0x00'', se_sign65 = replicate 65 0, se_time = 0, se_login = sample_env\<rparr>"

definition sample_pdu :: "u16 \<Rightarrow> bytes \<Rightarrow> im_pdu" where
  "sample_pdu cid d = the (ImPdu_SetPBMsg_cmd (\<lambda>_. 0) (Some d) cid 1 (CImPdu 0))"

lemma sample_codec: "codec_ok sample_lib"
  by (auto simp: codec_ok_def sample_lib_def ada_res_def)

lemma sample_srv_env_ok: "env_ok sample_lib (\<lambda>_. 7) sample_srv_env"
  using sample_env_uid by (auto simp: env_ok_def sample_srv_env_def)

lemma sample_pdu_wf:
  assumes "length d < 100"
  shows "pdu_body (sample_pdu cid d) = Some d" "pdu_GetCommandId (sample_pdu cid d) = cid"
  using built_pdu [of d "\<lambda>_. 0" cid 1 0] assms by (auto simp: sample_pdu_def)

definition sample_server :: msg_server where
  "sample_server = \<lparr>ms_conns = (\<lambda>_. None), ms_users = (\<lambda>_. None), ms_fresh = 0, ms_conn_map = [], ms_id_map = [], ms_address_map = [],
     ms_sent = [], ms_cache = sample_manager, ms_biz = sample_biz, ms_closed = []\<rparr>"


subsection \<open>Reading one PDU\<close>

lemma ReadPdu_prefix:
  assumes "unat n = length d" and "16 \<le> length d"
  shows "ReadPdu garb junk (d @ x) n = ReadPdu garb junk d n"
proof -
  have h: "parse_header (d @ x) = parse_header d"
    using parse_header_take [of 16 "d @ x"] parse_header_take [of 16 d] assms(2) by simp
  have w: "sb_Write garb (Some (d @ x)) k b = sb_Write garb (Some d) k b" if "k \<le> n" for k b
    using that assms(1) by (simp add: sb_Write_def mem_read_def le_unat_32)
  have "IsPduAvailable (d @ x) n 0 = IsPduAvailable d n 0" using assms by (simp add: IsPduAvailable_def ReadUint32_ok)
  moreover have "k \<le> n" if "IsPduAvailable d n 0 = Some (Inr (True, k))" for k
    using that by (auto simp: IsPduAvailable_def split: if_splits bind_splits)
  ultimately show ?thesis
    using assms(2) h w by (auto simp: ReadPdu_def pdu_ReadPduHeader_spec split: option.splits sum.splits)
qed

lemma read_one:
  assumes "sb_wf (mc_in_buf c)" and "m_write_offset (mc_in_buf c) = 0" and "length d \<le> 2048" and "16 \<le> length d"
    and "ReadPdu garb junk d (of_nat (length d)) = Some (Inr (Some q))" and "pdu_GetLength q = of_nat (length d)"
  shows "\<exists>k. conn_OnRead garb junk collect_pdu [(d, t)] (read_conn c) [] = Some (k, [q], False) \<and>
     m_last_recv_tick k = t \<and> sb_wf (m_in_buf k) \<and> m_write_offset (m_in_buf k) = 0"
proof -
  let ?c = "read_conn c"
  have n: "unat (of_nat (length d) :: u32) = length d" using assms(3) by (intro unat_of_nat_lt) simp
  have in_c: "m_in_buf ?c = mc_in_buf c" by (simp add: read_conn_def)
  have empty: "sb_contents (mc_in_buf c) = []" using assms(2) by (simp add: sb_contents_def)
  have rec: "received [(d, t)] = d" using assms(4) by (cases d) auto
  have ok: "sb_wf (m_in_buf ?c)" "list_all recv_ok [(d, t)]" "length (sb_contents (m_in_buf ?c)) + length (received [(d, t)]) < 2999990000"
    using assms(1,3) in_c empty unfolding rec by (simp_all add: recv_ok_def)
  from on_read_fill_spec [OF ok, of garb, unfolded rec in_c empty] obtain c1 where
    c1: "on_read_fill garb [(d, t)] ?c = Some c1" "sb_wf (m_in_buf c1)" "sb_contents (m_in_buf c1) = d"
    by (metis append_Nil)
  have tick: "m_last_recv_tick c1 = t" using c1(1) assms(4) by (auto simp: Let_def split: bind_splits if_splits)
  let ?b = "m_in_buf c1"
  have "unat (m_write_offset ?b) = length d" using c1(2,3) by (metis length_sb_contents)
  then have off: "m_write_offset ?b = of_nat (length d)" using n by (simp add: word_unat_eq_iff)
  have "m_buffer ?b = d @ drop (length d) (m_buffer ?b)"
    using c1(3) off n by (metis append_take_drop_id sb_contents_def)
  then have r: "ReadPdu garb junk (m_buffer ?b) (m_write_offset ?b) = Some (Inr (Some q))"
    using ReadPdu_prefix [of "of_nat (length d)" d garb junk "drop (length d) (m_buffer ?b)"] n assms(4,5) off by metis
  from sb_Read_spec [OF c1(2), of False "of_nat (length d)"] c1(3) n obtain b' where
    b': "sb_Read False (of_nat (length d)) ?b = Some ([], of_nat (length d), b')" "sb_wf b'" "sb_contents b' = []" by auto
  then have off': "m_write_offset b' = 0" by (metis length_sb_contents list.size(3) unat_eq_zero)
  have "on_read_loop garb junk collect_pdu b' [q] = Some (b', [q], None)"
    by (subst on_read_loop.simps) (simp add: off' ReadPdu_def IsPduAvailable_def)
  then have "on_read_loop garb junk collect_pdu ?b [] = Some (b', [q], None)"
    using r b'(1) assms(6) by (subst on_read_loop.simps) (simp add: collect_pdu_def)
  with c1(1) b'(2) off' tick show ?thesis by (auto simp: conn_OnRead_def)
qed


subsection \<open>A client that sends one PDU at a time\<close>

definition wire :: "u16 \<Rightarrow> bytes \<Rightarrow> bytes" where
  "wire cid d = the (pdu_bytes (sample_pdu cid d))"

definition client_sends :: "u16 \<Rightarrow> bytes \<Rightarrow> msg_event" where
  "client_sends cid d = Receive 5 (\<lambda>_. 0) 0 [(wire cid d, 0)] (\<lambda>_. sample_srv_env)"

definition got_pdu :: "u16 \<Rightarrow> bytes \<Rightarrow> im_pdu" where
  "got_pdu cid d =
     (case ReadPdu (\<lambda>_. 0) 0 (wire cid d) (of_nat (length (wire cid d))) of Some (Inr (Some q)) \<Rightarrow> q | _ \<Rightarrow> CImPdu 0)"

text \<open>The step without the framing: the PDU is handled, and \<open>b\<close> is the receive buffer afterwards.\<close>

definition handled :: "srv_lib \<Rightarrow> u16 \<Rightarrow> bytes \<Rightarrow> simple_buffer \<Rightarrow> msg_server \<Rightarrow> (bool \<times> msg_server) option" where
  "handled lib cid d b = on_imconn 5 (\<lambda>p s. do {
     c \<leftarrow> ms_conns s p;
     (out, s1) \<leftarrow> msg_read_loop lib [(sample_srv_env, got_pdu cid d)] p (put_conn p (c\<lparr>mc_in_buf := b, mc_last_recv_tick := 0\<rparr>) s);
     (case out of
        Returns _ \<Rightarrow> Some (False, s1)
      | Throws _ \<Rightarrow> map_option (Pair False) (msg_OnClose p s1)
      | Blocks \<Rightarrow> Some (True, s1)) })"

definition after :: "srv_lib \<Rightarrow> u16 \<Rightarrow> bytes \<Rightarrow> simple_buffer \<Rightarrow> msg_server \<Rightarrow> msg_server" where
  "after lib cid d b s = snd (the (handled lib cid d b s))"

text \<open>The receive buffer of connection 5, and what \<open>conn_view\<close> shows of all connections.\<close>

definition buf_view :: "msg_server \<Rightarrow> simple_buffer option" where
  "buf_view s = do { p \<leftarrow> FindMsgSrvConnByHandle 5 s; c \<leftarrow> ms_conns s p; Some (mc_in_buf c) }"

definition run_view :: "(bool \<times> msg_server) option \<Rightarrow> (bool \<times> (u32 \<times> nat \<times> (bool \<times> bytes \<times> bytes) option) list) option" where
  "run_view r = map_option (\<lambda>(b, s). (b, map (\<lambda>(h, p). (h, p, conn_view s p)) (ms_conn_map s))) r"

definition empty_buf :: "simple_buffer \<Rightarrow> bool" where
  "empty_buf b \<longleftrightarrow> sb_wf b \<and> m_write_offset b = 0"

lemma wire_read:
  assumes "length d < 100"
  shows "ReadPdu (\<lambda>_. 0) 0 (wire cid d) (of_nat (length (wire cid d))) = Some (Inr (Some (got_pdu cid d)))"
    "pdu_GetLength (got_pdu cid d) = of_nat (length (wire cid d))" "length (wire cid d) = 16 + length d"
proof -
  from built_pdu [of d "\<lambda>_. 0" cid 1 0] assms obtain p where p: "sample_pdu cid d = p" "pdu_wf p"
    "ReadUint32 (pdu_GetBuffer p) 0 = Some (pdu_GetLength p)" "unat (pdu_GetLength p) = 16 + length d" "pdu_bytes p = Some (pdu_contents p)"
    by (auto simp: sample_pdu_def)
  have w: "wire cid d = pdu_contents p" using p by (simp add: wire_def)
  have c: "length (pdu_contents p) = 16 + length d" using p(4) pdu_GetLength_contents [OF p(2)] by simp
  have m: "unat (pdu_GetLength p) \<le> length (pdu_GetBuffer p)" "take (unat (pdu_GetLength p)) (pdu_GetBuffer p) = pdu_contents p"
    using p(2) by (auto simp: pdu_wf_def sb_wf_def pdu_GetLength_def pdu_GetBuffer_def sb_contents_def)
  have "take 4 (pdu_GetBuffer p) = take 4 (pdu_contents p)" using p(4) by (simp flip: m(2) add: min_def)
  then have b: "be32 (take 4 (pdu_contents p)) = pdu_GetLength p" using p(3,4) m(1) by (simp add: ReadUint32_ok)
  have "length (pdu_contents p) = unat (pdu_GetLength p)" using c p(4) by simp
  then have l: "of_nat (length (pdu_contents p)) = pdu_GetLength p" by simp
  have "length d + (16 + length d) div 4 < 4294967280" "pdu_GetLength p \<noteq> 0" using assms p(4) by auto
  with ReadPdu_total [of "pdu_GetLength p" "pdu_contents p" "\<lambda>_. 0" 0] c p(4) b obtain q where
    "ReadPdu (\<lambda>_. 0) 0 (pdu_contents p) (pdu_GetLength p) = Some (Inr (Some q))" "pdu_GetLength q = pdu_GetLength p"
    by (auto simp: Let_def unat_eq_zero split: if_splits)
  with w l c show "ReadPdu (\<lambda>_. 0) 0 (wire cid d) (of_nat (length (wire cid d))) = Some (Inr (Some (got_pdu cid d)))"
    "pdu_GetLength (got_pdu cid d) = of_nat (length (wire cid d))" "length (wire cid d) = 16 + length d"
    by (simp_all add: got_pdu_def)
qed

lemma client_read:
  assumes "empty_buf (mc_in_buf c)" and "length d < 100"
  shows "\<exists>k. conn_OnRead (\<lambda>_. 0) 0 collect_pdu [(wire cid d, 0)] (read_conn c) [] = Some (k, [got_pdu cid d], False) \<and>
     m_last_recv_tick k = 0 \<and> empty_buf (m_in_buf k)"
  using read_one [of c "wire cid d" "\<lambda>_. 0" 0 "got_pdu cid d" 0] wire_read [OF assms(2)] assms by (auto simp: empty_buf_def)

lemma client_step:
  assumes "buf_view s = Some b0" and "empty_buf b0" and "length d < 100"
  shows "\<exists>b. empty_buf b \<and> msg_step lib (client_sends cid d) s = handled lib cid d b s"
proof -
  from assms(1) obtain p c where p: "FindMsgSrvConnByHandle 5 s = Some p" "ms_conns s p = Some c" "mc_in_buf c = b0"
    by (auto simp: buf_view_def split: bind_splits)
  then have e: "empty_buf (mc_in_buf (c\<lparr>mc_refs := mc_refs c + 1\<rparr>))" using assms(2) by simp
  from client_read [OF e assms(3), of cid] obtain k where
    k: "conn_OnRead (\<lambda>_. 0) 0 collect_pdu [(wire cid d, 0)] (read_conn (c\<lparr>mc_refs := mc_refs c + 1\<rparr>)) [] = Some (k, [got_pdu cid d], False)"
    "m_last_recv_tick k = 0" "empty_buf (m_in_buf k)" by blast
  have "msg_step lib (client_sends cid d) s = handled lib cid d (m_in_buf k) s"
    using p k(1,2) by (simp add: client_sends_def handled_def on_imconn_def msg_OnRead_def msg_AddRef_def put_conn_def cong: outcome.case_cong)
  with k(3) show ?thesis by blast
qed

lemma honest_client:
  assumes "buf_view s = Some b0" and "empty_buf b0" and "length d < 100"
    and "env_ok lib uid sample_srv_env" and "honest_pdu lib uid (got_pdu cid d)"
  shows "honest_event lib uid s (client_sends cid d)"
proof -
  have "\<forall>i < length pdus. env_ok lib uid sample_srv_env \<and> honest_pdu lib uid (pdus ! i)"
    if "FindMsgSrvConnByHandle 5 s = Some p" "ms_conns s p = Some c"
      "conn_OnRead (\<lambda>_. 0) 0 collect_pdu [(wire cid d, 0)] (read_conn c) [] = Some (k, pdus, bad)" for p c k pdus bad
  proof -
    have "mc_in_buf c = b0" using assms(1) that(1,2) by (simp add: buf_view_def)
    with client_read [of c d cid] assms that(3) show ?thesis by auto
  qed
  then show ?thesis by (simp add: client_sends_def)
qed

subsection \<open>The login, step by step\<close>

definition captcha_event :: msg_event where
  "captcha_event = client_sends CID_AuthCaptchaReq []"

definition login_event :: msg_event where
  "login_event = client_sends CID_AuthLoginReq [2]"

definition accepted_server :: msg_server where
  "accepted_server = snd (the (msg_step sample_lib (Accept 0 0 0 5) sample_server))"

definition captcha_server :: msg_server where
  "captcha_server = snd (the (msg_step sample_lib captcha_event accepted_server))"

definition login_server :: msg_server where
  "login_server = snd (the (msg_step sample_lib login_event captcha_server))"

abbreviation asked :: "srv_lib \<Rightarrow> simple_buffer \<Rightarrow> msg_server" where
  "asked lib b \<equiv> after lib CID_AuthCaptchaReq [] b accepted_server"

abbreviation logged :: "srv_lib \<Rightarrow> simple_buffer \<Rightarrow> simple_buffer \<Rightarrow> msg_server" where
  "logged lib b c \<equiv> after lib CID_AuthLoginReq [2] c (asked lib b)"

text \<open>One PDU after the other, and what is seen of every state: \<open>g\<close> adds an observation.\<close>

fun trace :: "srv_lib \<Rightarrow> (u16 \<times> bytes \<times> simple_buffer) list \<Rightarrow> msg_server \<Rightarrow> (bool \<times> msg_server) list" where
  "trace lib [] s = []"
| "trace lib ((cid, d, b) # xs) s = (case handled lib cid d b s of None \<Rightarrow> [] | Some (x, s') \<Rightarrow> (x, s') # trace lib xs s')"

definition step_view ::
  "(msg_server \<Rightarrow> 'a) \<Rightarrow> bool \<times> msg_server \<Rightarrow> (bool \<times> (u32 \<times> nat \<times> (bool \<times> bytes \<times> bytes) option) list) \<times> simple_buffer option \<times> 'a" where
  "step_view g = (\<lambda>(x, s). ((x, map (\<lambda>(h, p). (h, p, conn_view s p)) (ms_conn_map s)), buf_view s, g s))"

lemma run_view_Some:
  "run_view r = Some (b, v) \<longleftrightarrow> (\<exists>s. r = Some (b, s) \<and> map (\<lambda>(h, p). (h, p, conn_view s p)) (ms_conn_map s) = v)"
  by (auto simp: run_view_def)

lemma trace_view:
  assumes "map (step_view g) (trace lib ((cid, d, b) # xs) s) = ((x, v), w, y) # vs"
  shows "handled lib cid d b s = Some (x, after lib cid d b s)"
    "map (\<lambda>(h, p). (h, p, conn_view (after lib cid d b s) p)) (ms_conn_map (after lib cid d b s)) = v"
    "buf_view (after lib cid d b s) = w" "g (after lib cid d b s) = y"
    "map (step_view g) (trace lib xs (after lib cid d b s)) = vs"
  using assms by (auto simp: after_def step_view_def split: option.splits)

lemma accepted_view:
  "run_view (msg_step lib (Accept 0 0 0 5) sample_server) = Some (False, [(5, 0, Some (False, [], []))])"
  "msg_step lib (Accept 0 0 0 5) sample_server = msg_step sample_lib (Accept 0 0 0 5) sample_server"
  "buf_view accepted_server = Some CSimpleBuffer" "empty_buf CSimpleBuffer"
  by (simp, code_simp) (simp, code_simp, code_simp)

definition ada_view where
  "ada_view s = (timed_out 15001 s 0, ms_closed s, map_option (\<lambda>x. (iu_address_hex x, iu_conn_map x)) (ms_users s 1),
     map_option (\<lambda>c. (mc_bOpen c, mc_test c)) (ms_conns s 0),
     run_view (map_option (\<lambda>(out, t). (out = Returns (), t)) (HandleNextResponse sample_lib sample_srv_env (got_pdu CID_AuthLoginReq [2]) 0 s)))"

lemma sample_trace:
  "map (step_view ada_view) (trace sample_lib [(CID_AuthCaptchaReq, [], b), (CID_AuthLoginReq, [2], c)] accepted_server) =
     [((False, [(5, 0, Some (False, [], replicate 6 48))]), Some b,
       True, [], None, Some (False, False), Some (True, [(5, 0, Some (True, ada, []))])),
      ((False, [(5, 0, Some (True, ada, []))]), Some c,
       False, [], Some (ada, [(5, 0)]), Some (True, False), Some (True, [(5, 0, Some (True, ada, []))]))]"
  by code_simp

lemmas asked_view = trace_view [OF sample_trace]
lemmas logged_view = trace_view [OF asked_view(5)]

lemma got_pdus:
  "pdu_GetCommandId (got_pdu CID_AuthCaptchaReq []) = CID_AuthCaptchaReq" "pdu_GetCommandId (got_pdu CID_AuthLoginReq [2]) = CID_AuthLoginReq"
  "pdu_body (got_pdu CID_AuthLoginReq [2]) = Some [2]"
  by code_simp+

lemma captcha_server_reached:
  "\<exists>b. empty_buf b \<and> msg_step sample_lib captcha_event accepted_server = Some (False, asked sample_lib b)"
  "server_reaches sample_lib (\<lambda>_. 7) captcha_server" "ms_conn_map captcha_server = [(5, 0)]"
  "conn_view captcha_server 0 = Some (False, [], replicate 6 48)"
proof -
  from client_step [OF accepted_view(3,4), of "[]" sample_lib CID_AuthCaptchaReq] obtain b where
    b: "empty_buf b" "msg_step sample_lib captcha_event accepted_server = handled sample_lib CID_AuthCaptchaReq [] b accepted_server"
    by (auto simp: captcha_event_def)
  note s = b(2) [unfolded asked_view(1)]
  with b(1) show "\<exists>b. empty_buf b \<and> msg_step sample_lib captcha_event accepted_server = Some (False, asked sample_lib b)" by blast
  have c: "captcha_server = asked sample_lib b" using s by (simp add: captcha_server_def)
  from asked_view(2) [of b, folded c] show "ms_conn_map captcha_server = [(5, 0)]" "conn_view captcha_server 0 = Some (False, [], replicate 6 48)"
    by auto
  have "fresh_server sample_server" by (simp add: fresh_server_def sample_server_def)
  then have 0: "server_reaches sample_lib (\<lambda>_. 7) sample_server" by (rule server_reaches.start)
  have h: "honest_event sample_lib (\<lambda>_. 7) sample_server (Accept 0 0 0 5)" by (simp add: sample_server_def)
  have a: "msg_step sample_lib (Accept 0 0 0 5) sample_server = Some (False, accepted_server)"
    using accepted_view(1) [of sample_lib] by (auto simp: run_view_Some accepted_server_def)
  have h2: "honest_event sample_lib (\<lambda>_. 7) accepted_server captcha_event"
    unfolding captcha_event_def by (rule honest_client [OF accepted_view(3,4) _ sample_srv_env_ok]) (simp_all add: honest_pdu_def got_pdus)
  show "server_reaches sample_lib (\<lambda>_. 7) captcha_server"
    unfolding c by (rule server_reaches.step [OF server_reaches.step [OF 0 h a] h2 s])
qed

lemma captcha_server_asked: "\<exists>b. empty_buf b \<and> captcha_server = asked sample_lib b"
  using captcha_server_reached(1) by (auto simp: captcha_server_def)

lemma ada_honest: "honest_pdu sample_lib (\<lambda>_. 7) (got_pdu CID_AuthLoginReq [2])"
  by (auto simp: honest_pdu_def got_pdus sample_lib_def ada_login_def ada_def str_bytes_def)

lemma login_server_reached:
  "\<exists>b c. login_server = logged sample_lib b c"
  "server_reaches sample_lib (\<lambda>_. 7) login_server" "ms_conn_map login_server = [(5, 0)]"
  "conn_view login_server 0 = Some (True, ada, [])"
proof -
  from captcha_server_asked obtain b where b: "empty_buf b" "captcha_server = asked sample_lib b" by blast
  have v: "buf_view captcha_server = Some b" unfolding b(2) by (rule asked_view(3))
  from client_step [OF v b(1), of "[2]" sample_lib CID_AuthLoginReq] obtain c where
    c: "msg_step sample_lib login_event captcha_server = handled sample_lib CID_AuthLoginReq [2] c captcha_server"
    by (auto simp: login_event_def)
  note s = c [unfolded b(2) logged_view(1)]
  have l: "login_server = logged sample_lib b c" using s b(2) by (simp add: login_server_def)
  then show "\<exists>b c. login_server = logged sample_lib b c" by blast
  from logged_view(2) [of c b, folded l] show "ms_conn_map login_server = [(5, 0)]" "conn_view login_server 0 = Some (True, ada, [])"
    by auto
  have h: "honest_event sample_lib (\<lambda>_. 7) captcha_server login_event"
    unfolding login_event_def by (rule honest_client [OF v b(1) _ sample_srv_env_ok ada_honest]) simp
  show "server_reaches sample_lib (\<lambda>_. 7) login_server"
    unfolding l by (rule server_reaches.step [OF captcha_server_reached(2) h]) (simp add: s b(2))
qed

section \<open>Properties\<close>

text \<open>
  C17. Only a login opens a session. When a PDU whose command is not one of the servers' own (\<open>ServerLoginReq\<close>,
  \<open>ServerLoginRes\<close>) is handled on a registered connection and a session that was not open is open afterwards,
  it is the session of that connection; the PDU was a login that repeats the captcha last sent on the
  connection, its signature over that captcha recovers to the claimed address, the session has that
  address, and the captcha is used up.
\<close>

theorem session_open_authenticated:
  assumes "codec_ok lib" and "im_inv uid k s" and "honest_pdu lib uid pdu" and "(h, p) \<in> set (ms_conn_map s)"
    and "HandleNextResponse lib e pdu p s = Some (out, s')"
    and "pdu_GetCommandId pdu \<notin> {CID_ServerLoginReq, CID_ServerLoginRes}"
    and "ms_conns s' q = Some c'" and "mc_bOpen c'" and "\<not> (\<exists>c. ms_conns s q = Some c \<and> mc_bOpen c)"
  shows "q = p \<and> pdu_GetCommandId pdu = CID_AuthLoginReq \<and>
     (\<exists>c body m pk. ms_conns s p = Some c \<and> pdu_body pdu = Some body \<and> lib_parse_login_req lib body = Some m \<and>
        mc_captcha c \<noteq> [] \<and> lq_captcha m = mc_captcha c \<and>
        lib_recover lib (lq_sign m) (format_sign_msg_data (lq_captcha m) SignMsgType_ptp) = Some (pk, lq_address m) \<and>
        mc_address_hex c' = lq_address m \<and> mc_captcha c' = [])"
proof -
  have new: "map_option fst (conn_view s' q) \<noteq> map_option fst (conn_view s q)"
    using assms(7-9) by (cases "ms_conns s q") (auto simp: conn_view_def)
  then have cid: "pdu_GetCommandId pdu = CID_AuthLoginReq" using other_dispatch [OF assms(5)] assms(6) by auto
  from AuthLoginReq_dispatch [OF assms(5) cid assms(1-4)] new obtain c body m pk where
    m: "ms_conns s p = Some c" "mc_captcha c \<noteq> []" "pdu_body pdu = Some body" "lib_parse_login_req lib body = Some m"
       "lq_captcha m = mc_captcha c"
       "lib_recover lib (lq_sign m) (format_sign_msg_data (lq_captcha m) SignMsgType_ptp) = Some (pk, lq_address m)"
       "conn_view s' = (conn_view s)(p \<mapsto> (True, lq_address m, []))" by blast
  have "q = p" using new m(7) by (auto split: if_splits)
  moreover have "mc_address_hex c' = lq_address m" "mc_captcha c' = []"
    using conn_view_at [OF assms(7)] m(7) \<open>q = p\<close> by auto
  ultimately show ?thesis using cid m by auto
qed

theorem session_open_authenticated_witness:
  "\<exists>s' c'. HandleNextResponse sample_lib sample_srv_env (got_pdu CID_AuthLoginReq [2]) 0 captcha_server = Some (Returns (), s') \<and>
     ms_conns s' 0 = Some c' \<and> mc_bOpen c' \<and> mc_address_hex c' = ada \<and> mc_captcha c' = []"
proof -
  have inv: "im_inv (\<lambda>_. 7) None captcha_server" by (rule server_reaches_inv [OF sample_codec captcha_server_reached(2)])
  from captcha_server_asked obtain b where b: "captcha_server = asked sample_lib b" by blast
  from asked_view(4) [of b] obtain s' where
    s': "HandleNextResponse sample_lib sample_srv_env (got_pdu CID_AuthLoginReq [2]) 0 captcha_server = Some (Returns (), s')"
    "map (\<lambda>(h, p). (h, p, conn_view s' p)) (ms_conn_map s') = [(5, 0, Some (True, ada, []))]"
    unfolding b by (auto simp: ada_view_def run_view_Some)
  then obtain c' where c': "ms_conns s' 0 = Some c'" "mc_bOpen c'" by (auto simp: conn_view_def)
  have "\<not> (\<exists>c. ms_conns captcha_server 0 = Some c \<and> mc_bOpen c)" using captcha_server_reached(4) by (auto simp: conn_view_def)
  from session_open_authenticated [OF sample_codec inv ada_honest _ s'(1) _ c' this, of 5] captcha_server_reached(3) s'(1) c' show ?thesis
    by (auto simp: got_pdus sample_lib_def ada_login_def)
qed



text \<open>
  The timer closes exactly the connections that are too old: a silent one after two minutes (five for a mobile
  client), one without a session fifteen seconds after it connected. Their handles are closed in the order of
  the map, all others stay registered.
\<close>

lemma timer_closes_idle:
  assumes "codec_ok lib" and "server_reaches lib uid s"
  shows "\<exists>s'. msg_conn_timer_callback t s = Some s' \<and>
     set (ms_conn_map s') = {e \<in> set (ms_conn_map s). \<not> timed_out t s (snd e)} \<and>
     ms_closed s' = ms_closed s @ map fst (filter (\<lambda>e. timed_out t s (snd e)) (ms_conn_map s))"
proof -
  note inv = server_reaches_inv [OF assms]
  from msg_timer_loop_inv [OF inv subset_refl im_invD(1) [OF inv], of t] show ?thesis
    by (auto simp: msg_conn_timer_callback_def)
qed

text \<open>
  C22. A broadcast to a user reaches every open connection of the user but the sender's, each once and in the
  order of the handles, and nothing else.
\<close>

theorem broadcast_once:
  assumes "codec_ok lib" and "server_reaches lib uid s" and "ms_users s u = Some x" and "pdu_bytes pdu = Some d"
    and "\<forall>h p c. (h, p) \<in> set (iu_conn_map x) \<longrightarrow> ms_conns s p = Some c \<longrightarrow> \<not> mc_test c"
  shows "\<exists>es. user_BroadcastPdu garb pdu from u s = Some (s\<lparr>ms_sent := ms_sent s @ map (\<lambda>(h, p). (p, d)) es\<rparr>) \<and>
     sorted_wrt (<) (map fst es) \<and> distinct (map snd es) \<and>
     (\<forall>h p. (h, p) \<in> set es \<longleftrightarrow>
        (iu_address_hex x, h) \<in> online s \<and> FindMsgSrvConnByHandle h s = Some p \<and> Some p \<noteq> from \<and>
        (\<exists>c. ms_conns s p = Some c \<and> mc_bOpen c))"
proof -
  note inv = server_reaches_inv [OF assms(1,2)]
  let ?m = "iu_conn_map x"
  let ?es = "filter (\<lambda>e. Some (snd e) \<noteq> from \<and> (\<exists>c. ms_conns s (snd e) = Some c \<and> mc_bOpen c)) ?m"
  have live: "\<forall>e \<in> set ?m. \<exists>c. ms_conns s (snd e) = Some c \<and> \<not> mc_test c"
    using members_live [OF inv assms(3)] assms(5) by fastforce
  have sent: "user_BroadcastPdu garb pdu from u s = Some (s\<lparr>ms_sent := ms_sent s @ map (\<lambda>(h, p). (p, d)) ?es\<rparr>)"
    using broadcast_loop_sent [OF live assms(4)] assms(3) by (simp add: user_BroadcastPdu_def case_prod_beta')
  have ord: "sorted_wrt (<) (map fst ?m)" using im_invD(8) [OF inv assms(3)] by (simp add: ordered_def)
  have reg: "(h, p) \<in> set (ms_conn_map s)" if "(h, p) \<in> set ?m" for h p using im_invD(8) [OF inv assms(3)] that by blast
  have "inj_on snd (set ?m)"
    using reg im_invD(4) [OF inv] by (intro inj_onI) (metis option.inject prod.collapse)
  then have "distinct (map snd ?m)" using ord by (metis distinct_map distinct_map strict_sorted_iff)
  moreover have "(iu_address_hex x, h) \<in> online s \<and> FindMsgSrvConnByHandle h s = Some p \<longleftrightarrow> (h, p) \<in> set ?m" for h p
  proof
    assume *: "(iu_address_hex x, h) \<in> online s \<and> FindMsgSrvConnByHandle h s = Some p"
    then obtain v y q where y: "ms_users s v = Some y" "iu_address_hex y = iu_address_hex x" "(h, q) \<in> set (iu_conn_map y)"
      by (auto simp: online_iff)
    from address_unique [OF inv y(1) assms(3) y(2)] y(1,3) assms(3) have q: "(h, q) \<in> set ?m" by simp
    from reg [OF this] im_invD(1) [OF inv] * have "q = p" by (simp add: FindMsgSrvConnByHandle_def)
    with q show "(h, p) \<in> set ?m" by simp
  next
    assume "(h, p) \<in> set ?m"
    with reg [OF this] assms(3) im_invD(1) [OF inv] show "(iu_address_hex x, h) \<in> online s \<and> FindMsgSrvConnByHandle h s = Some p"
      by (auto simp: online_iff FindMsgSrvConnByHandle_def)
  qed
  ultimately have es: "(h, p) \<in> set ?es \<longleftrightarrow> (iu_address_hex x, h) \<in> online s \<and> FindMsgSrvConnByHandle h s = Some p \<and> Some p \<noteq> from \<and>
        (\<exists>c. ms_conns s p = Some c \<and> mc_bOpen c)" "distinct (map snd ?es)" for h p
    by (auto intro: distinct_map_filter)
  moreover have "sorted_wrt (<) (map fst ?es)" using ord by (simp add: sorted_wrt_map sorted_wrt_filter)
  ultimately show ?thesis using sent by blast
qed

theorem broadcast_once_witness:
  "\<exists>es. user_BroadcastPdu (\<lambda>_. 0) (sample_pdu CID_HeartBeatNotify [8]) None 1 login_server =
      Some (login_server\<lparr>ms_sent := ms_sent login_server @ map (\<lambda>(h, p). (p, the (pdu_bytes (sample_pdu CID_HeartBeatNotify [8])))) es\<rparr>) \<and>
     (5 :: u32, 0) \<in> set es"
proof -
  from login_server_reached(1) obtain b c where l: "login_server = logged sample_lib b c" by blast
  from logged_view(4) [of c b, folded l] obtain x k where x: "ms_users login_server 1 = Some x" "iu_address_hex x = ada" "iu_conn_map x = [(5, 0)]"
    and c: "ms_conns login_server 0 = Some k" "mc_bOpen k" "\<not> mc_test k" by (auto simp: ada_view_def)
  have d: "pdu_bytes (sample_pdu CID_HeartBeatNotify [8]) = Some (the (pdu_bytes (sample_pdu CID_HeartBeatNotify [8])))"
    using built_pdu [of "[8]" "\<lambda>_. 0" CID_HeartBeatNotify 1 0] by (auto simp: sample_pdu_def)
  have f: "FindMsgSrvConnByHandle 5 login_server = Some 0" by (simp add: FindMsgSrvConnByHandle_def login_server_reached(3))
  have "(5, 0) \<in> set (iu_conn_map x)" using x(3) by simp
  with x(1,2) have "(ada, 5) \<in> online login_server" unfolding online_iff by blast
  moreover from broadcast_once [OF sample_codec login_server_reached(2) x(1) d, of "\<lambda>_. 0" None] x c obtain es where
    es: "user_BroadcastPdu (\<lambda>_. 0) (sample_pdu CID_HeartBeatNotify [8]) None 1 login_server =
      Some (login_server\<lparr>ms_sent := ms_sent login_server @ map (\<lambda>(h, p). (p, the (pdu_bytes (sample_pdu CID_HeartBeatNotify [8])))) es\<rparr>)"
    "\<forall>h p. (h, p) \<in> set es \<longleftrightarrow> (ada, h) \<in> online login_server \<and> FindMsgSrvConnByHandle h login_server = Some p \<and> Some p \<noteq> None \<and>
        (\<exists>c. ms_conns login_server p = Some c \<and> mc_bOpen c)" by auto
  ultimately have "(5, 0) \<in> set es" using f c by blast
  with es(1) show ?thesis by blast
qed

section \<open>Forged answers\<close>

text \<open>A library to which no signature is valid; two internal answers a client has made up.\<close>

definition unsigned_lib :: srv_lib where
  "unsigned_lib = sample_lib\<lparr>lib_recover := (\<lambda>_ _. None),
     lib_parse_server_login_res := (\<lambda>b. if b = [5] then Some ada_res
        else if b = [6] then Some (ada_res\<lparr>sr_user := User (ada_info\<lparr>ui_uid := 8\<rparr>)\<rparr>) else None)\<rparr>"

definition forged_event :: "bytes \<Rightarrow> msg_event" where
  "forged_event d = client_sends CID_ServerLoginRes d"

definition forged_run :: "msg_event list" where
  "forged_run = [Accept 0 0 0 5, captcha_event, login_event, forged_event [5]]"

definition left_view where
  "left_view s = map_option (\<lambda>(x, t). (x, ms_id_map t, ms_users t 1 = None, GetOnlineUserInfo t)) (msg_step unsigned_lib (Hangup 5) s)"

lemma forged_trace:
  "map (step_view left_view) (trace unsigned_lib
     [(CID_AuthCaptchaReq, [], b1), (CID_AuthLoginReq, [2], b2), (CID_ServerLoginRes, [5], b3), (CID_ServerLoginRes, [6], b4)] accepted_server) =
     [((False, [(5, 0, Some (False, [], replicate 6 48))]), Some b1, Some (False, [], True, Some [])),
      ((False, [(5, 0, Some (False, ada, []))]), Some b2, Some (False, [], True, Some [])),
      ((False, [(5, 0, Some (True, ada, []))]), Some b3, Some (False, [], True, Some [])),
      ((False, [(5, 0, Some (True, ada, []))]), Some b4, Some (False, [(7, 1)], True, None))]"
  by code_simp

lemmas forged_1 = trace_view [OF forged_trace]
lemmas forged_2 = trace_view [OF forged_1(5)]
lemmas forged_3 = trace_view [OF forged_2(5)]
lemmas forged_4 = trace_view [OF forged_3(5)]

text \<open>The whole dialogue, whatever the receive buffers are in between.\<close>

abbreviation forged :: "simple_buffer \<Rightarrow> simple_buffer \<Rightarrow> simple_buffer \<Rightarrow> msg_server" where
  "forged b1 b2 b3 \<equiv> after unsigned_lib CID_ServerLoginRes [5] b3 (logged unsigned_lib b1 b2)"

lemma forged_chain:
  "\<exists>b1 b2 b3. empty_buf b3 \<and>
     msg_run unsigned_lib [Accept 0 0 0 5, captcha_event, login_event] sample_server = Some (False, logged unsigned_lib b1 b2) \<and>
     msg_run unsigned_lib forged_run sample_server = Some (False, forged b1 b2 b3)"
proof -
  have a: "msg_step unsigned_lib (Accept 0 0 0 5) sample_server = Some (False, accepted_server)"
    using accepted_view(1) [of unsigned_lib] accepted_view(2) [of unsigned_lib] by (auto simp: run_view_Some accepted_server_def)
  from client_step [OF accepted_view(3,4), of "[]" unsigned_lib CID_AuthCaptchaReq, unfolded forged_1(1)] obtain b1 where
    b1: "empty_buf b1" "msg_step unsigned_lib captcha_event accepted_server = Some (False, asked unsigned_lib b1)"
    by (auto simp: captcha_event_def simp del: msg_step.simps)
  from client_step [OF forged_1(3) b1(1), of "[2]" unsigned_lib CID_AuthLoginReq, unfolded forged_2(1)] obtain b2 where
    b2: "empty_buf b2" "msg_step unsigned_lib login_event (asked unsigned_lib b1) = Some (False, logged unsigned_lib b1 b2)"
    by (auto simp: login_event_def simp del: msg_step.simps)
  from client_step [OF forged_2(3) [of b2 b1] b2(1), of "[5]" unsigned_lib CID_ServerLoginRes, unfolded forged_3(1)] obtain b3 where
    b3: "empty_buf b3" "msg_step unsigned_lib (forged_event [5]) (logged unsigned_lib b1 b2) = Some (False, forged b1 b2 b3)"
    by (auto simp: forged_event_def simp del: msg_step.simps)
  show ?thesis using a b1(2) b2(2) b3 by (auto simp: forged_run_def simp del: msg_step.simps)
qed

lemma msg_run_append:
  "msg_run lib evs s = Some (False, t) \<Longrightarrow> msg_run lib (evs @ rest) s = msg_run lib rest t"
  by (induction evs arbitrary: s) (auto simp del: msg_step.simps split: bind_splits if_splits)

text \<open>
  A second answer with another number for the same address leaves the first number behind: when the connection
  is closed the user is deleted and only the new number is taken out of the map, and the next walk over the
  users reads the deleted one.
\<close>

lemma changed_number_dangles:
  "map_option (\<lambda>(b, s). (b, ms_id_map s, ms_users s 1 = None, GetOnlineUserInfo s))
     (msg_run unsigned_lib (forged_run @ [forged_event [6], Hangup 5]) sample_server)
   = Some (False, [(7, 1)], True, None)"
proof -
  from forged_chain obtain b1 b2 b3 where f: "empty_buf b3" "msg_run unsigned_lib forged_run sample_server = Some (False, forged b1 b2 b3)"
    by blast
  from client_step [OF forged_3(3) [of b3 b2 b1] f(1), of "[6]" unsigned_lib CID_ServerLoginRes, unfolded forged_4(1)] obtain b4 where
    "msg_step unsigned_lib (forged_event [6]) (forged b1 b2 b3) = Some (False, after unsigned_lib CID_ServerLoginRes [6] b4 (forged b1 b2 b3))"
    by (auto simp: forged_event_def simp del: msg_step.simps)
  with msg_run_append [OF f(2)] forged_4(4) [of b4 b3 b2 b1] show ?thesis
    by (auto simp: left_view_def simp del: msg_step.simps)
qed


end
