(* ===== verification/Business_Srv.thy ===== *)
theory Business_Srv
  imports Msg_Login
begin

text \<open>
  \<^verbatim>\<open>src/ptp_server/BusinessSrvConn.cpp\<close> and \<^verbatim>\<open>src/ptp_server/ProxyTask.cpp\<close>: the business server. The main thread reads requests
  from the message servers and gives each as a task to a random worker thread; the worker runs the handler and puts the
  answer on a list; the main thread takes the answers from the list and sends them. A connection is named by a number that
  is counted up, its uuid, since the handle of a socket may be in use for another connection when the answer is ready.

  Connections are objects in a heap with their reference count, and \<open>None\<close> is an access through a null or dangling pointer, out
  of bounds, or an exception no one catches. What the socket takes is recorded in \<open>bv_sent\<close>. Sections under \<open>s_list_lock\<close> and
  under the mutex of a worker are single steps, and so is a run of a handler; \<open>bv_queues\<close> are the lists of the workers and
  \<open>bv_stuck\<close> the workers that wait for a cache connection that nobody will return. Not in the code are the fields \<open>pt_from\<close>, \<open>rp_from\<close> and the last component of
  \<open>bv_sent\<close>, the connection a request came from, and the four counters \<open>bv_live_pdus\<close> (PDU objects that are allocated),
  \<open>bv_requests\<close>, \<open>bv_ignored\<close> and \<open>bv_discarded\<close>.
\<close>

section \<open>State\<close>

record bsrv_conn =
  bs_handle :: u32
  bs_refs :: nat
  bs_uuid :: u32
  bs_in_buf :: simple_buffer
  bs_last_send_tick :: u64
  bs_last_recv_tick :: u64

record proxy_task =
  pt_conn_uuid :: u32
  pt_reserved :: u32
  pt_handler :: "handler_fun option"
  pt_pdu :: "im_pdu option"
  pt_from :: nat

record response_pdu =
  rp_conn_uuid :: u32
  rp_pdu :: "im_pdu option"
  rp_from :: nat

record business =
  bv_conns :: "nat \<Rightarrow> bsrv_conn option"
  bv_fresh :: nat
  bv_proxy_map :: "(u32 \<times> nat) list"
  bv_uuid_map :: "(u32 \<times> nat) list"
  bv_uuid_alloctor :: u32
  bv_queues :: "proxy_task list list"
  bv_stuck :: "nat list"
  bv_responses :: "response_pdu list"
  bv_handlers :: msg_server
  bv_sent :: "(nat \<times> bytes \<times> nat) list"
  bv_closed :: "u32 list"
  bv_live_pdus :: nat
  bv_requests :: nat
  bv_ignored :: nat
  bv_discarded :: nat

definition set_conn :: "nat \<Rightarrow> bsrv_conn \<Rightarrow> business \<Rightarrow> business" where
  "set_conn p c s = s\<lparr>bv_conns := (bv_conns s)(p \<mapsto> c)\<rparr>"

section \<open>Connections\<close>

definition get_proxy_conn_by_uuid :: "u32 \<Rightarrow> business \<Rightarrow> nat option" where
  "get_proxy_conn_by_uuid uuid s = map_of (bv_uuid_map s) uuid"

definition CBusinessSrvConn :: "u64 \<Rightarrow> business \<Rightarrow> nat \<times> business" where
  "CBusinessSrvConn tick s =
     (let a = bv_uuid_alloctor s + 1;
          uuid = (if a = 0 then a + 1 else a);
          p = bv_fresh s;
          c = \<lparr>bs_handle = -1, bs_refs = 1, bs_uuid = uuid, bs_in_buf = CSimpleBuffer, bs_last_send_tick = tick, bs_last_recv_tick = tick\<rparr>
      in (p, (set_conn p c s)\<lparr>bv_fresh := p + 1, bv_uuid_alloctor := uuid, bv_uuid_map := umap_insert uuid p (bv_uuid_map s)\<rparr>))"

definition bsrv_OnConnect :: "u32 \<Rightarrow> nat \<Rightarrow> business \<Rightarrow> business option" where
  "bsrv_OnConnect handle p s = do {
     c \<leftarrow> bv_conns s p;
     Some ((set_conn p (c\<lparr>bs_handle := handle\<rparr>) s)\<lparr>bv_proxy_map := umap_insert handle p (bv_proxy_map s)\<rparr>) }"

definition proxy_serv_callback :: "u64 \<Rightarrow> u32 \<Rightarrow> business \<Rightarrow> business option" where
  "proxy_serv_callback tick handle s = (let (p, s1) = CBusinessSrvConn tick s in bsrv_OnConnect handle p s1)"

definition bsrv_AddRef :: "nat \<Rightarrow> business \<Rightarrow> business option" where
  "bsrv_AddRef p s = do { c \<leftarrow> bv_conns s p; Some (set_conn p (c\<lparr>bs_refs := bs_refs c + 1\<rparr>) s) }"

definition bsrv_ReleaseRef :: "nat \<Rightarrow> business \<Rightarrow> business option" where
  "bsrv_ReleaseRef p s = do {
     c \<leftarrow> bv_conns s p;
     Some (if bs_refs c - 1 = 0 then s\<lparr>bv_conns := (bv_conns s)(p := None)\<rparr>
           else set_conn p (c\<lparr>bs_refs := bs_refs c - 1\<rparr>) s) }"

definition bsrv_Close :: "nat \<Rightarrow> business \<Rightarrow> business option" where
  "bsrv_Close p s = do {
     c \<leftarrow> bv_conns s p;
     bsrv_ReleaseRef p
       (if bs_handle c \<noteq> -1
        then s\<lparr>bv_closed := bv_closed s @ [bs_handle c], bv_proxy_map := omap_erase (bs_handle c) (bv_proxy_map s),
               bv_uuid_map := omap_erase (bs_uuid c) (bv_uuid_map s)\<rparr>
        else s) }"

definition bsrv_OnClose :: "nat \<Rightarrow> business \<Rightarrow> business option" where
  "bsrv_OnClose p s = bsrv_Close p s"

definition bsrv_Send :: "u64 \<Rightarrow> im_pdu \<Rightarrow> nat \<Rightarrow> nat \<Rightarrow> business \<Rightarrow> business option" where
  "bsrv_Send now pdu from p s = do {
     c \<leftarrow> bv_conns s p;
     d \<leftarrow> pdu_bytes pdu;
     Some ((set_conn p (c\<lparr>bs_last_send_tick := now\<rparr>) s)\<lparr>bv_sent := bv_sent s @ [(p, d, from)]\<rparr>) }"

definition bsrv_OnTimer :: "srv_lib \<Rightarrow> srv_env \<Rightarrow> u64 \<Rightarrow> nat \<Rightarrow> business \<Rightarrow> business option" where
  "bsrv_OnTimer lib e curr_tick p s = do {
     c \<leftarrow> bv_conns s p;
     s1 \<leftarrow> (if curr_tick > bs_last_send_tick c + SERVER_HEARTBEAT_INTERVAL then do {
              pdu \<leftarrow> ImPdu_SetPBMsg_cmd (se_garb e) (lib_ser_heartbeat lib) CID_HeartBeatNotify 0 (CImPdu (se_junk e));
              bsrv_Send (se_tick e) pdu p p s }
            else Some s);
     if curr_tick > bs_last_recv_tick c + SERVER_TIMEOUT then bsrv_Close p s1 else Some s1 }"

fun bsrv_timer_loop :: "srv_lib \<Rightarrow> srv_env \<Rightarrow> u64 \<Rightarrow> (u32 \<times> nat) list \<Rightarrow> business \<Rightarrow> business option" where
  "bsrv_timer_loop lib e cur_time [] s = Some s"
| "bsrv_timer_loop lib e cur_time ((h, p) # es) s = do { s1 \<leftarrow> bsrv_OnTimer lib e cur_time p s; bsrv_timer_loop lib e cur_time es s1 }"

definition proxy_timer_callback :: "srv_lib \<Rightarrow> srv_env \<Rightarrow> u64 \<Rightarrow> business \<Rightarrow> business option" where
  "proxy_timer_callback lib e cur_time s = bsrv_timer_loop lib e cur_time (bv_proxy_map s) s"

section \<open>Requests\<close>

definition CProxyTask :: "u32 \<Rightarrow> handler_fun option \<Rightarrow> im_pdu option \<Rightarrow> nat \<Rightarrow> proxy_task" where
  "CProxyTask conn_uuid pdu_handler pPdu from =
     \<lparr>pt_conn_uuid = conn_uuid, pt_reserved = (case pPdu of Some pdu \<Rightarrow> pdu_GetReversed pdu | None \<Rightarrow> 0),
      pt_handler = pdu_handler, pt_pdu = pPdu, pt_from = from\<rparr>"

definition queue_task :: "u32 \<Rightarrow> proxy_task \<Rightarrow> business \<Rightarrow> business option" where
  "queue_task rnd t s =
     (let i = unat (rnd mod of_nat (length (bv_queues s)))
      in if i < length (bv_queues s) then Some (s\<lparr>bv_queues := (bv_queues s)[i := bv_queues s ! i @ [t]]\<rparr>) else None)"

text \<open>
  \<open>ReadPdu\<close> is called with the length of the frame, and its result is used without a test for null. PDUs that are ignored
  are not deleted.
\<close>

definition HandlePduBuf ::
  "(nat \<Rightarrow> byte) \<Rightarrow> u32 \<Rightarrow> u32 \<Rightarrow> bytes \<Rightarrow> u32 \<Rightarrow> nat \<Rightarrow> business \<Rightarrow> (pdu_exception + business) option" where
  "HandlePduBuf garb junk rnd pdu_buf pdu_len p s = do {
     c \<leftarrow> bv_conns s p;
     r \<leftarrow> ReadPdu garb junk pdu_buf pdu_len;
     (case r of
        Inl ex \<Rightarrow> Some (Inl ex)
      | Inr None \<Rightarrow> None
      | Inr (Some pdu) \<Rightarrow>
          (let s1 = s\<lparr>bv_live_pdus := bv_live_pdus s + 1\<rparr>
           in if pdu_GetCommandId pdu = CID_HeartBeatNotify then Some (Inr (s1\<lparr>bv_ignored := bv_ignored s + 1\<rparr>))
              else case GetHandler (pdu_GetCommandId pdu) of
                     Some h \<Rightarrow> map_option Inr (queue_task rnd (CProxyTask (bs_uuid c) (Some h) (Some pdu) p) s1)
                   | None \<Rightarrow> Some (Inr (s1\<lparr>bv_ignored := bv_ignored s + 1\<rparr>)))) }"

lemma available_pos:
  assumes "IsPduAvailable buf len 0 = Some (Inr (True, n))"
  shows "0 < n" and "0 < len"
  using assms by (auto simp: IsPduAvailable_def word_neq_0_conv [symmetric] bind_eq_Some_conv split: if_splits)

text \<open>The loop of \<open>OnRead\<close>; \<open>rnd i\<close> is what \<open>random()\<close> returns for the frame \<open>i\<close>.\<close>

function bsrv_read_loop ::
  "(nat \<Rightarrow> byte) \<Rightarrow> u32 \<Rightarrow> (nat \<Rightarrow> u32) \<Rightarrow> nat \<Rightarrow> nat \<Rightarrow> simple_buffer \<Rightarrow> business \<Rightarrow>
   (simple_buffer \<times> business \<times> pdu_exception option) option" where
  "bsrv_read_loop garb junk rnd i p b s =
     (case IsPduAvailable (m_buffer b) (m_write_offset b) 0 of
        None \<Rightarrow> None
      | Some (Inl ex) \<Rightarrow> Some (b, s, Some ex)
      | Some (Inr (avail, pdu_len)) \<Rightarrow>
          if \<not> avail then Some (b, s, None)
          else (case HandlePduBuf garb junk (rnd i) (m_buffer b) pdu_len p s of
                  None \<Rightarrow> None
                | Some (Inl ex) \<Rightarrow> Some (b, s, Some ex)
                | Some (Inr s1) \<Rightarrow>
                    (case sb_Read False pdu_len b of
                       None \<Rightarrow> None
                     | Some (_, _, b1) \<Rightarrow> bsrv_read_loop garb junk rnd (i + 1) p b1 s1)))"
  by pat_completeness auto
termination
proof (relation "measure (\<lambda>(garb, junk, rnd, i, p, b, s). unat (m_write_offset b))", goal_cases)
  case 1
  show ?case by simp
next
  case 2
  then show ?case by (auto elim!: sb_Read_shrinks dest: available_pos)
qed

declare bsrv_read_loop.simps [simp del]

definition bsrv_read_conn :: "bsrv_conn \<Rightarrow> im_conn" where
  "bsrv_read_conn c = \<lparr>m_handle = uint (bs_handle c), m_busy = False, m_in_buf = bs_in_buf c, m_out_buf = CSimpleBuffer,
     m_recv_bytes = 0, m_last_send_tick = bs_last_send_tick c, m_last_recv_tick = bs_last_recv_tick c\<rparr>"

definition bsrv_OnRead ::
  "(nat \<Rightarrow> byte) \<Rightarrow> u32 \<Rightarrow> (nat \<Rightarrow> u32) \<Rightarrow> recv_event list \<Rightarrow> nat \<Rightarrow> business \<Rightarrow> business option" where
  "bsrv_OnRead garb junk rnd rs p s = do {
     c \<leftarrow> bv_conns s p;
     k \<leftarrow> on_read_fill garb rs (bsrv_read_conn c);
     (b, s1, ex) \<leftarrow> bsrv_read_loop garb junk rnd 0 p (m_in_buf k)
       (set_conn p (c\<lparr>bs_last_recv_tick := m_last_recv_tick k\<rparr>) s);
     c1 \<leftarrow> bv_conns s1 p;
     let s2 = set_conn p (c1\<lparr>bs_in_buf := b\<rparr>) s1;
     if ex \<noteq> None then bsrv_OnClose p s2 else Some s2 }"

text \<open>\<open>imconn_callback\<close> on the map of the proxy connections.\<close>

definition on_proxy :: "u32 \<Rightarrow> (nat \<Rightarrow> business \<Rightarrow> business option) \<Rightarrow> business \<Rightarrow> business option" where
  "on_proxy handle f s =
     (case map_of (bv_proxy_map s) handle of
        None \<Rightarrow> Some s
      | Some p \<Rightarrow> do { s1 \<leftarrow> bsrv_AddRef p s; s2 \<leftarrow> f p s1; bsrv_ReleaseRef p s2 })"

section \<open>Answers\<close>

definition AddResponsePdu :: "u32 \<Rightarrow> im_pdu option \<Rightarrow> nat \<Rightarrow> business \<Rightarrow> business" where
  "AddResponsePdu conn_uuid pPdu from s =
     s\<lparr>bv_responses := bv_responses s @ [\<lparr>rp_conn_uuid = conn_uuid, rp_pdu = pPdu, rp_from = from\<rparr>]\<rparr>"

text \<open>
  \<open>CProxyTask::run\<close> and the destructor of the task. The flag says that the worker waits for a cache connection, for good.
  A \<open>CRequest\<close> allocates a PDU that \<open>SetPdu\<close> forgets. Workers do not catch exceptions.
\<close>

definition proxy_task_run :: "srv_lib \<Rightarrow> srv_env \<Rightarrow> proxy_task \<Rightarrow> business \<Rightarrow> (bool \<times> business) option" where
  "proxy_task_run lib e t s =
     (case pt_pdu t of
        None \<Rightarrow> Some (False, AddResponsePdu (pt_conn_uuid t) None (pt_from t) s)
      | Some pdu \<Rightarrow>
          (case pt_handler t of
             None \<Rightarrow> Some (False, s)
           | Some h \<Rightarrow> do {
               (out, g) \<leftarrow> h lib e (pt_conn_uuid t) pdu (bv_handlers s);
               let s1 = s\<lparr>bv_handlers := g, bv_requests := bv_requests s + 1, bv_live_pdus := bv_live_pdus s + 1\<rparr>;
               (case out of
                  Throws _ \<Rightarrow> None
                | Blocks \<Rightarrow> Some (True, s1)
                | Returns response \<Rightarrow> do {
                    let s2 = s1\<lparr>bv_live_pdus := bv_live_pdus s1 + (if rs_pdu response = None then 0 else 1)\<rparr>;
                    valid \<leftarrow> isPduValid response;
                    if valid then do {
                      pdu1 \<leftarrow> rs_pdu response;
                      pdu2 \<leftarrow> pdu_SetReversed (pt_reserved t) pdu1;
                      Some (False, AddResponsePdu (pt_conn_uuid t) (Some pdu2) (pt_from t) s2) }
                    else Some (False, AddResponsePdu (pt_conn_uuid t) None (pt_from t)
                           (s2\<lparr>bv_discarded := bv_discarded s2 + (if rs_pdu response = None then 0 else 1)\<rparr>)) }) }))"

text \<open>A worker takes the first task of its queue, runs it and deletes it.\<close>

definition worker_step :: "srv_lib \<Rightarrow> srv_env \<Rightarrow> nat \<Rightarrow> business \<Rightarrow> business option" where
  "worker_step lib e i s =
     (if i < length (bv_queues s) \<and> i \<notin> set (bv_stuck s) then
        (case bv_queues s ! i of
           [] \<Rightarrow> Some s
         | t # ts \<Rightarrow> do {
             (blocked, s1) \<leftarrow> proxy_task_run lib e t (s\<lparr>bv_queues := (bv_queues s)[i := ts]\<rparr>);
             Some (if blocked then s1\<lparr>bv_stuck := i # bv_stuck s1\<rparr>
                   else if pt_pdu t = None then s1 else s1\<lparr>bv_live_pdus := bv_live_pdus s1 - 1\<rparr>) })
      else Some s)"

definition send_response :: "u64 \<Rightarrow> business \<Rightarrow> business option" where
  "send_response now s =
     (case bv_responses s of
        [] \<Rightarrow> Some s
      | r # rs \<Rightarrow> do {
          let s1 = s\<lparr>bv_responses := rs\<rparr>;
          s2 \<leftarrow> (case get_proxy_conn_by_uuid (rp_conn_uuid r) s1 of
                   None \<Rightarrow> Some s1
                 | Some p \<Rightarrow> (case rp_pdu r of Some pdu \<Rightarrow> bsrv_Send now pdu (rp_from r) p s1 | None \<Rightarrow> bsrv_Close p s1));
          Some (if rp_pdu r = None then s2 else s2\<lparr>bv_live_pdus := bv_live_pdus s2 - 1\<rparr>) })"

text \<open>\<open>SendResponsePduList\<close> when no worker adds an answer in between.\<close>

fun SendResponsePduList_loop :: "u64 \<Rightarrow> nat \<Rightarrow> business \<Rightarrow> business option" where
  "SendResponsePduList_loop now 0 s = Some s"
| "SendResponsePduList_loop now (Suc n) s = do { s1 \<leftarrow> send_response now s; SendResponsePduList_loop now n s1 }"

definition SendResponsePduList :: "u64 \<Rightarrow> business \<Rightarrow> business option" where
  "SendResponsePduList now s = SendResponsePduList_loop now (length (bv_responses s)) s"

section \<open>Steps of the process\<close>

text \<open>\<open>init_proxy_conn\<close> starts the workers; the loop and timer callbacks it registers are the steps below.\<close>

definition init_proxy_conn :: "u32 \<Rightarrow> business \<Rightarrow> business" where
  "init_proxy_conn thread_num s = s\<lparr>bv_queues := replicate (unat thread_num) []\<rparr>"

datatype business_event =
    BAccept u64 u32
  | BReceive u32 "nat \<Rightarrow> byte" u32 "nat \<Rightarrow> u32" "recv_event list"
  | BHangup u32
  | BTimer srv_env u64
  | BWorker srv_env nat
  | BAnswer u64

fun business_step :: "srv_lib \<Rightarrow> business_event \<Rightarrow> business \<Rightarrow> business option" where
  "business_step lib (BAccept tick h) s = proxy_serv_callback tick h s"
| "business_step lib (BReceive h garb junk rnd rs) s = on_proxy h (bsrv_OnRead garb junk rnd rs) s"
| "business_step lib (BHangup h) s = on_proxy h bsrv_OnClose s"
| "business_step lib (BTimer e t) s = proxy_timer_callback lib e t s"
| "business_step lib (BWorker e i) s = worker_step lib e i s"
| "business_step lib (BAnswer now) s = send_response now s"

section \<open>Invariant\<close>

text \<open>
  The connection with number \<open>p\<close> in the heap was the connection \<open>p + 1\<close> that was accepted. The numbers do not wrap before
  \<open>2\<^sup>32 - 1\<close> connections were accepted. \<open>k\<close> is the connection that \<open>imconn_callback\<close> holds a reference to.
\<close>

definition conn_name :: "nat \<Rightarrow> u32" where
  "conn_name p = of_nat (p + 1)"

definition conns_inv :: "nat option \<Rightarrow> business \<Rightarrow> bool" where
  "conns_inv k s \<longleftrightarrow>
     distinct (map fst (bv_proxy_map s)) \<and>
     (\<forall>h p. (h, p) \<in> set (bv_proxy_map s) \<longrightarrow>
        h \<noteq> -1 \<and> (\<exists>c. bv_conns s p = Some c \<and> bs_handle c = h \<and> bs_refs c = (if k = Some p then 2 else 1))) \<and>
     (\<forall>p. k = Some p \<longrightarrow> (\<exists>c. bv_conns s p = Some c \<and> ((bs_handle c, p) \<in> set (bv_proxy_map s) \<or> bs_refs c = 1))) \<and>
     (\<forall>p c. bv_conns s p = Some c \<longrightarrow> p < bv_fresh s \<and> bs_uuid c = conn_name p) \<and>
     set (bv_uuid_map s) = (\<lambda>(h, p). (conn_name p, p)) ` set (bv_proxy_map s) \<and>
     bv_uuid_alloctor s = of_nat (bv_fresh s) \<and> bv_fresh s < 2 ^ 32"

definition answers_ok :: "business \<Rightarrow> bool" where
  "answers_ok s \<longleftrightarrow>
     (\<forall>q \<in> set (bv_queues s). \<forall>t \<in> set q. pt_conn_uuid t = conn_name (pt_from t) \<and> pt_from t < bv_fresh s) \<and>
     (\<forall>r \<in> set (bv_responses s). rp_conn_uuid r = conn_name (rp_from r) \<and> rp_from r < bv_fresh s) \<and>
     (\<forall>(p, d, from) \<in> set (bv_sent s). p = from)"

definition queued_pdus :: "proxy_task list list \<Rightarrow> nat" where
  "queued_pdus qs = sum_list (map (\<lambda>q. length (filter (\<lambda>t. pt_pdu t \<noteq> None) q)) qs)"

definition leaked_pdus :: "business \<Rightarrow> nat" where
  "leaked_pdus s = bv_requests s + bv_ignored s + bv_discarded s"

definition pdus_accounted :: "business \<Rightarrow> bool" where
  "pdus_accounted s \<longleftrightarrow>
     bv_live_pdus s = queued_pdus (bv_queues s) + length (filter (\<lambda>r. rp_pdu r \<noteq> None) (bv_responses s)) +
       length (bv_stuck s) + leaked_pdus s"

definition business_inv :: "nat option \<Rightarrow> business \<Rightarrow> bool" where
  "business_inv k s \<longleftrightarrow> conns_inv k s \<and> answers_ok s \<and> pdus_accounted s"

definition fresh_business :: "business \<Rightarrow> bool" where
  "fresh_business s \<longleftrightarrow>
     bv_conns s = (\<lambda>_. None) \<and> bv_fresh s = 0 \<and> bv_proxy_map s = [] \<and> bv_uuid_map s = [] \<and> bv_uuid_alloctor s = 0 \<and>
     (\<forall>q \<in> set (bv_queues s). q = []) \<and> bv_stuck s = [] \<and> bv_responses s = [] \<and> bv_sent s = [] \<and>
     bv_live_pdus s = 0 \<and> bv_requests s = 0 \<and> bv_ignored s = 0 \<and> bv_discarded s = 0"

text \<open>The system gives a new connection a handle that no open socket has.\<close>

fun accept_ok :: "business_event \<Rightarrow> business \<Rightarrow> bool" where
  "accept_ok (BAccept tick h) s \<longleftrightarrow> h \<noteq> -1 \<and> h \<notin> fst ` set (bv_proxy_map s) \<and> bv_fresh s < 2 ^ 32 - 1"
| "accept_ok _ s \<longleftrightarrow> True"

inductive business_reaches :: "srv_lib \<Rightarrow> business \<Rightarrow> business \<Rightarrow> bool" for lib where
  start: "fresh_business s \<Longrightarrow> business_reaches lib s s"
| step: "business_reaches lib s0 s \<Longrightarrow> accept_ok ev s \<Longrightarrow> business_step lib ev s = Some s' \<Longrightarrow> business_reaches lib s0 s'"

lemmas bv_ref_defs = bsrv_AddRef_def bsrv_ReleaseRef_def set_conn_def

lemma conn_name_inj: "p < 2 ^ 32 - 1 \<Longrightarrow> q < 2 ^ 32 - 1 \<Longrightarrow> conn_name p = conn_name q \<longleftrightarrow> p = q"
  by (simp add: conn_name_def unsigned_of_nat word_of_nat_eq_iff take_bit_nat_eq_self)

text \<open>\<open>s'\<close> differs from \<open>s\<close> in its connections only.\<close>

definition conns_only :: "business \<Rightarrow> business \<Rightarrow> bool" where
  "conns_only s s' \<longleftrightarrow>
     bv_fresh s' = bv_fresh s \<and> bv_uuid_alloctor s' = bv_uuid_alloctor s \<and> bv_queues s' = bv_queues s \<and> bv_stuck s' = bv_stuck s \<and>
     bv_responses s' = bv_responses s \<and> bv_sent s' = bv_sent s \<and> bv_live_pdus s' = bv_live_pdus s \<and> leaked_pdus s' = leaked_pdus s"

lemma conns_only_refl [simp]: "conns_only s s"
  by (simp add: conns_only_def)

lemma conns_only_trans: "conns_only s s' \<Longrightarrow> conns_only s' s'' \<Longrightarrow> conns_only s s''"
  by (simp add: conns_only_def)

lemma conns_only_keeps: "conns_only s s' \<Longrightarrow> answers_ok s' \<longleftrightarrow> answers_ok s" "conns_only s s' \<Longrightarrow> pdus_accounted s' \<longleftrightarrow> pdus_accounted s"
  by (auto simp: conns_only_def answers_ok_def pdus_accounted_def)

lemma conns_only_set [simp]: "conns_only s (set_conn p c s)"
  by (simp add: conns_only_def set_conn_def leaked_pdus_def)

lemma conns_invD:
  assumes "conns_inv k s"
  shows "distinct (map fst (bv_proxy_map s))"
    and "(h, p) \<in> set (bv_proxy_map s) \<Longrightarrow>
        h \<noteq> -1 \<and> (\<exists>c. bv_conns s p = Some c \<and> bs_handle c = h \<and> bs_refs c = (if k = Some p then 2 else 1))"
    and "k = Some p \<Longrightarrow> \<exists>c. bv_conns s p = Some c \<and> ((bs_handle c, p) \<in> set (bv_proxy_map s) \<or> bs_refs c = 1)"
    and "bv_conns s p = Some c \<Longrightarrow> p < bv_fresh s \<and> bs_uuid c = conn_name p"
    and "set (bv_uuid_map s) = (\<lambda>(h, p). (conn_name p, p)) ` set (bv_proxy_map s)"
    and "bv_uuid_alloctor s = of_nat (bv_fresh s)" "bv_fresh s < 2 ^ 32"
  using assms unfolding conns_inv_def by auto

lemma conns_invI:
  assumes "distinct (map fst (bv_proxy_map s))"
    and "\<And>h p. (h, p) \<in> set (bv_proxy_map s) \<Longrightarrow>
        h \<noteq> -1 \<and> (\<exists>c. bv_conns s p = Some c \<and> bs_handle c = h \<and> bs_refs c = (if k = Some p then 2 else 1))"
    and "\<And>p. k = Some p \<Longrightarrow> \<exists>c. bv_conns s p = Some c \<and> ((bs_handle c, p) \<in> set (bv_proxy_map s) \<or> bs_refs c = 1)"
    and "\<And>p c. bv_conns s p = Some c \<Longrightarrow> p < bv_fresh s \<and> bs_uuid c = conn_name p"
    and "set (bv_uuid_map s) = (\<lambda>(h, p). (conn_name p, p)) ` set (bv_proxy_map s)"
    and "bv_uuid_alloctor s = of_nat (bv_fresh s)" "bv_fresh s < 2 ^ 32"
  shows "conns_inv k s"
  using assms unfolding conns_inv_def by blast

lemma conns_inv_simps [simp]:
  "conns_inv k (s\<lparr>bv_queues := qs\<rparr>) = conns_inv k s" "conns_inv k (s\<lparr>bv_stuck := ns\<rparr>) = conns_inv k s"
  "conns_inv k (s\<lparr>bv_responses := rs\<rparr>) = conns_inv k s" "conns_inv k (s\<lparr>bv_handlers := g\<rparr>) = conns_inv k s"
  "conns_inv k (s\<lparr>bv_sent := xs\<rparr>) = conns_inv k s" "conns_inv k (s\<lparr>bv_live_pdus := n\<rparr>) = conns_inv k s"
  "conns_inv k (s\<lparr>bv_requests := n\<rparr>) = conns_inv k s" "conns_inv k (s\<lparr>bv_ignored := n\<rparr>) = conns_inv k s"
  "conns_inv k (s\<lparr>bv_discarded := n\<rparr>) = conns_inv k s"
  by (simp_all add: conns_inv_def)

text \<open>A step that leaves the maps and the uuids alone, and every connection but \<open>p\<close>.\<close>

lemma conns_inv_upd:
  assumes inv: "conns_inv k s" and k: "k = None \<or> k = Some p" "k' = None \<or> k' = Some p" and c: "bv_conns s p = Some c"
    and d: "d = None \<and> k' = None \<and> p \<notin> snd ` set (bv_proxy_map s) \<or>
      (\<exists>e. d = Some e \<and> bs_handle e = bs_handle c \<and> bs_uuid e = bs_uuid c \<and>
         bs_refs e = (if p \<in> snd ` set (bv_proxy_map s) then 1 else 0) + (if k' = None then 0 else 1))"
  shows "conns_inv k' (s\<lparr>bv_conns := (bv_conns s)(p := d)\<rparr>)" (is "conns_inv k' ?s")
proof -
  note inv = conns_invD [OF inv]
  have reg: "(bs_handle c, p) \<in> set (bv_proxy_map s) \<longleftrightarrow> p \<in> snd ` set (bv_proxy_map s)"
    using inv(2) c by force
  have "g \<noteq> -1 \<and> (\<exists>d. bv_conns ?s q = Some d \<and> bs_handle d = g \<and> bs_refs d = (if k' = Some q then 2 else 1))"
    if m: "(g, q) \<in> set (bv_proxy_map s)" for g q
  proof (cases "q = p")
    case True
    with m have "p \<in> snd ` set (bv_proxy_map s)" by force
    with d inv(2) [OF m] c k(2) True show ?thesis by (auto split: if_splits)
  next
    case False
    with inv(2) [OF m] k show ?thesis by auto
  qed
  moreover have "\<exists>d. bv_conns ?s q = Some d \<and> ((bs_handle d, q) \<in> set (bv_proxy_map s) \<or> bs_refs d = 1)" if "k' = Some q" for q
    using that d k(2) reg by auto
  moreover have "q < bv_fresh s \<and> bs_uuid e = conn_name q" if "bv_conns ?s q = Some e" for q e
    using that inv(4) [of q] inv(4) [OF c] d by (auto split: if_splits)
  ultimately show ?thesis
    using inv(1,5-7) unfolding conns_inv_def by simp
qed

lemma registered_refs:
  assumes "conns_inv k s" and "bv_conns s p = Some c" and "k = None \<or> k = Some p" and "p \<in> snd ` set (bv_proxy_map s) \<or> k = Some p"
  shows "bs_refs c = (if p \<in> snd ` set (bv_proxy_map s) then 1 else 0) + (if k = None then 0 else 1)"
  using conns_invD(2,3) [OF assms(1)] assms(2-4) by (cases "p \<in> snd ` set (bv_proxy_map s)") force+

lemma conns_inv_conn:
  assumes "conns_inv k s" and "bv_conns s p = Some c" and "bs_handle d = bs_handle c" "bs_refs d = bs_refs c" "bs_uuid d = bs_uuid c"
    and "k = None \<or> k = Some p" and "p \<in> snd ` set (bv_proxy_map s) \<or> k = Some p"
  shows "conns_inv k (set_conn p d s)"
  unfolding set_conn_def using assms registered_refs [OF assms(1,2,6,7)]
  by (intro conns_inv_upd [OF assms(1,6,6,2)]) simp

subsection \<open>References\<close>

lemma bsrv_AddRef_inv:
  assumes "conns_inv None s" and "(h, p) \<in> set (bv_proxy_map s)"
  shows "\<exists>s'. bsrv_AddRef p s = Some s' \<and> conns_inv (Some p) s' \<and> conns_only s s' \<and> bv_proxy_map s' = bv_proxy_map s"
proof -
  from conns_invD(2) [OF assms] obtain c where c: "bv_conns s p = Some c" "bs_refs c = 1" by auto
  from assms(2) have "p \<in> snd ` set (bv_proxy_map s)" by force
  with c have "conns_inv (Some p) (set_conn p (c\<lparr>bs_refs := bs_refs c + 1\<rparr>) s)"
    unfolding set_conn_def by (intro conns_inv_upd [OF assms(1) _ _ c(1)]) auto
  with c(1) show ?thesis by (simp add: bsrv_AddRef_def) (simp add: set_conn_def)
qed

lemma bsrv_ReleaseRef_inv:
  assumes "conns_inv (Some p) s"
  shows "\<exists>s'. bsrv_ReleaseRef p s = Some s' \<and> conns_inv None s' \<and> conns_only s s'"
proof -
  from conns_invD(3) [OF assms] obtain c where c: "bv_conns s p = Some c" by auto
  note refs = registered_refs [OF assms c] 
  let ?d = "if p \<in> snd ` set (bv_proxy_map s) then Some (c\<lparr>bs_refs := 1\<rparr>) else None"
  have "conns_inv None (s\<lparr>bv_conns := (bv_conns s)(p := ?d)\<rparr>)"
    by (intro conns_inv_upd [OF assms _ _ c]) auto
  moreover have "bsrv_ReleaseRef p s = Some (s\<lparr>bv_conns := (bv_conns s)(p := ?d)\<rparr>)"
    using c refs by (simp add: bv_ref_defs)
  ultimately show ?thesis by (auto simp: conns_only_def leaked_pdus_def)
qed

lemma bsrv_Close_inv:
  assumes "conns_inv k s" and "k = None \<or> k = Some p" and "(h, p) \<in> set (bv_proxy_map s)"
  shows "\<exists>s'. bsrv_Close p s = Some s' \<and> conns_inv k s' \<and> conns_only s s' \<and> bv_proxy_map s' = omap_erase h (bv_proxy_map s)"
proof -
  note inv = conns_invD [OF assms(1)]
  from inv(2) [OF assms(3)] obtain c where c: "bv_conns s p = Some c" "bs_handle c = h" "h \<noteq> -1"
    and refs: "bs_refs c = (if k = Some p then 2 else 1)" by auto
  let ?m = "omap_erase h (bv_proxy_map s)"
  let ?d = "if k = None then None else Some (c\<lparr>bs_refs := 1\<rparr>)"
  let ?s = "s\<lparr>bv_closed := bv_closed s @ [h], bv_proxy_map := ?m, bv_uuid_map := omap_erase (bs_uuid c) (bv_uuid_map s),
    bv_conns := (bv_conns s)(p := ?d)\<rparr>"
  have eq: "bsrv_Close p s = Some ?s"
    using c refs assms(2) by (auto simp: bsrv_Close_def bv_ref_defs)
  have other: "g \<noteq> h \<longleftrightarrow> q \<noteq> p" if "(g, q) \<in> set (bv_proxy_map s)" for g q
  proof
    show "q \<noteq> p" if "g \<noteq> h" using inv(2) [OF \<open>(g, q) \<in> set (bv_proxy_map s)\<close>] c that by auto
    show "g \<noteq> h" if "q \<noteq> p" using eq_key_imp_eq_value [OF inv(1) assms(3)] \<open>(g, q) \<in> set (bv_proxy_map s)\<close> that by blast
  qed
  have uuids: "set (omap_erase (bs_uuid c) (bv_uuid_map s)) = (\<lambda>(h, p). (conn_name p, p)) ` set ?m"
  proof -
    let ?f = "\<lambda>(h :: u32, p). (conn_name p, p)"
    have neq: "fst (?f e) \<noteq> conn_name p \<longleftrightarrow> fst e \<noteq> h" if "e \<in> set (bv_proxy_map s)" for e
    proof -
      obtain g q where e: "e = (g, q)" by (cases e)
      from inv(2) [OF that [unfolded e]] inv(4) inv(4) [OF c(1)] inv(7) have "q < 2 ^ 32 - 1" "p < 2 ^ 32 - 1" by fastforce+
      with conn_name_inj other [OF that [unfolded e]] e show ?thesis by simp
    qed
    have "set (omap_erase (bs_uuid c) (bv_uuid_map s)) = ?f ` {e \<in> set (bv_proxy_map s). fst (?f e) \<noteq> conn_name p}"
      unfolding set_omap_erase inv(5) using inv(4) [OF c(1)] by (simp only: Collect_conj_eq) auto
    also have "{e \<in> set (bv_proxy_map s). fst (?f e) \<noteq> conn_name p} = {e \<in> set (bv_proxy_map s). fst e \<noteq> h}"
      using neq by blast
    finally show ?thesis by simp
  qed
  have "conns_inv k ?s"
  proof (rule conns_invI, goal_cases)
    case 1
    show ?case using inv(1) by (simp add: distinct_erase)
  next
    case (2 g q)
    then show ?case using inv(2) [of g q] other [of g q] assms(2) by auto
  next
    case (3 q)
    then show ?case using assms(2) by auto
  next
    case (4 q e)
    then show ?case using inv(4) [of q] inv(4) [OF c(1)] by (auto split: if_splits)
  qed (use inv(6,7) uuids in simp_all)
  with eq show ?thesis by (simp add: conns_only_def leaked_pdus_def)
qed

subsection \<open>Connections\<close>

lemma proxy_serv_callback_inv:
  assumes "business_inv None s" and "accept_ok (BAccept tick h) s"
  shows "\<exists>s'. proxy_serv_callback tick h s = Some s' \<and> business_inv None s' \<and> map_of (bv_proxy_map s') h = Some (bv_fresh s)"
proof -
  from assms have ci: "conns_inv None s" and ok: "h \<noteq> -1" "h \<notin> fst ` set (bv_proxy_map s)" "bv_fresh s < 2 ^ 32 - 1"
    by (auto simp: business_inv_def)
  note inv = conns_invD [OF ci]
  let ?p = "bv_fresh s"
  have name: "bv_uuid_alloctor s + 1 = conn_name ?p" by (simp add: inv(6) conn_name_def)
  have nz: "conn_name ?p \<noteq> 0"
    using ok(3) by (simp add: conn_name_def word_of_nat_eq_0_iff nat_dvd_not_less del: of_nat_Suc of_nat_add)
  have old: "q < ?p" if "(g, q) \<in> set (bv_proxy_map s)" for g q using inv(2) [OF that] inv(4) by blast
  have new: "map_of (bv_uuid_map s) (conn_name ?p) = None"
  proof (rule ccontr)
    assume "map_of (bv_uuid_map s) (conn_name ?p) \<noteq> None"
    then obtain q where "(conn_name ?p, q) \<in> set (bv_uuid_map s)" by (auto dest: map_of_SomeD)
    with inv(5) obtain g where "(g, q) \<in> set (bv_proxy_map s)" "conn_name ?p = conn_name q" by auto
    with old [of g q] conn_name_inj [of ?p q] ok(3) show False by simp
  qed
  have free: "map_of (bv_proxy_map s) h = None" using ok(2) by (simp add: map_of_eq_None_iff)
  define c where "c = \<lparr>bs_handle = h, bs_refs = 1, bs_uuid = conn_name ?p, bs_in_buf = CSimpleBuffer,
    bs_last_send_tick = tick, bs_last_recv_tick = tick\<rparr>"
  let ?s = "s\<lparr>bv_conns := (bv_conns s)(?p \<mapsto> c), bv_fresh := ?p + 1, bv_uuid_alloctor := conn_name ?p,
    bv_uuid_map := bv_uuid_map s @ [(conn_name ?p, ?p)], bv_proxy_map := bv_proxy_map s @ [(h, ?p)]\<rparr>"
  have eq: "proxy_serv_callback tick h s = Some ?s"
    using new free name nz by (simp add: c_def proxy_serv_callback_def CBusinessSrvConn_def bsrv_OnConnect_def set_conn_def umap_insert_def Let_def)
  have "conns_inv None ?s"
  proof (rule conns_invI, goal_cases)
    case 1
    show ?case using inv(1) ok(2) by simp
  next
    case (2 g q)
    then show ?case using inv(2) [of g q] old [of g q] ok(1) by (auto simp: c_def)
  next
    case (4 q e)
    then show ?case using inv(4) [of q] by (auto simp: c_def split: if_splits)
  next
    case 5
    show ?case using inv(5) by auto
  next
    case 6
    show ?case by (simp add: conn_name_def)
  next
    case 7
    show ?case using ok(3) by simp
  qed simp
  moreover have "answers_ok ?s" "pdus_accounted ?s"
    using assms(1) by (auto simp: business_inv_def answers_ok_def pdus_accounted_def leaked_pdus_def less_Suc_eq)
  ultimately show ?thesis using eq free by (simp add: business_inv_def map_add_def)
qed

lemma named_conn:
  assumes "conns_inv k s" and "get_proxy_conn_by_uuid (conn_name q) s = Some p" and "q < bv_fresh s"
  shows "p = q \<and> (\<exists>h. (h, p) \<in> set (bv_proxy_map s))"
proof -
  note inv = conns_invD [OF assms(1)]
  from map_of_SomeD [OF assms(2) [unfolded get_proxy_conn_by_uuid_def]] inv(5)
  obtain h where h: "(h, p) \<in> set (bv_proxy_map s)" "conn_name q = conn_name p" by auto
  from inv(2) [OF h(1)] inv(4) have "p < bv_fresh s" by blast
  with conn_name_inj [of p q] h assms(3) inv(7) show ?thesis by auto
qed

lemma bsrv_Send_inv:
  assumes "bsrv_Send now pdu from p s = Some s'" and "business_inv k s" and "k = None \<or> k = Some p"
    and "(h, p) \<in> set (bv_proxy_map s)" and "from = p"
  shows "business_inv k s' \<and> bv_proxy_map s' = bv_proxy_map s \<and> bv_responses s' = bv_responses s \<and> (\<exists>c. bv_conns s p = Some c)"
proof -
  from assms(1) obtain c d where c: "bv_conns s p = Some c"
    and s': "s' = (set_conn p (c\<lparr>bs_last_send_tick := now\<rparr>) s)\<lparr>bv_sent := bv_sent s @ [(p, d, from)]\<rparr>"
    by (auto simp: bsrv_Send_def bind_eq_Some_conv)
  from assms(4) have "p \<in> snd ` set (bv_proxy_map s)" by force
  with assms(2,3) have "conns_inv k (set_conn p (c\<lparr>bs_last_send_tick := now\<rparr>) s)"
    by (intro conns_inv_conn [OF _ c]) (auto simp: business_inv_def)
  with assms(2,5) c s' show ?thesis
    by (auto simp: business_inv_def answers_ok_def pdus_accounted_def leaked_pdus_def set_conn_def)
qed

lemma bsrv_Close_all:
  assumes "business_inv k s" and "k = None \<or> k = Some p" and "(h, p) \<in> set (bv_proxy_map s)"
  shows "\<exists>s'. bsrv_Close p s = Some s' \<and> business_inv k s' \<and> bv_proxy_map s' = omap_erase h (bv_proxy_map s) \<and> conns_only s s'"
  using bsrv_Close_inv [of k s p h] assms conns_only_keeps by (force simp: business_inv_def)

lemma bsrv_OnTimer_inv:
  assumes "bsrv_OnTimer lib e t p s = Some s'" and "business_inv None s" and "(h, p) \<in> set (bv_proxy_map s)"
  shows "business_inv None s' \<and> (bv_proxy_map s' = bv_proxy_map s \<or> bv_proxy_map s' = omap_erase h (bv_proxy_map s))"
proof -
  from assms(1) obtain c s1 where s1: "s1 = s \<or> (\<exists>pdu. bsrv_Send (se_tick e) pdu p p s = Some s1)"
    and s': "s' = s1 \<or> bsrv_Close p s1 = Some s'"
    by (auto simp: bsrv_OnTimer_def bind_eq_Some_conv split: if_splits)
  from s1 bsrv_Send_inv [OF _ assms(2) _ assms(3)] assms(2) have "business_inv None s1 \<and> bv_proxy_map s1 = bv_proxy_map s" by auto
  with s' bsrv_Close_all [of None s1 p h] assms(3) show ?thesis by auto
qed

lemma bsrv_timer_loop_inv:
  "bsrv_timer_loop lib e t es s = Some s' \<Longrightarrow> business_inv None s \<Longrightarrow> set es \<subseteq> set (bv_proxy_map s) \<Longrightarrow> distinct (map fst es) \<Longrightarrow>
   business_inv None s'"
proof (induction lib e t es s rule: bsrv_timer_loop.induct)
  case (2 lib e t h p es s)
  then obtain s1 where s1: "bsrv_OnTimer lib e t p s = Some s1" "bsrv_timer_loop lib e t es s1 = Some s'"
    by (auto simp: bind_eq_Some_conv)
  from bsrv_OnTimer_inv [OF s1(1) 2(3)] 2(4)
  have i: "business_inv None s1" "bv_proxy_map s1 = bv_proxy_map s \<or> bv_proxy_map s1 = omap_erase h (bv_proxy_map s)" by auto
  from i(2) 2(4,5) have "set es \<subseteq> set (bv_proxy_map s1)" by force
  with 2(1) [OF s1(1,2) i(1)] 2(5) show ?case by simp
qed simp

subsection \<open>Requests\<close>

lemma queued_pdus_update:
  assumes "i < length qs"
  shows "queued_pdus (qs[i := q]) + length (filter (\<lambda>t. pt_pdu t \<noteq> None) (qs ! i)) = queued_pdus qs + length (filter (\<lambda>t. pt_pdu t \<noteq> None) q)"
proof -
  let ?n = "\<lambda>q. length (filter (\<lambda>t. pt_pdu t \<noteq> None) q)"
  from assms elem_le_sum_list [of i "map ?n qs"] show ?thesis
    by (simp add: queued_pdus_def map_update sum_list_update)
qed

lemma HandlePduBuf_inv:
  assumes "HandlePduBuf garb junk rnd buf n p s = Some (Inr s')" and "business_inv k s"
  shows "business_inv k s' \<and> bv_proxy_map s' = bv_proxy_map s \<and> bv_conns s' = bv_conns s"
proof -
  from assms(1) obtain c r where c: "bv_conns s p = Some c" and r: "ReadPdu garb junk buf n = Some r"
    by (auto simp: HandlePduBuf_def bind_eq_Some_conv)
  from assms(1) c r obtain pdu where "r = Inr (Some pdu)"
    by (cases r; cases "projr r") (auto simp: HandlePduBuf_def)
  with assms(1) c r have s': "s' = s\<lparr>bv_live_pdus := bv_live_pdus s + 1, bv_ignored := bv_ignored s + 1\<rparr> \<or>
      (\<exists>h. queue_task rnd (CProxyTask (bs_uuid c) (Some h) (Some pdu) p) (s\<lparr>bv_live_pdus := bv_live_pdus s + 1\<rparr>) = Some s')"
    by (auto simp: HandlePduBuf_def Let_def split: option.splits if_splits)
  from assms(2) conns_invD(4) [OF _ c] have name: "bs_uuid c = conn_name p" "p < bv_fresh s" by (auto simp: business_inv_def)
  from s' show ?thesis
  proof (elim disjE exE)
    assume "s' = s\<lparr>bv_live_pdus := bv_live_pdus s + 1, bv_ignored := bv_ignored s + 1\<rparr>"
    with assms(2) show ?thesis by (simp add: business_inv_def answers_ok_def pdus_accounted_def leaked_pdus_def)
  next
    fix h
    let ?t = "CProxyTask (bs_uuid c) (Some h) (Some pdu) p"
    assume "queue_task rnd ?t (s\<lparr>bv_live_pdus := bv_live_pdus s + 1\<rparr>) = Some s'"
    then obtain i where i: "i < length (bv_queues s)"
      and eq: "s' = s\<lparr>bv_live_pdus := bv_live_pdus s + 1, bv_queues := (bv_queues s)[i := bv_queues s ! i @ [?t]]\<rparr>"
      by (auto simp: queue_task_def Let_def split: if_splits)
    have "answers_ok s'"
      using assms(2) nth_mem [OF i] name unfolding business_inv_def answers_ok_def
      by (auto simp: eq CProxyTask_def dest!: subsetD [OF set_update_subset_insert])
    moreover have "pdus_accounted s'"
      using assms(2) queued_pdus_update [OF i, of "bv_queues s ! i @ [?t]"]
      by (simp add: eq business_inv_def pdus_accounted_def leaked_pdus_def CProxyTask_def)
    ultimately show ?thesis using assms(2) by (simp add: business_inv_def eq)
  qed
qed

lemma bsrv_read_loop_inv:
  "bsrv_read_loop garb junk rnd i p b s = Some (b', s', ex) \<Longrightarrow> business_inv k s \<Longrightarrow>
   business_inv k s' \<and> bv_proxy_map s' = bv_proxy_map s \<and> bv_conns s' = bv_conns s"
proof (induction garb junk rnd i p b s rule: bsrv_read_loop.induct)
  case (1 garb junk rnd i p b s)
  have step: "b' = b \<and> s' = s \<or>
    (\<exists>n s1 d l b1. IsPduAvailable (m_buffer b) (m_write_offset b) 0 = Some (Inr (True, n)) \<and>
       HandlePduBuf garb junk (rnd i) (m_buffer b) n p s = Some (Inr s1) \<and> sb_Read False n b = Some (d, l, b1) \<and>
       bsrv_read_loop garb junk rnd (i + 1) p b1 s1 = Some (b', s', ex))"
    using 1(2) bsrv_read_loop.simps [of garb junk rnd i p b s]
    by (auto split: option.splits sum.splits if_splits prod.splits)
  then show ?case
  proof (elim disjE exE conjE)
    fix n s1 d l b1
    assume *: "IsPduAvailable (m_buffer b) (m_write_offset b) 0 = Some (Inr (True, n))"
      "HandlePduBuf garb junk (rnd i) (m_buffer b) n p s = Some (Inr s1)" "sb_Read False n b = Some (d, l, b1)"
      "bsrv_read_loop garb junk rnd (i + 1) p b1 s1 = Some (b', s', ex)"
    from HandlePduBuf_inv [OF *(2) 1(3)] have "business_inv k s1" "bv_proxy_map s1 = bv_proxy_map s" "bv_conns s1 = bv_conns s" by auto
    with 1(1) [OF *(1) refl refl _ *(2) refl *(3) refl refl *(4)] show ?thesis by simp
  qed (use 1(3) in simp)
qed

lemma bsrv_OnRead_inv:
  assumes "bsrv_OnRead garb junk rnd rs p s = Some s'" and "business_inv (Some p) s" and "(h, p) \<in> set (bv_proxy_map s)"
  shows "business_inv (Some p) s'"
proof -
  have upd: "business_inv (Some p) (set_conn p d s)"
    if "business_inv (Some p) s" "bv_conns s p = Some c" "bs_handle d = bs_handle c" "bs_refs d = bs_refs c" "bs_uuid d = bs_uuid c" for s c d
    using conns_inv_conn [of "Some p" s p c d] that conns_only_keeps [of s "set_conn p d s"] by (simp add: business_inv_def)
  from assms(1) obtain c where c: "bv_conns s p = Some c" by (auto simp: bsrv_OnRead_def bind_eq_Some_conv)
  with assms(1) obtain k where k: "on_read_fill garb rs (bsrv_read_conn c) = Some k" by (auto simp: bsrv_OnRead_def bind_eq_Some_conv)
  with assms(1) c obtain b s1 ex where
    loop: "bsrv_read_loop garb junk rnd 0 p (m_in_buf k) (set_conn p (c\<lparr>bs_last_recv_tick := m_last_recv_tick k\<rparr>) s) = Some (b, s1, ex)"
    by (auto simp: bsrv_OnRead_def Let_def bind_eq_Some_conv)
  with assms(1) c k obtain c1 where c1: "bv_conns s1 p = Some c1"
    and s': "s' = set_conn p (c1\<lparr>bs_in_buf := b\<rparr>) s1 \<or> bsrv_Close p (set_conn p (c1\<lparr>bs_in_buf := b\<rparr>) s1) = Some s'"
    by (auto simp: bsrv_OnRead_def bsrv_OnClose_def Let_def bind_eq_Some_conv split: if_splits)
  let ?s1 = "set_conn p (c1\<lparr>bs_in_buf := b\<rparr>) s1"
  from bsrv_read_loop_inv [OF loop upd [OF assms(2) c]] have "business_inv (Some p) s1" "bv_proxy_map s1 = bv_proxy_map s"
    by (auto simp: set_conn_def)
  with upd [OF _ c1] have "business_inv (Some p) ?s1" "bv_proxy_map ?s1 = bv_proxy_map s" by (auto simp: set_conn_def)
  with bsrv_Close_all [of "Some p" ?s1 p h] assms(3) s' show ?thesis by auto
qed

lemma on_proxy_inv:
  assumes "on_proxy h f s = Some s'" and "business_inv None s"
    and "\<And>p s1 s2. (h, p) \<in> set (bv_proxy_map s1) \<Longrightarrow> business_inv (Some p) s1 \<Longrightarrow> f p s1 = Some s2 \<Longrightarrow> business_inv (Some p) s2"
  shows "business_inv None s'"
proof (cases "map_of (bv_proxy_map s) h")
  case None
  with assms(1,2) show ?thesis by (simp add: on_proxy_def)
next
  case (Some p)
  note hp = map_of_SomeD [OF Some]
  from bsrv_AddRef_inv [OF _ hp] assms(2) obtain s1 where s1: "bsrv_AddRef p s = Some s1" "conns_inv (Some p) s1" "conns_only s s1"
    "bv_proxy_map s1 = bv_proxy_map s" by (auto simp: business_inv_def)
  with assms(2) have i1: "business_inv (Some p) s1" by (simp add: business_inv_def conns_only_keeps)
  from assms(1) Some s1(1) obtain s2 where s2: "f p s1 = Some s2" "bsrv_ReleaseRef p s2 = Some s'"
    by (auto simp: on_proxy_def bind_eq_Some_conv)
  from assms(3) [OF _ i1 s2(1)] hp s1(4) have "business_inv (Some p) s2" by simp
  with bsrv_ReleaseRef_inv [of p s2] s2(2) show ?thesis by (auto simp: business_inv_def conns_only_keeps)
qed

lemma hangup_ok:
  assumes "business_inv None s"
  shows "\<exists>s'. on_proxy h bsrv_OnClose s = Some s' \<and> h \<notin> fst ` set (bv_proxy_map s')"
proof (cases "map_of (bv_proxy_map s) h")
  case None
  then show ?thesis by (simp add: on_proxy_def) (simp add: map_of_eq_None_iff)
next
  case (Some p)
  note hp = map_of_SomeD [OF Some]
  from bsrv_AddRef_inv [OF _ hp] assms obtain s1 where s1: "bsrv_AddRef p s = Some s1" "conns_inv (Some p) s1"
    "bv_proxy_map s1 = bv_proxy_map s" by (auto simp: business_inv_def)
  from bsrv_Close_inv [OF s1(2), of p h] hp s1(3) obtain s2 where s2: "bsrv_Close p s1 = Some s2" "conns_inv (Some p) s2"
    "bv_proxy_map s2 = omap_erase h (bv_proxy_map s)" by auto
  from bsrv_ReleaseRef_inv [OF s2(2)] obtain s3 where s3: "bsrv_ReleaseRef p s2 = Some s3" by blast
  then have "bv_proxy_map s3 = bv_proxy_map s2" by (auto simp: bv_ref_defs bind_eq_Some_conv split: if_splits)
  with Some s1(1) s2(1,3) s3 show ?thesis by (auto simp: on_proxy_def bsrv_OnClose_def)
qed

subsection \<open>Answers\<close>

lemma proxy_task_run_effect:
  assumes "proxy_task_run lib e t s = Some (blocked, s')"
  shows "\<exists>g n m rs. s' = s\<lparr>bv_handlers := g, bv_live_pdus := bv_live_pdus s + n + m + length (filter (\<lambda>r. rp_pdu r \<noteq> None) rs),
      bv_requests := bv_requests s + n, bv_discarded := bv_discarded s + m, bv_responses := bv_responses s @ rs\<rparr> \<and>
      (\<forall>r \<in> set rs. rp_conn_uuid r = pt_conn_uuid t \<and> rp_from r = pt_from t) \<and> (blocked \<longrightarrow> pt_pdu t \<noteq> None)"
proof -
  have I: ?thesis if "s' = s\<lparr>bv_handlers := g, bv_live_pdus := bv_live_pdus s + n + m + length (filter (\<lambda>r. rp_pdu r \<noteq> None) rs),
      bv_requests := bv_requests s + n, bv_discarded := bv_discarded s + m, bv_responses := bv_responses s @ rs\<rparr>"
    "\<forall>r \<in> set rs. rp_conn_uuid r = pt_conn_uuid t \<and> rp_from r = pt_from t" "blocked \<longrightarrow> pt_pdu t \<noteq> None" for g n m rs
    using that by blast
  show ?thesis
  proof (cases "pt_pdu t")
    case None
    with assms show ?thesis
      by (intro I [where g = "bv_handlers s" and n = "0 :: nat" and m = "0 :: nat" and rs = "[\<lparr>rp_conn_uuid = pt_conn_uuid t, rp_pdu = None, rp_from = pt_from t\<rparr>]"])
        (auto simp: proxy_task_run_def AddResponsePdu_def)
  next
    case (Some pdu)
    note pdu = this
    show ?thesis
    proof (cases "pt_handler t")
      case None
      with assms pdu show ?thesis
        by (intro I [where g = "bv_handlers s" and n = "0 :: nat" and m = "0 :: nat" and rs = "[]"])
            (auto simp: proxy_task_run_def)
    next
      case (Some h)
      with assms pdu obtain out g where h: "h lib e (pt_conn_uuid t) pdu (bv_handlers s) = Some (out, g)"
        by (auto simp: proxy_task_run_def bind_eq_Some_conv)
      note run = assms [unfolded proxy_task_run_def, simplified pdu Some option.case h]
      show ?thesis
      proof (cases out)
        case Blocks
        with run pdu show ?thesis
          by (intro I [where g = g and n = "1 :: nat" and m = "0 :: nat" and rs = "[]"])
            (auto simp: Let_def)
      next
        case (Returns rsp)
        from run Returns obtain valid where v: "isPduValid rsp = Some valid" by (auto simp: Let_def bind_eq_Some_conv)
        show ?thesis
        proof (cases valid)
          case True
          with run Returns v obtain pdu1 pdu2 where p: "rs_pdu rsp = Some pdu1" "pdu_SetReversed (pt_reserved t) pdu1 = Some pdu2"
            by (auto simp: Let_def bind_eq_Some_conv)
          with run Returns v True pdu show ?thesis
            by (intro I [where g = g and n = "1 :: nat" and m = "0 :: nat" and rs = "[\<lparr>rp_conn_uuid = pt_conn_uuid t, rp_pdu = Some pdu2, rp_from = pt_from t\<rparr>]"])
              (auto simp: Let_def AddResponsePdu_def)
        next
          case False
          with run Returns v pdu show ?thesis
            by (intro I [where g = g and n = "1 :: nat" and m = "if rs_pdu rsp = None then 0 else 1 :: nat" and rs = "[\<lparr>rp_conn_uuid = pt_conn_uuid t, rp_pdu = None, rp_from = pt_from t\<rparr>]"])
              (auto simp: Let_def AddResponsePdu_def)
        qed
      qed (use run in simp)
    qed
  qed
qed

lemma worker_step_inv:
  assumes "worker_step lib e i s = Some s'" and "business_inv None s"
  shows "business_inv None s'"
proof (cases "i < length (bv_queues s) \<and> i \<notin> set (bv_stuck s) \<and> bv_queues s ! i \<noteq> []")
  case False
  with assms show ?thesis by (auto simp: worker_step_def split: if_splits)
next
  case True
  then obtain t ts where i: "i < length (bv_queues s)" "i \<notin> set (bv_stuck s)" and q: "bv_queues s ! i = t # ts"
    by (cases "bv_queues s ! i") auto
  let ?s = "s\<lparr>bv_queues := (bv_queues s)[i := ts]\<rparr>"
  from assms(1) i q obtain blocked s1 where run: "proxy_task_run lib e t ?s = Some (blocked, s1)"
    and s': "s' = (if blocked then s1\<lparr>bv_stuck := i # bv_stuck s1\<rparr>
                   else if pt_pdu t = None then s1 else s1\<lparr>bv_live_pdus := bv_live_pdus s1 - 1\<rparr>)"
    by (auto simp: worker_step_def bind_eq_Some_conv)
  from proxy_task_run_effect [OF run] obtain g n m rs where
    s1: "s1 = ?s\<lparr>bv_handlers := g, bv_live_pdus := bv_live_pdus s + n + m + length (filter (\<lambda>r. rp_pdu r \<noteq> None) rs),
      bv_requests := bv_requests s + n, bv_discarded := bv_discarded s + m, bv_responses := bv_responses s @ rs\<rparr>"
    and rs: "\<forall>r \<in> set rs. rp_conn_uuid r = pt_conn_uuid t \<and> rp_from r = pt_from t" and b: "blocked \<longrightarrow> pt_pdu t \<noteq> None"
    by auto
  from assms(2) have inv: "conns_inv None s" "answers_ok s" "pdus_accounted s" by (auto simp: business_inv_def)
  have t: "t \<in> set (bv_queues s ! i)" "set ts \<subseteq> set (bv_queues s ! i)" using q by auto
  have "answers_ok s1"
    using inv(2) nth_mem [OF i(1)] t rs unfolding answers_ok_def s1
    by (auto dest!: subsetD [OF set_update_subset_insert])
  then have "answers_ok s'" by (simp add: s' answers_ok_def)
  moreover have "pdus_accounted s'"
    using inv(3) queued_pdus_update [OF i(1), of ts] b q
    by (auto simp: s' s1 pdus_accounted_def leaked_pdus_def)
  ultimately show ?thesis using inv(1) by (simp add: business_inv_def s' s1)
qed

lemma send_response_inv:
  assumes "send_response now s = Some s'" and "business_inv None s"
  shows "business_inv None s'"
proof (cases "bv_responses s")
  case Nil
  with assms show ?thesis by (simp add: send_response_def)
next
  case (Cons r rs)
  let ?s = "s\<lparr>bv_responses := rs, bv_live_pdus := bv_live_pdus s - (if rp_pdu r = None then 0 else 1)\<rparr>"
  have r: "rp_conn_uuid r = conn_name (rp_from r)" "rp_from r < bv_fresh s" and inv: "business_inv None ?s"
    using assms(2) Cons by (auto simp: business_inv_def answers_ok_def pdus_accounted_def leaked_pdus_def)
  show ?thesis
  proof (cases "get_proxy_conn_by_uuid (rp_conn_uuid r) s")
    case None
    with assms(1) Cons inv show ?thesis
      by (auto simp: send_response_def get_proxy_conn_by_uuid_def Let_def split: if_splits)
  next
    case (Some p)
    with named_conn [of None s "rp_from r" p] r assms(2) obtain h where p: "p = rp_from r" "(h, p) \<in> set (bv_proxy_map s)"
      by (auto simp: business_inv_def)
    from Some assms(1) Cons show ?thesis
    proof (cases "rp_pdu r")
      case None
      with Some assms(1) Cons have "bsrv_Close p ?s = Some s'"
        by (auto simp: send_response_def get_proxy_conn_by_uuid_def Let_def bind_eq_Some_conv)
      with bsrv_Close_all [OF inv, of p h] p(2) show ?thesis by auto
    next
      case (Some pdu)
      with \<open>get_proxy_conn_by_uuid (rp_conn_uuid r) s = Some p\<close> assms(1) Cons have "bsrv_Send now pdu (rp_from r) p ?s = Some s'"
        by (auto simp: send_response_def get_proxy_conn_by_uuid_def bsrv_Send_def set_conn_def Let_def bind_eq_Some_conv)
      from bsrv_Send_inv [OF this inv _ _ p(1) [symmetric]] p(2) show ?thesis by auto
    qed
  qed
qed

lemma business_step_inv:
  assumes "business_step lib ev s = Some s'" and "business_inv None s" and "accept_ok ev s"
  shows "business_inv None s'"
proof (cases ev)
  case (BAccept tick h)
  with proxy_serv_callback_inv [of s tick h] assms show ?thesis by auto
next
  case (BReceive h garb junk rnd rs)
  with assms show ?thesis by (auto intro!: on_proxy_inv [OF _ assms(2), of h "bsrv_OnRead garb junk rnd rs"] elim: bsrv_OnRead_inv)
next
  case (BHangup h)
  then have "on_proxy h bsrv_OnClose s = Some s'" using assms(1) by simp
  then show ?thesis
    by (rule on_proxy_inv [OF _ assms(2)]) (use bsrv_Close_all in \<open>force simp: bsrv_OnClose_def\<close>)
next
  case (BTimer e t)
  with assms have "bsrv_timer_loop lib e t (bv_proxy_map s) s = Some s'" by (simp add: proxy_timer_callback_def)
  then show ?thesis
    by (rule bsrv_timer_loop_inv [OF _ assms(2)]) (use assms(2) conns_invD(1) in \<open>auto simp: business_inv_def\<close>)
next
  case (BWorker e i)
  with worker_step_inv assms show ?thesis by simp
next
  case (BAnswer now)
  with send_response_inv assms show ?thesis by simp
qed

lemma fresh_business_inv: "fresh_business s \<Longrightarrow> business_inv None s"
  by (auto simp: fresh_business_def business_inv_def conns_inv_def answers_ok_def pdus_accounted_def leaked_pdus_def queued_pdus_def)

lemma business_reaches_inv: "business_reaches lib s0 s \<Longrightarrow> business_inv None s"
  by (induction rule: business_reaches.induct) (auto intro: fresh_business_inv business_step_inv)

lemma named_lookup:
  assumes "conns_inv k s" and "p \<in> snd ` set (bv_proxy_map s)"
  shows "get_proxy_conn_by_uuid (conn_name p) s = Some p" and "p < bv_fresh s" and "\<exists>c. bv_conns s p = Some c"
proof -
  note inv = conns_invD [OF assms(1)]
  from assms(2) obtain h where h: "(h, p) \<in> set (bv_proxy_map s)" by force
  from inv(2) [OF h] inv(4) show live: "p < bv_fresh s" "\<exists>c. bv_conns s p = Some c" by blast+
  have "(conn_name p, p) \<in> set (bv_uuid_map s)" unfolding inv(5) using h by force
  then obtain q where "get_proxy_conn_by_uuid (conn_name p) s = Some q"
    unfolding get_proxy_conn_by_uuid_def by (meson not_None_eq weak_map_of_SomeI)
  with named_conn [OF assms(1) this live(1)] show "get_proxy_conn_by_uuid (conn_name p) s = Some p" by simp
qed

lemma send_response_delivers:
  assumes "business_inv None s" and "bv_responses s = r # rs" and "rp_pdu r = Some pdu" and "pdu_bytes pdu = Some d"
  shows "\<exists>s'. send_response now s = Some s' \<and> business_inv None s' \<and> bv_responses s' = rs \<and> bv_proxy_map s' = bv_proxy_map s \<and>
    bv_sent s' = bv_sent s @ (if rp_from r \<in> snd ` set (bv_proxy_map s) then [(rp_from r, d, rp_from r)] else [])"
proof -
  from assms(1,2) have r: "rp_conn_uuid r = conn_name (rp_from r)" "rp_from r < bv_fresh s" and ci: "conns_inv None s"
    by (auto simp: business_inv_def answers_ok_def)
  have "\<exists>s'. send_response now s = Some s' \<and> bv_responses s' = rs \<and> bv_proxy_map s' = bv_proxy_map s \<and>
    bv_sent s' = bv_sent s @ (if rp_from r \<in> snd ` set (bv_proxy_map s) then [(rp_from r, d, rp_from r)] else [])"
  proof (cases "rp_from r \<in> snd ` set (bv_proxy_map s)")
    case True
    with named_lookup [OF ci True] assms(2-4) r(1) show ?thesis
      by (auto simp: send_response_def get_proxy_conn_by_uuid_def bsrv_Send_def set_conn_def Let_def)
  next
    case False
    have "get_proxy_conn_by_uuid (conn_name (rp_from r)) s = None"
    proof (rule ccontr)
      assume "get_proxy_conn_by_uuid (conn_name (rp_from r)) s \<noteq> None"
      with named_conn [OF ci _ r(2)] False show False by force
    qed
    with assms(2-4) r(1) False show ?thesis by (simp add: send_response_def get_proxy_conn_by_uuid_def Let_def)
  qed
  with send_response_inv [OF _ assms(1)] show ?thesis by blast
qed

lemma send_loop_delivers:
  assumes "business_inv None s" and "length (bv_responses s) = n" and "\<forall>r \<in> set (bv_responses s). \<exists>pdu. rp_pdu r = Some pdu \<and> pdu_bytes pdu \<noteq> None"
  shows "\<exists>s'. SendResponsePduList_loop now n s = Some s' \<and> business_inv None s' \<and> bv_responses s' = [] \<and> bv_proxy_map s' = bv_proxy_map s \<and>
    bv_sent s' = bv_sent s @ map (\<lambda>r. (rp_from r, the (pdu_bytes (the (rp_pdu r))), rp_from r))
      (filter (\<lambda>r. rp_from r \<in> snd ` set (bv_proxy_map s)) (bv_responses s))"
  using assms
proof (induction n arbitrary: s)
  case (Suc n)
  then obtain r rs where rs: "bv_responses s = r # rs" by (cases "bv_responses s") auto
  with Suc.prems(3) obtain pdu d where d: "rp_pdu r = Some pdu" "pdu_bytes pdu = Some d" by auto
  from send_response_delivers [OF Suc.prems(1) rs d, of now] obtain s1 where
    s1: "send_response now s = Some s1" "business_inv None s1" "bv_responses s1 = rs" "bv_proxy_map s1 = bv_proxy_map s"
      "bv_sent s1 = bv_sent s @ (if rp_from r \<in> snd ` set (bv_proxy_map s) then [(rp_from r, d, rp_from r)] else [])" by blast
  from Suc.IH [OF s1(2)] Suc.prems(2,3) rs s1(3) obtain s' where "SendResponsePduList_loop now n s1 = Some s'" "business_inv None s'"
    "bv_responses s' = []" "bv_proxy_map s' = bv_proxy_map s1" "bv_sent s' = bv_sent s1 @ map (\<lambda>r. (rp_from r, the (pdu_bytes (the (rp_pdu r))), rp_from r))
      (filter (\<lambda>r. rp_from r \<in> snd ` set (bv_proxy_map s1)) rs)" by auto
  with s1 rs d show ?case by auto
qed simp

section \<open>What the business server does\<close>

text \<open>
  A sample: two workers and no connections; a connection with handle 5 that is closed, and a second one that gets its handle;
  an answer for each of the two.
\<close>

definition sample_business :: business where
  "sample_business = init_proxy_conn 2 \<lparr>bv_conns = (\<lambda>_. None), bv_fresh = 0, bv_proxy_map = [], bv_uuid_map = [], bv_uuid_alloctor = 0,
     bv_queues = [], bv_stuck = [], bv_responses = [], bv_handlers = sample_server, bv_sent = [], bv_closed = [],
     bv_live_pdus = 0, bv_requests = 0, bv_ignored = 0, bv_discarded = 0\<rparr>"

definition accepted_conn :: bsrv_conn where
  "accepted_conn = \<lparr>bs_handle = 5, bs_refs = 1, bs_uuid = 1, bs_in_buf = CSimpleBuffer, bs_last_send_tick = 0, bs_last_recv_tick = 0\<rparr>"

definition one_conn :: business where
  "one_conn = sample_business\<lparr>bv_conns := [0 \<mapsto> accepted_conn], bv_fresh := 1, bv_proxy_map := [(5, 0)], bv_uuid_map := [(1, 0)],
     bv_uuid_alloctor := 1\<rparr>"

definition closed_conn :: business where
  "closed_conn = sample_business\<lparr>bv_fresh := 1, bv_uuid_alloctor := 1, bv_closed := [5]\<rparr>"

definition reused_handle :: business where
  "reused_handle = sample_business\<lparr>bv_conns := [1 \<mapsto> accepted_conn\<lparr>bs_uuid := 2\<rparr>], bv_fresh := 2, bv_proxy_map := [(5, 1)],
     bv_uuid_map := [(2, 1)], bv_uuid_alloctor := 2, bv_closed := [5]\<rparr>"

definition two_answers :: business where
  "two_answers = reused_handle\<lparr>bv_responses :=
     [\<lparr>rp_conn_uuid = 1, rp_pdu = Some (sample_pdu CID_AuthCaptchaRes [7]), rp_from = 0\<rparr>,
      \<lparr>rp_conn_uuid = 2, rp_pdu = Some (sample_pdu CID_AuthCaptchaRes [8]), rp_from = 1\<rparr>], bv_live_pdus := 2\<rparr>"

lemmas sample_business_defs = one_conn_def closed_conn_def reused_handle_def sample_business_def accepted_conn_def init_proxy_conn_def

lemmas business_conn_defs = proxy_serv_callback_def CBusinessSrvConn_def bsrv_OnConnect_def on_proxy_def bsrv_OnClose_def bsrv_Close_def
  bsrv_AddRef_def bsrv_ReleaseRef_def set_conn_def umap_insert_def omap_erase_def

lemma reused_reached: "business_reaches lib sample_business reused_handle" "business_reaches lib sample_business one_conn"
proof -
  have "fresh_business sample_business" by (simp add: fresh_business_def sample_business_def init_proxy_conn_def)
  note r0 = business_reaches.start [OF this, of lib]
  have "business_step lib (BAccept 0 5) sample_business = Some one_conn" "accept_ok (BAccept 0 5) sample_business"
    by (simp_all add: business_conn_defs sample_business_defs)
  from business_reaches.step [OF r0 this(2,1)] show r1: "business_reaches lib sample_business one_conn" .
  have "business_step lib (BHangup 5) one_conn = Some closed_conn" by (simp add: business_conn_defs sample_business_defs)
  from business_reaches.step [OF r1 _ this] have r2: "business_reaches lib sample_business closed_conn" by simp
  have "business_step lib (BAccept 0 5) closed_conn = Some reused_handle" "accept_ok (BAccept 0 5) closed_conn"
    by (simp_all add: business_conn_defs sample_business_defs)
  from business_reaches.step [OF r2 this(2,1)] show "business_reaches lib sample_business reused_handle" .
qed

text \<open>
  C31. Answers reach the connection the request came from: in every order of accepted connections, received bytes, hang-ups,
  timers, tasks run by the workers and answers, with handles reused at will, as long as fewer than \<open>2\<^sup>32 - 1\<close> connections were
  accepted. No pointer of the two maps dangles, the maps agree, and a hang-up always finds a live object.
\<close>

theorem answers_reach_requester:
  assumes "business_reaches lib s0 s"
  shows "(\<forall>(p, d, from) \<in> set (bv_sent s). p = from) \<and>
    (\<forall>h p. map_of (bv_proxy_map s) h = Some p \<longrightarrow>
       (\<exists>c. bv_conns s p = Some c \<and> bs_handle c = h \<and> bs_refs c = 1 \<and> get_proxy_conn_by_uuid (bs_uuid c) s = Some p)) \<and>
    (\<forall>uuid p. get_proxy_conn_by_uuid uuid s = Some p \<longrightarrow> (\<exists>c. bv_conns s p = Some c \<and> bs_uuid c = uuid)) \<and>
    (\<forall>h. \<exists>s'. business_step lib (BHangup h) s = Some s' \<and> h \<notin> fst ` set (bv_proxy_map s'))"
proof -
  have inv: "business_inv None s" by (rule business_reaches_inv [OF assms])
  then have ci: "conns_inv None s" by (simp add: business_inv_def)
  have "\<exists>c. bv_conns s p = Some c \<and> bs_handle c = h \<and> bs_refs c = 1 \<and> get_proxy_conn_by_uuid (bs_uuid c) s = Some p"
    if "map_of (bv_proxy_map s) h = Some p" for h p
  proof -
    note hp = map_of_SomeD [OF that]
    then have "p \<in> snd ` set (bv_proxy_map s)" by force
    with conns_invD(2) [OF ci hp] conns_invD(4) [OF ci] named_lookup(1) [OF ci] show ?thesis by fastforce
  qed
  moreover have "\<exists>c. bv_conns s p = Some c \<and> bs_uuid c = uuid" if "get_proxy_conn_by_uuid uuid s = Some p" for uuid p
  proof -
    from map_of_SomeD [OF that [unfolded get_proxy_conn_by_uuid_def]] conns_invD(5) [OF ci]
    obtain h where "(h, p) \<in> set (bv_proxy_map s)" "uuid = conn_name p" by auto
    with conns_invD(2,4) [OF ci] show ?thesis by blast
  qed
  moreover have "\<forall>(p, d, from) \<in> set (bv_sent s). p = from" using inv by (simp add: business_inv_def answers_ok_def)
  ultimately show ?thesis using hangup_ok [OF inv] by simp
qed

theorem answers_reach_requester_witness:
  "business_reaches sample_lib sample_business reused_handle \<and>
   (\<exists>c. bv_conns reused_handle 1 = Some c \<and> bs_handle c = 5 \<and> get_proxy_conn_by_uuid (bs_uuid c) reused_handle = Some 1) \<and>
   get_proxy_conn_by_uuid 1 reused_handle = None"
proof -
  have "map_of (bv_proxy_map reused_handle) 5 = Some 1" by (simp add: reused_handle_def)
  with answers_reach_requester [OF reused_reached(1) [of sample_lib]]
  have "\<exists>c. bv_conns reused_handle 1 = Some c \<and> bs_handle c = 5 \<and> get_proxy_conn_by_uuid (bs_uuid c) reused_handle = Some 1" by blast
  moreover have "get_proxy_conn_by_uuid 1 reused_handle = None" by (simp add: reused_handle_def get_proxy_conn_by_uuid_def)
  ultimately show ?thesis using reused_reached(1) by blast
qed

text \<open>
  The answers of the list are sent in their order, each on the connection its request came from, and those whose
  connection is gone are dropped, also when its handle has been given to a new connection; then the list is empty.
\<close>

lemma answers_delivered:
  assumes "business_inv None s" and "\<forall>r \<in> set (bv_responses s). \<exists>pdu. rp_pdu r = Some pdu \<and> pdu_bytes pdu \<noteq> None"
  shows "\<exists>s'. SendResponsePduList now s = Some s' \<and> bv_responses s' = [] \<and>
    bv_sent s' = bv_sent s @ map (\<lambda>r. (rp_from r, the (pdu_bytes (the (rp_pdu r))), rp_from r))
      (filter (\<lambda>r. rp_from r \<in> snd ` set (bv_proxy_map s)) (bv_responses s))"
  using send_loop_delivers [OF assms(1) refl assms(2)] by (auto simp: SendResponsePduList_def)

text \<open>
  PDU objects are never given back in three places: those the server ignores (heartbeats and unknown commands), the one
  every \<open>CRequest\<close> allocates, and the answers that are not valid. All others are in a queue, in the list of answers or with a
  worker that waits.
\<close>

lemma business_pdus_leak:
  assumes "business_reaches lib s0 s"
  shows "bv_live_pdus s = queued_pdus (bv_queues s) + length (filter (\<lambda>r. rp_pdu r \<noteq> None) (bv_responses s)) + length (bv_stuck s) +
    (bv_requests s + bv_ignored s + bv_discarded s)"
  using business_reaches_inv [OF assms] by (simp add: business_inv_def pdus_accounted_def leaked_pdus_def)

text \<open>
  C32. Sixteen bytes from a peer end the process: a frame that announces a length from 1 to 15 makes \<open>ReadPdu\<close> return null, and
  \<open>HandlePduBuf\<close> uses the null pointer.
\<close>

theorem short_frame_crashes:
  assumes "map_of (bv_proxy_map s) h = Some p" and "bv_conns s p = Some c"
    and "sb_wf (bs_in_buf c)" and "m_write_offset (bs_in_buf c) = 0"
    and "16 \<le> length d" and "length d \<le> 2048" and "be32 (take 4 d) \<noteq> 0" and "be32 (take 4 d) < 16"
  shows "business_step lib (BReceive h garb junk rnd [(d, tick)]) s = None"
proof -
  let ?c = "c\<lparr>bs_refs := bs_refs c + 1\<rparr>" and ?n = "be32 (take 4 d)"
  have in_c: "m_in_buf (bsrv_read_conn ?c) = bs_in_buf c" by (simp add: bsrv_read_conn_def)
  have empty: "sb_contents (bs_in_buf c) = []" using assms(4) by (simp add: sb_contents_def)
  have rec: "received [(d, tick)] = d" using assms(5) by (cases d) auto
  have ok: "sb_wf (m_in_buf (bsrv_read_conn ?c))" "list_all recv_ok [(d, tick)]"
    "length (sb_contents (m_in_buf (bsrv_read_conn ?c))) + length (received [(d, tick)]) < 2999990000"
    using assms(3,6) in_c empty unfolding rec by (simp_all add: recv_ok_def)
  from on_read_fill_spec [OF ok, of garb, unfolded rec in_c empty] obtain k where
    k: "on_read_fill garb [(d, tick)] (bsrv_read_conn ?c) = Some k" "sb_wf (m_in_buf k)" "sb_contents (m_in_buf k) = d"
    by (metis append_Nil)
  let ?b = "m_in_buf k"
  have off: "unat (m_write_offset ?b) = length d" using k(2,3) by (metis length_sb_contents)
  have pre: "take (length d) (m_buffer ?b) = d" using k(3) off by (simp add: sb_contents_def)
  have "take 4 (m_buffer ?b) = take 4 d" using assms(5) by (subst pre [symmetric]) (simp add: min_def)
  moreover have "length d \<le> length (m_buffer ?b)" using arg_cong [OF pre, of length] by simp
  ultimately have buf: "4 \<le> length (m_buffer ?b)" "be32 (take 4 (m_buffer ?b)) = ?n" using assms(5) by simp_all
  have "\<not> m_write_offset ?b < 16" "\<not> m_write_offset ?b < ?n" using off assms(5,8) by (simp_all add: less_unat_32)
  then have av: "IsPduAvailable (m_buffer ?b) (m_write_offset ?b) 0 = Some (Inr (True, ?n))"
    using buf assms(7) by (simp add: IsPduAvailable_def ReadUint32_ok)
  have "ReadPdu garb junk (m_buffer ?b) ?n = Some (Inr None)"
    using assms(8) by (simp add: ReadPdu_def IsPduAvailable_def)
  then have "HandlePduBuf garb junk (rnd 0) (m_buffer ?b) ?n p s1 = None" for s1
    by (cases "bv_conns s1 p") (simp_all add: HandlePduBuf_def)
  with av have "bsrv_read_loop garb junk rnd 0 p ?b s1 = None" for s1
    unfolding bsrv_read_loop.simps [of garb junk rnd 0 p ?b s1] by simp
  with assms(1,2) k(1) show ?thesis
    by (simp add: on_proxy_def bsrv_AddRef_def bsrv_OnRead_def set_conn_def)
qed

theorem short_frame_crashes_witness:
  "business_reaches sample_lib sample_business one_conn \<and>
   business_step sample_lib (BReceive 5 (\<lambda>_. 0) 0 (\<lambda>_. 0) [([0, 0, 0, 5] @ replicate 12 0, 0)]) one_conn = None"
proof -
  have "be32 (take 4 ([0, 0, 0, 5] @ replicate 12 0)) = 5" by (simp add: be32_def)
  moreover have "m_write_offset CSimpleBuffer = 0" by (simp add: CSimpleBuffer_def)
  ultimately show ?thesis
    using short_frame_crashes [of one_conn 5 0 accepted_conn "[0, 0, 0, 5] @ replicate 12 0"] reused_reached(2)
    by (simp add: one_conn_def accepted_conn_def)
qed

end
