(* ===== verification/Client_Conn.thy ===== *)
theory Client_Conn
  imports Im_Conn Ptp_Helpers
begin

text \<open>
  \<^verbatim>\<open>src/ptp_net/ClientConn.cpp\<close>: the connection of the client library to its message server, with the timer that watches
  it, gives up and connects again.

  The file's static variables are the record \<open>client\<close>, which \<open>Account_Net\<close> extends by the accounts. Connections are objects in a
  heap with their reference count. The ticks of the clock are arguments, and so is \<open>net\<close>: what \<open>netlib_connect\<close> answers, given the
  handles in use. \<open>netlib_close\<close>, the calls of the delegate and the bytes handed to the kernel are recorded. An \<open>unordered_map\<close> is walked in an order of its own: the
  argument \<open>at\<close> is the place a new entry takes.

  \<open>None\<close> is undefined behaviour: an access through a dangling or null pointer or outside a string, or an exception nobody catches. Two
  loops of the file do not advance their iterator, and may run for ever. Their result is \<open>None\<close> when they do, and
  \<open>Some Fault\<close> for undefined behaviour.
\<close>

section \<open>State\<close>

text \<open>\<open>NoConnectionState\<close> is 0, the value of the static variable before the first assignment; no enumerator has it.\<close>

datatype conn_state =
    NoConnectionState | ConnectionStateConnecting | ConnectionStateWaitingForNetwork | ConnectionStateConnected
  | ConnectionStateConnectingViaProxy | ConnectionLogged | ConnectionStateClosed

record client_conn =
  cl_conn :: im_conn
  cl_refs :: nat
  cl_bOpen :: bool
  cl_accountId :: u32
  cl_serv_idx :: u32
  cl_ivHex :: bytes
  cl_aadHex :: bytes
  cl_sharedKeyHex :: bytes

record client =
  cn_delegate :: bool
  cn_state :: conn_state
  cn_conns :: "nat \<Rightarrow> client_conn option"
  cn_fresh :: nat
  cn_map :: "(int \<times> nat) list"
  cn_accounts :: "(u32 \<times> nat) list"
  cn_current :: u32
  cn_connecting_cnt :: u32
  cn_timer_cnt :: u32
  cn_idle_cnt :: u32
  cn_reconnect_cnt :: u32
  cn_timers :: nat
  cn_told :: "conn_state list"
  cn_closed :: "int list"
  cn_wire :: "(nat \<times> bytes) list"

abbreviation CLIENT_MAX_RECONNECT_CNT :: u32 where "CLIENT_MAX_RECONNECT_CNT \<equiv> 32"
abbreviation CLIENT_HEARTBEAT_INTERVAL :: u64 where "CLIENT_HEARTBEAT_INTERVAL \<equiv> 30000"
abbreviation CLIENT_MOBILE_TIMEOUT :: u64 where "CLIENT_MOBILE_TIMEOUT \<equiv> 300000"

datatype 'a run = Fault | Ends 'a

definition ends :: "'a option \<Rightarrow> 'a run option" where
  "ends r = Some (case r of None \<Rightarrow> Fault | Some x \<Rightarrow> Ends x)"

definition and_then :: "'a run option \<Rightarrow> ('a \<Rightarrow> 'b run option) \<Rightarrow> 'b run option" where
  "and_then r f = (case r of None \<Rightarrow> None | Some Fault \<Rightarrow> Some Fault | Some (Ends x) \<Rightarrow> f x)"

definition um_insert :: "nat \<Rightarrow> 'k \<Rightarrow> 'v \<Rightarrow> ('k \<times> 'v) list \<Rightarrow> ('k \<times> 'v) list" where
  "um_insert at k v m = (if map_of m k = None then take at m @ (k, v) # drop at m else m)"

definition um_erase :: "'k \<Rightarrow> ('k \<times> 'v) list \<Rightarrow> ('k \<times> 'v) list" where
  "um_erase k m = filter (\<lambda>(k', v). k' \<noteq> k) m"

definition put_client :: "nat \<Rightarrow> client_conn \<Rightarrow> 'a client_scheme \<Rightarrow> 'a client_scheme" where
  "put_client p c s = s\<lparr>cn_conns := (cn_conns s)(p \<mapsto> c)\<rparr>"

section \<open>A connection\<close>

text \<open>\<open>new CClientConn()\<close>: \<open>m_accountId\<close> and \<open>m_serv_idx\<close> are not initialised; the keys are empty strings and nothing assigns them.\<close>

definition CClientConn :: "u64 \<Rightarrow> u32 \<Rightarrow> 'a client_scheme \<Rightarrow> nat \<times> 'a client_scheme" where
  "CClientConn tick junk s =
     (cn_fresh s,
      put_client (cn_fresh s)
        \<lparr>cl_conn = CImConn tick, cl_refs = 1, cl_bOpen = False, cl_accountId = junk, cl_serv_idx = junk,
         cl_ivHex = [], cl_aadHex = [], cl_sharedKeyHex = []\<rparr>
        (s\<lparr>cn_fresh := cn_fresh s + 1\<rparr>))"

definition cl_onConnectionStateChanged :: "conn_state \<Rightarrow> 'a client_scheme \<Rightarrow> 'a client_scheme option" where
  "cl_onConnectionStateChanged state s = (if cn_delegate s then Some (s\<lparr>cn_told := cn_told s @ [state]\<rparr>) else None)"

definition reset_reconnect :: "'a client_scheme \<Rightarrow> 'a client_scheme" where
  "reset_reconnect s = (if cn_reconnect_cnt s > 0 then s\<lparr>cn_reconnect_cnt := 1\<rparr> else s)"

definition cl_Connect :: "(int list \<Rightarrow> int) \<Rightarrow> nat \<Rightarrow> nat \<Rightarrow> u32 \<Rightarrow> u32 \<Rightarrow> nat \<Rightarrow> 'a client_scheme \<Rightarrow> 'a client_scheme option" where
  "cl_Connect net at at' serv_idx account_id p s = do {
     s1 \<leftarrow> cl_onConnectionStateChanged ConnectionStateConnecting (s\<lparr>cn_state := ConnectionStateConnecting\<rparr>);
     c \<leftarrow> cn_conns s1 p;
     let handle = net (map fst (cn_map s1));
     let s2 = put_client p (c\<lparr>cl_serv_idx := serv_idx, cl_accountId := account_id, cl_conn := (cl_conn c)\<lparr>m_handle := handle\<rparr>\<rparr>) s1;
     Some (if handle \<noteq> -1
           then s2\<lparr>cn_map := um_insert at handle p (cn_map s2), cn_accounts := um_insert at' account_id p (cn_accounts s2)\<rparr>
           else s2) }"

definition cl_AddRef :: "nat \<Rightarrow> 'a client_scheme \<Rightarrow> 'a client_scheme option" where
  "cl_AddRef p s = do { c \<leftarrow> cn_conns s p; Some (put_client p (c\<lparr>cl_refs := cl_refs c + 1\<rparr>) s) }"

definition cl_ReleaseRef :: "nat \<Rightarrow> 'a client_scheme \<Rightarrow> 'a client_scheme option" where
  "cl_ReleaseRef p s = do {
     c \<leftarrow> cn_conns s p;
     Some (s\<lparr>cn_conns := (cn_conns s)(p := if cl_refs c - 1 = 0 then None else Some (c\<lparr>cl_refs := cl_refs c - 1\<rparr>))\<rparr>) }"

definition back_off :: "'a client_scheme \<Rightarrow> 'a client_scheme" where
  "back_off s =
     (let r = (if cn_reconnect_cnt s = 0 then 1 else cn_reconnect_cnt s * 2)
      in if r > CLIENT_MAX_RECONNECT_CNT then s\<lparr>cn_reconnect_cnt := 1, cn_idle_cnt := 0\<rparr> else s\<lparr>cn_reconnect_cnt := r\<rparr>)"

definition cl_Close :: "nat \<Rightarrow> 'a client_scheme \<Rightarrow> 'a client_scheme option" where
  "cl_Close p s = do {
     s1 \<leftarrow> cl_onConnectionStateChanged ConnectionStateClosed (s\<lparr>cn_state := ConnectionStateClosed\<rparr>);
     let s2 = back_off s1;
     c \<leftarrow> cn_conns s2 p;
     let h = m_handle (cl_conn c);
     cl_ReleaseRef p
       (if h \<noteq> -1
        then s2\<lparr>cn_closed := cn_closed s2 @ [h], cn_map := um_erase h (cn_map s2), cn_accounts := um_erase (cl_accountId c) (cn_accounts s2)\<rparr>
        else s2) }"

definition cl_OnConfirm :: "nat \<Rightarrow> 'a client_scheme \<Rightarrow> 'a client_scheme option" where
  "cl_OnConfirm p s = do {
     c \<leftarrow> cn_conns s p;
     cl_onConnectionStateChanged ConnectionStateConnected
       ((put_client p (c\<lparr>cl_bOpen := True\<rparr>) s)\<lparr>cn_reconnect_cnt := 0, cn_idle_cnt := 0, cn_connecting_cnt := 0,
          cn_state := ConnectionStateConnected\<rparr>) }"

definition cl_OnClose :: "nat \<Rightarrow> 'a client_scheme \<Rightarrow> 'a client_scheme option" where
  "cl_OnClose p s = cl_Close p s"

text \<open>
  \<open>OnTimer\<close>. The heartbeat makes its PDU by \<open>SetPBMsg(nullptr)\<close>, which in the class \<open>ImPdu\<close> calls \<open>ByteSize\<close> of the null pointer.
\<close>

definition cl_OnTimer :: "u64 \<Rightarrow> nat \<Rightarrow> 'a client_scheme \<Rightarrow> 'a client_scheme option" where
  "cl_OnTimer curr_tick p s = do {
     c \<leftarrow> cn_conns s p;
     if cn_current s \<noteq> cl_accountId c then cl_Close p s
     else if curr_tick > m_last_send_tick (cl_conn c) + CLIENT_HEARTBEAT_INTERVAL \<and> cn_state s = ConnectionLogged then None
     else if curr_tick > m_last_recv_tick (cl_conn c) + CLIENT_MOBILE_TIMEOUT then cl_Close p s
     else Some s }"

text \<open>\<open>CImConn::Send\<close> on a connection; \<open>ks\<close> is what the kernel answers.\<close>

definition cl_Send :: "(nat \<Rightarrow> byte) \<Rightarrow> u64 \<Rightarrow> send_fn list \<Rightarrow> bytes \<Rightarrow> nat \<Rightarrow> 'a client_scheme \<Rightarrow> (int \<times> 'a client_scheme) option" where
  "cl_Send garb tick ks data p s = do {
     c \<leftarrow> cn_conns s p;
     (r, _, sent, _, k) \<leftarrow> conn_Send garb tick ks data (cl_conn c);
     Some (r, (put_client p (c\<lparr>cl_conn := k\<rparr>) s)\<lparr>cn_wire := cn_wire s @ [(p, sent)]\<rparr>) }"

definition cl_SendPdu :: "(nat \<Rightarrow> byte) \<Rightarrow> u64 \<Rightarrow> send_fn list \<Rightarrow> im_pdu \<Rightarrow> nat \<Rightarrow> 'a client_scheme \<Rightarrow> (int \<times> 'a client_scheme) option" where
  "cl_SendPdu garb tick ks pdu p s = do {
     d \<leftarrow> mem_read (pdu_GetBuffer pdu) 0 (unat (pdu_GetLength pdu));
     cl_Send garb tick ks d p s }"

text \<open>The first \<open>n\<close> bytes of a key given as hexadecimal text: \<open>hex_to_string\<close> may throw, and \<open>memcpy\<close> reads \<open>n\<close> bytes of its result and of the terminating zero.\<close>

definition key_bytes :: "bytes \<Rightarrow> nat \<Rightarrow> bytes option" where
  "key_bytes hex n = (case hex_to_string hex of Inl _ \<Rightarrow> None | Inr d \<Rightarrow> mem_read (d @ [0]) 0 n)"

text \<open>\<open>gcm\<close> is \<open>aes_gcm_encrypt\<close> of key, initialisation vector, additional data and text; it writes into an array of one megabyte.\<close>

definition encrypt_pdu ::
  "(nat \<Rightarrow> byte) \<Rightarrow> u32 \<Rightarrow> (bytes \<Rightarrow> bytes \<Rightarrow> bytes \<Rightarrow> bytes \<Rightarrow> bytes) \<Rightarrow> bytes \<Rightarrow> bytes \<Rightarrow> bytes \<Rightarrow> im_pdu \<Rightarrow> im_pdu option" where
  "encrypt_pdu garb junk gcm keyHex ivHex aadHex pPdu = do {
     shared_secret \<leftarrow> key_bytes keyHex 32;
     iv \<leftarrow> key_bytes ivHex 16;
     aad \<leftarrow> key_bytes aadHex 16;
     body \<leftarrow> pdu_body pPdu;
     let cipherData = gcm shared_secret iv aad body;
     _ \<leftarrow> mem_write (replicate (1024 * 1024) 0) 0 cipherData;
     pdu1 \<leftarrow> CImPdu_SetPBMsg_buf garb cipherData (CImPdu junk);
     pdu1 \<leftarrow> pdu_SetServiceId 0 pdu1;
     pdu1 \<leftarrow> pdu_SetCommandId (pdu_GetCommandId pPdu) pdu1;
     pdu1 \<leftarrow> pdu_SetSeqNum (pdu_GetSeqNum pPdu) pdu1;
     pdu_SetReversed (pdu_GetReversed pPdu) pdu1 }"

definition cl_SendPduBuf ::
  "(nat \<Rightarrow> byte) \<Rightarrow> u32 \<Rightarrow> (bytes \<Rightarrow> bytes \<Rightarrow> bytes \<Rightarrow> bytes \<Rightarrow> bytes) \<Rightarrow> u64 \<Rightarrow> send_fn list \<Rightarrow> bytes \<Rightarrow> nat \<Rightarrow>
   'a client_scheme \<Rightarrow> (int \<times> 'a client_scheme) option" where
  "cl_SendPduBuf garb junk gcm tick ks pduBytes p s = do {
     r \<leftarrow> ReadPdu garb junk pduBytes (of_nat (length pduBytes));
     (case r of
        Inr (Some pPdu) \<Rightarrow>
          if pdu_GetReversed pPdu = 1 \<and> pdu_GetBodyLength pPdu > 0 then do {
            c \<leftarrow> cn_conns s p;
            pdu1 \<leftarrow> encrypt_pdu garb junk gcm (cl_sharedKeyHex c) (cl_ivHex c) (cl_aadHex c) pPdu;
            cl_SendPdu garb tick ks pdu1 p s }
          else cl_SendPdu garb tick ks pPdu p s
      | _ \<Rightarrow> None) }"

section \<open>Connecting, closing and the timer\<close>

text \<open>\<open>netlib_eventloop\<close> returns at once inside the running loop; the call that starts it does not concern the state.\<close>

definition init_msg_conn :: "u64 \<Rightarrow> u32 \<Rightarrow> (int list \<Rightarrow> int) \<Rightarrow> nat \<Rightarrow> nat \<Rightarrow> u32 \<Rightarrow> bool \<Rightarrow> 'a client_scheme \<Rightarrow> 'a client_scheme option" where
  "init_msg_conn tick junk net at at' accountId register_timer s =
     (let (p, s1) = CClientConn tick junk s
      in do {
        s2 \<leftarrow> cl_Connect net at at' 0 accountId p s1;
        Some (if register_timer then s2\<lparr>cn_timers := cn_timers s2 + 1\<rparr> else s2) })"

definition get_conn :: "u32 \<Rightarrow> 'a client_scheme \<Rightarrow> nat option" where
  "get_conn account_id s = map_of (cn_accounts s) account_id"

definition set_current_account_id :: "u32 \<Rightarrow> 'a client_scheme \<Rightarrow> 'a client_scheme" where
  "set_current_account_id account_id s = s\<lparr>cn_current := account_id\<rparr>"

text \<open>The loops keep the iterator \<open>it\<close> where it is.\<close>

partial_function (option) close_loop :: "u32 \<Rightarrow> (u32 \<times> nat) list \<Rightarrow> 'a client_scheme \<Rightarrow> 'a client_scheme run option" where
  "close_loop account_id it s =
     (case it of
        [] \<Rightarrow> Some (Ends s)
      | (k, p) # _ \<Rightarrow>
          if k = account_id then
            (case cn_conns s p of
               None \<Rightarrow> Some Fault
             | Some c \<Rightarrow> if cl_bOpen c then ends (cl_Close p s) else close_loop account_id it s)
          else close_loop account_id it s)"

definition close_msg_conn :: "u32 \<Rightarrow> 'a client_scheme \<Rightarrow> 'a client_scheme run option" where
  "close_msg_conn account_id s = close_loop account_id (cn_accounts s) s"

partial_function (option) timer_walk :: "u64 \<Rightarrow> (u32 \<times> nat) list \<Rightarrow> 'a client_scheme \<Rightarrow> 'a client_scheme run option" where
  "timer_walk cur_time it s =
     (case it of
        [] \<Rightarrow> Some (Ends s)
      | (k, p) # _ \<Rightarrow>
          if k = cn_current s then
            (case cn_conns s p of
               None \<Rightarrow> Some Fault
             | Some c \<Rightarrow> if cl_bOpen c then ends (cl_OnTimer cur_time p s) else Some (Ends s))
          else timer_walk cur_time it s)"

definition count_tick :: "'a client_scheme \<Rightarrow> 'a client_scheme" where
  "count_tick s =
     (let s1 = (if cn_state s = ConnectionStateClosed then s\<lparr>cn_idle_cnt := cn_idle_cnt s + 1\<rparr> else s)
      in if cn_state s1 = ConnectionStateConnecting then s1\<lparr>cn_connecting_cnt := cn_connecting_cnt s1 + 1\<rparr> else s1)"

definition tick_cnt :: "u32 \<Rightarrow> u32" where
  "tick_cnt timer_cnt = (if timer_cnt > 100 then 0 else timer_cnt + 1)"

definition cl_timer_callback ::
  "u64 \<Rightarrow> u32 \<Rightarrow> (int list \<Rightarrow> int) \<Rightarrow> nat \<Rightarrow> nat \<Rightarrow> 'a client_scheme \<Rightarrow> 'a client_scheme run option" where
  "cl_timer_callback cur_time junk net at at' s0 =
     (let s = s0\<lparr>cn_timer_cnt := tick_cnt (cn_timer_cnt s0)\<rparr> in
      and_then (if cn_state s = ConnectionStateConnected then timer_walk cur_time (cn_accounts s) s else Some (Ends s)) (\<lambda>s1.
      if cn_reconnect_cnt s1 > 0 then
        (let s2 = count_tick s1 in
         and_then (if cn_connecting_cnt s2 > 30 then close_msg_conn (cn_current s2) (s2\<lparr>cn_connecting_cnt := 0\<rparr>) else Some (Ends s2)) (\<lambda>s3.
         if cn_idle_cnt s3 \<ge> cn_reconnect_cnt s3 \<and> cn_state s3 = ConnectionStateClosed
         then ends (init_msg_conn cur_time junk net at at' (cn_current s3) False s3)
         else Some (Ends s3)))
      else Some (Ends s1)))"

text \<open>\<open>imconn_callback\<close> keeps the connection alive during the call.\<close>

definition on_client :: "int \<Rightarrow> (nat \<Rightarrow> 'a client_scheme \<Rightarrow> 'a client_scheme option) \<Rightarrow> 'a client_scheme \<Rightarrow> 'a client_scheme option" where
  "on_client handle f s =
     (case map_of (cn_map s) handle of
        None \<Rightarrow> Some s
      | Some p \<Rightarrow> do { s1 \<leftarrow> cl_AddRef p s; s2 \<leftarrow> f p s1; cl_ReleaseRef p s2 })"

text \<open>
  \<open>OnRead\<close>: the received bytes are cut into PDUs, and \<open>hp\<close> handles each (\<open>AccountManager::handlePdu\<close>, in \<open>Account_Net\<close>). It does not
  touch the receive buffer, so cutting first and handling then is the code's loop.
\<close>

definition cl_OnRead ::
  "(nat \<Rightarrow> byte) \<Rightarrow> u32 \<Rightarrow> recv_event list \<Rightarrow> (u32 \<Rightarrow> im_pdu list \<Rightarrow> 'a client_scheme \<Rightarrow> 'a client_scheme option) \<Rightarrow> nat \<Rightarrow>
   'a client_scheme \<Rightarrow> 'a client_scheme option" where
  "cl_OnRead garb junk rs hp p s = do {
     c \<leftarrow> cn_conns s p;
     (k, pdus, bad) \<leftarrow> conn_OnRead garb junk collect_pdu rs (cl_conn c) [];
     s1 \<leftarrow> hp (cl_accountId c) pdus (put_client p (c\<lparr>cl_conn := k\<rparr>) s);
     if bad then cl_OnClose p s1 else Some s1 }"

definition cl_OnWrite :: "send_fn list \<Rightarrow> nat \<Rightarrow> 'a client_scheme \<Rightarrow> 'a client_scheme option" where
  "cl_OnWrite ks p s = do {
     c \<leftarrow> cn_conns s p;
     (sent, _, k) \<leftarrow> conn_OnWrite ks (cl_conn c);
     Some ((put_client p (c\<lparr>cl_conn := k\<rparr>) s)\<lparr>cn_wire := cn_wire s @ [(p, sent)]\<rparr>) }"

text \<open>A number of ticks, each with what the environment answers.\<close>

type_synonym tick_env = "u64 \<times> u32 \<times> (int list \<Rightarrow> int) \<times> nat \<times> nat"

fun cl_ticks :: "tick_env list \<Rightarrow> 'a client_scheme \<Rightarrow> 'a client_scheme run option" where
  "cl_ticks [] s = Some (Ends s)"
| "cl_ticks ((t, junk, net, at, at') # es) s = and_then (cl_timer_callback t junk net at at' s) (cl_ticks es)"

section \<open>The loops\<close>

lemma and_then_simps [simp]:
  "and_then None f = None" "and_then (Some Fault) f = Some Fault" "and_then (Some (Ends x)) f = f x"
  by (simp_all add: and_then_def)

lemma ends_simps [simp]: "ends None = Some Fault" "ends (Some x) = Some (Ends x)"
  by (simp_all add: ends_def)

lemma close_loop_Nil [simp]: "close_loop a [] s = Some (Ends s)"
  by (simp add: close_loop.simps)

text \<open>The iterator stands on an entry that the loop neither handles nor leaves.\<close>

definition spins :: "u32 \<Rightarrow> (u32 \<times> nat) list \<Rightarrow> 'a client_scheme \<Rightarrow> bool" where
  "spins a it s = (case it of [] \<Rightarrow> False | (k, p) # _ \<Rightarrow> k \<noteq> a \<or> (\<exists>c. cn_conns s p = Some c \<and> \<not> cl_bOpen c))"

lemma close_loop_spins:
  assumes "spins a it s"
  shows "close_loop a it s = None"
proof (cases "close_loop a it s")
  case (Some y)
  then have "\<not> spins a it s"
  proof (rule close_loop.raw_induct [rotated], goal_cases)
    case (1 f a it s y)
    from 1(2) show ?case
      by (cases it) (auto simp: spins_def split: if_splits option.splits dest!: 1(1))
  qed
  with assms show ?thesis by blast
qed

lemma timer_walk_spins:
  assumes "it \<noteq> [] \<and> fst (hd it) \<noteq> cn_current s"
  shows "timer_walk t it s = None"
proof (cases "timer_walk t it s")
  case (Some y)
  then have "\<not> (it \<noteq> [] \<and> fst (hd it) \<noteq> cn_current s)"
  proof (rule timer_walk.raw_induct [rotated], goal_cases)
    case (1 f t it s y)
    from 1(2) show ?case by (cases it) (auto split: if_splits dest!: 1(1))
  qed
  with assms show ?thesis by blast
qed

lemma close_loop_open:
  assumes "cn_conns s p = Some c" and "cl_bOpen c"
  shows "close_loop a ((a, p) # r) s = ends (cl_Close p s)"
  using assms by (subst close_loop.simps) simp

lemma timer_walk_current:
  assumes "cn_conns s p = Some c"
  shows "timer_walk t ((cn_current s, p) # r) s = (if cl_bOpen c then ends (cl_OnTimer t p s) else Some (Ends s))"
  using assms by (subst timer_walk.simps) simp

section \<open>Ticks without a connection\<close>

lemma cl_ticks_append: "cl_ticks (es @ fs) s = and_then (cl_ticks es s) (cl_ticks fs)"
proof (induction es arbitrary: s)
  case (Cons e es)
  obtain t junk net at at' where "e = (t, junk, net, at, at')" by (cases e)
  with Cons show ?case by (cases "cl_timer_callback t junk net at at' s"; cases "the (cl_timer_callback t junk net at at' s)") simp_all
qed simp

lemma cl_ticks_hang:
  assumes "cl_ticks (take k es) s = Some (Ends s1)" and "cl_timer_callback t junk net at at' s1 = None" and "es = take k es @ (t, junk, net, at, at') # r"
  shows "cl_ticks es s = None"
  by (subst assms(3)) (simp add: cl_ticks_append assms(1,2))

lemma not_above: "\<not> (x > (30 :: u32))" if "x \<le> 30"
  using that by simp

lemma tick_idle:
  assumes "cn_state s = ConnectionStateClosed" and "cn_reconnect_cnt s > 0" and "cn_connecting_cnt s \<le> 30" and "cn_idle_cnt s + 1 < cn_reconnect_cnt s"
  shows "\<exists>n. cl_timer_callback t junk net at at' s = Some (Ends (s\<lparr>cn_timer_cnt := n, cn_idle_cnt := cn_idle_cnt s + 1\<rparr>))"
  using assms by (simp add: cl_timer_callback_def Let_def count_tick_def not_above not_le exI [of _ "tick_cnt (cn_timer_cnt s)"])

definition new_conn :: "u64 \<Rightarrow> int \<Rightarrow> u32 \<Rightarrow> client_conn" where
  "new_conn tick h a =
     \<lparr>cl_conn = (CImConn tick)\<lparr>m_handle := h\<rparr>, cl_refs = 1, cl_bOpen = False, cl_accountId = a, cl_serv_idx = 0, cl_ivHex = [], cl_aadHex = [], cl_sharedKeyHex = []\<rparr>"

lemma new_conn_simps [simp]: "cl_bOpen (new_conn t h a) = False" "m_handle (cl_conn (new_conn t h a)) = h"
  "cl_accountId (new_conn t h a) = a" "cl_refs (new_conn t h a) = 1"
  by (simp_all add: new_conn_def)

lemma tick_reconnect:
  assumes "cn_state s = ConnectionStateClosed" and "cn_reconnect_cnt s > 0" and "cn_connecting_cnt s \<le> 30" and "cn_idle_cnt s + 1 \<ge> cn_reconnect_cnt s"
    and "cn_delegate s" and "net (map fst (cn_map s)) \<noteq> -1"
  shows "\<exists>n. cl_timer_callback t junk net at at' s =
      Some (Ends (s\<lparr>cn_timer_cnt := n, cn_idle_cnt := cn_idle_cnt s + 1, cn_state := ConnectionStateConnecting, cn_told := cn_told s @ [ConnectionStateConnecting],
        cn_fresh := cn_fresh s + 1, cn_conns := (cn_conns s)(cn_fresh s \<mapsto> new_conn t (net (map fst (cn_map s))) (cn_current s)),
        cn_map := um_insert at (net (map fst (cn_map s))) (cn_fresh s) (cn_map s), cn_accounts := um_insert at' (cn_current s) (cn_fresh s) (cn_accounts s)\<rparr>))"
  using assms
  by (intro exI [of _ "tick_cnt (cn_timer_cnt s)"])
    (simp add: Let_def cl_timer_callback_def Let_def count_tick_def not_above init_msg_conn_def CClientConn_def cl_Connect_def
      cl_onConnectionStateChanged_def put_client_def new_conn_def)

lemma tick_connecting:
  assumes "cn_state s = ConnectionStateConnecting" and "cn_reconnect_cnt s > 0" and "cn_connecting_cnt s + 1 \<le> 30"
  shows "\<exists>n. cl_timer_callback t junk net at at' s = Some (Ends (s\<lparr>cn_timer_cnt := n, cn_connecting_cnt := cn_connecting_cnt s + 1\<rparr>))"
  using assms by (simp add: cl_timer_callback_def Let_def count_tick_def not_above exI [of _ "tick_cnt (cn_timer_cnt s)"])

lemma tick_connecting_spins:
  assumes "cn_state s = ConnectionStateConnecting" and "cn_reconnect_cnt s > 0" and "cn_connecting_cnt s = 30" and "spins (cn_current s) (cn_accounts s) s"
  shows "cl_timer_callback t junk net at at' s = None"
proof -
  let ?s = "\<lambda>n. s\<lparr>cn_timer_cnt := n, cn_connecting_cnt := 0\<rparr>"
  have "spins (cn_current s) (cn_accounts s) (?s n)" for n using assms(4) by (auto simp: spins_def split: list.splits)
  then have "close_msg_conn (cn_current s) (?s n) = None" for n by (simp add: close_msg_conn_def close_loop_spins)
  with assms(1-3) show ?thesis by (simp add: cl_timer_callback_def Let_def count_tick_def)
qed

text \<open>Seconds without a connection: nothing happens until the counter of idle seconds reaches the back-off.\<close>

lemma ticks_idle:
  assumes "cn_state s = ConnectionStateClosed" and "cn_connecting_cnt s \<le> 30" and "unat (cn_idle_cnt s) + length es < unat (cn_reconnect_cnt s)"
  shows "\<exists>n. cl_ticks es s = Some (Ends (s\<lparr>cn_timer_cnt := n, cn_idle_cnt := cn_idle_cnt s + of_nat (length es)\<rparr>))"
  using assms
proof (induction es arbitrary: s)
  case Nil
  show ?case by (intro exI [of _ "cn_timer_cnt s"]) simp
next
  case (Cons e es)
  obtain t junk net at at' where e: "e = (t, junk, net, at, at')" by (cases e)
  have "unat (cn_idle_cnt s) + 1 < unat (cn_reconnect_cnt s)" using Cons.prems(3) by simp
  then have i: "unat (cn_idle_cnt s + 1) = unat (cn_idle_cnt s) + 1"
    using less_trans [OF _ unat_lt_32 [of "cn_reconnect_cnt s"], of "Suc (unat (cn_idle_cnt s))"] by (simp add: unat_add_32)
  then have "cn_idle_cnt s + 1 < cn_reconnect_cnt s" "cn_reconnect_cnt s > 0" using Cons.prems(3) by (simp_all add: word_less_nat_alt)
  from tick_idle [OF Cons.prems(1) this(2) Cons.prems(2) this(1)] obtain n where
    n: "cl_timer_callback t junk net at at' s = Some (Ends (s\<lparr>cn_timer_cnt := n, cn_idle_cnt := cn_idle_cnt s + 1\<rparr>))" by blast
  from Cons.IH [of "s\<lparr>cn_timer_cnt := n, cn_idle_cnt := cn_idle_cnt s + 1\<rparr>"] Cons.prems i n show ?case
    by (auto simp: e add_ac)
qed

lemma ticks_connecting:
  assumes "cn_state s = ConnectionStateConnecting" and "cn_reconnect_cnt s > 0" and "unat (cn_connecting_cnt s) + length es \<le> 30"
  shows "\<exists>n. cl_ticks es s = Some (Ends (s\<lparr>cn_timer_cnt := n, cn_connecting_cnt := cn_connecting_cnt s + of_nat (length es)\<rparr>))"
  using assms
proof (induction es arbitrary: s)
  case Nil
  show ?case by (intro exI [of _ "cn_timer_cnt s"]) simp
next
  case (Cons e es)
  obtain t junk net at at' where e: "e = (t, junk, net, at, at')" by (cases e)
  have i: "unat (cn_connecting_cnt s + 1) = unat (cn_connecting_cnt s) + 1"
    using Cons.prems(3) by (simp add: unat_add_32)
  then have "cn_connecting_cnt s + 1 \<le> 30" using Cons.prems(3) by (simp add: word_le_nat_alt)
  from tick_connecting [OF Cons.prems(1,2) this] obtain n where
    n: "cl_timer_callback t junk net at at' s = Some (Ends (s\<lparr>cn_timer_cnt := n, cn_connecting_cnt := cn_connecting_cnt s + 1\<rparr>))" by blast
  from Cons.IH [of "s\<lparr>cn_timer_cnt := n, cn_connecting_cnt := cn_connecting_cnt s + 1\<rparr>"] Cons.prems i n show ?case
    by (auto simp: e add_ac)
qed

text \<open>The connection is lost for the \<open>j\<close>-th time in a row, counted modulo six, and the seconds until the next attempt.\<close>

definition lost :: "nat \<Rightarrow> 'a client_scheme \<Rightarrow> bool" where
  "lost j s \<longleftrightarrow> cn_delegate s \<and> cn_state s = ConnectionStateClosed \<and> j < 6 \<and> cn_reconnect_cnt s = 2 ^ j \<and>
     cn_idle_cnt s = (if j = 0 then 0 else 2 ^ (j - 1)) \<and> cn_connecting_cnt s \<le> 30 \<and> cn_map s = [] \<and> cn_accounts s = []"

definition pause :: "nat \<Rightarrow> nat" where
  "pause j = (if j = 0 then 1 else 2 ^ (j - 1))"

lemma less_6_cases: "j < 6 \<Longrightarrow> j = 0 \<or> j = 1 \<or> j = 2 \<or> j = 3 \<or> j = 4 \<or> j = (5 :: nat)"
  by presburger

lemma lost_counts:
  assumes "lost j s"
  shows "unat (cn_idle_cnt s) + pause j = unat (cn_reconnect_cnt s)" "0 < pause j" "cn_reconnect_cnt s > 0"
    "cn_reconnect_cnt s \<le> 32" "cn_reconnect_cnt s * 2 > 32 \<longleftrightarrow> j = 5" "cn_reconnect_cnt s \<noteq> 0"
  using assms less_6_cases [of j] by (auto simp: lost_def pause_def)

lemma refused:
  assumes "cn_map s = [(h, p)]" and "cn_accounts s = [(a, p)]" and "cn_conns s p = Some c" and "cl_refs c = 1" and "m_handle (cl_conn c) = h"
    and "h \<noteq> -1" and "cl_accountId c = a" and "cn_delegate s"
  shows "on_client h cl_OnClose s = Some ((back_off (s\<lparr>cn_state := ConnectionStateClosed, cn_told := cn_told s @ [ConnectionStateClosed]\<rparr>))
    \<lparr>cn_conns := (cn_conns s)(p := None), cn_closed := cn_closed s @ [h], cn_map := [], cn_accounts := []\<rparr>)"
  using assms
  by (simp add: on_client_def cl_AddRef_def cl_OnClose_def cl_Close_def cl_onConnectionStateChanged_def put_client_def back_off_def Let_def cl_ReleaseRef_def um_erase_def)


text \<open>A client that has just lost its first connection.\<close>

definition client_lost :: client where
  "client_lost = \<lparr>cn_delegate = True, cn_state = ConnectionStateClosed, cn_conns = Map.empty, cn_fresh = 1, cn_map = [], cn_accounts = [], cn_current = 7,
     cn_connecting_cnt = 0, cn_timer_cnt = 0, cn_idle_cnt = 0, cn_reconnect_cnt = 1, cn_timers = 1,
     cn_told = [ConnectionStateConnecting, ConnectionStateConnected, ConnectionStateClosed], cn_closed = [3], cn_wire = []\<rparr>"


text \<open>
  C28. A server that does not answer stops the client: when an attempt to reconnect is neither accepted nor refused, the
  timer counts to thirty and then asks \<open>close_msg_conn\<close> to close the connection; its loop handles open connections only and does
  not advance, so that the callback, and with it the event loop, never returns. The seconds of earlier attempts count too.
\<close>

theorem connect_timeout_hangs:
  assumes "cn_state s = ConnectionStateClosed" and "cn_delegate s" and "cn_accounts s = []" and "cn_reconnect_cnt s > 0"
    and "cn_idle_cnt s + 1 \<ge> cn_reconnect_cnt s" and "cn_connecting_cnt s \<le> 30" and "net (map fst (cn_map s)) \<noteq> -1"
  shows "if unat (cn_connecting_cnt s) + length es \<le> 30
    then \<exists>s1. cl_ticks ((t, junk, net, at, at') # es) s = Some (Ends s1) \<and> cn_state s1 = ConnectionStateConnecting
    else cl_ticks ((t, junk, net, at, at') # es) s = None"
proof -
  from tick_reconnect [where net = net, OF assms(1,4,6,5,2,7), of t junk at at'] assms(3) obtain n where
    s1: "cl_timer_callback t junk net at at' s = Some (Ends (s\<lparr>cn_timer_cnt := n, cn_idle_cnt := cn_idle_cnt s + 1, cn_state := ConnectionStateConnecting,
        cn_told := cn_told s @ [ConnectionStateConnecting], cn_fresh := cn_fresh s + 1,
        cn_conns := (cn_conns s)(cn_fresh s \<mapsto> new_conn t (net (map fst (cn_map s))) (cn_current s)), cn_map := um_insert at (net (map fst (cn_map s))) (cn_fresh s) (cn_map s),
        cn_accounts := [(cn_current s, cn_fresh s)]\<rparr>))" (is "_ = Some (Ends ?s1)")
    by (auto simp: um_insert_def)
  have c: "cn_state ?s1 = ConnectionStateConnecting" "cn_reconnect_cnt ?s1 > 0" "cn_connecting_cnt ?s1 = cn_connecting_cnt s" using assms(4) by simp_all
  show ?thesis
  proof (cases "unat (cn_connecting_cnt s) + length es \<le> 30")
    case True
    with ticks_connecting [OF c(1,2), of es] s1 c(3) show ?thesis by auto
  next
    case False
    let ?k = "30 - unat (cn_connecting_cnt s)"
    have k: "unat (cn_connecting_cnt s) \<le> 30" "?k < length es" using assms(6) False by (simp_all add: word_le_nat_alt)
    then have "unat (cn_connecting_cnt ?s1) + length (take ?k es) \<le> 30" by simp
    from ticks_connecting [OF c(1,2) this] obtain m where
      m: "cl_ticks (take ?k es) ?s1 = Some (Ends (?s1\<lparr>cn_timer_cnt := m, cn_connecting_cnt := cn_connecting_cnt s + of_nat (length (take ?k es))\<rparr>))" by auto
    let ?s2 = "?s1\<lparr>cn_timer_cnt := m, cn_connecting_cnt := cn_connecting_cnt s + of_nat (length (take ?k es))\<rparr>"
    have "cn_connecting_cnt s + of_nat (length (take ?k es)) = of_nat (unat (cn_connecting_cnt s) + ?k)" using k(2) by simp
    also have "\<dots> = 30" using k(1) by simp
    finally have "cn_connecting_cnt ?s2 = 30" by simp
    moreover have "spins (cn_current ?s2) (cn_accounts ?s2) ?s2" by (simp add: spins_def)
    moreover obtain t' j' h' a' b' where e: "es ! ?k = (t', j', h', a', b')" by (metis prod_cases5)
    ultimately have "cl_timer_callback t' j' h' a' b' ?s2 = None" using c(1,2) by (intro tick_connecting_spins) simp_all
    moreover have "es = take ?k es @ (t', j', h', a', b') # drop (Suc ?k) es" using k(2) e by (metis id_take_nth_drop)
    ultimately have "cl_ticks es ?s1 = None" using cl_ticks_hang [OF m] by simp
    with False s1 show ?thesis by simp
  qed
qed

theorem connect_timeout_hangs_witness:
  "(\<exists>s1. cl_ticks ((1000, 0, \<lambda>_. 4, 0, 0) # replicate 30 (2000, 0, \<lambda>_. 5, 0, 0)) client_lost = Some (Ends s1)) \<and>
   cl_ticks ((1000, 0, \<lambda>_. 4, 0, 0) # replicate 31 (2000, 0, \<lambda>_. 5, 0, 0)) client_lost = None"
proof -
  have s: "cn_state client_lost = ConnectionStateClosed" "cn_delegate client_lost" "cn_accounts client_lost = []" "cn_reconnect_cnt client_lost > 0"
    "cn_idle_cnt client_lost + 1 \<ge> cn_reconnect_cnt client_lost" "cn_connecting_cnt client_lost \<le> 30" "cn_connecting_cnt client_lost = 0"
    by (simp_all add: client_lost_def)
  note hang = connect_timeout_hangs [OF s(1-6), of "\<lambda>_. 4" _ 1000 0 0 0]
  from hang [of "replicate 30 (2000, 0, \<lambda>_. 5, 0, 0)"] have "\<exists>s1. cl_ticks ((1000, 0, \<lambda>_. 4, 0, 0) # replicate 30 (2000, 0, \<lambda>_. 5, 0, 0)) client_lost = Some (Ends s1)"
    unfolding s(7) by (simp del: cl_ticks.simps) blast
  moreover from hang [of "replicate 31 (2000, 0, \<lambda>_. 5, 0, 0)"] have "cl_ticks ((1000, 0, \<lambda>_. 4, 0, 0) # replicate 31 (2000, 0, \<lambda>_. 5, 0, 0)) client_lost = None"
    unfolding s(7) by (simp del: cl_ticks.simps)
  ultimately show ?thesis by blast
qed

text \<open>A connect that fails at once is never repeated: no object is registered, the state stays, and the timer finds nothing to close.\<close>

lemma failed_connect_stuck:
  assumes "cn_state s = ConnectionStateConnecting" and "cn_accounts s = []"
  shows "\<exists>s1. cl_ticks es s = Some (Ends s1) \<and> cn_state s1 = ConnectionStateConnecting \<and> cn_fresh s1 = cn_fresh s"
  using assms
proof (induction es arbitrary: s)
  case (Cons e es)
  obtain t junk net at at' where e: "e = (t, junk, net, at, at')" by (cases e)
  have "\<exists>s1. cl_timer_callback t junk net at at' s = Some (Ends s1) \<and> cn_state s1 = ConnectionStateConnecting \<and> cn_accounts s1 = [] \<and> cn_fresh s1 = cn_fresh s"
    using Cons.prems by (simp add: cl_timer_callback_def Let_def count_tick_def close_msg_conn_def)
  with Cons.IH show ?case unfolding e by (metis and_then_simps(3) cl_ticks.simps(2))
qed simp

section \<open>The maps and the objects\<close>

text \<open>
  \<open>held\<close> is the object \<open>imconn_callback\<close> holds during a call. An object is registered under its handle, or its connect failed, or
  it is held. The account map leads to registered objects of that account.
\<close>

definition cl_inv :: "nat option \<Rightarrow> 'a client_scheme \<Rightarrow> bool" where
  "cl_inv held s \<longleftrightarrow> cn_delegate s \<and> cn_state s \<noteq> ConnectionLogged \<and> distinct (map fst (cn_map s)) \<and> distinct (map fst (cn_accounts s)) \<and>
     (\<forall>(h, p) \<in> set (cn_map s). h \<noteq> -1 \<and> (\<exists>c. cn_conns s p = Some c \<and> m_handle (cl_conn c) = h \<and> cl_refs c = (if held = Some p then 2 else 1))) \<and>
     (\<forall>(a, p) \<in> set (cn_accounts s). \<exists>c. cn_conns s p = Some c \<and> cl_accountId c = a \<and> (m_handle (cl_conn c), p) \<in> set (cn_map s)) \<and>
     (\<forall>p c. cn_conns s p = Some c \<longrightarrow> p < cn_fresh s \<and> cl_ivHex c = [] \<and> cl_aadHex c = [] \<and> cl_sharedKeyHex c = [] \<and>
        ((m_handle (cl_conn c), p) \<in> set (cn_map s) \<or> cl_refs c = 1 \<and> (m_handle (cl_conn c) = -1 \<or> held = Some p)))"

text \<open>What a handler and the sending of data leave as it is.\<close>

definition conn_id :: "client_conn \<Rightarrow> int \<times> nat \<times> u32 \<times> bytes \<times> bytes \<times> bytes" where
  "conn_id c = (m_handle (cl_conn c), cl_refs c, cl_accountId c, cl_ivHex c, cl_aadHex c, cl_sharedKeyHex c)"

definition same_conns :: "'a client_scheme \<Rightarrow> 'a client_scheme \<Rightarrow> bool" where
  "same_conns s s' \<longleftrightarrow> cn_delegate s' = cn_delegate s \<and> cn_state s' = cn_state s \<and> cn_map s' = cn_map s \<and> cn_accounts s' = cn_accounts s \<and>
     cn_fresh s' = cn_fresh s \<and> (\<forall>p. map_option conn_id (cn_conns s' p) = map_option conn_id (cn_conns s p))"

lemma same_conns_refl [intro, simp]: "same_conns s s"
  by (simp add: same_conns_def)

lemma same_conns_trans [trans]: "same_conns s s1 \<Longrightarrow> same_conns s1 s2 \<Longrightarrow> same_conns s s2"
  by (simp add: same_conns_def)

lemma same_conns_Some:
  assumes "same_conns s s'"
  shows "cn_conns s p = Some c \<Longrightarrow> \<exists>c'. cn_conns s' p = Some c' \<and> conn_id c' = conn_id c"
    "cn_conns s' p = Some c' \<Longrightarrow> \<exists>c. cn_conns s p = Some c \<and> conn_id c' = conn_id c"
proof -
  have "map_option conn_id (cn_conns s' p) = map_option conn_id (cn_conns s p)" using assms by (simp add: same_conns_def)
  then show "cn_conns s p = Some c \<Longrightarrow> \<exists>c'. cn_conns s' p = Some c' \<and> conn_id c' = conn_id c"
    "cn_conns s' p = Some c' \<Longrightarrow> \<exists>c. cn_conns s p = Some c \<and> conn_id c' = conn_id c" by (cases "cn_conns s p"; auto)+
qed

lemma cl_invD:
  assumes "cl_inv held s"
  shows "cn_delegate s" "cn_state s \<noteq> ConnectionLogged" "distinct (map fst (cn_map s))" "distinct (map fst (cn_accounts s))"
    "(h, p) \<in> set (cn_map s) \<Longrightarrow> h \<noteq> -1 \<and> (\<exists>c. cn_conns s p = Some c \<and> m_handle (cl_conn c) = h \<and> cl_refs c = (if held = Some p then 2 else 1))"
    "(a, p) \<in> set (cn_accounts s) \<Longrightarrow> \<exists>c. cn_conns s p = Some c \<and> cl_accountId c = a \<and> (m_handle (cl_conn c), p) \<in> set (cn_map s)"
    "cn_conns s p = Some c \<Longrightarrow> p < cn_fresh s \<and> cl_ivHex c = [] \<and> cl_aadHex c = [] \<and> cl_sharedKeyHex c = [] \<and>
        ((m_handle (cl_conn c), p) \<in> set (cn_map s) \<or> cl_refs c = 1 \<and> (m_handle (cl_conn c) = -1 \<or> held = Some p))"
  using assms unfolding cl_inv_def by blast+

lemma cl_invI:
  assumes "cn_delegate s" "cn_state s \<noteq> ConnectionLogged" "distinct (map fst (cn_map s))" "distinct (map fst (cn_accounts s))"
    "\<And>h p. (h, p) \<in> set (cn_map s) \<Longrightarrow> h \<noteq> -1 \<and> (\<exists>c. cn_conns s p = Some c \<and> m_handle (cl_conn c) = h \<and> cl_refs c = (if held = Some p then 2 else 1))"
    "\<And>a p. (a, p) \<in> set (cn_accounts s) \<Longrightarrow> \<exists>c. cn_conns s p = Some c \<and> cl_accountId c = a \<and> (m_handle (cl_conn c), p) \<in> set (cn_map s)"
    "\<And>p c. cn_conns s p = Some c \<Longrightarrow> p < cn_fresh s \<and> cl_ivHex c = [] \<and> cl_aadHex c = [] \<and> cl_sharedKeyHex c = [] \<and>
        ((m_handle (cl_conn c), p) \<in> set (cn_map s) \<or> cl_refs c = 1 \<and> (m_handle (cl_conn c) = -1 \<or> held = Some p))"
  shows "cl_inv held s"
  using assms unfolding cl_inv_def by blast

lemma cl_inv_same:
  assumes "cl_inv held s" and "same_conns s s'"
  shows "cl_inv held s'"
proof -
  note i = cl_invD [OF assms(1)] and c = same_conns_Some [OF assms(2)]
  have e: "cn_delegate s' = cn_delegate s" "cn_state s' = cn_state s" "cn_map s' = cn_map s" "cn_accounts s' = cn_accounts s" "cn_fresh s' = cn_fresh s"
    using assms(2) by (simp_all add: same_conns_def)
  show ?thesis
  proof (rule cl_invI, goal_cases)
    case (5 h p)
    with i(5) e obtain d where d: "h \<noteq> -1" "cn_conns s p = Some d" "m_handle (cl_conn d) = h" "cl_refs d = (if held = Some p then 2 else 1)" by auto
    with c(1) [OF d(2)] show ?case by (auto simp: conn_id_def)
  next
    case (6 a p)
    with i(6) e obtain d where d: "cn_conns s p = Some d" "cl_accountId d = a" "(m_handle (cl_conn d), p) \<in> set (cn_map s)" by auto
    with c(1) [OF d(1)] e show ?case by (auto simp: conn_id_def)
  next
    case (7 p d)
    from c(2) [OF 7] obtain d' where d': "cn_conns s p = Some d'" "conn_id d = conn_id d'" by blast
    from i(7) [OF d'(1)] d'(2) e show ?case by (auto simp: conn_id_def)
  qed (use i e in simp_all)
qed

subsection \<open>Operations\<close>

lemma um_erase_simps [simp]: "set (um_erase k m) = {(k', v) \<in> set m. k' \<noteq> k}" "distinct (map fst m) \<Longrightarrow> distinct (map fst (um_erase k m))"
  by (auto simp: um_erase_def distinct_map intro: inj_on_subset)

lemma set_um_insert: "set (um_insert at k v m) = (if k \<in> fst ` set m then set m else insert (k, v) (set m))"
proof -
  have "set (take at m @ (k, v) # drop at m) = insert (k, v) (set (take at m @ drop at m))" by (simp only: set_append set_simps) blast
  then show ?thesis by (auto simp: um_insert_def map_of_eq_None_iff simp del: set_append)
qed

lemma distinct_um_insert [simp]: "distinct (map fst m) \<Longrightarrow> distinct (map fst (um_insert at k v m))"
proof -
  assume d: "distinct (map fst m)"
  have "map fst (take at m @ (k, v) # drop at m) = take at (map fst m) @ k # drop at (map fst m)" by (simp add: take_map drop_map)
  moreover have "distinct (take at xs @ k # drop at xs)" if "distinct xs" "k \<notin> set xs" for xs :: "'a list"
    using that distinct_append [of "take at xs" "drop at xs"] by (auto dest: in_set_takeD in_set_dropD)
  ultimately show ?thesis using d by (auto simp: um_insert_def map_of_eq_None_iff simp del: map_append)
qed

lemma back_off_simps [simp]:
  "cn_delegate (back_off s) = cn_delegate s" "cn_state (back_off s) = cn_state s" "cn_map (back_off s) = cn_map s" "cn_accounts (back_off s) = cn_accounts s"
  "cn_conns (back_off s) = cn_conns s" "cn_fresh (back_off s) = cn_fresh s" "cn_current (back_off s) = cn_current s"
  by (simp_all add: back_off_def Let_def)

lemma cl_Close_inv:
  assumes "cl_inv held s" and "(h, p) \<in> set (cn_map s)"
  shows "\<exists>s'. cl_Close p s = Some s' \<and> cl_inv held s' \<and> cn_state s' = ConnectionStateClosed \<and> p \<notin> snd ` set (cn_map s')"
proof -
  note i = cl_invD [OF assms(1)]
  from i(5) [OF assms(2)] obtain c where c: "h \<noteq> -1" "cn_conns s p = Some c" "m_handle (cl_conn c) = h" "cl_refs c = (if held = Some p then 2 else 1)" by blast
  let ?d = "if held = Some p then Some (c\<lparr>cl_refs := 1\<rparr>) else None"
  obtain s' where s': "cl_Close p s = Some s'" "cn_delegate s'" "cn_state s' = ConnectionStateClosed" "cn_map s' = um_erase h (cn_map s)"
    "cn_accounts s' = um_erase (cl_accountId c) (cn_accounts s)" "cn_conns s' = (cn_conns s)(p := ?d)" "cn_fresh s' = cn_fresh s"
    using c i(1) by (simp add: cl_Close_def cl_onConnectionStateChanged_def cl_ReleaseRef_def Let_def)
  have only: "q = p \<Longrightarrow> h' = h" if "(h', q) \<in> set (cn_map s)" for h' q using i(5) [OF that] c by auto
  have one: "h' = h \<Longrightarrow> q = p" if "(h', q) \<in> set (cn_map s)" for h' q using that assms(2) i(3) by (metis eq_key_imp_eq_value)
  have "cl_inv held s'"
  proof (rule cl_invI, goal_cases)
    case (5 h' q)
    then have "(h', q) \<in> set (cn_map s)" "h' \<noteq> h" by (auto simp: s'(4))
    with only i(5) [OF this(1)] show ?case by (auto simp: s'(6))
  next
    case (6 a q)
    then have "(a, q) \<in> set (cn_accounts s)" "a \<noteq> cl_accountId c" by (auto simp: s'(5))
    then obtain d where d: "cn_conns s q = Some d" "cl_accountId d = a" "(m_handle (cl_conn d), q) \<in> set (cn_map s)" "a \<noteq> cl_accountId c" using i(6) by blast
    with c(2) have "q \<noteq> p" by auto
    with d one [OF d(3)] show ?case by (auto simp: s'(4,6))
  next
    case (7 q d)
    show ?case
    proof (cases "q = p")
      case True
      with 7 i(7) [OF c(2)] show ?thesis by (auto simp: s'(6,7) split: if_splits)
    next
      case False
      with 7 have "cn_conns s q = Some d" by (simp add: s'(6))
      from i(7) [OF this] False one show ?thesis by (auto simp: s'(4,7))
    qed
  qed (use i s' in simp_all)
  moreover have "p \<notin> snd ` set (cn_map s')" using only by (auto simp: s'(4))
  ultimately show ?thesis using s'(1,3) by blast
qed

lemma cl_AddRef_inv:
  assumes "cl_inv None s" and "(h, p) \<in> set (cn_map s)"
  shows "\<exists>s'. cl_AddRef p s = Some s' \<and> cl_inv (Some p) s' \<and> cn_map s' = cn_map s"
proof -
  note i = cl_invD [OF assms(1)]
  from i(5) [OF assms(2)] obtain c where c: "h \<noteq> -1" "cn_conns s p = Some c" "m_handle (cl_conn c) = h" "cl_refs c = 1" by auto
  let ?s = "put_client p (c\<lparr>cl_refs := cl_refs c + 1\<rparr>) s"
  have "cl_inv (Some p) ?s"
  proof (rule cl_invI, goal_cases)
    case (5 h' q)
    with i(5) [of h' q] c show ?case by (auto simp: put_client_def)
  next
    case (6 a q)
    with i(6) [of a q] c show ?case by (auto simp: put_client_def)
  next
    case (7 q d)
    with i(7) [of q] i(7) [OF c(2)] c assms(2) show ?case by (auto simp: put_client_def split: if_splits)
  qed (use i in \<open>simp_all add: put_client_def\<close>)
  with c(2) show ?thesis by (auto simp: cl_AddRef_def put_client_def)
qed

lemma cl_ReleaseRef_inv:
  assumes "cl_inv (Some p) s" and "cn_conns s p \<noteq> None"
  shows "\<exists>s'. cl_ReleaseRef p s = Some s' \<and> cl_inv None s' \<and> cn_state s' = cn_state s \<and> cn_map s' = cn_map s"
proof -
  note i = cl_invD [OF assms(1)]
  from assms(2) obtain c where c: "cn_conns s p = Some c" by blast
  have r: "cl_refs c = (if p \<in> snd ` set (cn_map s) then 2 else 1)"
    using i(5) i(7) [OF c] c by force
  let ?d = "if p \<in> snd ` set (cn_map s) then Some (c\<lparr>cl_refs := 1\<rparr>) else None"
  let ?s = "s\<lparr>cn_conns := (cn_conns s)(p := ?d)\<rparr>"
  have "cl_inv None ?s"
  proof (rule cl_invI, goal_cases)
    case (5 h' q)
    with i(5) [of h' q] c show ?case by (force split: if_splits)
  next
    case (6 a q)
    with i(6) [of a q] c show ?case by force
  next
    case (7 q d)
    with i(7) [of q] i(7) [OF c] i(5) c show ?case by (fastforce split: if_splits)
  qed (use i in simp_all)
  with c r show ?thesis by (cases "p \<in> snd ` set (cn_map s)") (simp_all add: cl_ReleaseRef_def)
qed

text \<open>A callback on a registered connection keeps the invariant when the call does; it leaves the object it holds in the heap.\<close>

lemma on_client_inv:
  assumes "cl_inv None s" and "\<And>p s1. cl_inv (Some p) s1 \<Longrightarrow> (handle, p) \<in> set (cn_map s1) \<Longrightarrow> on_client handle f s \<noteq> None \<or> f p s1 \<noteq> None"
    and "\<And>p s1 s2. cl_inv (Some p) s1 \<Longrightarrow> (handle, p) \<in> set (cn_map s1) \<Longrightarrow> f p s1 = Some s2 \<Longrightarrow> cl_inv (Some p) s2 \<and> cn_conns s2 p \<noteq> None"
  shows "\<exists>s'. on_client handle f s = Some s' \<and> cl_inv None s'"
proof (cases "map_of (cn_map s) handle")
  case None
  with assms(1) show ?thesis by (simp add: on_client_def)
next
  case (Some p)
  then have p: "(handle, p) \<in> set (cn_map s)" by (rule map_of_SomeD)
  from cl_AddRef_inv [OF assms(1) p] obtain s1 where s1: "cl_AddRef p s = Some s1" "cl_inv (Some p) s1" "(handle, p) \<in> set (cn_map s1)" using p by auto
  show ?thesis
  proof (cases "f p s1")
    case None
    with assms(2) [OF s1(2,3)] Some s1(1) show ?thesis by (simp add: on_client_def)
  next
    case s2: (Some s2)
    from assms(3) [OF s1(2,3) s2] cl_ReleaseRef_inv [of p s2] Some s1(1) s2 show ?thesis by (auto simp: on_client_def)
  qed
qed

lemma held_alive:
  assumes "cl_Close p s = Some s'" and "cl_inv (Some p) s" and "(h, p) \<in> set (cn_map s)"
  shows "cn_conns s' p \<noteq> None"
  using assms cl_invD(5) [OF assms(2,3)]
  by (auto simp: cl_Close_def cl_onConnectionStateChanged_def cl_ReleaseRef_def Let_def split: if_splits)

lemma cl_OnConfirm_inv:
  assumes "cl_inv held s" and "cn_conns s p = Some c"
  shows "\<exists>s'. cl_OnConfirm p s = Some s' \<and> cl_inv held s' \<and> cn_conns s' p \<noteq> None"
proof -
  note i = cl_invD [OF assms(1)]
  from i(1) assms(2) obtain s' where s': "cl_OnConfirm p s = Some s'" "cn_delegate s'" "cn_state s' = ConnectionStateConnected" "cn_map s' = cn_map s"
    "cn_accounts s' = cn_accounts s" "cn_conns s' = (cn_conns s)(p \<mapsto> c\<lparr>cl_bOpen := True\<rparr>)" "cn_fresh s' = cn_fresh s"
    by (simp add: cl_OnConfirm_def cl_onConnectionStateChanged_def put_client_def)
  have "cl_inv held s'"
  proof (rule cl_invI, goal_cases)
    case (5 h q)
    with i(5) [of h q] assms(2) show ?case by (auto simp: s')
  next
    case (6 a q)
    with i(6) [of a q] assms(2) show ?case by (auto simp: s')
  next
    case (7 q d)
    with i(7) [of q] i(7) [OF assms(2)] show ?case by (auto simp: s' split: if_splits)
  qed (use i s' in simp_all)
  with s'(1,6) show ?thesis by simp
qed

lemma on_confirm_inv:
  assumes "cl_inv None s"
  shows "\<exists>s'. on_client h cl_OnConfirm s = Some s' \<and> cl_inv None s'"
proof (rule on_client_inv [OF assms])
  fix p s1
  assume a: "cl_inv (Some p) s1" "(h, p) \<in> set (cn_map s1)"
  from cl_invD(5) [OF this] obtain c where "cn_conns s1 p = Some c" by blast
  from cl_OnConfirm_inv [OF a(1) this] obtain s2 where s2: "cl_OnConfirm p s1 = Some s2" "cl_inv (Some p) s2" "cn_conns s2 p \<noteq> None" by blast
  then show "on_client h cl_OnConfirm s \<noteq> None \<or> cl_OnConfirm p s1 \<noteq> None" by simp
  fix s3
  assume "cl_OnConfirm p s1 = Some s3"
  with s2 show "cl_inv (Some p) s3 \<and> cn_conns s3 p \<noteq> None" by simp
qed

lemma on_close_inv:
  assumes "cl_inv None s"
  shows "\<exists>s'. on_client h cl_OnClose s = Some s' \<and> cl_inv None s'"
proof (rule on_client_inv [OF assms])
  fix p s1
  assume a: "cl_inv (Some p) s1" "(h, p) \<in> set (cn_map s1)"
  from cl_Close_inv [OF this] obtain s2 where s2: "cl_OnClose p s1 = Some s2" "cl_inv (Some p) s2" unfolding cl_OnClose_def by blast
  then show "on_client h cl_OnClose s \<noteq> None \<or> cl_OnClose p s1 \<noteq> None" by simp
  fix s3
  assume s3: "cl_OnClose p s1 = Some s3"
  with s2 held_alive [OF _ a] show "cl_inv (Some p) s3 \<and> cn_conns s3 p \<noteq> None" by (simp add: cl_OnClose_def)
qed

definition net_ok :: "(int list \<Rightarrow> int) \<Rightarrow> bool" where
  "net_ok net \<longleftrightarrow> (\<forall>hs. net hs = -1 \<or> net hs \<notin> set hs)"

lemma init_msg_conn_inv:
  assumes "cl_inv None s" and "net_ok net"
  shows "\<exists>s'. init_msg_conn tick junk net at at' a reg s = Some s' \<and> cl_inv None s'"
proof -
  note i = cl_invD [OF assms(1)]
  define handle where "handle = net (map fst (cn_map s))"
  have free: "handle = -1 \<or> handle \<notin> fst ` set (cn_map s)" using assms(2) by (auto simp: handle_def net_ok_def image_set simp del: set_map)
  let ?p = "cn_fresh s" and ?c = "new_conn tick handle a"
  obtain s' where s': "init_msg_conn tick junk net at at' a reg s = Some s'" "cn_delegate s'" "cn_state s' = ConnectionStateConnecting"
    "cn_map s' = (if handle \<noteq> -1 then um_insert at handle ?p (cn_map s) else cn_map s)"
    "cn_accounts s' = (if handle \<noteq> -1 then um_insert at' a ?p (cn_accounts s) else cn_accounts s)"
    "cn_conns s' = (cn_conns s)(?p \<mapsto> ?c)" "cn_fresh s' = Suc ?p"
    using i(1) by (cases "handle = -1"; cases reg)
      (simp_all add: init_msg_conn_def CClientConn_def cl_Connect_def cl_onConnectionStateChanged_def put_client_def new_conn_def Let_def handle_def)
  have fresh: "q \<noteq> ?p" if "cn_conns s q = Some d" for q d using i(7) [OF that] by simp
  have m: "set (cn_map s') = (if handle \<noteq> -1 then insert (handle, ?p) (set (cn_map s)) else set (cn_map s))"
    using free by (auto simp: s'(4) set_um_insert)
  have "cl_inv None s'"
  proof (rule cl_invI, goal_cases)
    case (5 h q)
    then consider "handle \<noteq> -1" "h = handle" "q = ?p" | "(h, q) \<in> set (cn_map s)" unfolding m by (auto split: if_splits)
    then show ?case using i(5) [of h q] fresh by cases (auto simp: s'(6))
  next
    case (6 b q)
    then consider "handle \<noteq> -1" "b = a" "q = ?p" | "(b, q) \<in> set (cn_accounts s)" unfolding s'(5) by (auto simp: set_um_insert split: if_splits)
    then show ?case using i(6) [of b q] fresh by cases (auto simp: s'(6) m)
  next
    case (7 q d)
    show ?case
    proof (cases "q = ?p")
      case True
      with 7 show ?thesis by (auto simp: s'(6,7) m new_conn_def)
    next
      case False
      with 7 i(7) [of q d] show ?thesis by (auto simp: s'(6,7) m)
    qed
  qed (use i s' in simp_all)
  with s'(1) show ?thesis by blast
qed

lemma cl_OnTimer_inv:
  assumes "cl_inv None s" and "(h, p) \<in> set (cn_map s)"
  shows "\<exists>s'. cl_OnTimer t p s = Some s' \<and> cl_inv None s'"
proof -
  from cl_invD(5) [OF assms] obtain c where "cn_conns s p = Some c" by blast
  with cl_Close_inv [OF assms] cl_invD(2) [OF assms(1)] assms(1) show ?thesis by (auto simp: cl_OnTimer_def)
qed

lemma account_registered:
  assumes "cl_inv held s" and "(a, p) \<in> set (cn_accounts s)"
  shows "\<exists>c. cn_conns s p = Some c \<and> (m_handle (cl_conn c), p) \<in> set (cn_map s)"
  using cl_invD(6) [OF assms] by blast

lemma close_msg_conn_inv:
  assumes "cl_inv None s"
  shows "close_msg_conn a s = None \<or> (\<exists>s'. close_msg_conn a s = Some (Ends s') \<and> cl_inv None s')"
proof (cases "cn_accounts s")
  case Nil
  with assms show ?thesis by (simp add: close_msg_conn_def)
next
  case (Cons e r)
  obtain k p where e: "e = (k, p)" by (cases e)
  with Cons account_registered [OF assms, of k p] obtain c where c: "cn_conns s p = Some c" "(m_handle (cl_conn c), p) \<in> set (cn_map s)" by auto
  show ?thesis
  proof (cases "k = a \<and> cl_bOpen c")
    case True
    with Cons e c cl_Close_inv [OF assms c(2)] show ?thesis by (auto simp: close_msg_conn_def close_loop_open)
  next
    case False
    with Cons e c have "spins a (cn_accounts s) s" by (auto simp: spins_def)
    then show ?thesis by (simp add: close_msg_conn_def close_loop_spins)
  qed
qed

lemma timer_walk_inv:
  assumes "cl_inv None s"
  shows "timer_walk t (cn_accounts s) s = None \<or> (\<exists>s'. timer_walk t (cn_accounts s) s = Some (Ends s') \<and> cl_inv None s')"
proof (cases "cn_accounts s")
  case Nil
  with assms show ?thesis by (simp add: timer_walk.simps)
next
  case (Cons e r)
  obtain k p where e: "e = (k, p)" by (cases e)
  with Cons account_registered [OF assms, of k p] obtain c where c: "cn_conns s p = Some c" "(m_handle (cl_conn c), p) \<in> set (cn_map s)" by auto
  show ?thesis
  proof (cases "k = cn_current s")
    case True
    with Cons e c cl_OnTimer_inv [OF assms c(2), of t] assms show ?thesis by (auto simp: timer_walk_current)
  next
    case False
    with Cons e show ?thesis by (simp add: timer_walk_spins)
  qed
qed

lemma cl_inv_counters [simp]:
  "cl_inv held (s\<lparr>cn_timer_cnt := n\<rparr>) = cl_inv held s" "cl_inv held (s\<lparr>cn_connecting_cnt := n\<rparr>) = cl_inv held s"
  "cl_inv held (s\<lparr>cn_idle_cnt := n\<rparr>) = cl_inv held s" "cl_inv held (s\<lparr>cn_current := a\<rparr>) = cl_inv held s"
  "cl_inv held (s\<lparr>cn_wire := w\<rparr>) = cl_inv held s" "cl_inv held (s\<lparr>cn_reconnect_cnt := n\<rparr>) = cl_inv held s"
  by (simp_all add: cl_inv_def)

lemma and_then_inv:
  assumes "r = None \<or> (\<exists>s. r = Some (Ends s) \<and> cl_inv None s)" and "\<And>s. cl_inv None s \<Longrightarrow> f s = None \<or> (\<exists>s'. f s = Some (Ends s') \<and> cl_inv None s')"
  shows "and_then r f = None \<or> (\<exists>s'. and_then r f = Some (Ends s') \<and> cl_inv None s')"
  using assms(1)
proof
  assume "\<exists>s. r = Some (Ends s) \<and> cl_inv None s"
  then obtain s where "r = Some (Ends s)" "cl_inv None s" by blast
  with assms(2) [of s] show ?thesis by simp
qed simp

lemma cl_inv_count_tick [simp]: "cl_inv held (count_tick s) = cl_inv held s"
  by (simp add: count_tick_def Let_def)

text \<open>The timer does not return, or the invariant holds.\<close>

lemma cl_timer_callback_inv:
  assumes "cl_inv None s" and "net_ok net"
  shows "cl_timer_callback t junk net at at' s = None \<or> (\<exists>s'. cl_timer_callback t junk net at at' s = Some (Ends s') \<and> cl_inv None s')"
proof -
  have ends: "ends (init_msg_conn t junk net at at' (cn_current x) False x) = None \<or>
      (\<exists>s'. ends (init_msg_conn t junk net at at' (cn_current x) False x) = Some (Ends s') \<and> cl_inv None s')" if "cl_inv None x" for x
    using init_msg_conn_inv [OF that assms(2), of t junk at at' "cn_current x" False] by auto
  let ?s = "s\<lparr>cn_timer_cnt := tick_cnt (cn_timer_cnt s)\<rparr>"
  have s: "cl_inv None ?s" using assms(1) by simp
  show ?thesis
    unfolding cl_timer_callback_def Let_def
  proof (rule and_then_inv, goal_cases)
    case 1
    show ?case using timer_walk_inv [OF s, of t] s by simp
  next
    case (2 x)
    show ?case
    proof (cases "cn_reconnect_cnt x > 0")
      case True
      then show ?thesis
      proof (simp only: if_True, intro and_then_inv, goal_cases)
        case 1
        show ?case using close_msg_conn_inv [of "(count_tick x)\<lparr>cn_connecting_cnt := 0\<rparr>" "cn_current (count_tick x)"] 2 by simp
      next
        case y: (2 y)
        show ?case using ends [OF y(3)] y(3) by simp
      qed
    qed (use 2 in simp)
  qed
qed

subsection \<open>Sending and receiving\<close>

lemma put_client_same:
  assumes "cn_conns s p = Some c" and "m_handle k = m_handle (cl_conn c)"
  shows "same_conns s (put_client p (c\<lparr>cl_conn := k\<rparr>) s)" "same_conns s ((put_client p (c\<lparr>cl_conn := k\<rparr>) s)\<lparr>cn_wire := w\<rparr>)"
  using assms by (simp_all add: same_conns_def put_client_def conn_id_def)

lemma conn_handle_kept:
  "conn_Send garb tick ks d c = Some (r, b, sent, ks', k) \<Longrightarrow> m_handle k = m_handle c"
  "conn_OnWrite ks c = Some (sent, ks', k) \<Longrightarrow> m_handle k = m_handle c"
  by (auto simp: conn_Send_def conn_OnWrite_def Let_def split: if_splits bind_splits prod.splits)

lemma on_read_fill_handle: "on_read_fill garb rs c = Some k \<Longrightarrow> m_handle k = m_handle c"
  by (induction garb rs c rule: on_read_fill.induct) (auto simp: Let_def split: if_splits bind_splits)

lemma conn_OnRead_handle: "conn_OnRead garb junk h rs c x = Some (k, y, b) \<Longrightarrow> m_handle k = m_handle c"
  by (auto simp: conn_OnRead_def split: bind_splits dest: on_read_fill_handle)

lemma cl_Send_same: "cl_Send garb tick ks d p s = Some (r, s') \<Longrightarrow> same_conns s s'"
  by (auto simp: cl_Send_def split: bind_splits intro!: put_client_same dest: conn_handle_kept)

lemma cl_SendPdu_same: "cl_SendPdu garb tick ks pdu p s = Some (r, s') \<Longrightarrow> same_conns s s'"
  by (auto simp: cl_SendPdu_def split: bind_splits dest: cl_Send_same)

lemma cl_SendPduBuf_same: "cl_SendPduBuf garb junk gcm tick ks d p s = Some (r, s') \<Longrightarrow> same_conns s s'"
  by (auto simp: cl_SendPduBuf_def split: bind_splits sum.splits option.splits if_splits dest: cl_SendPdu_same)

lemma cl_OnWrite_same: "cl_OnWrite ks p s = Some s' \<Longrightarrow> same_conns s s'"
  by (auto simp: cl_OnWrite_def split: bind_splits intro!: put_client_same dest: conn_handle_kept)

text \<open>The keys of a connection are empty: a PDU that is marked as encrypted cannot be sent, its keys are read beyond the end of the empty string.\<close>

lemma encrypted_send_fails:
  assumes "cl_inv held s" and "ReadPdu garb junk d (of_nat (length d)) = Some (Inr (Some pdu))" and "pdu_GetReversed pdu = 1" and "pdu_GetBodyLength pdu > 0"
  shows "cl_SendPduBuf garb junk gcm tick ks d p s = None"
proof -
  have "key_bytes [] 32 = None" by (simp add: key_bytes_def hex_to_string_def mem_read_def)
  with cl_invD(7) [OF assms(1)] assms(2-4) show ?thesis
    by (cases "cn_conns s p") (auto simp: cl_SendPduBuf_def encrypt_pdu_def)
qed

section \<open>Runs of the client\<close>

inductive client_step :: "('e \<Rightarrow> u32 \<Rightarrow> im_pdu list \<Rightarrow> 'a client_scheme \<Rightarrow> 'a client_scheme option) \<Rightarrow> 'a client_scheme \<Rightarrow> 'a client_scheme \<Rightarrow> bool" for hp where
  connect: "net_ok net \<Longrightarrow> init_msg_conn tick junk net at at' a reg s = Some s' \<Longrightarrow> client_step hp s s'"
| confirm: "on_client h cl_OnConfirm s = Some s' \<Longrightarrow> client_step hp s s'"
| hangup: "on_client h cl_OnClose s = Some s' \<Longrightarrow> client_step hp s s'"
| readable: "on_client h (cl_OnRead garb junk rs (hp e)) s = Some s' \<Longrightarrow> client_step hp s s'"
| writable: "on_client h (cl_OnWrite ks) s = Some s' \<Longrightarrow> client_step hp s s'"
| tick: "net_ok net \<Longrightarrow> cl_timer_callback t junk net at at' s = Some (Ends s') \<Longrightarrow> client_step hp s s'"
| close: "close_msg_conn a s = Some (Ends s') \<Longrightarrow> client_step hp s s'"
| switch: "client_step hp s (set_current_account_id a s)"
| calm: "client_step hp s (reset_reconnect s)"
| send: "get_conn a s = Some p \<Longrightarrow> cl_SendPdu garb tick ks pdu p s = Some (r, s') \<Longrightarrow> client_step hp s s'"
| send_buf: "get_conn a s = Some p \<Longrightarrow> cl_SendPduBuf garb junk gcm tick ks d p s = Some (r, s') \<Longrightarrow> client_step hp s s'"

text \<open>The law a handler of PDUs has to keep: it may send, and leaves the connections as they are.\<close>

locale pdu_handler =
  fixes hp :: "'e \<Rightarrow> u32 \<Rightarrow> im_pdu list \<Rightarrow> 'a client_scheme \<Rightarrow> 'a client_scheme option"
  assumes keeps_conns: "hp e a pdus s = Some s' \<Longrightarrow> same_conns s s'"
begin

lemma cl_OnRead_inv:
  assumes "cl_inv (Some p) s" and "(h, p) \<in> set (cn_map s)" and "cl_OnRead garb junk rs (hp e) p s = Some s'"
  shows "cl_inv (Some p) s' \<and> cn_conns s' p \<noteq> None"
proof -
  from cl_invD(5) [OF assms(1,2)] obtain c where c: "cn_conns s p = Some c" by blast
  from assms(3) c obtain k pdus bad s1 where k: "conn_OnRead garb junk collect_pdu rs (cl_conn c) [] = Some (k, pdus, bad)"
    "hp e (cl_accountId c) pdus (put_client p (c\<lparr>cl_conn := k\<rparr>) s) = Some s1" "(if bad then cl_OnClose p s1 else Some s1) = Some s'"
    by (auto simp: cl_OnRead_def split: bind_splits)
  have "same_conns s (put_client p (c\<lparr>cl_conn := k\<rparr>) s)" using c conn_OnRead_handle [OF k(1)] by (intro put_client_same)
  also have "same_conns \<dots> s1" using k(2) by (rule keeps_conns)
  finally have s1: "same_conns s s1" .
  have i1: "cl_inv (Some p) s1" by (rule cl_inv_same [OF assms(1) s1])
  have m: "(h, p) \<in> set (cn_map s1)" using s1 assms(2) by (simp add: same_conns_def)
  from same_conns_Some(1) [OF s1 c] have "cn_conns s1 p \<noteq> None" by auto
  with k(3) i1 cl_Close_inv [OF i1 m] held_alive [OF _ i1 m] show ?thesis by (cases bad) (auto simp: cl_OnClose_def)
qed

lemma step_inv:
  assumes "client_step hp s s'" and "cl_inv None s"
  shows "cl_inv None s'"
  using assms
proof (induction rule: client_step.induct)
  case (connect net tick junk at at' a reg s s')
  with init_msg_conn_inv [of s net tick junk at at' a reg] show ?case by auto
next
  case (confirm h s s')
  with on_confirm_inv [of s h] show ?case by auto
next
  case (hangup h s s')
  with on_close_inv [of s h] show ?case by auto
next
  case (readable h garb junk rs e s s')
  have "\<exists>s'. on_client h (cl_OnRead garb junk rs (hp e)) s = Some s' \<and> cl_inv None s'"
    using cl_OnRead_inv readable(1) by (intro on_client_inv [OF readable(2)]) auto
  with readable show ?case by auto
next
  case (writable h ks s s')
  have "\<exists>s'. on_client h (cl_OnWrite ks) s = Some s' \<and> cl_inv None s'"
  proof (rule on_client_inv [OF writable(2)])
    fix p s1 s2
    assume a: "cl_inv (Some p) s1" "(h, p) \<in> set (cn_map s1)" "cl_OnWrite ks p s1 = Some s2"
    from cl_invD(5) [OF a(1,2)] obtain c where "cn_conns s1 p = Some c" by blast
    with same_conns_Some(1) [OF cl_OnWrite_same [OF a(3)]] cl_inv_same [OF a(1) cl_OnWrite_same [OF a(3)]]
    show "cl_inv (Some p) s2 \<and> cn_conns s2 p \<noteq> None" by fastforce
  qed (use writable(1) in simp)
  with writable show ?case by auto
next
  case (tick net t junk at at' s s')
  with cl_timer_callback_inv [of s net t junk at at'] show ?case by auto
next
  case (close a s s')
  with close_msg_conn_inv [of s a] show ?case by auto
next
  case (send a s p garb tick ks pdu r s')
  with cl_inv_same cl_SendPdu_same show ?case by blast
next
  case (send_buf a s p garb junk gcm tick ks d r s')
  with cl_inv_same cl_SendPduBuf_same show ?case by blast
qed (simp_all add: set_current_account_id_def reset_reconnect_def)

lemma run_inv:
  assumes "(client_step hp)\<^sup>*\<^sup>* s s'" and "cl_inv None s"
  shows "cl_inv None s'"
  using assms by (induction rule: rtranclp_induct) (auto intro: step_inv)

end

text \<open>In a state with the invariant no event of the connection itself goes wrong.\<close>

lemma cl_inv_safe:
  assumes "cl_inv None s"
  shows "on_client h cl_OnConfirm s \<noteq> None" "on_client h cl_OnClose s \<noteq> None" "net_ok net \<Longrightarrow> cl_timer_callback t junk net at at' s \<noteq> Some Fault"
    "close_msg_conn a s \<noteq> Some Fault" "net_ok net \<Longrightarrow> init_msg_conn t junk net at at' a reg s \<noteq> None" "get_conn a s = Some p \<Longrightarrow> cn_conns s p \<noteq> None"
proof -
  show "on_client h cl_OnConfirm s \<noteq> None" "on_client h cl_OnClose s \<noteq> None" using on_confirm_inv [OF assms, of h] on_close_inv [OF assms, of h] by auto
  show "net_ok net \<Longrightarrow> cl_timer_callback t junk net at at' s \<noteq> Some Fault" using cl_timer_callback_inv [OF assms, of net t junk at at'] by auto
  show "close_msg_conn a s \<noteq> Some Fault" using close_msg_conn_inv [OF assms, of a] by auto
  show "net_ok net \<Longrightarrow> init_msg_conn t junk net at at' a reg s \<noteq> None" using init_msg_conn_inv [OF assms, of net] by fastforce
  show "get_conn a s = Some p \<Longrightarrow> cn_conns s p \<noteq> None" using account_registered [OF assms] map_of_SomeD by (fastforce simp: get_conn_def)
qed

end
