(* ===== verification/Native_Byte_Buffer.thy ===== *)
theory Native_Byte_Buffer
  imports Ptp_Prelude
begin

text \<open>
  \<^verbatim>\<open>src/ptp_net/NativeByteBuffer.h\<close>, \<^verbatim>\<open>src/ptp_net/NativeByteBuffer.cpp\<close> and
  \<^verbatim>\<open>src/ptp_net/ByteArray.cpp\<close>: the little-endian buffer with position, limit and capacity
  that messages between the native layer and its host, and the stored account data, are
  serialised into. A buffer made with \<open>NativeByteBuffer(true)\<close> writes nothing and counts the
  size in its capacity instead.

  The \<open>bool *error\<close> out-parameter is a component of the result (set to true or left alone,
  which is \<open>False\<close> here); the overloads without it discard it. \<open>double\<close> values are their
  64-bit patterns, which is how the code treats them. A slice is a snapshot of the bytes it
  points to: writes through a slice are not tracked.
\<close>

section \<open>ByteArray\<close>

record byte_array =
  ba_length :: u32
  ba_bytes :: bytes

definition ByteArray_len :: "(nat \<Rightarrow> byte) \<Rightarrow> u32 \<Rightarrow> byte_array" where
  "ByteArray_len garb len = \<lparr>ba_length = len, ba_bytes = alloc garb (unat len)\<rparr>"

definition ByteArray_copy :: "byte_array \<Rightarrow> byte_array option" where
  "ByteArray_copy a = do {
     d \<leftarrow> mem_read (ba_bytes a) 0 (unat (ba_length a));
     Some \<lparr>ba_length = ba_length a, ba_bytes = d\<rparr> }"

definition ByteArray_buf :: "bytes \<Rightarrow> u32 \<Rightarrow> byte_array option" where
  "ByteArray_buf buffer len = do {
     d \<leftarrow> mem_read buffer 0 (unat len);
     Some \<lparr>ba_length = len, ba_bytes = d\<rparr> }"

definition ba_alloc :: "(nat \<Rightarrow> byte) \<Rightarrow> u32 \<Rightarrow> byte_array \<Rightarrow> byte_array" where
  "ba_alloc garb len a = \<lparr>ba_length = len, ba_bytes = alloc garb (unat len)\<rparr>"

definition ba_isEqualTo :: "byte_array \<Rightarrow> byte_array \<Rightarrow> bool option" where
  "ba_isEqualTo a b =
     (if ba_length b = ba_length a then do {
        x \<leftarrow> mem_read (ba_bytes b) 0 (unat (ba_length a));
        y \<leftarrow> mem_read (ba_bytes a) 0 (unat (ba_length a));
        Some (x = y) }
      else Some False)"

section \<open>The buffer\<close>

record native_buffer =
  nb_buffer :: bytes
  calculateSizeOnly :: bool
  sliced :: bool
  nb_position :: u32
  nb_limit :: u32
  nb_capacity :: u32
  bufferOwner :: bool

definition NativeByteBuffer_size :: "(nat \<Rightarrow> byte) \<Rightarrow> u32 \<Rightarrow> native_buffer" where
  "NativeByteBuffer_size garb sz =
     \<lparr>nb_buffer = alloc garb (unat sz), calculateSizeOnly = False, sliced = False,
      nb_position = 0, nb_limit = sz, nb_capacity = sz, bufferOwner = True\<rparr>"

definition NativeByteBuffer_calc :: "bool \<Rightarrow> native_buffer" where
  "NativeByteBuffer_calc calculate =
     \<lparr>nb_buffer = [], calculateSizeOnly = calculate, sliced = False,
      nb_position = 0, nb_limit = 0, nb_capacity = 0, bufferOwner = True\<rparr>"

definition NativeByteBuffer_wrap :: "bytes \<Rightarrow> u32 \<Rightarrow> native_buffer" where
  "NativeByteBuffer_wrap buff len =
     \<lparr>nb_buffer = buff, calculateSizeOnly = False, sliced = True,
      nb_position = 0, nb_limit = len, nb_capacity = len, bufferOwner = True\<rparr>"

subsection \<open>Cursor operations\<close>

definition nb_set_position :: "u32 \<Rightarrow> native_buffer \<Rightarrow> native_buffer" where
  "nb_set_position position b = (if position > nb_limit b then b else b\<lparr>nb_position := position\<rparr>)"

definition nb_remaining :: "native_buffer \<Rightarrow> u32" where
  "nb_remaining b = nb_limit b - nb_position b"

definition nb_clearCapacity :: "native_buffer \<Rightarrow> native_buffer" where
  "nb_clearCapacity b = (if \<not> calculateSizeOnly b then b else b\<lparr>nb_capacity := 0\<rparr>)"

definition nb_set_limit :: "u32 \<Rightarrow> native_buffer \<Rightarrow> native_buffer" where
  "nb_set_limit limit b =
     (if limit > nb_capacity b then b
      else b\<lparr>nb_position := (if nb_position b > limit then limit else nb_position b),
             nb_limit := limit\<rparr>)"

definition nb_flip :: "native_buffer \<Rightarrow> native_buffer" where
  "nb_flip b = b\<lparr>nb_limit := nb_position b, nb_position := 0\<rparr>"

definition nb_clear :: "native_buffer \<Rightarrow> native_buffer" where
  "nb_clear b = b\<lparr>nb_position := 0, nb_limit := nb_capacity b\<rparr>"

definition nb_rewind :: "native_buffer \<Rightarrow> native_buffer" where
  "nb_rewind b = b\<lparr>nb_position := 0\<rparr>"

definition nb_compact :: "native_buffer \<Rightarrow> native_buffer option" where
  "nb_compact b =
     (if nb_position b = nb_limit b then Some b
      else do {
        d \<leftarrow> mem_read (nb_buffer b) (unat (nb_position b)) (unat (nb_limit b - nb_position b));
        m \<leftarrow> mem_write (nb_buffer b) 0 d;
        Some (b\<lparr>nb_buffer := m, nb_position := nb_limit b - nb_position b,
                nb_limit := nb_capacity b\<rparr>) })"

definition nb_hasRemaining :: "native_buffer \<Rightarrow> bool" where
  "nb_hasRemaining b \<longleftrightarrow> nb_position b < nb_limit b"

definition nb_skip :: "u32 \<Rightarrow> native_buffer \<Rightarrow> native_buffer" where
  "nb_skip len b =
     (if \<not> calculateSizeOnly b then
        (if nb_position b + len > nb_limit b then b
         else b\<lparr>nb_position := nb_position b + len\<rparr>)
      else b\<lparr>nb_capacity := nb_capacity b + len\<rparr>)"

subsection \<open>Little-endian integers\<close>

definition put_le32 :: "u32 \<Rightarrow> bytes" where
  "put_le32 x = [ucast x, ucast (signed_drop_bit 8 x), ucast (signed_drop_bit 16 x),
                 ucast (signed_drop_bit 24 x)]"

definition put_le64 :: "u64 \<Rightarrow> bytes" where
  "put_le64 x = [ucast x, ucast (signed_drop_bit 8 x), ucast (signed_drop_bit 16 x),
                 ucast (signed_drop_bit 24 x), ucast (signed_drop_bit 32 x),
                 ucast (signed_drop_bit 40 x), ucast (signed_drop_bit 48 x),
                 ucast (signed_drop_bit 56 x)]"

definition le32 :: "bytes \<Rightarrow> u32" where
  "le32 b = ucast (b ! 0) OR push_bit 8 (ucast (b ! 1)) OR push_bit 16 (ucast (b ! 2))
     OR push_bit 24 (ucast (b ! 3))"

definition le24 :: "bytes \<Rightarrow> u32" where
  "le24 b = ucast (b ! 0) OR push_bit 8 (ucast (b ! 1)) OR push_bit 16 (ucast (b ! 2))"

definition big32 :: "bytes \<Rightarrow> u32" where
  "big32 b = push_bit 24 (ucast (b ! 0)) OR push_bit 16 (ucast (b ! 1))
     OR push_bit 8 (ucast (b ! 2)) OR ucast (b ! 3)"

definition le64 :: "bytes \<Rightarrow> u64" where
  "le64 b = ucast (b ! 0) OR push_bit 8 (ucast (b ! 1)) OR push_bit 16 (ucast (b ! 2))
     OR push_bit 24 (ucast (b ! 3)) OR push_bit 32 (ucast (b ! 4)) OR push_bit 40 (ucast (b ! 5))
     OR push_bit 48 (ucast (b ! 6)) OR push_bit 56 (ucast (b ! 7))"

subsection \<open>Writing\<close>

type_synonym write_res = "(bool \<times> native_buffer) option"

text \<open>A run of \<open>buffer[_position++] = ...\<close> assignments, and \<open>writeBytesInternal\<close>.\<close>

definition nb_store :: "bytes \<Rightarrow> native_buffer \<Rightarrow> native_buffer option" where
  "nb_store d b = do {
     m \<leftarrow> mem_write (nb_buffer b) (unat (nb_position b)) d;
     Some (b\<lparr>nb_buffer := m, nb_position := nb_position b + of_nat (length d)\<rparr>) }"

definition nb_writeBytesInternal :: "bytes \<Rightarrow> u32 \<Rightarrow> u32 \<Rightarrow> native_buffer \<Rightarrow> native_buffer option" where
  "nb_writeBytesInternal src offset len b = do {
     d \<leftarrow> mem_read src (unat offset) (unat len);
     m \<leftarrow> mem_write (nb_buffer b) (unat (nb_position b)) d;
     Some (b\<lparr>nb_buffer := m, nb_position := nb_position b + len\<rparr>) }"

definition nb_writeInt32 :: "u32 \<Rightarrow> native_buffer \<Rightarrow> write_res" where
  "nb_writeInt32 x b =
     (if \<not> calculateSizeOnly b then
        (if nb_position b + 4 > nb_limit b then Some (True, b)
         else map_option (Pair False) (nb_store (put_le32 x) b))
      else Some (False, b\<lparr>nb_capacity := nb_capacity b + 4\<rparr>))"

definition nb_writeInt64 :: "u64 \<Rightarrow> native_buffer \<Rightarrow> write_res" where
  "nb_writeInt64 x b =
     (if \<not> calculateSizeOnly b then
        (if nb_position b + 8 > nb_limit b then Some (True, b)
         else map_option (Pair False) (nb_store (put_le64 x) b))
      else Some (False, b\<lparr>nb_capacity := nb_capacity b + 8\<rparr>))"

definition nb_writeBool :: "bool \<Rightarrow> native_buffer \<Rightarrow> write_res" where
  "nb_writeBool value b =
     (if \<not> calculateSizeOnly b then
        (if value then nb_writeInt32 0x997275b5 b else nb_writeInt32 0xbc799737 b)
      else Some (False, b\<lparr>nb_capacity := nb_capacity b + 4\<rparr>))"

definition nb_writeBytes_off :: "bytes \<Rightarrow> u32 \<Rightarrow> u32 \<Rightarrow> native_buffer \<Rightarrow> write_res" where
  "nb_writeBytes_off src offset len b =
     (if \<not> calculateSizeOnly b then
        (if nb_position b + len > nb_limit b then Some (True, b)
         else map_option (Pair False) (nb_writeBytesInternal src offset len b))
      else Some (False, b\<lparr>nb_capacity := nb_capacity b + len\<rparr>))"

definition nb_writeBytes :: "bytes \<Rightarrow> u32 \<Rightarrow> native_buffer \<Rightarrow> write_res" where
  "nb_writeBytes src len b =
     (if \<not> calculateSizeOnly b then
        (if nb_position b + len > nb_limit b then Some (True, b)
         else map_option (Pair False) (nb_writeBytesInternal src 0 len b))
      else Some (False, b\<lparr>nb_capacity := nb_capacity b + len\<rparr>))"

text \<open>\<open>writeBytes(NativeByteBuffer *)\<close>: the source buffer is returned too, its position moved.\<close>

definition nb_writeBytes_nb ::
  "native_buffer \<Rightarrow> native_buffer \<Rightarrow> (bool \<times> native_buffer \<times> native_buffer) option" where
  "nb_writeBytes_nb src b =
     (let len = nb_limit src - nb_position src
      in if len = 0 then Some (False, b, src)
         else if \<not> calculateSizeOnly b then
           (if nb_position b + len > nb_limit b then Some (True, b, src)
            else do {
              b' \<leftarrow> nb_writeBytesInternal (drop (unat (nb_position src)) (nb_buffer src)) 0 len b;
              Some (False, b', nb_set_position (nb_limit src) src) })
         else Some (False, b\<lparr>nb_capacity := nb_capacity b + len\<rparr>, src))"

definition nb_writeBytes_ba :: "byte_array \<Rightarrow> native_buffer \<Rightarrow> write_res" where
  "nb_writeBytes_ba a b =
     (if \<not> calculateSizeOnly b then
        (if nb_position b + ba_length a > nb_limit b then Some (True, b)
         else map_option (Pair False) (nb_writeBytesInternal (ba_bytes a) 0 (ba_length a) b))
      else Some (False, b\<lparr>nb_capacity := nb_capacity b + ba_length a\<rparr>))"

definition nb_writeByte :: "byte \<Rightarrow> native_buffer \<Rightarrow> write_res" where
  "nb_writeByte i b =
     (if \<not> calculateSizeOnly b then
        (if nb_position b + 1 > nb_limit b then Some (True, b)
         else map_option (Pair False) (nb_store [i] b))
      else Some (False, b\<lparr>nb_capacity := nb_capacity b + 1\<rparr>))"

text \<open>
  \<open>writeByteArray(b, offset, length)\<close>: a length prefix of one byte (up to 253) or four bytes
  (254 and three length bytes), the data, and zero padding to a multiple of four. Each part
  checks the limit on its own, so an error may leave earlier parts written.
\<close>

definition length_prefix :: "u32 \<Rightarrow> bytes" where
  "length_prefix len =
     (if len \<le> 253 then [ucast len]
      else [254, ucast len, ucast (drop_bit 8 len), ucast (drop_bit 16 len)])"

definition tl_addition :: "u32 \<Rightarrow> u32" where
  "tl_addition len =
     (let a = (len + (if len \<le> 253 then 1 else 4)) mod 4 in if a \<noteq> 0 then 4 - a else a)"

definition nb_write_prefix :: "u32 \<Rightarrow> native_buffer \<Rightarrow> write_res" where
  "nb_write_prefix len b =
     (if len \<le> 253 then
        (if \<not> calculateSizeOnly b then
           (if nb_position b + 1 > nb_limit b then Some (True, b)
            else map_option (Pair False) (nb_store [ucast len] b))
         else Some (False, b\<lparr>nb_capacity := nb_capacity b + 1\<rparr>))
      else
        (if \<not> calculateSizeOnly b then
           (if nb_position b + 4 > nb_limit b then Some (True, b)
            else map_option (Pair False)
              (nb_store [254, ucast len, ucast (drop_bit 8 len), ucast (drop_bit 16 len)] b))
         else Some (False, b\<lparr>nb_capacity := nb_capacity b + 4\<rparr>)))"

definition nb_write_data :: "bytes \<Rightarrow> u32 \<Rightarrow> u32 \<Rightarrow> native_buffer \<Rightarrow> write_res" where
  "nb_write_data src offset len b =
     (if \<not> calculateSizeOnly b then
        (if nb_position b + len > nb_limit b then Some (True, b)
         else map_option (Pair False) (nb_writeBytesInternal src offset len b))
      else Some (False, b\<lparr>nb_capacity := nb_capacity b + len\<rparr>))"

definition nb_write_padding :: "u32 \<Rightarrow> native_buffer \<Rightarrow> write_res" where
  "nb_write_padding addition b =
     (if \<not> calculateSizeOnly b \<and> nb_position b + addition > nb_limit b then Some (True, b)
      else if \<not> calculateSizeOnly b then
        map_option (Pair False) (nb_store (replicate (unat addition) 0) b)
      else Some (False, b\<lparr>nb_capacity := nb_capacity b + addition\<rparr>))"

definition nb_writeByteArray :: "bytes \<Rightarrow> u32 \<Rightarrow> u32 \<Rightarrow> native_buffer \<Rightarrow> write_res" where
  "nb_writeByteArray src offset len b = do {
     (e1, b1) \<leftarrow> nb_write_prefix len b;
     if e1 then Some (True, b1)
     else do {
       (e2, b2) \<leftarrow> nb_write_data src offset len b1;
       if e2 then Some (True, b2) else nb_write_padding (tl_addition len) b2 } }"

definition nb_writeString :: "bytes \<Rightarrow> native_buffer \<Rightarrow> write_res" where
  "nb_writeString s b = nb_writeByteArray s 0 (of_nat (length s)) b"

definition nb_writeByteArray_nb ::
  "native_buffer \<Rightarrow> native_buffer \<Rightarrow> (bool \<times> native_buffer \<times> native_buffer) option" where
  "nb_writeByteArray_nb src b =
     (let src' = nb_rewind src in do {
        (e, b') \<leftarrow> nb_writeByteArray (nb_buffer src') 0 (nb_limit src') b;
        Some (e, b', src') })"

definition nb_writeByteArray_ba :: "byte_array \<Rightarrow> native_buffer \<Rightarrow> write_res" where
  "nb_writeByteArray_ba a b = nb_writeByteArray (ba_bytes a) 0 (ba_length a) b"

definition nb_writeDouble :: "u64 \<Rightarrow> native_buffer \<Rightarrow> write_res" where
  "nb_writeDouble d b = nb_writeInt64 d b"

text \<open>The write overloads without an error argument discard the flag.\<close>

definition nb_no_error :: "write_res \<Rightarrow> native_buffer option" where
  "nb_no_error r = map_option snd r"

subsection \<open>Reading\<close>

type_synonym 'a read_res = "('a \<times> bool \<times> native_buffer) option"

definition nb_fetch :: "nat \<Rightarrow> native_buffer \<Rightarrow> (bytes \<times> native_buffer) option" where
  "nb_fetch n b = do {
     d \<leftarrow> mem_read (nb_buffer b) (unat (nb_position b)) n;
     Some (d, b\<lparr>nb_position := nb_position b + of_nat n\<rparr>) }"

definition nb_readInt32 :: "native_buffer \<Rightarrow> u32 read_res" where
  "nb_readInt32 b =
     (if nb_position b + 4 > nb_limit b then Some (0, True, b)
      else do { (d, b') \<leftarrow> nb_fetch 4 b; Some (le32 d, False, b') })"

definition nb_readUint32 :: "native_buffer \<Rightarrow> u32 read_res" where
  "nb_readUint32 b = nb_readInt32 b"

definition nb_readBigInt32 :: "native_buffer \<Rightarrow> u32 read_res" where
  "nb_readBigInt32 b =
     (if nb_position b + 4 > nb_limit b then Some (0, True, b)
      else do { (d, b') \<leftarrow> nb_fetch 4 b; Some (big32 d, False, b') })"

definition nb_readInt64 :: "native_buffer \<Rightarrow> u64 read_res" where
  "nb_readInt64 b =
     (if nb_position b + 8 > nb_limit b then Some (0, True, b)
      else do { (d, b') \<leftarrow> nb_fetch 8 b; Some (le64 d, False, b') })"

definition nb_readUint64 :: "native_buffer \<Rightarrow> u64 read_res" where
  "nb_readUint64 b = nb_readInt64 b"

definition nb_readByte :: "native_buffer \<Rightarrow> byte read_res" where
  "nb_readByte b =
     (if nb_position b + 1 > nb_limit b then Some (0, True, b)
      else do { (d, b') \<leftarrow> nb_fetch 1 b; Some (d ! 0, False, b') })"

definition nb_readBool :: "native_buffer \<Rightarrow> bool read_res" where
  "nb_readBool b = do {
     (c, e, b') \<leftarrow> nb_readUint32 b;
     if c = 0x997275b5 then Some (True, e, b')
     else if c = 0xbc799737 then Some (False, e, b')
     else Some (False, True, b') }"

definition nb_readBytes :: "u32 \<Rightarrow> native_buffer \<Rightarrow> (bytes option) read_res" where
  "nb_readBytes len b =
     (if len > nb_limit b - nb_position b then Some (None, True, b)
      else do {
        d \<leftarrow> mem_read (nb_buffer b) (unat (nb_position b)) (unat len);
        Some (Some d, False, b\<lparr>nb_position := nb_position b + len\<rparr>) })"

definition nb_readBytes_ba :: "u32 \<Rightarrow> native_buffer \<Rightarrow> (byte_array option) read_res" where
  "nb_readBytes_ba len b =
     (if len > nb_limit b - nb_position b then Some (None, True, b)
      else do {
        d \<leftarrow> mem_read (nb_buffer b) (unat (nb_position b)) (unat len);
        Some (Some \<lparr>ba_length = len, ba_bytes = d\<rparr>, False,
              b\<lparr>nb_position := nb_position b + len\<rparr>) })"

text \<open>
  The prefix shared by \<open>readString\<close>, \<open>readByteArray\<close> and \<open>readByteBuffer\<close>: the length and the
  padding, or \<open>None\<close> after an error. The position has moved past what was read by then.
\<close>

definition nb_read_prefix :: "native_buffer \<Rightarrow> ((u32 \<times> u32) option \<times> native_buffer) option" where
  "nb_read_prefix b =
     (if nb_position b + 1 > nb_limit b then Some (None, b)
      else do {
        (d, b1) \<leftarrow> nb_fetch 1 b;
        let l0 = (ucast (d ! 0) :: u32);
        (r, b2) \<leftarrow>
          (if l0 \<ge> 254 then
             (if nb_position b1 + 3 > nb_limit b1 then Some (None, b1)
              else do { (d3, b2) \<leftarrow> nb_fetch 3 b1; Some (Some (le24 d3, 4 :: u32), b2) })
           else Some (Some (l0, 1), b1));
        (case r of
           None \<Rightarrow> Some (None, b2)
         | Some (l, sl) \<Rightarrow>
             (let a = (l + sl) mod 4; addition = (if a \<noteq> 0 then 4 - a else a)
              in if nb_position b2 + l + addition > nb_limit b2 then Some (None, b2)
                 else Some (Some (l, addition), b2))) })"

definition nb_readString :: "native_buffer \<Rightarrow> bytes read_res" where
  "nb_readString b = do {
     (p, b1) \<leftarrow> nb_read_prefix b;
     (case p of
        None \<Rightarrow> Some ([], True, b1)
      | Some (l, addition) \<Rightarrow> do {
          d \<leftarrow> mem_read (nb_buffer b1) (unat (nb_position b1)) (unat l);
          Some (d, False, b1\<lparr>nb_position := nb_position b1 + (l + addition)\<rparr>) }) }"

definition nb_readByteArray :: "native_buffer \<Rightarrow> (byte_array option) read_res" where
  "nb_readByteArray b = do {
     (p, b1) \<leftarrow> nb_read_prefix b;
     (case p of
        None \<Rightarrow> Some (None, True, b1)
      | Some (l, addition) \<Rightarrow> do {
          d \<leftarrow> mem_read (nb_buffer b1) (unat (nb_position b1)) (unat l);
          Some (Some \<lparr>ba_length = l, ba_bytes = d\<rparr>, False,
                b1\<lparr>nb_position := nb_position b1 + (l + addition)\<rparr>) }) }"

text \<open>\<open>readByteBuffer(false)\<close>: the slice. (The copying variant goes through the buffer pool.)\<close>

definition nb_readByteBuffer_slice :: "native_buffer \<Rightarrow> (native_buffer option) read_res" where
  "nb_readByteBuffer_slice b = do {
     (p, b1) \<leftarrow> nb_read_prefix b;
     (case p of
        None \<Rightarrow> Some (None, True, b1)
      | Some (l, addition) \<Rightarrow>
          Some (Some (NativeByteBuffer_wrap (drop (unat (nb_position b1)) (nb_buffer b1)) l), False,
                b1\<lparr>nb_position := nb_position b1 + (l + addition)\<rparr>)) }"

definition nb_readDouble :: "native_buffer \<Rightarrow> u64 read_res" where
  "nb_readDouble b = nb_readInt64 b"

definition nb_copyBuffer :: "u32 \<Rightarrow> u32 \<Rightarrow> native_buffer \<Rightarrow> bytes option" where
  "nb_copyBuffer offset len b = mem_read (nb_buffer b) (unat offset) (unat len)"

section \<open>Invariant and specification\<close>

text \<open>
  A real buffer owns at least its capacity, and position, limit and capacity are ordered;
  capacities stay below \<open>2 ^ 31\<close>, so that cursor arithmetic cannot wrap.
\<close>

definition nb_wf :: "native_buffer \<Rightarrow> bool" where
  "nb_wf b \<longleftrightarrow> \<not> calculateSizeOnly b \<and> unat (nb_capacity b) \<le> length (nb_buffer b)
     \<and> unat (nb_limit b) \<le> unat (nb_capacity b) \<and> unat (nb_position b) \<le> unat (nb_limit b)
     \<and> unat (nb_capacity b) < 2147483648"

text \<open>The wire form of a byte string, and the padding as a number.\<close>

definition tl_pad :: "nat \<Rightarrow> nat" where
  "tl_pad n = (4 - (n + (if n \<le> 253 then 1 else 4)) mod 4) mod 4"

definition tl_encode :: "bytes \<Rightarrow> bytes" where
  "tl_encode d = length_prefix (of_nat (length d)) @ d @ replicate (tl_pad (length d)) 0"

text \<open>The bytes between position and limit.\<close>

definition nb_rest :: "native_buffer \<Rightarrow> bytes" where
  "nb_rest b = take (unat (nb_limit b) - unat (nb_position b)) (drop (unat (nb_position b)) (nb_buffer b))"

definition nb_advance :: "nat \<Rightarrow> native_buffer \<Rightarrow> native_buffer" where
  "nb_advance n b = b\<lparr>nb_position := nb_position b + of_nat n\<rparr>"

section \<open>Integer codecs\<close>

text \<open>One byte of an integer, taken out and put back at its place.\<close>

lemma bit_byte_at:
  fixes x :: "'a::len word"
  shows "bit (push_bit k (ucast (ucast (drop_bit k x) :: byte)) :: 'a word) n
     \<longleftrightarrow> k \<le> n \<and> n < k + 8 \<and> bit x n"
  by (auto simp: bit_simps dest: bit_imp_le_length)

lemma bit_byte_at_0:
  fixes x :: "'a::len word"
  shows "bit (ucast (ucast x :: byte) :: 'a word) n \<longleftrightarrow> n < 8 \<and> bit x n"
  using bit_byte_at [of 0 x n] by simp

lemma ucast_signed_drop:
  fixes x :: "'a::len word"
  assumes "k + 8 \<le> LENGTH('a)"
  shows "(ucast (signed_drop_bit k x) :: byte) = ucast (drop_bit k x)"
proof (rule bit_word_eqI)
  fix n assume "n < LENGTH(8)"
  with assms have "k + n < LENGTH('a)" by simp
  then have "min (k + n) (LENGTH('a) - 1) = k + n" by simp
  then show "bit (ucast (signed_drop_bit k x) :: byte) n \<longleftrightarrow> bit (ucast (drop_bit k x) :: byte) n"
    by (auto simp: bit_simps not_le)
qed

lemma le32_put: "le32 (put_le32 w) = w"
proof (rule bit_word_eqI)
  fix n assume "n < LENGTH(32)"
  then have "n < 8 \<or> 8 \<le> n \<and> n < 16 \<or> 16 \<le> n \<and> n < 24 \<or> 24 \<le> n \<and> n < 32" by auto
  then show "bit (le32 (put_le32 w)) n \<longleftrightarrow> bit w n"
    by (auto simp: le32_def put_le32_def bit_or_iff ucast_signed_drop bit_byte_at bit_byte_at_0)
qed

lemma le64_put: "le64 (put_le64 w) = w"
proof (rule bit_word_eqI)
  fix n assume n: "n < LENGTH(64)"
  have "bit (le64 (put_le64 w)) n \<longleftrightarrow>
      (n < 8 \<or> 8 \<le> n \<and> n < 16 \<or> 16 \<le> n \<and> n < 24 \<or> 24 \<le> n \<and> n < 32 \<or> 32 \<le> n \<and> n < 40
       \<or> 40 \<le> n \<and> n < 48 \<or> 48 \<le> n \<and> n < 56 \<or> 56 \<le> n \<and> n < 64) \<and> bit w n"
    by (simp add: le64_def put_le64_def bit_or_iff ucast_signed_drop bit_byte_at bit_byte_at_0) blast
  moreover have "n < 8 \<or> 8 \<le> n \<and> n < 16 \<or> 16 \<le> n \<and> n < 24 \<or> 24 \<le> n \<and> n < 32 \<or> 32 \<le> n \<and> n < 40
       \<or> 40 \<le> n \<and> n < 48 \<or> 48 \<le> n \<and> n < 56 \<or> 56 \<le> n \<and> n < 64"
    using n by simp arith
  ultimately show "bit (le64 (put_le64 w)) n \<longleftrightarrow> bit w n" by blast
qed

lemma le24_put:
  assumes "unat l < 16777216"
  shows "le24 [ucast l, ucast (drop_bit 8 l), ucast (drop_bit 16 l)] = l"
proof (rule bit_word_eqI)
  fix n assume "n < LENGTH(32)"
  have "drop_bit 24 l = 0"
  proof -
    have "unat (drop_bit 24 l) = 0" using assms by (simp add: drop_bit_eq_div unat_div)
    then show ?thesis by (simp add: unat_eq_0)
  qed
  moreover have "bit l n = bit (drop_bit 24 l) (n - 24)" if "24 \<le> n"
    using that by (simp add: bit_drop_bit_eq)
  ultimately have "bit l n \<Longrightarrow> n < 24" by (cases "24 \<le> n") simp_all
  then have "bit l n \<Longrightarrow> n < 8 \<or> 8 \<le> n \<and> n < 16 \<or> 16 \<le> n \<and> n < 24" by linarith
  then show "bit (le24 [ucast l, ucast (drop_bit 8 l), ucast (drop_bit 16 l)]) n \<longleftrightarrow> bit l n"
    by (auto simp: le24_def bit_or_iff bit_byte_at bit_byte_at_0)
qed

interpretation cle32: fixed_codec put_le32 le32 4
  by unfold_locales (simp_all add: le32_put, simp add: put_le32_def)

interpretation cle64: fixed_codec put_le64 le64 8
  by unfold_locales (simp_all add: le64_put, simp add: put_le64_def)

lemmas put_le_lengths [simp] = cle32.enc_length cle64.enc_length

section \<open>Cursor arithmetic\<close>

lemma nb_room_iff:
  assumes "nb_wf b" and "unat n < 2147483648"
  shows "nb_position b + n > nb_limit b \<longleftrightarrow> unat (nb_limit b) < unat (nb_position b) + unat n"
    and "unat (nb_position b + n) = unat (nb_position b) + unat n"
proof -
  have "unat (nb_position b) + unat n < 4294967296"
    using assms unfolding nb_wf_def by linarith
  then show "unat (nb_position b + n) = unat (nb_position b) + unat n" by (rule unat_add_fits_32)
  then show "nb_position b + n > nb_limit b \<longleftrightarrow> unat (nb_limit b) < unat (nb_position b) + unat n"
    by (simp add: less_unat_32)
qed

lemma nb_rest_length: "nb_wf b \<Longrightarrow> length (nb_rest b) = unat (nb_limit b) - unat (nb_position b)"
  by (auto simp: nb_rest_def nb_wf_def)

lemma unat_of_nat_31: "n < 2147483648 \<Longrightarrow> unat (of_nat n :: u32) = n"
  by (rule unat_of_nat_lt) simp

lemma nb_advance_spec:
  assumes "nb_wf b" and "n \<le> length (nb_rest b)"
  shows "nb_wf (nb_advance n b)" and "nb_rest (nb_advance n b) = drop n (nb_rest b)"
    and "unat (nb_position b + of_nat n) = unat (nb_position b) + n"
proof -
  have n: "n \<le> unat (nb_limit b) - unat (nb_position b)" "n < 2147483648"
    using assms nb_rest_length [OF assms(1)] by (auto simp: nb_wf_def)
  show p: "unat (nb_position b + of_nat n) = unat (nb_position b) + n"
    using nb_room_iff(2) [OF assms(1), of "of_nat n"] n by (simp add: unat_of_nat_31)
  show "nb_wf (nb_advance n b)" using assms(1) n(1) p by (auto simp: nb_wf_def nb_advance_def)
  show "nb_rest (nb_advance n b) = drop n (nb_rest b)"
    using p by (simp add: nb_rest_def nb_advance_def drop_take add.commute)
qed

lemma nb_fetch_spec:
  assumes "nb_wf b" and "n \<le> length (nb_rest b)"
  shows "nb_fetch n b = Some (take n (nb_rest b), nb_advance n b)"
  using assms nb_rest_length [OF assms(1)]
  by (auto simp: nb_fetch_def nb_advance_def nb_rest_def nb_wf_def mem_simps min_def)

lemma nb_store_spec:
  assumes wf: "nb_wf b" and room: "unat (nb_position b) + length d \<le> unat (nb_limit b)"
  shows "\<exists>b'. nb_store d b = Some b' \<and> nb_wf b' \<and> nb_limit b' = nb_limit b
     \<and> nb_position b' = nb_position b + of_nat (length d)
     \<and> unat (nb_position b') = unat (nb_position b) + length d
     \<and> take (unat (nb_position b')) (nb_buffer b') = take (unat (nb_position b)) (nb_buffer b) @ d
     \<and> nb_rest (b'\<lparr>nb_position := nb_position b\<rparr>) = d @ nb_rest b'
     \<and> nb_rest b' = drop (length d) (nb_rest b)"
proof -
  let ?p = "unat (nb_position b)" and ?m = "nb_buffer b"
  have l: "?p + length d \<le> length ?m" "length d \<le> length (nb_rest b)"
    using wf room nb_rest_length [OF wf] by (auto simp: nb_wf_def)
  note pos = nb_advance_spec(3) [OF wf l(2)]
  let ?b' = "b\<lparr>nb_buffer := take ?p ?m @ d @ drop (?p + length d) ?m,
      nb_position := nb_position b + of_nat (length d)\<rparr>"
  have "nb_store d b = Some ?b'" using l(1) by (simp add: nb_store_def mem_simps)
  moreover have "nb_wf ?b'" using wf room l pos by (auto simp: nb_wf_def)
  moreover have "nb_rest (?b'\<lparr>nb_position := nb_position b\<rparr>) = d @ nb_rest ?b'"
    using l(1) room pos by (simp add: nb_rest_def)
  moreover have "nb_rest ?b' = drop (length d) (nb_rest b)"
    using l(1) pos by (simp add: nb_rest_def drop_take add.commute)
  ultimately show ?thesis using l(1) pos by simp
qed

lemma nb_store_append:
  assumes wf: "nb_wf b" and room: "unat (nb_position b) + length (d @ d') \<le> unat (nb_limit b)"
  shows "do { b1 \<leftarrow> nb_store d b; nb_store d' b1 } = nb_store (d @ d') b"
proof -
  let ?p = "unat (nb_position b)" and ?m = "nb_buffer b"
  have l: "?p + length (d @ d') \<le> length ?m" "length d \<le> length (nb_rest b)"
    using wf room nb_rest_length [OF wf] by (auto simp: nb_wf_def)
  have "unat (nb_position b + of_nat (length d)) = ?p + length d"
    by (rule nb_advance_spec(3) [OF wf l(2)])
  then show ?thesis using l(1) by (simp add: nb_store_def mem_simps ac_simps)
qed

lemma nb_writeBytesInternal_store:
  assumes "length d < 2147483648"
  shows "nb_writeBytesInternal d 0 (of_nat (length d)) b = nb_store d b"
  using assms by (simp add: nb_writeBytesInternal_def nb_store_def unat_of_nat_31 mem_simps)

section \<open>The wire format\<close>

lemma length_prefix_length: "n < 2147483648 \<Longrightarrow>
    length (length_prefix (of_nat n)) = (if n \<le> 253 then 1 else 4)"
  by (simp add: length_prefix_def le_unat_32 unat_of_nat_31)

lemma tl_addition_pad:
  assumes "n < 2147483648"
  shows "tl_addition (of_nat n) = of_nat (tl_pad n)" and "tl_pad n < 4"
    and "unat (of_nat (tl_pad n) :: u32) = tl_pad n"
proof -
  let ?k = "if n \<le> 253 then 1 else (4 :: nat)"
  have u: "unat (of_nat n :: u32) = n" by (rule unat_of_nat_31 [OF assms])
  have k: "(if (of_nat n :: u32) \<le> 253 then 1 else 4 :: u32) = of_nat ?k"
    by (simp add: le_unat_32 u)
  have s: "unat (of_nat n + of_nat ?k :: u32) = n + ?k"
    using assms by (subst unat_add_fits_32) (auto simp: u)
  have m: "unat ((of_nat n + of_nat ?k :: u32) mod 4) = (n + ?k) mod 4" by (simp add: unat_mod s)
  define a where "a = (of_nat n + of_nat ?k :: u32) mod 4"
  have a: "unat a = (n + ?k) mod 4" "unat a < 4" using m by (simp_all add: a_def unat_mod)
  have "tl_addition (of_nat n) = (if a \<noteq> 0 then 4 - a else a)"
    unfolding tl_addition_def Let_def k a_def by simp
  moreover have "unat (if a \<noteq> 0 then 4 - a else a) = tl_pad n"
  proof (cases "a = 0")
    case True
    with a have "(n + ?k) mod 4 = 0" by simp
    with True show ?thesis unfolding tl_pad_def by simp
  next
    case False
    then have "unat a \<noteq> 0" by (simp add: unat_eq_0)
    moreover have "unat (4 - a) = 4 - unat a" using a(2) by (simp add: unat_sub_le)
    ultimately show ?thesis using False a unfolding tl_pad_def by simp
  qed
  ultimately have t: "unat (tl_addition (of_nat n)) = tl_pad n" by simp
  show lt: "tl_pad n < 4" by (simp add: tl_pad_def)
  then show u': "unat (of_nat (tl_pad n) :: u32) = tl_pad n" by (simp add: unat_of_nat_31)
  with t show "tl_addition (of_nat n) = of_nat (tl_pad n)" by (simp add: word_unat_eq_iff)
qed

lemma length_tl_encode: "length d < 2147483000 \<Longrightarrow>
    length (tl_encode d) = (if length d \<le> 253 then 1 else 4) + length d + tl_pad (length d)"
  by (simp add: tl_encode_def length_prefix_length)

lemma pad_to_four: "(m + (4 - m mod 4) mod 4) mod 4 = (0 :: nat)"
proof -
  have "m mod 4 < 4" by simp
  then consider "m mod 4 = 0" | "m mod 4 = 1" | "m mod 4 = 2" | "m mod 4 = 3" by linarith
  then have "(m mod 4 + (4 - m mod 4) mod 4) mod 4 = 0" by cases simp_all
  then show ?thesis by (simp add: mod_add_left_eq)
qed

lemma tl_encode_aligned:
  assumes "length d < 2147483000"
  shows "length (tl_encode d) mod 4 = 0"
proof -
  have "length (tl_encode d) = (length d + (if length d \<le> 253 then 1 else 4))
      + (4 - (length d + (if length d \<le> 253 then 1 else 4)) mod 4) mod 4"
    unfolding length_tl_encode [OF assms] tl_pad_def by linarith
  then show ?thesis by (simp only: pad_to_four)
qed

section \<open>Values on the wire\<close>

text \<open>
  The contract of one serialised type: writing stores its encoding at the position when
  there is room, a size calculator counts the length of the encoding, and reading inverts
  the encoding.
\<close>

locale tl_codec =
  fixes wr :: "'v \<Rightarrow> native_buffer \<Rightarrow> write_res" and rd :: "native_buffer \<Rightarrow> 'v read_res"
    and enc :: "'v \<Rightarrow> bytes" and ok :: "'v \<Rightarrow> bool"
  assumes write_enc: "nb_wf b \<Longrightarrow> ok v \<Longrightarrow> unat (nb_position b) + length (enc v) \<le> unat (nb_limit b) \<Longrightarrow>
       wr v b = map_option (Pair False) (nb_store (enc v) b)"
    and calc_enc: "calculateSizeOnly b \<Longrightarrow> ok v \<Longrightarrow>
       wr v b = Some (False, b\<lparr>nb_capacity := nb_capacity b + of_nat (length (enc v))\<rparr>)"
    and read_enc: "nb_wf b \<Longrightarrow> ok v \<Longrightarrow> nb_rest b = enc v @ t \<Longrightarrow>
       rd b = Some (v, False, nb_advance (length (enc v)) b)"
begin

lemma write_then_read:
  assumes "nb_wf b" and "ok v" and "unat (nb_position b) + length (enc v) \<le> unat (nb_limit b)"
  shows "\<exists>b'. wr v b = Some (False, b') \<and> nb_wf b' \<and> nb_limit b' = nb_limit b
     \<and> nb_position b' = nb_position b + of_nat (length (enc v))
     \<and> unat (nb_position b') = unat (nb_position b) + length (enc v)
     \<and> nb_rest b' = drop (length (enc v)) (nb_rest b)
     \<and> take (unat (nb_position b')) (nb_buffer b') = take (unat (nb_position b)) (nb_buffer b) @ enc v
     \<and> rd (b'\<lparr>nb_position := nb_position b\<rparr>) = Some (v, False, b')"
proof -
  from nb_store_spec [OF assms(1,3)] obtain b' where b':
    "nb_store (enc v) b = Some b'" "nb_wf b'" "nb_limit b' = nb_limit b"
    "nb_position b' = nb_position b + of_nat (length (enc v))"
    "unat (nb_position b') = unat (nb_position b) + length (enc v)"
    "take (unat (nb_position b')) (nb_buffer b') = take (unat (nb_position b)) (nb_buffer b) @ enc v"
    "nb_rest (b'\<lparr>nb_position := nb_position b\<rparr>) = enc v @ nb_rest b'"
    "nb_rest b' = drop (length (enc v)) (nb_rest b)"
    by blast
  have "nb_wf (b'\<lparr>nb_position := nb_position b\<rparr>)"
    using b'(2,3) assms(1) by (auto simp: nb_wf_def)
  from read_enc [OF this assms(2) b'(7)]
  have "rd (b'\<lparr>nb_position := nb_position b\<rparr>) = Some (v, False, b')"
    by (simp add: nb_advance_def b'(4))
  with b' write_enc [OF assms] show ?thesis by simp
qed

end

lemma nb_write_small:
  assumes "nb_wf b" and "unat n < 2147483648" and "unat (nb_position b) + unat n \<le> unat (nb_limit b)"
  shows "\<not> nb_position b + n > nb_limit b"
  using nb_room_iff(1) [OF assms(1,2)] assms(3) by simp

lemma nb_read_small:
  assumes "nb_wf b" and "n < 2147483648" and "nb_rest b = e @ t" and "length e = n"
  shows "\<not> nb_position b + of_nat n > nb_limit b" and "nb_fetch n b = Some (e, nb_advance n b)"
proof -
  from assms nb_rest_length [OF assms(1)] have "n \<le> unat (nb_limit b) - unat (nb_position b)" by simp
  then have "unat (nb_position b) + n \<le> unat (nb_limit b)"
    using assms(1) unfolding nb_wf_def by linarith
  with nb_write_small [OF assms(1), of "of_nat n"] assms(2)
  show "\<not> nb_position b + of_nat n > nb_limit b" by (simp add: unat_of_nat_31)
  show "nb_fetch n b = Some (e, nb_advance n b)"
    using nb_fetch_spec [OF assms(1), of n] assms(3,4) by simp
qed

interpretation int32: tl_codec nb_writeInt32 nb_readInt32 put_le32 "\<lambda>_. True"
proof unfold_locales
  fix b v t assume "nb_wf b" and "nb_rest b = put_le32 v @ t"
  from nb_read_small [OF this(1) _ this(2), of 4]
  show "nb_readInt32 b = Some (v, False, nb_advance (length (put_le32 v)) b)"
    by (simp add: nb_readInt32_def le32_put)
qed (simp_all add: nb_writeInt32_def nb_write_small, simp add: nb_wf_def nb_write_small nb_writeInt32_def)

interpretation int64: tl_codec nb_writeInt64 nb_readInt64 put_le64 "\<lambda>_. True"
proof unfold_locales
  fix b v t assume "nb_wf b" and "nb_rest b = put_le64 v @ t"
  from nb_read_small [OF this(1) _ this(2), of 8]
  show "nb_readInt64 b = Some (v, False, nb_advance (length (put_le64 v)) b)"
    by (simp add: nb_readInt64_def le64_put)
qed (simp_all add: nb_writeInt64_def nb_write_small, simp add: nb_wf_def nb_write_small nb_writeInt64_def)

interpretation byte1: tl_codec nb_writeByte nb_readByte "\<lambda>v. [v]" "\<lambda>_. True"
proof unfold_locales
  fix b v t assume "nb_wf b" and "nb_rest b = [v] @ t"
  from nb_read_small [OF this(1) _ this(2), of 1]
  show "nb_readByte b = Some (v, False, nb_advance (length [v]) b)"
    by (simp add: nb_readByte_def)
qed (simp_all add: nb_writeByte_def nb_write_small, simp add: nb_wf_def nb_write_small nb_writeByte_def)

interpretation bool4: tl_codec nb_writeBool nb_readBool
  "\<lambda>v. put_le32 (if v then 0x997275b5 else 0xbc799737)" "\<lambda>_. True"
proof unfold_locales
  fix b v t assume b: "nb_wf b" "nb_rest b = put_le32 (if v then 0x997275b5 else 0xbc799737) @ t"
  from int32.read_enc [OF b(1) _ b(2)]
  show "nb_readBool b
      = Some (v, False, nb_advance (length (put_le32 (if v then 0x997275b5 else 0xbc799737))) b)"
    by (simp add: nb_readBool_def nb_readUint32_def)
next
  fix b v assume b: "nb_wf b"
    and room: "unat (nb_position b) + length (put_le32 (if v then 0x997275b5 else 0xbc799737))
      \<le> unat (nb_limit b)"
  have "\<not> calculateSizeOnly b" using b by (simp add: nb_wf_def)
  then show "nb_writeBool v b
      = map_option (Pair False) (nb_store (put_le32 (if v then 0x997275b5 else 0xbc799737)) b)"
    using int32.write_enc [OF b, of "if v then 0x997275b5 else 0xbc799737"] room
    by (cases v) (simp_all add: nb_writeBool_def)
qed (simp_all add: nb_writeBool_def)

lemma nb_write_prefix_store:
  assumes "nb_wf b" and "n < 2147483648"
    and "unat (nb_position b) + length (length_prefix (of_nat n)) \<le> unat (nb_limit b)"
  shows "nb_write_prefix (of_nat n) b = map_option (Pair False) (nb_store (length_prefix (of_nat n)) b)"
proof -
  have "\<not> calculateSizeOnly b" using assms(1) by (simp add: nb_wf_def)
  moreover have "\<not> nb_position b + (if n \<le> 253 then 1 else 4) > nb_limit b"
    using nb_write_small [OF assms(1), of "if n \<le> 253 then 1 else 4"] assms(2,3)
    by (cases "n \<le> 253") (simp_all add: length_prefix_length)
  ultimately show ?thesis
    using assms(2)
    by (cases "n \<le> 253") (simp_all add: nb_write_prefix_def length_prefix_def le_unat_32 unat_of_nat_31)
qed

lemma nb_write_data_store:
  assumes "nb_wf b" and "length d < 2147483648"
    and "unat (nb_position b) + length d \<le> unat (nb_limit b)"
  shows "nb_write_data d 0 (of_nat (length d)) b = map_option (Pair False) (nb_store d b)"
  using nb_write_small [OF assms(1), of "of_nat (length d)"] assms
  by (simp add: nb_write_data_def nb_writeBytesInternal_store unat_of_nat_31 nb_wf_def)

lemma nb_write_padding_store:
  assumes "nb_wf b" and "n < 2147483648"
    and "unat (nb_position b) + tl_pad n \<le> unat (nb_limit b)"
  shows "nb_write_padding (tl_addition (of_nat n)) b
     = map_option (Pair False) (nb_store (replicate (tl_pad n) 0) b)"
  using nb_write_small [OF assms(1), of "tl_addition (of_nat n)"] assms tl_addition_pad [OF assms(2)]
  by (simp add: nb_write_padding_def nb_wf_def)

lemma nb_writeString_store:
  assumes wf: "nb_wf b" and len: "length d < 2147483000"
    and room: "unat (nb_position b) + length (tl_encode d) \<le> unat (nb_limit b)"
  shows "nb_writeString d b = map_option (Pair False) (nb_store (tl_encode d) b)"
proof -
  let ?n = "length d" and ?p = "length_prefix (of_nat (length d))" and ?z = "replicate (tl_pad (length d)) (0 :: byte)"
  have r: "unat (nb_position b) + length ?p + ?n + tl_pad ?n \<le> unat (nb_limit b)"
    using room by (simp add: tl_encode_def)
  then have r1: "unat (nb_position b) + length ?p \<le> unat (nb_limit b)" by simp
  obtain b1 where b1: "nb_store ?p b = Some b1" "nb_wf b1" "nb_limit b1 = nb_limit b"
      "unat (nb_position b1) = unat (nb_position b) + length ?p"
    using nb_store_spec [OF wf r1] by blast
  with r have r2: "unat (nb_position b1) + ?n \<le> unat (nb_limit b1)" by simp
  obtain b2 where b2: "nb_store d b1 = Some b2" "nb_wf b2" "nb_limit b2 = nb_limit b1"
      "unat (nb_position b2) = unat (nb_position b1) + ?n"
    using nb_store_spec [OF b1(2) r2] by blast
  with b1 r have r3: "unat (nb_position b2) + tl_pad ?n \<le> unat (nb_limit b2)" by simp
  have len': "?n < 2147483648" using len by simp
  have 1: "nb_store (d @ ?z) b1 = nb_store ?z b2"
    using nb_store_append [OF b1(2), of d ?z] r b1 b2(1) by simp
  have 2: "nb_store (?p @ d @ ?z) b = nb_store (d @ ?z) b1"
    using nb_store_append [OF wf, of ?p "d @ ?z"] r b1(1) by simp
  show ?thesis
    using nb_write_prefix_store [OF wf len' r1] nb_write_data_store [OF b1(2) len' r2]
      nb_write_padding_store [OF b2(2) len' r3] b1(1) b2(1) 1 2
    by (simp add: nb_writeString_def nb_writeByteArray_def tl_encode_def)
qed

lemma nb_writeString_calc:
  assumes "calculateSizeOnly b" and "length d < 2147483000"
  shows "nb_writeString d b = Some (False, b\<lparr>nb_capacity := nb_capacity b + of_nat (length (tl_encode d))\<rparr>)"
proof -
  have "(of_nat (length (tl_encode d)) :: u32)
      = (if length d \<le> 253 then 1 else 4) + of_nat (length d) + of_nat (tl_pad (length d))"
    by (simp add: length_tl_encode [OF assms(2)])
  then show ?thesis
    using assms tl_addition_pad [of "length d"]
    by (simp add: nb_writeString_def nb_writeByteArray_def nb_write_prefix_def nb_write_data_def
        nb_write_padding_def le_unat_32 unat_of_nat_31 add.assoc)
qed
lemma nb_fetch_within:
  assumes "nb_wf b" and "n \<le> length (nb_rest b)"
  shows "\<not> nb_position b + of_nat n > nb_limit b"
proof -
  have "n < 2147483648" using assms nb_rest_length [OF assms(1)] by (auto simp: nb_wf_def)
  then show ?thesis
    using nb_read_small(1) [OF assms(1), of n "take n (nb_rest b)" "drop n (nb_rest b)"] assms(2) by simp
qed

lemma nb_read_prefix_short:
  assumes wf: "nb_wf b" and rest: "nb_rest b = tl_encode d @ t" and small: "length d \<le> 253"
  shows "nb_read_prefix b = Some (Some (of_nat (length d), tl_addition (of_nat (length d))), nb_advance 1 b)"
proof -
  let ?n = "length d"
  have c: "(ucast (of_nat ?n :: u32) :: byte) = of_nat ?n"
    by (rule bit_word_eqI) (simp add: bit_simps)
  have p: "length_prefix (of_nat ?n) = [of_nat ?n]"
    using small by (simp add: length_prefix_def le_unat_32 unat_of_nat_31 c)
  have rest': "nb_rest b = [of_nat ?n] @ d @ replicate (tl_pad ?n) 0 @ t"
    using rest by (simp add: tl_encode_def p)
  from nb_read_small [OF wf _ rest', of 1]
  have f: "\<not> nb_position b + 1 > nb_limit b" "nb_fetch 1 b = Some ([of_nat ?n], nb_advance 1 b)" by simp_all
  have adv: "nb_wf (nb_advance 1 b)" "nb_rest (nb_advance 1 b) = (d @ replicate (tl_pad ?n) 0) @ t"
    using nb_advance_spec [OF wf, of 1] rest' by simp_all
  have l: "(ucast (of_nat ?n :: byte) :: u32) = of_nat ?n"
    using small by (simp add: unsigned_of_nat take_bit_eq_mod)
  have lt: "\<not> (254 :: u32) \<le> of_nat ?n" using small by (simp add: le_unat_32 unat_of_nat_31)
  have a: "(let a = (of_nat ?n + 1 :: u32) mod 4 in if a \<noteq> 0 then 4 - a else a) = tl_addition (of_nat ?n)"
    using small by (simp add: tl_addition_def le_unat_32 unat_of_nat_31)
  have "\<not> nb_position (nb_advance 1 b) + of_nat (?n + tl_pad ?n) > nb_limit (nb_advance 1 b)"
    by (rule nb_fetch_within [OF adv(1)], subst adv(2)) simp
  then have "\<not> nb_position (nb_advance 1 b) + of_nat ?n + tl_addition (of_nat ?n) > nb_limit (nb_advance 1 b)"
    using small tl_addition_pad(1) [of ?n] by (simp add: add.assoc)
  then show ?thesis using a by (simp add: nb_read_prefix_def f f [unfolded One_nat_def] l lt Let_def)
qed

lemma nb_read_prefix_long:
  assumes wf: "nb_wf b" and rest: "nb_rest b = tl_encode d @ t" and big: "253 < length d" "length d < 16777216"
  shows "nb_read_prefix b = Some (Some (of_nat (length d), tl_addition (of_nat (length d))), nb_advance 4 b)"
proof -
  let ?n = "length d"
  let ?l = "of_nat (length d) :: u32"
  have ul: "unat ?l = ?n" using big by (simp add: unat_of_nat_31)
  have p: "length_prefix ?l = [254] @ [ucast ?l, ucast (drop_bit 8 ?l), ucast (drop_bit 16 ?l)]"
    using big by (simp add: length_prefix_def le_unat_32 ul)
  have rest': "nb_rest b = [254] @ [ucast ?l, ucast (drop_bit 8 ?l), ucast (drop_bit 16 ?l)]
      @ d @ replicate (tl_pad ?n) 0 @ t"
    using rest by (simp add: tl_encode_def p)
  from nb_read_small [OF wf _ rest', of 1]
  have f: "\<not> nb_position b + 1 > nb_limit b" "nb_fetch 1 b = Some ([254], nb_advance 1 b)" by simp_all
  have adv: "nb_wf (nb_advance 1 b)" "nb_rest (nb_advance 1 b)
      = [ucast ?l, ucast (drop_bit 8 ?l), ucast (drop_bit 16 ?l)] @ d @ replicate (tl_pad ?n) 0 @ t"
    using nb_advance_spec [OF wf, of 1] rest' by simp_all
  have f3: "\<not> nb_position (nb_advance 1 b) + 3 > nb_limit (nb_advance 1 b)"
      "nb_fetch 3 (nb_advance 1 b)
        = Some ([ucast ?l, ucast (drop_bit 8 ?l), ucast (drop_bit 16 ?l)], nb_advance 4 b)"
    using nb_read_small [OF adv(1) _ adv(2), of 3] by (simp_all add: nb_advance_def)
  have adv4: "nb_wf (nb_advance 4 b)" "nb_rest (nb_advance 4 b) = (d @ replicate (tl_pad ?n) 0) @ t"
    using nb_advance_spec [OF wf, of 4] rest' by simp_all
  have l: "le24 [ucast ?l, ucast (drop_bit 8 ?l), ucast (drop_bit 16 ?l)] = ?l"
    using big by (intro le24_put) (simp add: ul)
  have a: "(let a = (?l + 4) mod 4 in if a \<noteq> 0 then 4 - a else a) = tl_addition ?l"
    using big by (simp add: tl_addition_def le_unat_32 ul)
  have "\<not> nb_position (nb_advance 4 b) + of_nat (?n + tl_pad ?n) > nb_limit (nb_advance 4 b)"
    by (rule nb_fetch_within [OF adv4(1)]) (simp add: adv4(2))
  then have "\<not> nb_position (nb_advance 4 b) + ?l + tl_addition ?l > nb_limit (nb_advance 4 b)"
    using big tl_addition_pad(1) [of ?n] by (simp add: add.assoc)
  then show ?thesis using a by (simp add: nb_read_prefix_def f f [unfolded One_nat_def] f3 f3 [unfolded One_nat_def] l Let_def)
qed

lemma nb_readString_enc:
  assumes wf: "nb_wf b" and rest: "nb_rest b = tl_encode d @ t" and len: "length d < 16777216"
  shows "nb_readString b = Some (d, False, nb_advance (length (tl_encode d)) b)"
proof -
  let ?n = "length d"
  define k where "k = (if ?n \<le> 253 then 1 else 4 :: nat)"
  have p: "nb_read_prefix b = Some (Some (of_nat ?n, tl_addition (of_nat ?n)), nb_advance k b)"
    using nb_read_prefix_short [OF wf rest] nb_read_prefix_long [OF wf rest] len by (auto simp: k_def)
  have k: "length (length_prefix (of_nat ?n)) = k" using len by (simp add: length_prefix_length k_def)
  have adv: "nb_wf (nb_advance k b)" "nb_rest (nb_advance k b) = d @ replicate (tl_pad ?n) 0 @ t"
    using nb_advance_spec [OF wf, of k] rest k by (simp_all add: tl_encode_def)
  have "nb_fetch ?n (nb_advance k b) = Some (d, nb_advance ?n (nb_advance k b))"
    using nb_read_small(2) [OF adv(1) _ adv(2) refl] len by simp
  then have "mem_read (nb_buffer (nb_advance k b)) (unat (nb_position (nb_advance k b))) ?n = Some d"
    by (auto simp: nb_fetch_def split: option.splits bind_splits)
  then show ?thesis
    using p len tl_addition_pad(1) [of ?n] k
    by (simp add: nb_readString_def unat_of_nat_31 nb_advance_def tl_encode_def add.assoc)
qed

interpretation str: tl_codec nb_writeString nb_readString tl_encode "\<lambda>d. length d < 16777216"
  by unfold_locales (simp_all add: nb_writeString_store nb_writeString_calc nb_readString_enc)

text \<open>
  A message as the serialisers of the native layer produce it: a sequence of typed values,
  written one after the other, and read back by a reader that knows the types. \<open>tl_write\<close> and
  \<open>tl_read\<close> stop at the first error, as the callers that pass an error flag do.
\<close>

datatype tl_value = TInt32 u32 | TInt64 u64 | TByte byte | TBool bool | TString bytes

datatype tl_kind = KInt32 | KInt64 | KByte | KBool | KString

fun tl_kind_of :: "tl_value \<Rightarrow> tl_kind" where
  "tl_kind_of (TInt32 _) = KInt32"
| "tl_kind_of (TInt64 _) = KInt64"
| "tl_kind_of (TByte _) = KByte"
| "tl_kind_of (TBool _) = KBool"
| "tl_kind_of (TString _) = KString"

fun tl_write :: "tl_value \<Rightarrow> native_buffer \<Rightarrow> write_res" where
  "tl_write (TInt32 x) b = nb_writeInt32 x b"
| "tl_write (TInt64 x) b = nb_writeInt64 x b"
| "tl_write (TByte x) b = nb_writeByte x b"
| "tl_write (TBool x) b = nb_writeBool x b"
| "tl_write (TString x) b = nb_writeString x b"

definition read_as :: "('a \<Rightarrow> 'v) \<Rightarrow> 'a read_res \<Rightarrow> 'v read_res" where
  "read_as f r = map_option (apfst f) r"

fun tl_read :: "tl_kind \<Rightarrow> native_buffer \<Rightarrow> tl_value read_res" where
  "tl_read KInt32 b = read_as TInt32 (nb_readInt32 b)"
| "tl_read KInt64 b = read_as TInt64 (nb_readInt64 b)"
| "tl_read KByte b = read_as TByte (nb_readByte b)"
| "tl_read KBool b = read_as TBool (nb_readBool b)"
| "tl_read KString b = read_as TString (nb_readString b)"

fun tl_write_all :: "tl_value list \<Rightarrow> native_buffer \<Rightarrow> write_res" where
  "tl_write_all [] b = Some (False, b)"
| "tl_write_all (v # vs) b = do {
     (e, b') \<leftarrow> tl_write v b;
     if e then Some (True, b') else tl_write_all vs b' }"

fun tl_read_all :: "tl_kind list \<Rightarrow> native_buffer \<Rightarrow> (tl_value list) read_res" where
  "tl_read_all [] b = Some ([], False, b)"
| "tl_read_all (k # ks) b = do {
     (v, e, b') \<leftarrow> tl_read k b;
     if e then Some ([], True, b')
     else do { (vs, e', b'') \<leftarrow> tl_read_all ks b'; Some (v # vs, e', b'') } }"

fun tl_enc :: "tl_value \<Rightarrow> bytes" where
  "tl_enc (TInt32 x) = put_le32 x"
| "tl_enc (TInt64 x) = put_le64 x"
| "tl_enc (TByte x) = [x]"
| "tl_enc (TBool x) = put_le32 (if x then 0x997275b5 else 0xbc799737)"
| "tl_enc (TString x) = tl_encode x"

fun tl_ok :: "tl_value \<Rightarrow> bool" where
  "tl_ok (TString x) = (length x < 16777216)"
| "tl_ok _ = True"

definition tl_size :: "tl_value list \<Rightarrow> nat" where
  "tl_size vs = length (concat (map tl_enc vs))"

lemma tl_value_write:
  assumes "nb_wf b" and "tl_ok v" and "unat (nb_position b) + length (tl_enc v) \<le> unat (nb_limit b)"
  shows "tl_write v b = map_option (Pair False) (nb_store (tl_enc v) b)"
  using assms int32.write_enc [OF assms(1)] int64.write_enc [OF assms(1)] byte1.write_enc [OF assms(1)]
    bool4.write_enc [OF assms(1)] str.write_enc [OF assms(1)]
  by (cases v) simp_all

lemma tl_value_calc:
  assumes "calculateSizeOnly b" and "tl_ok v"
  shows "tl_write v b = Some (False, b\<lparr>nb_capacity := nb_capacity b + of_nat (length (tl_enc v))\<rparr>)"
  using assms int32.calc_enc int64.calc_enc byte1.calc_enc bool4.calc_enc str.calc_enc by (cases v) simp_all

lemma tl_value_read:
  assumes "nb_wf b" and "tl_ok v" and "nb_rest b = tl_enc v @ t"
  shows "tl_read (tl_kind_of v) b = Some (v, False, nb_advance (length (tl_enc v)) b)"
  using assms int32.read_enc [of b] int64.read_enc [of b] byte1.read_enc [of b] bool4.read_enc [of b]
    str.read_enc [of b]
  by (cases v) (simp_all add: read_as_def)

lemma tl_calc_all:
  assumes "calculateSizeOnly b" and "list_all tl_ok vs"
  shows "tl_write_all vs b = Some (False, b\<lparr>nb_capacity := nb_capacity b + of_nat (tl_size vs)\<rparr>)"
  using assms
  by (induction vs arbitrary: b) (simp_all add: tl_size_def tl_value_calc add.assoc)

lemma tl_write_all_store:
  assumes "nb_wf b" and "list_all tl_ok vs" and "unat (nb_position b) + tl_size vs \<le> unat (nb_limit b)"
  shows "tl_write_all vs b = map_option (Pair False) (nb_store (concat (map tl_enc vs)) b)"
  using assms
proof (induction vs arbitrary: b)
  case Nil
  then show ?case by (simp add: nb_store_def nb_wf_def mem_simps)
next
  case (Cons v vs)
  let ?e = "tl_enc v" and ?r = "concat (map tl_enc vs)"
  have r: "unat (nb_position b) + length (?e @ ?r) \<le> unat (nb_limit b)"
    using Cons.prems(3) by (simp add: tl_size_def)
  then have r1: "unat (nb_position b) + length ?e \<le> unat (nb_limit b)" by simp
  obtain b1 where b1: "nb_store ?e b = Some b1" "nb_wf b1" "nb_limit b1 = nb_limit b"
      "unat (nb_position b1) = unat (nb_position b) + length ?e"
    using nb_store_spec [OF Cons.prems(1) r1] by blast
  have "tl_write_all vs b1 = map_option (Pair False) (nb_store ?r b1)"
    using Cons.prems(2) r b1 by (intro Cons.IH) (simp_all add: tl_size_def)
  then show ?case
    using tl_value_write [OF Cons.prems(1) _ r1] Cons.prems(2) b1(1)
      nb_store_append [OF Cons.prems(1) r] by simp
qed

lemma nb_advance_add: "nb_advance n (nb_advance m b) = nb_advance (m + n) b"
  by (simp add: nb_advance_def add.assoc)

lemma tl_read_all_enc:
  assumes "nb_wf b" and "list_all tl_ok vs" and "nb_rest b = concat (map tl_enc vs) @ t"
  shows "tl_read_all (map tl_kind_of vs) b = Some (vs, False, nb_advance (tl_size vs) b)"
  using assms
proof (induction vs arbitrary: b)
  case Nil
  then show ?case by (simp add: nb_advance_def tl_size_def)
next
  case (Cons v vs)
  let ?b = "nb_advance (length (tl_enc v)) b"
  have "nb_wf ?b" "nb_rest ?b = concat (map tl_enc vs) @ t"
    using nb_advance_spec [OF Cons.prems(1), of "length (tl_enc v)"] Cons.prems(3) by simp_all
  with Cons.IH Cons.prems(2)
  have "tl_read_all (map tl_kind_of vs) ?b = Some (vs, False, nb_advance (tl_size vs) ?b)" by simp
  then show ?case
    using tl_value_read [OF Cons.prems(1)] Cons.prems(2,3) by (simp add: nb_advance_add tl_size_def)
qed

lemma NativeByteBuffer_size_wf: "unat n < 2147483648 \<Longrightarrow> nb_wf (NativeByteBuffer_size garb n)"
  by (simp add: nb_wf_def NativeByteBuffer_size_def mem_simps)

text \<open>
  C4. A message sized by the calculator round-trips. For any sequence of values (strings below
  \<open>2 ^ 24\<close> bytes) whose encoding is shorter than \<open>2 ^ 31\<close> bytes: running the serialiser on a size
  calculator and allocating a buffer of the calculated capacity gives a buffer that the same
  serialiser fills exactly to its limit without error, and reading it back from the start
  returns the same values without error and ends at the limit.
\<close>

theorem tl_message_roundtrip:
  assumes "list_all tl_ok vs" and "tl_size vs < 2147483648"
  shows "\<exists>calc b. tl_write_all vs (NativeByteBuffer_calc True) = Some (False, calc)
     \<and> unat (nb_capacity calc) = tl_size vs
     \<and> tl_write_all vs (NativeByteBuffer_size garb (nb_capacity calc)) = Some (False, b)
     \<and> nb_wf b \<and> nb_position b = nb_limit b \<and> nb_limit b = nb_capacity calc
     \<and> nb_buffer b = concat (map tl_enc vs)
     \<and> tl_read_all (map tl_kind_of vs) (nb_rewind b) = Some (vs, False, b)"
proof -
  define n where "n = (of_nat (tl_size vs) :: u32)"
  have un: "unat n = tl_size vs" using assms(2) by (simp add: n_def unat_of_nat_31)
  let ?calc = "(NativeByteBuffer_calc True)\<lparr>nb_capacity := n\<rparr>"
  have c: "tl_write_all vs (NativeByteBuffer_calc True) = Some (False, ?calc)"
    using tl_calc_all [OF _ assms(1), of "NativeByteBuffer_calc True"]
    by (simp add: NativeByteBuffer_calc_def n_def)
  define b0 where "b0 = NativeByteBuffer_size garb n"
  have wf: "nb_wf b0" using NativeByteBuffer_size_wf assms(2) un by (simp add: b0_def)
  have b0: "nb_position b0 = 0" "nb_limit b0 = n" by (simp_all add: b0_def NativeByteBuffer_size_def)
  have room: "unat (nb_position b0) + tl_size vs \<le> unat (nb_limit b0)" by (simp add: b0 un)
  let ?d = "concat (map tl_enc vs)"
  from nb_store_spec [OF wf, of ?d] room obtain b where
    b: "nb_store ?d b0 = Some b" "nb_wf b" "nb_limit b = n" "nb_position b = n"
      "nb_rest (b\<lparr>nb_position := 0\<rparr>) = ?d @ nb_rest b" unfolding n_def tl_size_def b0 by auto
  have buf: "nb_buffer b = ?d"
    using b(1) un by (auto simp: nb_store_def b0_def NativeByteBuffer_size_def mem_simps tl_size_def
        split: option.splits bind_splits if_splits)
  have w: "tl_write_all vs b0 = Some (False, b)" using tl_write_all_store [OF wf assms(1) room] b(1) by simp
  have rw: "nb_wf (nb_rewind b)" using b(2) by (simp add: nb_wf_def nb_rewind_def)
  have rr: "nb_rest (nb_rewind b) = ?d @ nb_rest b" using b(5) by (simp add: nb_rewind_def)
  have "nb_advance (tl_size vs) (nb_rewind b) = b" using b(4) by (simp add: nb_advance_def nb_rewind_def n_def)
  with tl_read_all_enc [OF rw assms(1) rr]
  have "tl_read_all (map tl_kind_of vs) (nb_rewind b) = Some (vs, False, b)" by simp
  with c w [unfolded b0_def] b un buf show ?thesis by auto
qed

theorem tl_message_roundtrip_witness:
  "\<exists>calc b. tl_write_all [TInt32 7, TString [1, 2, 3], TBool True] (NativeByteBuffer_calc True) = Some (False, calc)
     \<and> unat (nb_capacity calc) = 12
     \<and> tl_write_all [TInt32 7, TString [1, 2, 3], TBool True] (NativeByteBuffer_size (\<lambda>_. 0) (nb_capacity calc)) = Some (False, b)
     \<and> tl_read_all [KInt32, KString, KBool] (nb_rewind b) = Some ([TInt32 7, TString [1, 2, 3], TBool True], False, b)"
proof -
  have s: "tl_size [TInt32 7, TString [1, 2, 3], TBool True] = 12"
    by (simp add: tl_size_def length_tl_encode tl_pad_def)
  show ?thesis
    using tl_message_roundtrip [of "[TInt32 7, TString [1, 2, 3], TBool True]" "\<lambda>_. 0"] s by auto
qed

text \<open>
  What a read may do to a buffer: it stays well formed, its bytes, limit and capacity do not
  change, and the position does not move backwards.
\<close>

definition nb_read_frame :: "native_buffer \<Rightarrow> native_buffer \<Rightarrow> bool" where
  "nb_read_frame b b' \<longleftrightarrow> nb_wf b' \<and> nb_buffer b' = nb_buffer b \<and> nb_limit b' = nb_limit b
     \<and> nb_capacity b' = nb_capacity b \<and> unat (nb_position b) \<le> unat (nb_position b')"

definition read_safe :: "(native_buffer \<Rightarrow> 'a read_res) \<Rightarrow> native_buffer \<Rightarrow> bool" where
  "read_safe f b \<longleftrightarrow> (\<exists>v e b'. f b = Some (v, e, b') \<and> nb_read_frame b b')"

section \<open>Memory safety of the readers and writers\<close>

lemma nb_read_frame_refl: "nb_wf b \<Longrightarrow> nb_read_frame b b"
  by (simp add: nb_read_frame_def)

lemma nb_read_frame_trans: "nb_read_frame a b \<Longrightarrow> nb_read_frame b c \<Longrightarrow> nb_read_frame a c"
  by (auto simp: nb_read_frame_def)

lemma nb_fits_rest:
  assumes "nb_wf b" and "n < 2147483648" and "\<not> nb_position b + of_nat n > nb_limit b"
  shows "n \<le> length (nb_rest b)"
proof -
  have "\<not> unat (nb_limit b) < unat (nb_position b) + n"
    using nb_room_iff(1) [OF assms(1), of "of_nat n"] assms(2,3) by (simp add: unat_of_nat_31)
  then show ?thesis by (simp add: nb_rest_length [OF assms(1)])
qed

lemma nb_advance_frame:
  assumes "nb_wf b" and "n \<le> length (nb_rest b)"
  shows "nb_read_frame b (nb_advance n b)"
  using nb_advance_spec [OF assms] by (simp add: nb_read_frame_def nb_advance_def)

lemma nb_fetch_frame:
  assumes "nb_wf b" and "n < 2147483648" and "\<not> nb_position b + of_nat n > nb_limit b"
  shows "\<exists>d b'. nb_fetch n b = Some (d, b') \<and> nb_read_frame b b' \<and> length d = n"
  using nb_fits_rest [OF assms] nb_fetch_spec [OF assms(1)] nb_advance_frame [OF assms(1)] by auto

lemma read_int_safe:
  assumes "nb_wf b" and "n < 2147483648" and "k = of_nat n"
    and "\<And>b. f b = (if nb_position b + k > nb_limit b then Some (z, True, b)
       else do { (d, b') \<leftarrow> nb_fetch n b; Some (g d, False, b') })"
  shows "read_safe f b"
  using nb_fetch_frame [OF assms(1,2)] nb_read_frame_refl [OF assms(1)] assms(3)
  unfolding read_safe_def assms(4) by (cases "nb_position b + k > nb_limit b") force+

lemma le24_bound: "unat (le24 d) < 16777216"
proof -
  have "le24 d = take_bit 24 (le24 d)"
    by (rule bit_word_eqI) (auto simp: le24_def bit_simps dest: bit_imp_le_length)
  also have "unat \<dots> < 16777216" by (simp add: take_bit_eq_mod unat_mod)
  finally show ?thesis .
qed

lemma mod4_addition: "unat (let a = (x :: u32) mod 4 in if a \<noteq> 0 then 4 - a else a) < 4"
proof -
  have a: "unat (x mod 4) < 4" by (simp add: unat_mod)
  show ?thesis
  proof (cases "x mod 4 = 0")
    case False
    then have "0 < unat (x mod 4)" by (metis unat_eq_0 neq0_conv)
    moreover have "unat (4 - x mod 4) = 4 - unat (x mod 4)" using a by (simp add: unat_sub_le)
    ultimately show ?thesis using False by (simp add: Let_def)
  qed simp
qed

lemma prefix_tail_safe:
  assumes wf: "nb_wf b" and l: "unat l < 16777216"
    and r: "r = (let a = (l + sl) mod 4; addition = (if a \<noteq> 0 then 4 - a else a)
              in if nb_position b + l + addition > nb_limit b then Some (None, b)
                 else Some (Some (l, addition), b))"
  shows "r = Some (None, b) \<or>
     (\<exists>a. r = Some (Some (l, a), b) \<and> unat l + unat a \<le> length (nb_rest b) \<and> unat a < 4)"
proof -
  define a where "a = (let a = (l + sl) mod 4 in if a \<noteq> 0 then 4 - a else a)"
  have a: "unat a < 4" unfolding a_def by (rule mod4_addition)
  have la: "l + a = of_nat (unat l + unat a)" by simp
  have "nb_position b + l + a > nb_limit b \<or> unat l + unat a \<le> length (nb_rest b)"
    using nb_fits_rest [OF wf, of "unat l + unat a"] a l by (auto simp: add.assoc)
  then show ?thesis using a unfolding r by (auto simp: a_def Let_def split: if_splits)
qed

lemma nb_read_prefix_safe:
  assumes wf: "nb_wf b"
  shows "\<exists>p b'. nb_read_prefix b = Some (p, b') \<and> nb_read_frame b b'
     \<and> (\<forall>l a. p = Some (l, a) \<longrightarrow> unat l + unat a \<le> length (nb_rest b') \<and> unat a < 4 \<and> unat l < 16777216)"
proof (cases "nb_position b + 1 > nb_limit b")
  case True
  then show ?thesis using nb_read_frame_refl [OF wf] by (simp add: nb_read_prefix_def)
next
  case False
  then obtain d b1 where b1: "nb_fetch 1 b = Some (d, b1)" "nb_read_frame b b1" "length d = 1"
    using nb_fetch_frame [OF wf, of 1] by auto
  define l0 where "l0 = (ucast (d ! 0) :: u32)"
  have wf1: "nb_wf b1" using b1(2) by (simp add: nb_read_frame_def)
  show ?thesis
  proof (cases "254 \<le> l0")
    case long: True
    show ?thesis
    proof (cases "nb_position b1 + 3 > nb_limit b1")
      case True
      then show ?thesis using b1 long False by (simp add: nb_read_prefix_def l0_def)
    next
      case room: False
      then obtain d3 b2 where b2: "nb_fetch 3 b1 = Some (d3, b2)" "nb_read_frame b1 b2"
        using nb_fetch_frame [OF wf1, of 3] by auto
      have wf2: "nb_wf b2" using b2(2) by (simp add: nb_read_frame_def)
      note t = prefix_tail_safe [OF wf2 le24_bound [of d3] refl, of 4]
      show ?thesis
        using t b1 b2 long room False nb_read_frame_trans [OF b1(2) b2(2)] le24_bound [of d3]
        by (fastforce simp: nb_read_prefix_def l0_def [symmetric])
    qed
  next
    case short: False
    have "unat l0 < 16777216" using short by (simp add: le_unat_32)
    note t = prefix_tail_safe [OF wf1 this refl, of 1]
    show ?thesis
      using t b1 short False \<open>unat l0 < 16777216\<close> by (fastforce simp: nb_read_prefix_def l0_def [symmetric])
  qed
qed

lemma prefixed_read_safe:
  assumes wf: "nb_wf b"
    and f: "\<And>b. f b = do {
     (p, b1) \<leftarrow> nb_read_prefix b;
     (case p of
        None \<Rightarrow> Some (z, True, b1)
      | Some (l, addition) \<Rightarrow> do {
          d \<leftarrow> mem_read (nb_buffer b1) (unat (nb_position b1)) (unat l);
          Some (g l d, False, b1\<lparr>nb_position := nb_position b1 + (l + addition)\<rparr>) }) }"
  shows "read_safe f b"
proof -
  obtain p b1 where p: "nb_read_prefix b = Some (p, b1)" "nb_read_frame b b1"
    "\<And>l a. p = Some (l, a) \<Longrightarrow> unat l + unat a \<le> length (nb_rest b1) \<and> unat a < 4 \<and> unat l < 16777216"
    using nb_read_prefix_safe [OF wf] by blast
  have wf1: "nb_wf b1" using p(2) by (simp add: nb_read_frame_def)
  show ?thesis
  proof (cases p)
    case None
    then show ?thesis using p by (auto simp: read_safe_def f)
  next
    case (Some la)
    obtain l a where la: "la = (l, a)" by (cases la)
    have n: "unat l + unat a \<le> length (nb_rest b1)" using p(3) Some la by blast
    then have "unat (nb_position b1) + unat l \<le> length (nb_buffer b1)"
      using nb_rest_length [OF wf1] wf1 by (auto simp: nb_wf_def)
    then have "\<exists>d. mem_read (nb_buffer b1) (unat (nb_position b1)) (unat l) = Some d" by (simp add: mem_simps)
    moreover have "nb_read_frame b (b1\<lparr>nb_position := nb_position b1 + (l + a)\<rparr>)"
      using nb_read_frame_trans [OF p(2) nb_advance_frame [OF wf1 n]] by (simp add: nb_advance_def)
    ultimately show ?thesis using p Some la by (auto simp: read_safe_def f)
  qed
qed

lemma nb_readBool_safe: "nb_wf b \<Longrightarrow> read_safe nb_readInt32 b \<Longrightarrow> read_safe nb_readBool b"
  by (auto simp: read_safe_def nb_readBool_def nb_readUint32_def split: if_splits)

lemma readBytes_fits:
  assumes wf: "nb_wf b" and "\<not> len > nb_limit b - nb_position b"
  shows "unat len \<le> length (nb_rest b)" and "unat (nb_position b) + unat len \<le> length (nb_buffer b)"
proof -
  have "unat (nb_limit b - nb_position b) = unat (nb_limit b) - unat (nb_position b)"
    using wf by (intro unat_sub_le) (simp add: nb_wf_def)
  then show "unat len \<le> length (nb_rest b)"
    using assms by (simp add: nb_rest_length less_unat_32)
  then show "unat (nb_position b) + unat len \<le> length (nb_buffer b)"
    using wf by (auto simp: nb_rest_length nb_wf_def)
qed

lemma nb_readBytes_safe:
  assumes wf: "nb_wf b"
  shows "read_safe (nb_readBytes len) b" and "read_safe (nb_readBytes_ba len) b"
proof -
  have f: "nb_read_frame b (b\<lparr>nb_position := nb_position b + len\<rparr>)" if "\<not> len > nb_limit b - nb_position b"
    using nb_advance_frame [OF wf readBytes_fits(1) [OF wf that]] by (simp add: nb_advance_def)
  show "read_safe (nb_readBytes len) b" and "read_safe (nb_readBytes_ba len) b"
    using f readBytes_fits(2) [OF wf] nb_read_frame_refl [OF wf]
    by (auto simp: read_safe_def nb_readBytes_def nb_readBytes_ba_def mem_simps)
qed

lemma nb_readByteBuffer_slice_safe:
  assumes wf: "nb_wf b"
  shows "\<exists>r e b'. nb_readByteBuffer_slice b = Some (r, e, b') \<and> nb_read_frame b b'
     \<and> (\<forall>s. r = Some s \<longrightarrow> nb_wf s)"
proof -
  obtain p b1 where p: "nb_read_prefix b = Some (p, b1)" "nb_read_frame b b1"
    "\<And>l a. p = Some (l, a) \<Longrightarrow> unat l + unat a \<le> length (nb_rest b1) \<and> unat a < 4 \<and> unat l < 16777216"
    using nb_read_prefix_safe [OF wf] by blast
  have wf1: "nb_wf b1" using p(2) by (simp add: nb_read_frame_def)
  show ?thesis
  proof (cases p)
    case None
    then show ?thesis using p by (auto simp: nb_readByteBuffer_slice_def)
  next
    case (Some la)
    obtain l a where la: "la = (l, a)" by (cases la)
    have n: "unat l + unat a \<le> length (nb_rest b1)" "unat l < 16777216" using p(3) Some la by blast+
    then have "nb_wf (NativeByteBuffer_wrap (drop (unat (nb_position b1)) (nb_buffer b1)) l)"
      using nb_rest_length [OF wf1] wf1 by (auto simp: nb_wf_def NativeByteBuffer_wrap_def)
    moreover have "nb_read_frame b (b1\<lparr>nb_position := nb_position b1 + (l + a)\<rparr>)"
      using nb_read_frame_trans [OF p(2) nb_advance_frame [OF wf1 n(1)]] by (simp add: nb_advance_def)
    ultimately show ?thesis using p Some la by (auto simp: nb_readByteBuffer_slice_def)
  qed
qed

text \<open>
  C5. Reading is memory safe whatever the bytes are. On a well-formed buffer every read
  operation (integers, booleans, raw bytes of any requested length, strings, byte arrays and
  buffer slices with any length prefix) accesses only bytes of the buffer, and leaves the
  buffer well formed with the same bytes, limit and capacity and a position that has not
  moved backwards, on the error paths too; a slice it returns is well formed itself.
\<close>

theorem nb_reads_memory_safe:
  assumes "nb_wf b"
  shows "read_safe nb_readInt32 b \<and> read_safe nb_readBigInt32 b \<and> read_safe nb_readInt64 b
     \<and> read_safe nb_readByte b \<and> read_safe nb_readBool b
     \<and> read_safe (nb_readBytes len) b \<and> read_safe (nb_readBytes_ba len) b
     \<and> read_safe nb_readString b \<and> read_safe nb_readByteArray b
     \<and> (\<exists>r e b'. nb_readByteBuffer_slice b = Some (r, e, b') \<and> nb_read_frame b b'
          \<and> (\<forall>s. r = Some s \<longrightarrow> nb_wf s))"
proof (intro conjI)
  show i: "read_safe nb_readInt32 b"
    by (rule read_int_safe [OF assms, of 4 4]) (simp_all add: nb_readInt32_def)
  show "read_safe nb_readBool b" by (rule nb_readBool_safe [OF assms i])
  show "read_safe nb_readBigInt32 b"
    by (rule read_int_safe [OF assms, of 4 4]) (simp_all add: nb_readBigInt32_def)
  show "read_safe nb_readInt64 b"
    by (rule read_int_safe [OF assms, of 8 8]) (simp_all add: nb_readInt64_def)
  show "read_safe nb_readByte b"
    by (rule read_int_safe [OF assms, of 1 1]) (simp_all add: nb_readByte_def)
  show "read_safe nb_readString b"
    by (rule prefixed_read_safe [OF assms]) (simp add: nb_readString_def)
  show "read_safe nb_readByteArray b"
    by (rule prefixed_read_safe [OF assms]) (simp add: nb_readByteArray_def)
qed (rule nb_readBytes_safe [OF assms] nb_readByteBuffer_slice_safe [OF assms])+

theorem nb_reads_memory_safe_witness:
  "nb_wf (NativeByteBuffer_wrap [254, 255, 255, 255, 9] 5)
   \<and> read_safe nb_readString (NativeByteBuffer_wrap [254, 255, 255, 255, 9] 5)"
proof -
  have "nb_wf (NativeByteBuffer_wrap [254, 255, 255, 255, 9] 5)"
    by (simp add: nb_wf_def NativeByteBuffer_wrap_def)
  then show ?thesis using nb_reads_memory_safe [of "NativeByteBuffer_wrap [254, 255, 255, 255, 9] 5"] by blast
qed

text \<open>
  When \<open>writeBytes(b, length)\<close> is memory safe. On a well-formed buffer whose memory is
  smaller than \<open>2 ^ 32\<close> bytes, with a source that holds the requested bytes, the call goes out
  of bounds exactly when the position plus the length reaches \<open>2 ^ 32\<close>: the limit check adds in
  32 bits, so such a length passes it. Below that bound the call either reports an error and
  changes nothing, when the limit is exceeded, or stores the bytes and advances.
\<close>

lemma nb_writeBytes_safe_iff:
  assumes wf: "nb_wf b" and mem: "length (nb_buffer b) < 4294967296" and src: "unat len \<le> length src"
  shows "(nb_writeBytes src len b = None \<longleftrightarrow> unat (nb_position b) + unat len \<ge> 4294967296)
     \<and> (unat (nb_position b) + unat len < 4294967296 \<longrightarrow>
        nb_writeBytes src len b =
          (if unat (nb_limit b) < unat (nb_position b) + unat len then Some (True, b)
           else map_option (Pair False) (nb_store (take (unat len) src) b)))"
proof -
  let ?p = "unat (nb_position b)" and ?l = "unat len"
  have c: "\<not> calculateSizeOnly b" using wf by (simp add: nb_wf_def)
  have w: "nb_writeBytesInternal src 0 len b = nb_store (take ?l src) b"
    using src by (simp add: nb_writeBytesInternal_def nb_store_def mem_simps min_def)
  show ?thesis
  proof (cases "?p + ?l < 4294967296")
    case True
    then have u: "unat (nb_position b + len) = ?p + ?l" by (rule unat_add_fits_32)
    have "nb_store (take ?l src) b \<noteq> None" if "\<not> unat (nb_limit b) < ?p + ?l"
      using nb_store_spec [OF wf, of "take ?l src"] that src by auto
    then show ?thesis using True c w u by (auto simp: nb_writeBytes_def less_unat_32)
  next
    case False
    then have "unat (nb_position b + len) = ?p + ?l - 4294967296" by (simp add: unat_add_wrap_32)
    then have "unat (nb_position b + len) \<le> ?p" using unat_lt_32 [of len] by linarith
    then have "\<not> nb_position b + len > nb_limit b" using wf by (auto simp: nb_wf_def less_unat_32)
    moreover have "nb_store (take ?l src) b = None"
      using False mem src by (simp add: nb_store_def mem_write_def min_def)
    ultimately show ?thesis using False c w by (simp add: nb_writeBytes_def)
  qed
qed

end
