(* ===== verification/Buffers_Storage.thy ===== *)
theory Buffers_Storage
  imports Native_Byte_Buffer
begin

text \<open>
  \<^verbatim>\<open>src/ptp_net/BuffersStorage.h\<close> and \<^verbatim>\<open>src/ptp_net/BuffersStorage.cpp\<close>: the pool that hands
  out and takes back \<open>NativeByteBuffer\<close> objects in seven size classes, and the operations of
  \<^verbatim>\<open>src/ptp_net/NativeByteBuffer.cpp\<close> that go through it (\<open>readByteBuffer(true)\<close>, \<open>copy\<close>,
  \<open>reuse\<close>).

  Buffers are objects with identity here: an explicit heap maps addresses to buffers, \<open>new\<close>
  takes the next unused address and \<open>delete\<close> removes one. The mutex makes \<open>getFreeBuffer\<close> and
  \<open>reuseFreeBuffer\<close> atomic on the vectors, so a concurrent run is some sequence of them.
\<close>

section \<open>State\<close>

datatype size_class = Free8 | Free128 | Free1024 | Free4096 | Free16384 | Free32768 | FreeBig

type_synonym addr = nat

record buffers_storage =
  bst_heap :: "addr \<rightharpoonup> native_buffer"
  bst_next :: addr
  bst_free :: "size_class \<Rightarrow> addr list"
  isThreadSafe :: bool

definition bst_new :: "(nat \<Rightarrow> byte) \<Rightarrow> u32 \<Rightarrow> buffers_storage \<Rightarrow> addr \<times> buffers_storage" where
  "bst_new garb n s =
     (bst_next s, s\<lparr>bst_heap := (bst_heap s)(bst_next s \<mapsto> NativeByteBuffer_size garb n),
                    bst_next := bst_next s + 1\<rparr>)"

definition bst_delete :: "addr \<Rightarrow> buffers_storage \<Rightarrow> buffers_storage" where
  "bst_delete p s = s\<lparr>bst_heap := (bst_heap s)(p := None)\<rparr>"

definition bst_push :: "size_class \<Rightarrow> addr \<Rightarrow> buffers_storage \<Rightarrow> buffers_storage" where
  "bst_push k p s = s\<lparr>bst_free := (bst_free s)(k := bst_free s k @ [p])\<rparr>"

fun bst_prefill :: "(nat \<Rightarrow> byte) \<Rightarrow> nat \<Rightarrow> size_class \<Rightarrow> u32 \<Rightarrow> buffers_storage \<Rightarrow> buffers_storage" where
  "bst_prefill garb 0 k n s = s"
| "bst_prefill garb (Suc c) k n s =
     bst_prefill garb c k n (let (p, s') = bst_new garb n s in bst_push k p s')"

definition BuffersStorage :: "(nat \<Rightarrow> byte) \<Rightarrow> bool \<Rightarrow> buffers_storage" where
  "BuffersStorage garb threadSafe =
     bst_prefill garb 5 Free128 128 (bst_prefill garb 4 Free8 8
       \<lparr>bst_heap = Map.empty, bst_next = 0, bst_free = (\<lambda>_. []), isThreadSafe = threadSafe\<rparr>)"

section \<open>Operations\<close>

text \<open>The branches of \<open>getFreeBuffer\<close> that choose the vector and \<open>byteCount\<close>.\<close>

definition class_for_size :: "u32 \<Rightarrow> (size_class \<times> u32) option" where
  "class_for_size sz =
     (if sz \<le> 8 then Some (Free8, 8)
      else if sz \<le> 128 then Some (Free128, 128)
      else if sz \<le> 1024 + 200 then Some (Free1024, 1024 + 200)
      else if sz \<le> 4096 + 200 then Some (Free4096, 4096 + 200)
      else if sz \<le> 16384 + 200 then Some (Free16384, 16384 + 200)
      else if sz \<le> 40000 then Some (Free32768, 40000)
      else if sz \<le> 160000 then Some (FreeBig, 160000)
      else None)"

text \<open>The branches of \<open>reuseFreeBuffer\<close> that choose the vector and \<open>maxCount\<close>.\<close>

definition class_for_capacity :: "u32 \<Rightarrow> (size_class \<times> nat) option" where
  "class_for_capacity capacity =
     (if capacity = 8 then Some (Free8, 80)
      else if capacity = 128 then Some (Free128, 80)
      else if capacity = 1024 + 200 then Some (Free1024, 10)
      else if capacity = 4096 + 200 then Some (Free4096, 10)
      else if capacity = 16384 + 200 then Some (Free16384, 10)
      else if capacity = 40000 then Some (Free32768, 10)
      else if capacity = 160000 then Some (FreeBig, 10)
      else None)"

definition bst_obtain ::
  "(nat \<Rightarrow> byte) \<Rightarrow> u32 \<Rightarrow> buffers_storage \<Rightarrow> addr \<times> buffers_storage" where
  "bst_obtain garb sz s =
     (case class_for_size sz of
        None \<Rightarrow> bst_new garb sz s
      | Some (k, byteCount) \<Rightarrow>
          (case bst_free s k of
             p # ps \<Rightarrow> (p, s\<lparr>bst_free := (bst_free s)(k := ps)\<rparr>)
           | [] \<Rightarrow> bst_new garb byteCount s))"

text \<open>\<open>None\<close> stands for the use of a buffer that is not allocated.\<close>

definition getFreeBuffer ::
  "(nat \<Rightarrow> byte) \<Rightarrow> u32 \<Rightarrow> buffers_storage \<Rightarrow> (addr \<times> buffers_storage) option" where
  "getFreeBuffer garb sz s =
     (let (p, s') = bst_obtain garb sz s
      in do {
        b \<leftarrow> bst_heap s' p;
        Some (p, s'\<lparr>bst_heap := (bst_heap s')(p \<mapsto> nb_rewind (nb_set_limit sz b))\<rparr>) })"

definition reuseFreeBuffer :: "addr option \<Rightarrow> buffers_storage \<Rightarrow> buffers_storage option" where
  "reuseFreeBuffer buffer s =
     (case buffer of
        None \<Rightarrow> Some s
      | Some p \<Rightarrow> do {
          b \<leftarrow> bst_heap s p;
          Some (case class_for_capacity (nb_capacity b) of
                  None \<Rightarrow> bst_delete p s
                | Some (k, maxCount) \<Rightarrow>
                    if length (bst_free s k) < maxCount then bst_push k p s else bst_delete p s) })"

text \<open>\<open>NativeByteBuffer::reuse\<close>: a slice is left alone.\<close>

definition nb_reuse :: "addr \<Rightarrow> buffers_storage \<Rightarrow> buffers_storage option" where
  "nb_reuse p s = do {
     b \<leftarrow> bst_heap s p;
     if sliced b then Some s else reuseFreeBuffer (Some p) s }"

text \<open>\<open>copy(length)\<close>, with the bytes of the copied buffer as an argument.\<close>

definition nb_copy ::
  "(nat \<Rightarrow> byte) \<Rightarrow> u32 \<Rightarrow> native_buffer \<Rightarrow> buffers_storage \<Rightarrow> (addr \<times> buffers_storage) option" where
  "nb_copy garb len b s = do {
     (p, s1) \<leftarrow> getFreeBuffer garb len s;
     r \<leftarrow> bst_heap s1 p;
     d \<leftarrow> mem_read (nb_buffer b) 0 (unat len);
     m \<leftarrow> mem_write (nb_buffer r) 0 d;
     Some (p, s1\<lparr>bst_heap := (bst_heap s1)(p \<mapsto> r\<lparr>nb_buffer := m\<rparr>)\<rparr>) }"

text \<open>\<open>readByteBuffer(true)\<close>.\<close>

definition nb_readByteBuffer_copy ::
  "(nat \<Rightarrow> byte) \<Rightarrow> native_buffer \<Rightarrow> buffers_storage \<Rightarrow>
   (addr option \<times> bool \<times> native_buffer \<times> buffers_storage) option" where
  "nb_readByteBuffer_copy garb b s = do {
     (q, b1) \<leftarrow> nb_read_prefix b;
     (case q of
        None \<Rightarrow> Some (None, True, b1, s)
      | Some (l, addition) \<Rightarrow> do {
          (p, s1) \<leftarrow> getFreeBuffer garb l s;
          r \<leftarrow> bst_heap s1 p;
          d \<leftarrow> mem_read (nb_buffer b1) (unat (nb_position b1)) (unat l);
          m \<leftarrow> mem_write (nb_buffer r) 0 d;
          Some (Some p, False, b1\<lparr>nb_position := nb_position b1 + (l + addition)\<rparr>,
                s1\<lparr>bst_heap := (bst_heap s1)(p \<mapsto> r\<lparr>nb_buffer := m\<rparr>)\<rparr>) }) }"

section \<open>Invariant\<close>

fun class_capacity :: "size_class \<Rightarrow> nat" where
  "class_capacity Free8 = 8"
| "class_capacity Free128 = 128"
| "class_capacity Free1024 = 1224"
| "class_capacity Free4096 = 4296"
| "class_capacity Free16384 = 16584"
| "class_capacity Free32768 = 40000"
| "class_capacity FreeBig = 160000"

fun class_max :: "size_class \<Rightarrow> nat" where
  "class_max Free8 = 80"
| "class_max Free128 = 80"
| "class_max _ = 10"

text \<open>
  A buffer that may sit in a free list of capacity \<open>c\<close>, and the pool invariant: every pooled
  buffer is allocated, owns memory of exactly its class, is in one list once, and the lists
  respect their maximum. \<open>owned\<close> are the buffers handed out and not yet given back: they are
  allocated, own the memory their capacity promises and are in no list.
\<close>

definition pool_buffer :: "native_buffer \<Rightarrow> bool" where
  "pool_buffer b \<longleftrightarrow> \<not> calculateSizeOnly b \<and> \<not> sliced b \<and> length (nb_buffer b) = unat (nb_capacity b)"

definition bst_wf :: "addr set \<Rightarrow> buffers_storage \<Rightarrow> bool" where
  "bst_wf owned s \<longleftrightarrow>
     (\<forall>p b. bst_heap s p = Some b \<longrightarrow> p < bst_next s \<and> pool_buffer b)
     \<and> (\<forall>k. distinct (bst_free s k) \<and> length (bst_free s k) \<le> class_max k
          \<and> (\<forall>p \<in> set (bst_free s k). p \<notin> owned
               \<and> (\<exists>b. bst_heap s p = Some b \<and> unat (nb_capacity b) = class_capacity k)))
     \<and> owned \<subseteq> dom (bst_heap s)"

text \<open>A client of the pool: a sequence of requests and returns.\<close>

datatype pool_op = PGet u32 | PPut addr

fun pool_step ::
  "(nat \<Rightarrow> byte) \<Rightarrow> pool_op \<Rightarrow> addr set \<times> buffers_storage \<Rightarrow> (addr set \<times> buffers_storage) option" where
  "pool_step garb (PGet sz) (owned, s) = do {
     (p, s') \<leftarrow> getFreeBuffer garb sz s;
     Some (insert p owned, s') }"
| "pool_step garb (PPut p) (owned, s) =
     (if p \<in> owned then do { s' \<leftarrow> reuseFreeBuffer (Some p) s; Some (owned - {p}, s') }
      else Some (owned, s))"

fun pool_run ::
  "(nat \<Rightarrow> byte) \<Rightarrow> pool_op list \<Rightarrow> addr set \<times> buffers_storage \<Rightarrow> (addr set \<times> buffers_storage) option" where
  "pool_run garb [] os = Some os"
| "pool_run garb (x # xs) os = do { os' \<leftarrow> pool_step garb x os; pool_run garb xs os' }"

definition buffer_for :: "u32 \<Rightarrow> native_buffer \<Rightarrow> bool" where
  "buffer_for sz b \<longleftrightarrow> pool_buffer b \<and> sz \<le> nb_capacity b \<and> nb_limit b = sz \<and> nb_position b = 0"

section \<open>The size classes\<close>

lemma class_for_size_spec:
  assumes "class_for_size sz = Some (k, n)"
  shows "unat n = class_capacity k" and "sz \<le> n" and "unat n < 2147483648"
  using assms by (auto simp: class_for_size_def split: if_splits)

lemma class_for_capacity_spec:
  assumes "class_for_capacity c = Some (k, m)"
  shows "unat c = class_capacity k" and "m = class_max k"
  using assms by (auto simp: class_for_capacity_def split: if_splits)

text \<open>What \<open>getFreeBuffer\<close> allocates, \<open>reuseFreeBuffer\<close> files under the same class.\<close>

lemma class_capacity_inj: "class_capacity j = class_capacity k \<Longrightarrow> j = k"
  by (cases j; cases k) simp_all

lemma pool_buffer_new: "pool_buffer (NativeByteBuffer_size garb n)"
  by (simp add: pool_buffer_def NativeByteBuffer_size_def mem_simps)

lemma pool_buffer_cursor: "pool_buffer (nb_rewind (nb_set_limit n b)) = pool_buffer b"
  "nb_capacity (nb_rewind (nb_set_limit n b)) = nb_capacity b"
  "nb_buffer (nb_rewind (nb_set_limit n b)) = nb_buffer b"
  by (simp_all add: pool_buffer_def nb_rewind_def nb_set_limit_def)

lemma bst_wf_free:
  assumes "bst_wf ow s" and "p \<in> set (bst_free s k)"
  obtains b where "bst_heap s p = Some b" "unat (nb_capacity b) = class_capacity k" "pool_buffer b" "p \<notin> ow"
proof -
  from assms obtain b where b: "bst_heap s p = Some b" "unat (nb_capacity b) = class_capacity k" "p \<notin> ow"
    unfolding bst_wf_def by blast
  moreover have "pool_buffer b" using assms(1) b(1) unfolding bst_wf_def by blast
  ultimately show thesis using that by blast
qed

lemma bst_wf_one_class:
  assumes "bst_wf ow s" and "p \<in> set (bst_free s j)" and "p \<in> set (bst_free s k)"
  shows "j = k"
proof -
  from bst_wf_free [OF assms(1,2)] obtain b where b: "bst_heap s p = Some b" "unat (nb_capacity b) = class_capacity j"
    by metis
  from bst_wf_free [OF assms(1,3)] b have "class_capacity j = class_capacity k" by (metis option.inject)
  then show ?thesis by (rule class_capacity_inj)
qed

text \<open>The heap update of a buffer keeps the invariant when class and shape are kept.\<close>

lemma bst_wf_update:
  assumes wf: "bst_wf ow s" and p: "bst_heap s p = Some b" and b': "pool_buffer b'" "nb_capacity b' = nb_capacity b"
  shows "bst_wf ow (s\<lparr>bst_heap := (bst_heap s)(p \<mapsto> b')\<rparr>)"
proof -
  have "\<exists>c. ((bst_heap s)(p \<mapsto> b')) q = Some c \<and> unat (nb_capacity c) = class_capacity k"
    if "q \<in> set (bst_free s k)" for q k
    using bst_wf_free [OF wf that] p b' by (metis fun_upd_apply option.inject)
  then show ?thesis
    using wf p b'(1) by (auto simp: bst_wf_def dest: spec)
qed

lemma bst_wf_new:
  assumes wf: "bst_wf ow s"
  shows "bst_wf (insert (bst_next s) ow) (snd (bst_new garb n s))"
    and "bst_heap s (bst_next s) = None" and "bst_next s \<notin> ow"
    and "\<forall>k. bst_next s \<notin> set (bst_free s k)"
proof -
  show fresh: "bst_heap s (bst_next s) = None"
    using wf unfolding bst_wf_def by (metis less_irrefl not_None_eq)
  then show "bst_next s \<notin> ow" using wf unfolding bst_wf_def by blast
  show notfree: "\<forall>k. bst_next s \<notin> set (bst_free s k)"
    using bst_wf_free [OF wf] fresh by (metis option.distinct(1))
  have "p \<noteq> bst_next s" if "p \<in> set (bst_free s k)" for p k using notfree that by metis
  then show "bst_wf (insert (bst_next s) ow) (snd (bst_new garb n s))"
    using wf pool_buffer_new [of garb n]
    by (auto simp: bst_wf_def bst_new_def less_Suc_eq dest: spec)
qed

lemma bst_wf_insert:
  assumes "bst_wf ow s" and "\<And>k. p \<notin> set (bst_free s k)" and "bst_heap s p \<noteq> None"
  shows "bst_wf (insert p ow) s"
proof -
  have "q \<noteq> p" if "q \<in> set (bst_free s k)" for q k using assms(2) that by metis
  then show ?thesis using assms(1,3) unfolding bst_wf_def by blast
qed

lemma bst_obtain_spec:
  assumes wf: "bst_wf ow s" and "bst_obtain garb sz s = (p, s')"
  shows "bst_wf (insert p ow) s' \<and> p \<notin> ow
     \<and> (\<exists>b. bst_heap s' p = Some b \<and> pool_buffer b \<and> sz \<le> nb_capacity b)
     \<and> (\<forall>q. q \<noteq> p \<longrightarrow> bst_heap s' q = bst_heap s q)"
proof -
  have new: ?thesis if "bst_new garb n s = (p, s')" "sz \<le> n" for n
    using that bst_wf_new(1) [OF wf, of garb n] bst_wf_new(2-4) [OF wf] pool_buffer_new [of garb n]
    by (auto simp: bst_new_def NativeByteBuffer_size_def)
  show ?thesis
  proof (cases "class_for_size sz")
    case None
    then show ?thesis using assms(2) by (intro new [of sz]) (simp_all add: bst_obtain_def)
  next
    case (Some kn)
    obtain k n where kn: "kn = (k, n)" by (cases kn)
    note c = class_for_size_spec [OF Some [unfolded kn]]
    show ?thesis
    proof (cases "bst_free s k")
      case Nil
      then show ?thesis using assms(2) Some kn c(2) by (intro new [of n]) (simp_all add: bst_obtain_def)
    next
      case (Cons q qs)
      then have r: "q = p" "s' = s\<lparr>bst_free := (bst_free s)(k := qs)\<rparr>"
        using assms(2) Some kn by (simp_all add: bst_obtain_def)
      have p: "p \<in> set (bst_free s k)" using Cons r by simp
      then obtain b where b: "bst_heap s p = Some b" "unat (nb_capacity b) = class_capacity k" "pool_buffer b" "p \<notin> ow"
        using bst_wf_free [OF wf] by metis
      have "sz \<le> nb_capacity b" using c b(2) by (simp add: word_le_nat_alt)
      moreover have "p \<notin> set (bst_free s' j)" for j
      proof (cases "j = k")
        case True
        have "distinct (bst_free s k)" using wf by (simp add: bst_wf_def)
        then show ?thesis using True Cons r by simp
      next
        case False
        then show ?thesis using bst_wf_one_class [OF wf p] r by auto
      qed
      moreover have "bst_wf ow s'"
      proof -
        have "distinct (p # qs) \<and> length (p # qs) \<le> class_max k \<and> (\<forall>q \<in> set (p # qs). q \<notin> ow
            \<and> (\<exists>b. bst_heap s q = Some b \<and> unat (nb_capacity b) = class_capacity k))"
          using wf Cons r(1) unfolding bst_wf_def by metis
        then show ?thesis using wf r by (auto simp: bst_wf_def)
      qed
      ultimately show ?thesis using b r bst_wf_insert [of ow s' p] by auto
    qed
  qed
qed

lemma getFreeBuffer_spec:
  assumes wf: "bst_wf ow s"
  shows "\<exists>p s' b. getFreeBuffer garb sz s = Some (p, s') \<and> p \<notin> ow \<and> bst_wf (insert p ow) s'
     \<and> bst_heap s' p = Some b \<and> pool_buffer b \<and> sz \<le> nb_capacity b
     \<and> nb_limit b = sz \<and> nb_position b = 0 \<and> (\<forall>q. q \<noteq> p \<longrightarrow> bst_heap s' q = bst_heap s q)"
proof -
  obtain p s1 where o: "bst_obtain garb sz s = (p, s1)" by (cases "bst_obtain garb sz s")
  from bst_obtain_spec [OF wf o] obtain b where
    b: "bst_wf (insert p ow) s1" "p \<notin> ow" "bst_heap s1 p = Some b" "pool_buffer b" "sz \<le> nb_capacity b"
      "\<forall>q. q \<noteq> p \<longrightarrow> bst_heap s1 q = bst_heap s q" by blast
  let ?b = "nb_rewind (nb_set_limit sz b)"
  have "getFreeBuffer garb sz s = Some (p, s1\<lparr>bst_heap := (bst_heap s1)(p \<mapsto> ?b)\<rparr>)"
    using o b(3) by (simp add: getFreeBuffer_def)
  moreover have "bst_wf (insert p ow) (s1\<lparr>bst_heap := (bst_heap s1)(p \<mapsto> ?b)\<rparr>)"
    using b by (intro bst_wf_update [OF b(1,3)]) (simp_all add: pool_buffer_cursor)
  moreover have "nb_limit ?b = sz" "nb_position ?b = 0"
    using b(5) by (simp_all add: nb_rewind_def nb_set_limit_def leD)
  ultimately show ?thesis using b by (auto simp: pool_buffer_cursor)
qed

lemma bst_delete_wf:
  assumes "bst_wf ow s" and "p \<in> ow"
  shows "bst_wf (ow - {p}) (bst_delete p s)"
proof -
  have "p \<notin> set (bst_free s k)" for k using assms by (auto simp: bst_wf_def)
  then have "q \<noteq> p" if "q \<in> set (bst_free s k)" for q k using that by metis
  then show ?thesis using assms by (auto simp: bst_wf_def bst_delete_def)
qed

lemma bst_push_wf:
  assumes wf: "bst_wf ow s" and "p \<in> ow" and b: "bst_heap s p = Some b" "unat (nb_capacity b) = class_capacity k"
    and "length (bst_free s k) < class_max k"
  shows "bst_wf (ow - {p}) (bst_push k p s)"
proof -
  have "p \<notin> set (bst_free s j)" for j using assms by (auto simp: bst_wf_def)
  then show ?thesis using assms by (auto simp: bst_wf_def bst_push_def)
qed

lemma reuseFreeBuffer_spec:
  assumes wf: "bst_wf ow s" and p: "p \<in> ow"
  shows "\<exists>s'. reuseFreeBuffer (Some p) s = Some s' \<and> bst_wf (ow - {p}) s'
     \<and> (\<forall>q. q \<noteq> p \<longrightarrow> bst_heap s' q = bst_heap s q)"
proof -
  obtain b where b: "bst_heap s p = Some b" using wf p by (auto simp: bst_wf_def)
  note del = bst_delete_wf [OF wf p]
  show ?thesis
  proof (cases "class_for_capacity (nb_capacity b)")
    case None
    then show ?thesis using b del by (simp add: reuseFreeBuffer_def bst_delete_def)
  next
    case (Some km)
    obtain k m where km: "km = (k, m)" by (cases km)
    note c = class_for_capacity_spec [OF Some [unfolded km]]
    from bst_push_wf [OF wf p b c(1)] del c(2) show ?thesis
      using b Some km by (auto simp: reuseFreeBuffer_def bst_delete_def bst_push_def)
  qed
qed

text \<open>
  The contract of a pool, as its clients see it: what a request promises about the buffer it
  returns and what a return keeps. No two buffers handed out are the same object.
\<close>

locale object_pool =
  fixes inv :: "'p set \<Rightarrow> 's \<Rightarrow> bool" and view :: "'s \<Rightarrow> 'p \<Rightarrow> 'b option"
    and request :: "'q \<Rightarrow> 's \<Rightarrow> ('p \<times> 's) option" and give_back :: "'p \<Rightarrow> 's \<Rightarrow> 's option"
    and good :: "'q \<Rightarrow> 'b \<Rightarrow> bool"
  assumes request_ok: "inv ow s \<Longrightarrow> \<exists>p s' b. request q s = Some (p, s') \<and> p \<notin> ow \<and> inv (insert p ow) s'
       \<and> view s' p = Some b \<and> good q b \<and> (\<forall>r. r \<noteq> p \<longrightarrow> view s' r = view s r)"
    and give_back_ok: "inv ow s \<Longrightarrow> p \<in> ow \<Longrightarrow> \<exists>s'. give_back p s = Some s' \<and> inv (ow - {p}) s'
       \<and> (\<forall>r. r \<noteq> p \<longrightarrow> view s' r = view s r)"
begin

lemma two_requests_distinct:
  assumes "inv ow s" and "request q s = Some (p, s')" and "request r s' = Some (p', s'')"
  shows "p \<noteq> p'" and "view s'' p = view s' p"
proof -
  from request_ok [OF assms(1), of q] assms(2) have i: "inv (insert p ow) s'" by auto
  from request_ok [OF i, of r] assms(3) show "p \<noteq> p'" and "view s'' p = view s' p" by auto
qed

lemma request_after_return:
  assumes "inv ow s" and "p \<in> ow"
  shows "\<exists>s' p' s''. give_back p s = Some s' \<and> request q s' = Some (p', s'') \<and> p' \<notin> ow - {p}
     \<and> inv (insert p' (ow - {p})) s''"
  using give_back_ok [OF assms] request_ok by meson

end

interpretation nbp: object_pool bst_wf bst_heap "getFreeBuffer garb" "\<lambda>p. reuseFreeBuffer (Some p)" buffer_for
  for garb
proof unfold_locales
  fix ow s q assume "bst_wf ow s"
  from getFreeBuffer_spec [OF this, of garb q]
  show "\<exists>p s' b. getFreeBuffer garb q s = Some (p, s') \<and> p \<notin> ow \<and> bst_wf (insert p ow) s'
       \<and> bst_heap s' p = Some b \<and> buffer_for q b \<and> (\<forall>r. r \<noteq> p \<longrightarrow> bst_heap s' r = bst_heap s r)"
    unfolding buffer_for_def by blast
qed (rule reuseFreeBuffer_spec)

lemma buffer_for_wf: "buffer_for sz b \<Longrightarrow> unat (nb_capacity b) < 2147483648 \<Longrightarrow> nb_wf b"
  by (simp add: buffer_for_def pool_buffer_def nb_wf_def word_le_nat_alt)

lemma bst_push_new_wf:
  assumes "bst_wf ow s" and "unat n = class_capacity k" and "length (bst_free s k) < class_max k"
  shows "bst_wf ow (let (p, s') = bst_new garb n s in bst_push k p s')"
proof -
  let ?p = "bst_next s" and ?s = "snd (bst_new garb n s)"
  have s: "(let (p, s') = bst_new garb n s in bst_push k p s') = bst_push k ?p ?s"
    by (simp add: bst_new_def)
  have "bst_wf (insert ?p ow - {?p}) (bst_push k ?p ?s)"
    using bst_wf_new(1) [OF assms(1), of garb n] assms(2,3)
    by (intro bst_push_wf [where b = "NativeByteBuffer_size garb n"])
      (simp_all add: bst_new_def NativeByteBuffer_size_def)
  moreover have "insert ?p ow - {?p} = ow" using bst_wf_new(3) [OF assms(1)] by blast
  ultimately show ?thesis unfolding s by simp
qed

lemma bst_prefill_wf:
  assumes "bst_wf ow s" and "unat n = class_capacity k" and "length (bst_free s k) + c \<le> class_max k"
  shows "bst_wf ow (bst_prefill garb c k n s)"
  using assms
proof (induction c arbitrary: s)
  case (Suc c)
  let ?s = "let (p, s') = bst_new garb n s in bst_push k p s'"
  have "bst_wf ow ?s" using Suc.prems by (intro bst_push_new_wf) simp_all
  moreover have "length (bst_free ?s k) = Suc (length (bst_free s k))"
    by (simp add: bst_new_def bst_push_def)
  ultimately show ?case using Suc.IH Suc.prems(2,3) by simp
qed simp

lemma bst_prefill_free: "j \<noteq> k \<Longrightarrow> bst_free (bst_prefill garb c k n s) j = bst_free s j"
  by (induction c arbitrary: s) (simp_all add: bst_new_def bst_push_def)

lemma BuffersStorage_wf: "bst_wf {} (BuffersStorage garb ts)"
proof -
  define s0 where
    "s0 = \<lparr>bst_heap = Map.empty, bst_next = 0, bst_free = (\<lambda>_. []), isThreadSafe = ts\<rparr>"
  have "bst_wf {} s0" by (simp add: bst_wf_def s0_def)
  then have "bst_wf {} (bst_prefill garb 4 Free8 8 s0)" by (rule bst_prefill_wf) (simp_all add: s0_def)
  then have "bst_wf {} (bst_prefill garb 5 Free128 128 (bst_prefill garb 4 Free8 8 s0))"
    by (rule bst_prefill_wf) (simp_all add: bst_prefill_free, simp add: s0_def)
  then show ?thesis unfolding BuffersStorage_def s0_def .
qed

lemma pool_run_wf:
  assumes "bst_wf ow s"
  shows "\<exists>ow' s'. pool_run garb ops (ow, s) = Some (ow', s') \<and> bst_wf ow' s'"
  using assms
proof (induction ops arbitrary: ow s)
  case (Cons x xs)
  have "\<exists>ow' s'. pool_step garb x (ow, s) = Some (ow', s') \<and> bst_wf ow' s'"
  proof (cases x)
    case (PGet sz)
    then show ?thesis using nbp.request_ok [OF Cons.prems, of garb sz] by auto
  next
    case (PPut p)
    then show ?thesis using nbp.give_back_ok [OF Cons.prems, of p] Cons.prems by auto
  qed
  then show ?case using Cons.IH by fastforce
qed simp

text \<open>
  C8. Buffers handed out by the pool are never shared. After any sequence of requests and
  returns (a client returns only buffers it holds) starting from the pool the program
  constructs, the next request for any size succeeds and yields a buffer that no client
  holds, with capacity at least the size, limit equal to the size and position 0, and the
  request changes no other buffer; every free list stays within its maximum.
\<close>

theorem pool_no_aliasing:
  "\<exists>ow s p s' b. pool_run garb ops ({}, BuffersStorage garb ts) = Some (ow, s)
     \<and> getFreeBuffer garb sz s = Some (p, s') \<and> p \<notin> ow \<and> bst_heap s' p = Some b
     \<and> sz \<le> nb_capacity b \<and> nb_limit b = sz \<and> nb_position b = 0
     \<and> length (nb_buffer b) = unat (nb_capacity b)
     \<and> (\<forall>q \<in> ow. bst_heap s' q = bst_heap s q \<and> bst_heap s q \<noteq> None)
     \<and> (\<forall>k. length (bst_free s k) \<le> class_max k)"
proof -
  obtain ow s where r: "pool_run garb ops ({}, BuffersStorage garb ts) = Some (ow, s)" "bst_wf ow s"
    using pool_run_wf [OF BuffersStorage_wf] by blast
  obtain p s' b where g: "getFreeBuffer garb sz s = Some (p, s')" "p \<notin> ow" "bst_heap s' p = Some b" "buffer_for sz b"
      "\<forall>q. q \<noteq> p \<longrightarrow> bst_heap s' q = bst_heap s q"
    using nbp.request_ok [OF r(2), of garb sz] by blast
  have "bst_heap s' q = bst_heap s q \<and> bst_heap s q \<noteq> None" if "q \<in> ow" for q
    using that g(2,5) r(2) by (auto simp: bst_wf_def)
  moreover have "length (bst_free s k) \<le> class_max k" for k using r(2) by (simp add: bst_wf_def)
  ultimately show ?thesis using r g by (auto simp: buffer_for_def pool_buffer_def)
qed

theorem pool_no_aliasing_witness:
  "\<exists>ow s p s'. pool_run (\<lambda>_. 0) [PGet 5, PPut 0, PGet 300] ({}, BuffersStorage (\<lambda>_. 0) True) = Some (ow, s)
     \<and> getFreeBuffer (\<lambda>_. 0) 20000 s = Some (p, s') \<and> p \<notin> ow"
  using pool_no_aliasing [of "\<lambda>_. 0" "[PGet 5, PPut 0, PGet 300]" True 20000] by blast

section \<open>Copies through the pool\<close>

lemma pool_fill:
  assumes wf: "bst_wf ow s" and d: "length d = unat l"
  shows "\<exists>p s' b r m. getFreeBuffer garb l s = Some (p, s') \<and> bst_heap s' p = Some b
     \<and> mem_write (nb_buffer b) 0 d = Some m \<and> r = b\<lparr>nb_buffer := m\<rparr> \<and> p \<notin> ow
     \<and> bst_wf (insert p ow) (s'\<lparr>bst_heap := (bst_heap s')(p \<mapsto> r)\<rparr>)
     \<and> nb_limit r = l \<and> nb_position r = 0 \<and> take (unat l) (nb_buffer r) = d
     \<and> (\<forall>q. q \<noteq> p \<longrightarrow> bst_heap s' q = bst_heap s q)"
proof -
  obtain p s' b where g: "getFreeBuffer garb l s = Some (p, s')" "p \<notin> ow" "bst_wf (insert p ow) s'"
      "bst_heap s' p = Some b" "buffer_for l b" "\<forall>q. q \<noteq> p \<longrightarrow> bst_heap s' q = bst_heap s q"
    using nbp.request_ok [OF wf, of garb l] by blast
  have len: "length d \<le> length (nb_buffer b)"
    using g(5) d by (simp add: buffer_for_def pool_buffer_def word_le_nat_alt)
  let ?m = "d @ drop (length d) (nb_buffer b)"
  have m: "mem_write (nb_buffer b) 0 d = Some ?m" using len by (simp add: mem_simps)
  have "bst_wf (insert p ow) (s'\<lparr>bst_heap := (bst_heap s')(p \<mapsto> b\<lparr>nb_buffer := ?m\<rparr>)\<rparr>)"
    using g(5) len by (intro bst_wf_update [OF g(3,4)]) (simp_all add: buffer_for_def pool_buffer_def)
  with g m d show ?thesis by (auto simp: buffer_for_def)
qed

text \<open>
  C9. \<open>readByteBuffer(true)\<close> returns a private copy. When the bytes at the position are the
  wire form of \<open>d\<close>, the call succeeds, takes from the pool a buffer nobody holds, whose limit
  is the length of \<open>d\<close>, whose position is 0 and whose first bytes are \<open>d\<close>, advances past the
  wire form, and leaves every other buffer of the pool unchanged.
\<close>

theorem readByteBuffer_copies:
  assumes "nb_wf b" and "bst_wf ow s" and "nb_rest b = tl_encode d @ t" and "length d < 16777216"
  shows "\<exists>p s' r. nb_readByteBuffer_copy garb b s
       = Some (Some p, False, nb_advance (length (tl_encode d)) b, s')
     \<and> p \<notin> ow \<and> bst_wf (insert p ow) s' \<and> bst_heap s' p = Some r
     \<and> nb_limit r = of_nat (length d) \<and> nb_position r = 0 \<and> take (length d) (nb_buffer r) = d
     \<and> (\<forall>q. q \<noteq> p \<longrightarrow> bst_heap s' q = bst_heap s q)"
proof -
  from nb_readString_enc [OF assms(1,3,4)] obtain l a b1 where
    p: "nb_read_prefix b = Some (Some (l, a), b1)"
      "mem_read (nb_buffer b1) (unat (nb_position b1)) (unat l) = Some d"
      "b1\<lparr>nb_position := nb_position b1 + (l + a)\<rparr> = nb_advance (length (tl_encode d)) b"
    by (auto simp: nb_readString_def bind_eq_Some_conv split: option.splits)
  then have l: "length d = unat l" by (auto simp: mem_read_def split: if_splits)
  from pool_fill [OF assms(2) l, of garb] obtain q s1 c r m where
    f: "getFreeBuffer garb l s = Some (q, s1)" "bst_heap s1 q = Some c"
      "mem_write (nb_buffer c) 0 d = Some m" "r = c\<lparr>nb_buffer := m\<rparr>" "q \<notin> ow"
      "bst_wf (insert q ow) (s1\<lparr>bst_heap := (bst_heap s1)(q \<mapsto> r)\<rparr>)"
      "nb_limit r = l" "nb_position r = 0" "take (unat l) (nb_buffer r) = d"
      "\<forall>q'. q' \<noteq> q \<longrightarrow> bst_heap s1 q' = bst_heap s q'" by blast
  have "nb_readByteBuffer_copy garb b s = Some (Some q, False, nb_advance (length (tl_encode d)) b,
      s1\<lparr>bst_heap := (bst_heap s1)(q \<mapsto> r)\<rparr>)"
    using p f(1-4) by (simp add: nb_readByteBuffer_copy_def)
  with f l show ?thesis by (auto intro!: exI [of _ q])
qed

theorem readByteBuffer_copies_witness:
  "\<exists>p s' r. nb_readByteBuffer_copy (\<lambda>_. 0) (NativeByteBuffer_wrap [3, 7, 8, 9] 4) (BuffersStorage (\<lambda>_. 0) True)
       = Some (Some p, False, nb_advance 4 (NativeByteBuffer_wrap [3, 7, 8, 9] 4), s')
     \<and> bst_heap s' p = Some r \<and> nb_limit r = 3 \<and> take 3 (nb_buffer r) = [7, 8, 9]"
proof -
  let ?b = "NativeByteBuffer_wrap [3, 7, 8, 9] 4"
  have e: "tl_encode [7, 8, 9] = [3, 7, 8, 9]" by (simp add: tl_encode_def length_prefix_def tl_pad_def)
  have "nb_wf ?b" "nb_rest ?b = tl_encode [7, 8, 9] @ []"
    unfolding e by (simp_all add: nb_wf_def nb_rest_def NativeByteBuffer_wrap_def)
  note wf = this
  have l: "length [3, 7, 8, 9 :: byte] = 4" "length [7, 8, 9 :: byte] = 3" "(of_nat 3 :: u32) = 3" by simp_all
  have "length [7, 8, 9 :: byte] < 16777216" by simp
  from readByteBuffer_copies [OF wf(1) BuffersStorage_wf wf(2) this, of "\<lambda>_. 0" "\<lambda>_. 0" True]
  show ?thesis unfolding e l by blast
qed

lemma nb_copy_spec:
  assumes "bst_wf ow s" and "unat l \<le> length (nb_buffer b)"
  shows "\<exists>p s' r. nb_copy garb l b s = Some (p, s') \<and> p \<notin> ow \<and> bst_wf (insert p ow) s'
     \<and> bst_heap s' p = Some r \<and> nb_limit r = l \<and> take (unat l) (nb_buffer r) = take (unat l) (nb_buffer b)"
proof -
  let ?d = "take (unat l) (nb_buffer b)"
  have "mem_read (nb_buffer b) 0 (unat l) = Some ?d" "length ?d = unat l"
    using assms(2) by (simp_all add: mem_simps)
  with pool_fill [OF assms(1), of ?d l garb] show ?thesis by (auto simp: nb_copy_def)
qed

end
