(* ===== verification/Config_Store.thy ===== *)
theory Config_Store
  imports Buffers_Storage
begin

text \<open>
  \<^verbatim>\<open>src/ptp_net/Config.h\<close> and \<^verbatim>\<open>src/ptp_net/Config.cpp\<close>: the file that keeps the account data,
  written through a backup file so that an interrupted write can be undone at the next start.

  The file system is a map from paths to contents. What the C library answers is the argument
  \<open>io\<close>: one field per call whose result the code tests, and the contents the file shows while
  it is written (\<open>io_partial\<close>) and after a failed write (\<open>io_torn\<close>), both arbitrary. After
  \<open>fwrite\<close>, \<open>fflush\<close>, \<open>fsync\<close> and \<open>fclose\<close> have all succeeded the file holds what was written.
  The byte order of \<open>fwrite(&size, ...)\<close> is the host's, taken as little-endian. \<open>chmod\<close> does not
  change contents and its result is only logged.
\<close>

section \<open>State\<close>

type_synonym file_system = "string \<rightharpoonup> bytes"

record config =
  instanceNum :: u32
  configPath :: string
  backupPath :: string

record io =
  io_rename :: bool
  io_remove_config :: bool
  io_fopen_w :: bool
  io_fwrite_size :: bool
  io_fwrite_data :: bool
  io_fflush :: bool
  io_fileno :: bool
  io_fsync :: bool
  io_fclose :: bool
  io_remove_backup :: bool
  io_fseek :: bool
  io_reopen :: bool
  io_partial :: "bytes list"
  io_torn :: bytes

definition fs_rename :: "bool \<Rightarrow> string \<Rightarrow> string \<Rightarrow> file_system \<Rightarrow> file_system" where
  "fs_rename ok from to fs =
     (if ok \<and> fs from \<noteq> None then (fs(from := None))(to := fs from) else fs)"

definition fs_remove :: "bool \<Rightarrow> string \<Rightarrow> file_system \<Rightarrow> file_system" where
  "fs_remove ok p fs = (if ok then fs(p := None) else fs)"

section \<open>Operations\<close>

definition Config :: "io \<Rightarrow> u32 \<Rightarrow> string \<Rightarrow> file_system \<Rightarrow> config \<times> file_system" where
  "Config i inst filePath fs =
     (let c = \<lparr>instanceNum = inst, configPath = filePath, backupPath = filePath @ ''.bak''\<rparr>
      in if fs (backupPath c) \<noteq> None
         then (c, fs_rename (io_rename i) (backupPath c) (configPath c)
                    (fs_remove (io_remove_config i) (configPath c) fs))
         else (c, fs))"

text \<open>
  \<open>readConfig\<close>: \<open>None\<close> is the \<open>fread\<close> on a null file after a failed reopen. A short second
  \<open>fread\<close> gives the buffer back to the pool.
\<close>

definition readConfig ::
  "(nat \<Rightarrow> byte) \<Rightarrow> io \<Rightarrow> config \<Rightarrow> file_system \<Rightarrow> buffers_storage \<Rightarrow>
   (addr option \<times> buffers_storage) option" where
  "readConfig garb i c fs s =
     (case fs (configPath c) of
        None \<Rightarrow> Some (None, s)
      | Some content \<Rightarrow>
          if \<not> io_fseek i \<and> \<not> io_reopen i then None
          else
            (let fileSize = int (length content);
                 sz = (if 4 \<le> length content then le32 (take 4 content) else 0)
             in if 4 \<le> length content \<and> sz > 0 \<and> sint sz < fileSize then do {
                  (p, s1) \<leftarrow> getFreeBuffer garb sz s;
                  b \<leftarrow> bst_heap s1 p;
                  let d = take (unat sz) (drop 4 content);
                  m \<leftarrow> mem_write (nb_buffer b) 0 d;
                  let s2 = s1\<lparr>bst_heap := (bst_heap s1)(p \<mapsto> b\<lparr>nb_buffer := m\<rparr>)\<rparr>;
                  if length d \<noteq> unat sz then do { s3 \<leftarrow> nb_reuse p s2; Some (None, s3) }
                  else Some (Some p, s2) }
                else Some (None, s)))"

text \<open>
  \<open>writeConfig\<close>: the result is the list of states the file system goes through, in order,
  and the last one. The list is what a crash at any moment can leave behind. The two parts of
  the function are the preparation of the backup (the last component says \<open>hasBackupFile\<close>, or
  \<open>None\<close> for the early return) and the write itself.
\<close>

definition write_backup :: "io \<Rightarrow> config \<Rightarrow> file_system \<Rightarrow> file_system \<times> bool option" where
  "write_backup i c fs =
     (if fs (configPath c) \<noteq> None then
        (if fs (backupPath c) = None then
           (if \<not> io_rename i then (fs, None)
            else (fs_rename True (configPath c) (backupPath c) fs, Some True))
         else (fs_remove (io_remove_config i) (configPath c) fs, Some False))
      else (fs, Some False))"

definition write_error :: "io \<Rightarrow> bool" where
  "write_error i \<longleftrightarrow> \<not> (io_fwrite_size i \<and> io_fwrite_data i) \<or> \<not> io_fflush i \<or> \<not> io_fileno i
     \<or> (io_fileno i \<and> \<not> io_fsync i) \<or> \<not> io_fclose i"

definition writeConfig ::
  "io \<Rightarrow> config \<Rightarrow> native_buffer \<Rightarrow> file_system \<Rightarrow> (file_system list \<times> file_system) option" where
  "writeConfig i c buffer fs =
     (let (fs1, hasBackupFile) = write_backup i c fs
      in case hasBackupFile of
           None \<Rightarrow> Some ([fs], fs1)
         | Some hasBackup \<Rightarrow>
             if \<not> io_fopen_w i then Some ([fs], fs1)
             else do {
               d \<leftarrow> mem_read (nb_buffer buffer) 0 (unat (nb_position buffer));
               let fs2 = fs1(configPath c \<mapsto> []);
               let during = map (\<lambda>x. fs1(configPath c \<mapsto> x)) (io_partial i);
               if write_error i then
                 (let fs3 = fs1(configPath c \<mapsto> io_torn i);
                      fs4 = fs_remove (io_remove_config i) (configPath c) fs3
                  in Some ([fs, fs1, fs2] @ during @ [fs3], fs4))
               else
                 (let fs3 = fs1(configPath c \<mapsto> put_le32 (nb_position buffer) @ d);
                      fs4 = (if hasBackup then fs_remove (io_remove_backup i) (backupPath c) fs3 else fs3)
                  in Some ([fs, fs1, fs2] @ during @ [fs3], fs4)) })"

section \<open>Specification\<close>

text \<open>An environment in which no call fails, whatever the file shows while it is written.\<close>

definition io_good :: "io \<Rightarrow> bool" where
  "io_good i \<longleftrightarrow> io_rename i \<and> io_remove_config i \<and> io_fopen_w i \<and> \<not> write_error i \<and> io_remove_backup i
     \<and> io_fseek i"

text \<open>What the next start makes of a file system: the constructor in a good environment.\<close>

definition restart :: "io \<Rightarrow> config \<Rightarrow> file_system \<Rightarrow> file_system" where
  "restart i c fs = snd (Config i (instanceNum c) (configPath c) fs)"

definition config_ok :: "config \<Rightarrow> bool" where
  "config_ok c \<longleftrightarrow> backupPath c = configPath c @ ''.bak''"

definition config_image :: "native_buffer \<Rightarrow> bytes" where
  "config_image b = put_le32 (nb_position b) @ take (unat (nb_position b)) (nb_buffer b)"

definition io_all_ok :: io where
  "io_all_ok = \<lparr>io_rename = True, io_remove_config = True, io_fopen_w = True, io_fwrite_size = True,
     io_fwrite_data = True, io_fflush = True, io_fileno = True, io_fsync = True, io_fclose = True,
     io_remove_backup = True, io_fseek = True, io_reopen = True, io_partial = [], io_torn = []\<rparr>"

lemma config_paths: "config_ok c \<Longrightarrow> backupPath c \<noteq> configPath c"
  by (simp add: config_ok_def)

lemma restart_spec:
  assumes "config_ok c" and "io_good i"
  shows "restart i c fs = (case fs (backupPath c) of None \<Rightarrow> fs
     | Some x \<Rightarrow> (fs(backupPath c := None))(configPath c \<mapsto> x))"
  using assms config_paths [OF assms(1)]
  by (auto simp: restart_def Config_def config_ok_def io_good_def fs_rename_def fs_remove_def fun_upd_def fun_eq_iff
      split: option.splits)

lemma write_data_read: "nb_wf b \<Longrightarrow> mem_read (nb_buffer b) 0 (unat (nb_position b))
    = Some (take (unat (nb_position b)) (nb_buffer b))"
  by (simp add: nb_wf_def mem_simps)

lemma writeConfig_good:
  assumes "config_ok c" and "io_good i" and "nb_wf b" and "fs (backupPath c) = None"
  shows "\<exists>tr. writeConfig i c b fs = Some (tr, fs(configPath c \<mapsto> config_image b))"
proof -
  note ne = config_paths [OF assms(1)]
  show ?thesis
    using assms(2,4) ne write_data_read [OF assms(3)]
    by (auto simp: writeConfig_def write_backup_def io_good_def fs_rename_def fs_remove_def config_image_def
        Let_def fun_eq_iff)
qed



lemma le32_append: "length x = 4 \<Longrightarrow> le32 (take 4 (x @ y)) = le32 x" by simp

lemma readConfig_image:
  assumes c: "fs (configPath c) = Some (config_image b)" and b: "nb_wf b" "0 < nb_position b"
    and s: "bst_wf ow s" and i: "io_fseek i"
  shows "\<exists>p s' r. readConfig garb i c fs s = Some (Some p, s') \<and> p \<notin> ow \<and> bst_wf (insert p ow) s'
     \<and> bst_heap s' p = Some r \<and> nb_limit r = nb_position b \<and> nb_position r = 0
     \<and> take (unat (nb_limit r)) (nb_buffer r) = take (unat (nb_position b)) (nb_buffer b)"
proof -
  let ?d = "take (unat (nb_position b)) (nb_buffer b)" and ?x = "config_image b"
  have d: "length ?d = unat (nb_position b)" using b(1) by (auto simp: nb_wf_def)
  have x: "take 4 ?x = put_le32 (nb_position b)" "drop 4 ?x = ?d" "length ?x = 4 + unat (nb_position b)"
    using d by (simp_all add: config_image_def)
  have "unat (nb_position b) < 2147483648" using b(1) unfolding nb_wf_def by linarith
  then have "sint (nb_position b) = int (unat (nb_position b))" by (rule sint_small)
  with x have sz: "sint (nb_position b) < int (length ?x)" by simp
  from pool_fill [OF s d, of garb] obtain q s1 e r m where
    f: "getFreeBuffer garb (nb_position b) s = Some (q, s1)" "bst_heap s1 q = Some e"
      "mem_write (nb_buffer e) 0 ?d = Some m" "r = e\<lparr>nb_buffer := m\<rparr>" "q \<notin> ow"
      "bst_wf (insert q ow) (s1\<lparr>bst_heap := (bst_heap s1)(q \<mapsto> r)\<rparr>)"
      "nb_limit r = nb_position b" "nb_position r = 0" "take (unat (nb_position b)) (nb_buffer r) = ?d"
    by blast
  have "readConfig garb i c fs s = Some (Some q, s1\<lparr>bst_heap := (bst_heap s1)(q \<mapsto> r)\<rparr>)"
    using c b(2) i x(3) sz f(1-4) d by (simp add: readConfig_def x le32_put Let_def)
  with f show ?thesis by (intro exI [of _ q] exI [of _ "s1\<lparr>bst_heap := (bst_heap s1)(q \<mapsto> r)\<rparr>"] exI [of _ r]) simp
qed



text \<open>
  A left-over backup undoes a successful write. When a backup file exists (a previous
  write failed in the same run, or the removal of the backup failed), \<open>writeConfig\<close> with every
  call succeeding writes the new contents to the configuration file but keeps the backup, and
  the next start replaces the new contents by those of the backup.
\<close>

lemma stale_backup_undoes_write:
  assumes "config_ok c" and "io_good i" and "io_good j" and "nb_wf b" and "fs (backupPath c) = Some x"
  shows "\<exists>tr fs'. writeConfig i c b fs = Some (tr, fs')
     \<and> fs' (configPath c) = Some (config_image b) \<and> fs' (backupPath c) = Some x
     \<and> (restart j c fs') (configPath c) = Some x"
proof -
  note ne = config_paths [OF assms(1)]
  have "\<exists>tr fs'. writeConfig i c b fs = Some (tr, fs')
     \<and> fs' (configPath c) = Some (config_image b) \<and> fs' (backupPath c) = Some x"
    using assms(2,5) ne write_data_read [OF assms(4)]
    by (auto simp: writeConfig_def write_backup_def io_good_def fs_remove_def config_image_def Let_def)
  then show ?thesis using ne by (auto simp: restart_spec [OF assms(1,3)])
qed

end
