(* ===== verification/Hash_Stream.thy ===== *)
theory Hash_Stream
  imports Ptp_Prelude
begin

text \<open>
  The streaming skeleton that the SHA functions of \<^verbatim>\<open>src/ptp_crypto/sha2.cpp\<close> share: a context
  with the chaining state, the message length so far and a one-block buffer; \<open>Update\<close> copies input
  into the buffer and transforms every full block, the finishing step pads with a one bit, zeros
  and the length. The functions differ in the constants of this skeleton only, which the record
  \<open>hash_alg\<close> collects; the theory \<open>Sha2\<close> gives them.

  The reference is the padded message cut into blocks. The locale \<open>hash_stream\<close> states what the
  skeleton needs of the buffer, the counter and the transform, and proves that any sequence of
  updates computes the reference on the concatenated input.
\<close>

section \<open>Context and operations\<close>

record ('s, 'n, 'b) hash_ctx =
  hc_state :: 's
  hc_count :: 'n
  hc_buffer :: 'b

record ('s, 'n, 'b) hash_alg =
  ha_block :: nat
  ha_short :: nat
  ha_used :: "'n \<Rightarrow> nat"
  ha_add :: "nat \<Rightarrow> 'n \<Rightarrow> 'n"
  ha_memcpy :: "'b \<Rightarrow> nat \<Rightarrow> bytes \<Rightarrow> 'b option"
  ha_conv :: "'b \<Rightarrow> 'b"
  ha_transform :: "'s \<Rightarrow> 'b \<Rightarrow> 's"
  ha_set_length :: "'n \<Rightarrow> 'b \<Rightarrow> 'b"

text \<open>The buffer converted to host byte order and transformed.\<close>

definition hash_block :: "('s, 'n, 'b) hash_alg \<Rightarrow> 'b \<Rightarrow> ('s, 'n, 'b) hash_ctx \<Rightarrow> ('s, 'n, 'b) hash_ctx" where
  "hash_block A b c = c\<lparr>hc_buffer := ha_conv A b, hc_state := ha_transform A (hc_state c) (ha_conv A b)\<rparr>"

text \<open>The loop over complete blocks of the input.\<close>

function hash_blocks ::
  "('s, 'n, 'b) hash_alg \<Rightarrow> bytes \<Rightarrow> ('s, 'n, 'b) hash_ctx \<Rightarrow> (bytes \<times> ('s, 'n, 'b) hash_ctx) option" where
  "hash_blocks A data c =
     (if 0 < ha_block A \<and> ha_block A \<le> length data then
        (case ha_memcpy A (hc_buffer c) 0 (take (ha_block A) data) of
           None \<Rightarrow> None
         | Some b \<Rightarrow>
             hash_blocks A (drop (ha_block A) data)
               ((hash_block A b c)\<lparr>hc_count := ha_add A (ha_block A) (hc_count c)\<rparr>))
      else Some (data, c))"
  by pat_completeness auto
termination
  by (relation "measure (\<lambda>(A, data, c). length data)") auto

declare hash_blocks.simps [simp del]

text \<open>The loop, then the left-over bytes saved in the buffer.\<close>

definition hash_rest ::
  "('s, 'n, 'b) hash_alg \<Rightarrow> bytes \<Rightarrow> ('s, 'n, 'b) hash_ctx \<Rightarrow> ('s, 'n, 'b) hash_ctx option" where
  "hash_rest A data c = do {
     (left, c1) \<leftarrow> hash_blocks A data c;
     if left = [] then Some c1
     else do {
       b \<leftarrow> ha_memcpy A (hc_buffer c1) 0 left;
       Some (c1\<lparr>hc_buffer := b, hc_count := ha_add A (length left) (hc_count c1)\<rparr>) } }"

definition hash_Update ::
  "('s, 'n, 'b) hash_alg \<Rightarrow> bytes \<Rightarrow> ('s, 'n, 'b) hash_ctx \<Rightarrow> ('s, 'n, 'b) hash_ctx option" where
  "hash_Update A data c =
     (if data = [] then Some c
      else
        (let usedspace = ha_used A (hc_count c)
         in if usedspace > 0 then
              (let freespace = ha_block A - usedspace
               in if length data \<ge> freespace then do {
                    b \<leftarrow> ha_memcpy A (hc_buffer c) usedspace (take freespace data);
                    hash_rest A (drop freespace data)
                      (hash_block A b (c\<lparr>hc_count := ha_add A freespace (hc_count c)\<rparr>)) }
                  else do {
                    b \<leftarrow> ha_memcpy A (hc_buffer c) usedspace data;
                    Some (c\<lparr>hc_buffer := b, hc_count := ha_add A (length data) (hc_count c)\<rparr>) })
            else hash_rest A data c))"

definition hash_Last ::
  "('s, 'n, 'b) hash_alg \<Rightarrow> ('s, 'n, 'b) hash_ctx \<Rightarrow> ('s, 'n, 'b) hash_ctx option" where
  "hash_Last A c =
     (let used0 = ha_used A (hc_count c); used1 = used0 + 1
      in do {
        b \<leftarrow> ha_memcpy A (hc_buffer c) used0 [0x80];
        (c1, usedspace) \<leftarrow>
          (if used1 > ha_short A then do {
             b1 \<leftarrow> ha_memcpy A b used1 (replicate (ha_block A - used1) 0);
             Some (hash_block A b1 c, 0) }
           else Some (c\<lparr>hc_buffer := b\<rparr>, used1));
        b2 \<leftarrow> ha_memcpy A (hc_buffer c1) usedspace (replicate (ha_short A - usedspace) 0);
        let b3 = ha_set_length A (hc_count c) b2;
        Some (c1\<lparr>hc_buffer := b3, hc_state := ha_transform A (hc_state c1) b3\<rparr>) })"

fun hash_updates ::
  "('s, 'n, 'b) hash_alg \<Rightarrow> bytes list \<Rightarrow> ('s, 'n, 'b) hash_ctx \<Rightarrow> ('s, 'n, 'b) hash_ctx option" where
  "hash_updates A [] c = Some c"
| "hash_updates A (d # ds) c = do { c1 \<leftarrow> hash_Update A d c; hash_updates A ds c1 }"

section \<open>Reference\<close>

function fold_blocks :: "nat \<Rightarrow> ('s \<Rightarrow> bytes \<Rightarrow> 's) \<Rightarrow> 's \<Rightarrow> bytes \<Rightarrow> 's" where
  "fold_blocks B f s m =
     (if 0 < B \<and> B \<le> length m then fold_blocks B f (f s (take B m)) (drop B m) else s)"
  by pat_completeness auto
termination
  by (relation "measure (\<lambda>(B, f, s, m). length m)") auto

declare fold_blocks.simps [simp del]

text \<open>The message, a one bit, the least number of zeros that leaves room for the length, the length.\<close>

definition hash_pad :: "nat \<Rightarrow> nat \<Rightarrow> (nat \<Rightarrow> bytes) \<Rightarrow> bytes \<Rightarrow> bytes" where
  "hash_pad B short len_field m =
     m @ [0x80] @ replicate ((short + B - (length m + 1) mod B) mod B) 0 @ len_field (length m)"

text \<open>A context after \<open>p\<close>, whole blocks, and \<open>r\<close>, less than a block, which the buffer holds.\<close>

definition hash_absorbed ::
  "('s, 'n, 'b) hash_alg \<Rightarrow> ('b \<Rightarrow> bool) \<Rightarrow> ('b \<Rightarrow> bytes) \<Rightarrow> ('n \<Rightarrow> nat \<Rightarrow> bool) \<Rightarrow> ('s \<Rightarrow> bytes \<Rightarrow> 's) \<Rightarrow>
   's \<Rightarrow> bytes \<Rightarrow> bytes \<Rightarrow> ('s, 'n, 'b) hash_ctx \<Rightarrow> bool" where
  "hash_absorbed A wfb view counts compress iv p r c \<longleftrightarrow>
     ha_block A dvd length p \<and> length r < ha_block A \<and> hc_state c = fold_blocks (ha_block A) compress iv p
     \<and> counts (hc_count c) (length (p @ r)) \<and> wfb (hc_buffer c) \<and> take (length r) (view (hc_buffer c)) = r"

section \<open>Lemmas on the reference\<close>

lemma fold_blocks_short: "length m < B \<Longrightarrow> fold_blocks B f s m = s"
  by (subst fold_blocks.simps) simp

lemma fold_blocks_inv: "(\<And>s b. P s \<Longrightarrow> P (f s b)) \<Longrightarrow> P s \<Longrightarrow> P (fold_blocks B f s m)"
proof (induction B f s m rule: fold_blocks.induct)
  case (1 B f s m)
  then show ?case by (subst fold_blocks.simps) simp
qed

lemma fold_blocks_one: "0 < B \<Longrightarrow> length b = B \<Longrightarrow> fold_blocks B f s (b @ m) = fold_blocks B f (f s b) m"
  by (subst fold_blocks.simps) simp

lemma fold_blocks_append:
  "0 < B \<Longrightarrow> B dvd length x \<Longrightarrow> fold_blocks B f s (x @ y) = fold_blocks B f (fold_blocks B f s x) y"
proof (induction B f s x rule: fold_blocks.induct)
  case (1 B f s x)
  show ?case
  proof (cases "B \<le> length x")
    case True
    then have "B dvd length (drop B x)" using 1(3) by (simp add: dvd_diff_nat)
    with 1 True show ?thesis by (simp add: fold_blocks.simps [of B f s])
  next
    case False
    with 1 have "x = []" by (metis dvd_imp_le length_0_conv not_gr_zero)
    then show ?thesis by (simp add: fold_blocks_short 1(2))
  qed
qed

lemma fold_blocks_block:
  "0 < B \<Longrightarrow> B dvd length x \<Longrightarrow> length b = B \<Longrightarrow> fold_blocks B f s (x @ b) = f (fold_blocks B f s x) b"
  using fold_blocks_append [of B x f s b] fold_blocks_one [of B b f _ "[]"] by (simp add: fold_blocks_short)

section \<open>The contract\<close>

text \<open>
  \<open>view\<close> is the buffer as bytes, \<open>counts\<close> relates the counter to the number of bytes, \<open>lim\<close> bounds
  the length of a message, and \<open>compress\<close> is the transform of a block of bytes.
\<close>

locale hash_stream =
  fixes A :: "('s, 'n, 'b) hash_alg"
    and wfb :: "'b \<Rightarrow> bool" and view :: "'b \<Rightarrow> bytes"
    and counts :: "'n \<Rightarrow> nat \<Rightarrow> bool" and lim :: nat
    and compress :: "'s \<Rightarrow> bytes \<Rightarrow> 's" and len_field :: "nat \<Rightarrow> bytes"
  assumes short_block: "0 < ha_short A" "ha_short A < ha_block A"
    and view_length: "wfb b \<Longrightarrow> length (view b) = ha_block A"
    and memcpy: "wfb b \<Longrightarrow> off + length d \<le> ha_block A \<Longrightarrow>
      \<exists>b'. ha_memcpy A b off d = Some b' \<and> wfb b' \<and> view b' = take off (view b) @ d @ drop (off + length d) (view b)"
    and conv: "wfb b \<Longrightarrow> wfb (ha_conv A b) \<and> ha_transform A s (ha_conv A b) = compress s (view b)"
    and used: "counts n k \<Longrightarrow> k < lim \<Longrightarrow> ha_used A n = k mod ha_block A"
    and add: "counts n k \<Longrightarrow> k + j < lim \<Longrightarrow> counts (ha_add A j n) (k + j)"
    and set_length: "wfb b \<Longrightarrow> counts n k \<Longrightarrow> k < lim \<Longrightarrow>
      ha_transform A s (ha_set_length A n b) = compress s (take (ha_short A) (view b) @ len_field k)"
    and len_field: "length (len_field k) = ha_block A - ha_short A"
begin

abbreviation chain :: "'s \<Rightarrow> bytes \<Rightarrow> 's" where
  "chain iv m \<equiv> fold_blocks (ha_block A) compress iv m"

abbreviation absorbed :: "'s \<Rightarrow> bytes \<Rightarrow> bytes \<Rightarrow> ('s, 'n, 'b) hash_ctx \<Rightarrow> bool" where
  "absorbed \<equiv> hash_absorbed A wfb view counts compress"

lemmas absorbed_def = hash_absorbed_def [of A wfb view counts compress]

lemma block_pos: "0 < ha_block A"
  using short_block by simp

lemma absorb_block:
  assumes "absorbed iv p r c" and "length r + length d = ha_block A" and "counts n (length (p @ r @ d))"
  shows "\<exists>b. ha_memcpy A (hc_buffer c) (length r) d = Some b \<and>
     absorbed iv (p @ r @ d) [] ((hash_block A b c)\<lparr>hc_count := n\<rparr>)"
proof -
  from assms(1) have a: "ha_block A dvd length p" "hc_state c = chain iv p" "wfb (hc_buffer c)"
    "take (length r) (view (hc_buffer c)) = r" by (simp_all add: absorbed_def)
  obtain b where b: "ha_memcpy A (hc_buffer c) (length r) d = Some b" "wfb b"
      "view b = take (length r) (view (hc_buffer c)) @ d @ drop (length r + length d) (view (hc_buffer c))"
    using memcpy [OF a(3), of "length r" d] assms(2) by auto
  then have v: "view b = r @ d" using a(4) view_length [OF a(3)] assms(2) by simp
  have "chain iv (p @ r @ d) = compress (chain iv p) (r @ d)"
    using fold_blocks_block [OF block_pos a(1), of "r @ d" compress iv] assms(2) by simp
  moreover have "ha_block A dvd length (p @ r @ d)"
    using a(1) assms(2) by (metis dvd_add_triv_right_iff length_append)
  ultimately show ?thesis
    using a b(1,2) v assms(3) conv [OF b(2)] block_pos by (auto simp: absorbed_def hash_block_def)
qed

lemma absorb_tail:
  assumes "absorbed iv p r c" and "length r + length d < ha_block A" and "length (p @ r @ d) < lim"
  shows "\<exists>b. ha_memcpy A (hc_buffer c) (length r) d = Some b \<and>
     absorbed iv p (r @ d) (c\<lparr>hc_buffer := b, hc_count := ha_add A (length d) (hc_count c)\<rparr>)"
proof -
  from assms(1) have a: "wfb (hc_buffer c)" "take (length r) (view (hc_buffer c)) = r"
    by (simp_all add: absorbed_def)
  obtain b where b: "ha_memcpy A (hc_buffer c) (length r) d = Some b" "wfb b"
      "view b = take (length r) (view (hc_buffer c)) @ d @ drop (length r + length d) (view (hc_buffer c))"
    using memcpy [OF a(1), of "length r" d] assms(2) by auto
  then have "take (length (r @ d)) (view b) = r @ d" using a(2) by simp
  with assms b show ?thesis
    using add [of "hc_count c" "length (p @ r)" "length d"] assms(3) by (auto simp: absorbed_def add.assoc)
qed

lemma hash_blocks_absorb:
  "absorbed iv p [] c \<Longrightarrow> length (p @ d) < lim \<Longrightarrow> \<exists>q left c'. hash_blocks A d c = Some (left, c') \<and> d = q @ left \<and>
     length left < ha_block A \<and> absorbed iv (p @ q) [] c'"
proof (induction "length d" arbitrary: d p c rule: less_induct)
  case less
  show ?case
  proof (cases "ha_block A \<le> length d")
    case True
    let ?b = "take (ha_block A) d"
    have n: "counts (ha_add A (ha_block A) (hc_count c)) (length (p @ [] @ ?b))"
      using less(2,3) True add [of "hc_count c" "length p" "ha_block A"] by (simp add: absorbed_def)
    obtain b where b: "ha_memcpy A (hc_buffer c) 0 ?b = Some b"
        "absorbed iv (p @ ?b) [] ((hash_block A b c)\<lparr>hc_count := ha_add A (ha_block A) (hc_count c)\<rparr>)"
      using absorb_block [OF less(2) _ n] True by auto
    have "length (drop (ha_block A) d) < length d" using True block_pos by simp
    moreover have "length ((p @ ?b) @ drop (ha_block A) d) < lim" using less(3) by simp
    ultimately obtain q left c'
      where 1: "hash_blocks A (drop (ha_block A) d)
        ((hash_block A b c)\<lparr>hc_count := ha_add A (ha_block A) (hc_count c)\<rparr>) = Some (left, c')"
      "drop (ha_block A) d = q @ left" "length left < ha_block A" "absorbed iv ((p @ ?b) @ q) [] c'"
      using less(1) [OF _ b(2)] by blast
    have "hash_blocks A d c = Some (left, c')"
      using True b(1) 1(1) block_pos by (simp add: hash_blocks.simps [of A d c])
    moreover have "d = (?b @ q) @ left" using 1(2) by (metis append_take_drop_id append_assoc)
    moreover have "absorbed iv (p @ ?b @ q) [] c'" using 1(4) by simp
    ultimately show ?thesis using 1(3) by blast
  next
    case False
    with less(2) show ?thesis by (auto simp: hash_blocks.simps [of A d c])
  qed
qed

lemma hash_rest_absorb:
  assumes "absorbed iv p [] c" and "length (p @ d) < lim"
  shows "\<exists>q r c'. hash_rest A d c = Some c' \<and> d = q @ r \<and> absorbed iv (p @ q) r c'"
proof -
  from hash_blocks_absorb [OF assms] obtain q left c1
    where 1: "hash_blocks A d c = Some (left, c1)" "d = q @ left" "length left < ha_block A" "absorbed iv (p @ q) [] c1"
    by blast
  show ?thesis
  proof (cases "left = []")
    case True
    with 1 show ?thesis by (auto simp: hash_rest_def)
  next
    case False
    with 1 assms(2) absorb_tail [OF 1(4), of left] show ?thesis by (fastforce simp: hash_rest_def)
  qed
qed

lemma hash_Update_absorb:
  assumes "absorbed iv p r c" and "length (p @ r @ d) < lim"
  shows "\<exists>p' r' c'. hash_Update A d c = Some c' \<and> p @ r @ d = p' @ r' \<and> absorbed iv p' r' c'"
proof (cases "d = []")
  case True
  with assms show ?thesis by (auto simp: hash_Update_def)
next
  case d: False
  have u: "ha_used A (hc_count c) = length r"
    using assms used [of "hc_count c" "length (p @ r)"] by (auto simp: absorbed_def)
  have lt: "length r < ha_block A" using assms(1) by (simp add: absorbed_def)
  consider (empty) "r = []" | (fill) "r \<noteq> []" "ha_block A - length r \<le> length d"
    | (tail) "r \<noteq> []" "length d < ha_block A - length r" by fastforce
  then show ?thesis
  proof cases
    case empty
    with assms hash_rest_absorb [of iv p c d] obtain q r' c'
      where "hash_rest A d c = Some c'" "d = q @ r'" "absorbed iv (p @ q) r' c'" by auto
    moreover from this(2) have "p @ r @ d = (p @ q) @ r'" using empty by simp
    moreover have "hash_Update A d c = hash_rest A d c" using d u empty by (simp add: hash_Update_def)
    ultimately show ?thesis by metis
  next
    case fill
    let ?f = "ha_block A - length r"
    have n: "counts (ha_add A ?f (hc_count c)) (length (p @ r @ take ?f d))"
      using assms fill lt add [of "hc_count c" "length (p @ r)" ?f] by (simp add: absorbed_def add.assoc)
    obtain b where b: "ha_memcpy A (hc_buffer c) (length r) (take ?f d) = Some b"
        "absorbed iv (p @ r @ take ?f d) [] ((hash_block A b c)\<lparr>hc_count := ha_add A ?f (hc_count c)\<rparr>)"
      using absorb_block [OF assms(1) _ n] fill lt by auto
    have "length ((p @ r @ take ?f d) @ drop ?f d) < lim" using assms(2) by simp
    from hash_rest_absorb [OF b(2) this] obtain q r' c'
      where 1: "hash_rest A (drop ?f d) ((hash_block A b c)\<lparr>hc_count := ha_add A ?f (hc_count c)\<rparr>) = Some c'"
        "drop ?f d = q @ r'" "absorbed iv ((p @ r @ take ?f d) @ q) r' c'" by blast
    have "hash_Update A d c = Some c'"
      using d u b(1) fill 1(1) by (cases c) (simp add: hash_Update_def Let_def hash_block_def)
    moreover have "p @ r @ d = ((p @ r @ take ?f d) @ q) @ r'" using 1(2) by (metis append_take_drop_id append_assoc)
    ultimately show ?thesis using 1(3) by blast
  next
    case tail
    then have "length r + length d < ha_block A" by simp
    from absorb_tail [OF assms(1) this assms(2)] obtain b
      where "ha_memcpy A (hc_buffer c) (length r) d = Some b"
        "absorbed iv p (r @ d) (c\<lparr>hc_buffer := b, hc_count := ha_add A (length d) (hc_count c)\<rparr>)" by auto
    with d u tail show ?thesis by (auto simp: hash_Update_def)
  qed
qed

lemma hash_updates_absorb:
  assumes "absorbed iv p r c" and "length (p @ r @ concat ds) < lim"
  shows "\<exists>p' r' c'. hash_updates A ds c = Some c' \<and> p @ r @ concat ds = p' @ r' \<and> absorbed iv p' r' c'"
  using assms
proof (induction ds arbitrary: p r c)
  case Nil
  then show ?case by auto
next
  case (Cons d ds)
  then obtain p1 r1 c1 where 1: "hash_Update A d c = Some c1" "p @ r @ d = p1 @ r1" "absorbed iv p1 r1 c1"
    using hash_Update_absorb [of iv p r c d] by fastforce
  then have e: "p @ r @ concat (d # ds) = p1 @ r1 @ concat ds" by (metis append_assoc concat.simps(2))
  with Cons.IH [OF 1(3)] Cons.prems(2) 1(1) show ?case by (simp only: e) auto
qed

text \<open>The number of padding zeros when \<open>r\<close> is left over.\<close>

lemma pad_zeros:
  assumes "ha_block A dvd length p" and "length r < ha_block A"
  shows "(ha_short A + ha_block A - (length (p @ r) + 1) mod ha_block A) mod ha_block A =
     (if length r + 1 > ha_short A then ha_block A - (length r + 1) + ha_short A else ha_short A - (length r + 1))"
proof -
  obtain k where k: "length p = ha_block A * k" using assms(1) by auto
  have "(length (p @ r) + 1) mod ha_block A = (length r + 1) mod ha_block A"
    by (simp add: k add.assoc flip: add_Suc_right)
  moreover have "(length r + 1) mod ha_block A = (if length r + 1 = ha_block A then 0 else length r + 1)"
    using assms(2) by auto
  moreover have "(ha_short A + ha_block A - (length r + 1)) mod ha_block A = ha_short A - (length r + 1)"
    if "length r + 1 \<le> ha_short A"
  proof -
    have e: "ha_short A + ha_block A - (length r + 1) = (ha_short A - (length r + 1)) + ha_block A" using that by simp
    have "ha_short A - (length r + 1) < ha_block A" using short_block by simp
    then show ?thesis unfolding e by simp
  qed
  moreover have "(ha_short A + ha_block A - (length r + 1)) mod ha_block A = ha_block A - (length r + 1) + ha_short A"
    if "ha_short A < length r + 1"
  proof -
    have "ha_short A + ha_block A - (length r + 1) = ha_block A - (length r + 1) + ha_short A"
      using assms(2) by simp
    moreover have "ha_block A - (length r + 1) + ha_short A < ha_block A" using that assms(2) by linarith
    ultimately show ?thesis by simp
  qed
  ultimately show ?thesis
    using short_block by (cases "length r + 1 = ha_block A"; cases "length r + 1 > ha_short A") simp_all
qed

lemma hash_Last_chain:
  assumes "absorbed iv p r c" and "length (p @ r) < lim"
  shows "\<exists>c'. hash_Last A c = Some c' \<and>
     hc_state c' = chain iv (hash_pad (ha_block A) (ha_short A) len_field (p @ r))"
proof -
  let ?B = "ha_block A" and ?S = "ha_short A" and ?n = "hc_count c" and ?L = "len_field (length (p @ r))"
  from assms(1) have a: "?B dvd length p" "length r < ?B" "hc_state c = chain iv p"
    "counts ?n (length (p @ r))" "wfb (hc_buffer c)" "take (length r) (view (hc_buffer c)) = r"
    by (simp_all add: absorbed_def)
  have u: "ha_used A ?n = length r" using a used [OF a(4) assms(2)] by auto
  obtain b where b: "ha_memcpy A (hc_buffer c) (length r) [0x80] = Some b" "wfb b" "take (length r + 1) (view b) = r @ [0x80]"
    using memcpy [OF a(5), of "length r" "[0x80]"] a(2,6) view_length [OF a(5)] by auto
  note set = set_length [OF _ a(4) assms(2)]
  have blk: "length (x @ ?L) = ?B" if "length x = ?S" for x using that len_field short_block by simp
  show ?thesis
  proof (cases "length r + 1 > ?S")
    case True
    let ?z = "replicate (?B - (length r + 1)) (0 :: byte)"
    obtain b1 where b1: "ha_memcpy A b (length r + 1) ?z = Some b1" "wfb b1" "view b1 = r @ [0x80] @ ?z"
      using memcpy [OF b(2), of "length r + 1" ?z] b(3) a(2) view_length [OF b(2)] by auto
    obtain b2 where b2: "ha_memcpy A (ha_conv A b1) 0 (replicate ?S 0) = Some b2" "wfb b2" "take ?S (view b2) = replicate ?S 0"
      using memcpy [of "ha_conv A b1" 0 "replicate ?S 0"] conv [OF b1(2)] short_block by auto
    have "chain iv (p @ (r @ [0x80] @ ?z) @ (replicate ?S 0 @ ?L)) =
        compress (compress (chain iv p) (r @ [0x80] @ ?z)) (replicate ?S 0 @ ?L)"
      using fold_blocks_append [OF block_pos a(1), of compress iv "(r @ [0x80] @ ?z) @ (replicate ?S 0 @ ?L)"]
        fold_blocks_one [OF block_pos, of "r @ [0x80] @ ?z" compress _ "replicate ?S 0 @ ?L"] a(2)
        fold_blocks_block [OF block_pos _ blk, of "[]" "replicate ?S 0" compress] block_pos
      by (simp add: fold_blocks_short)
    moreover have "hash_pad ?B ?S len_field (p @ r) = p @ (r @ [0x80] @ ?z) @ (replicate ?S 0 @ ?L)"
      using True pad_zeros [OF a(1,2)] by (simp add: hash_pad_def replicate_add)
    ultimately show ?thesis
      using True b(1) b1 b2 u set [OF b2(2)] conv [OF b1(2)] a(3) by (simp add: hash_Last_def hash_block_def Let_def)
  next
    case False
    let ?z = "replicate (?S - (length r + 1)) (0 :: byte)"
    obtain b2 where b2: "ha_memcpy A b (length r + 1) ?z = Some b2" "wfb b2" "take ?S (view b2) = r @ [0x80] @ ?z"
    proof -
      have "?S - length r = Suc (?S - Suc (length r))" using False by simp
      with memcpy [OF b(2), of "length r + 1" ?z] b(3) False short_block show ?thesis
        by (auto intro!: that)
    qed
    have "chain iv (p @ ((r @ [0x80] @ ?z) @ ?L)) = compress (chain iv p) ((r @ [0x80] @ ?z) @ ?L)"
      using fold_blocks_block [OF block_pos a(1) blk, of "r @ [0x80] @ ?z"] False by simp
    moreover have "hash_pad ?B ?S len_field (p @ r) = p @ ((r @ [0x80] @ ?z) @ ?L)"
      using False pad_zeros [OF a(1,2)] by (simp add: hash_pad_def)
    ultimately show ?thesis
      using False b(1) b2 u set [OF b2(2)] a(3) by (simp add: hash_Last_def Let_def)
  qed
qed

text \<open>From a context with the state after some blocks, and from a fresh one.\<close>

lemma stream_resumed:
  assumes "hc_state c = chain iv p" and "ha_block A dvd length p" and "counts (hc_count c) (length p)"
    and "wfb (hc_buffer c)" and "length (p @ concat ds) < lim"
  shows "\<exists>c1 c2. hash_updates A ds c = Some c1 \<and> hash_Last A c1 = Some c2 \<and>
     hc_state c2 = chain iv (hash_pad (ha_block A) (ha_short A) len_field (p @ concat ds))"
proof -
  have "absorbed iv p [] c" using assms block_pos by (simp add: absorbed_def)
  from hash_updates_absorb [OF this, of ds] assms(5) obtain q r c1
    where 1: "hash_updates A ds c = Some c1" "p @ concat ds = q @ r" "absorbed iv q r c1" by auto
  from hash_Last_chain [OF 1(3)] assms(5) 1 show ?thesis by auto
qed

lemma stream_correct:
  assumes "hc_state c = iv" and "counts (hc_count c) 0" and "wfb (hc_buffer c)" and "length (concat ds) < lim"
  shows "\<exists>c1 c2. hash_updates A ds c = Some c1 \<and> hash_Last A c1 = Some c2 \<and>
     hc_state c2 = chain iv (hash_pad (ha_block A) (ha_short A) len_field (concat ds))"
  using stream_resumed [of c iv "[]" ds] assms block_pos by (simp add: fold_blocks_short)

end

end
