(* ===== verification/Sha2.thy ===== *)
theory Sha2
  imports Hash_Stream
begin

text \<open>
  The hash functions of \<^verbatim>\<open>src/ptp_crypto/sha2.h\<close> and \<^verbatim>\<open>src/ptp_crypto/sha2.cpp\<close>: SHA-1, SHA-256 and
  SHA-512, as compiled on a little-endian machine without \<open>SHA2_UNROLL_TRANSFORM\<close>. A buffer is the
  array of words of the code; its bytes are those of the words in host order, and \<open>memcpy\<close> into it
  goes through that view. Contexts and digests are never null except where the code tests them.

  The reference is FIPS 180: the message schedule of a block computed in full, the rounds over
  it, the padded message cut into blocks. The code keeps a window of sixteen schedule words
  instead and absorbs the message in pieces.
\<close>

section \<open>Words and buffers\<close>

definition REVERSE32 :: "u32 \<Rightarrow> u32" where
  "REVERSE32 w =
     (let tmp = drop_bit 16 w OR push_bit 16 w
      in drop_bit 8 (tmp AND 0xff00ff00) OR push_bit 8 (tmp AND 0x00ff00ff))"

definition REVERSE64 :: "u64 \<Rightarrow> u64" where
  "REVERSE64 w =
     (let t1 = drop_bit 32 w OR push_bit 32 w;
          t2 = drop_bit 8 (t1 AND 0xff00ff00ff00ff00) OR push_bit 8 (t1 AND 0x00ff00ff00ff00ff)
      in drop_bit 16 (t2 AND 0xffff0000ffff0000) OR push_bit 16 (t2 AND 0x0000ffff0000ffff))"

definition host32 :: "u32 \<Rightarrow> bytes" where
  "host32 w = map (\<lambda>i. ucast (drop_bit (8 * i) w)) [0..<4]"

definition host64 :: "u64 \<Rightarrow> bytes" where
  "host64 w = map (\<lambda>i. ucast (drop_bit (8 * i) w)) [0..<8]"

fun words32 :: "bytes \<Rightarrow> u32 list" where
  "words32 (a # b # c # d # r) =
     (ucast a OR push_bit 8 (ucast b) OR push_bit 16 (ucast c) OR push_bit 24 (ucast d)) # words32 r"
| "words32 _ = []"

fun words64 :: "bytes \<Rightarrow> u64 list" where
  "words64 (a # b # c # d # e # f # g # h # r) =
     (ucast a OR push_bit 8 (ucast b) OR push_bit 16 (ucast c) OR push_bit 24 (ucast d) OR
      push_bit 32 (ucast e) OR push_bit 40 (ucast f) OR push_bit 48 (ucast g) OR push_bit 56 (ucast h)) # words64 r"
| "words64 _ = []"

definition memcpy32 :: "u32 list \<Rightarrow> nat \<Rightarrow> bytes \<Rightarrow> u32 list option" where
  "memcpy32 b off d = map_option words32 (mem_write (concat (map host32 b)) off d)"

definition memcpy64 :: "u64 list \<Rightarrow> nat \<Rightarrow> bytes \<Rightarrow> u64 list option" where
  "memcpy64 b off d = map_option words64 (mem_write (concat (map host64 b)) off d)"

section \<open>Logical functions and constants\<close>

definition ROTR32 :: "nat \<Rightarrow> u32 \<Rightarrow> u32" where
  "ROTR32 b x = drop_bit b x OR push_bit (32 - b) x"

definition ROTR64 :: "nat \<Rightarrow> u64 \<Rightarrow> u64" where
  "ROTR64 b x = drop_bit b x OR push_bit (64 - b) x"

definition ROTL32 :: "nat \<Rightarrow> u32 \<Rightarrow> u32" where
  "ROTL32 b x = push_bit b x OR drop_bit (32 - b) x"

definition Ch :: "'a::len word \<Rightarrow> 'a word \<Rightarrow> 'a word \<Rightarrow> 'a word" where
  "Ch x y z = (x AND y) XOR (NOT x AND z)"

definition Maj :: "'a::len word \<Rightarrow> 'a word \<Rightarrow> 'a word \<Rightarrow> 'a word" where
  "Maj x y z = (x AND y) XOR (x AND z) XOR (y AND z)"

definition Parity :: "u32 \<Rightarrow> u32 \<Rightarrow> u32 \<Rightarrow> u32" where
  "Parity x y z = x XOR y XOR z"

definition Sigma0_256 :: "u32 \<Rightarrow> u32" where
  "Sigma0_256 x = ROTR32 2 x XOR ROTR32 13 x XOR ROTR32 22 x"

definition Sigma1_256 :: "u32 \<Rightarrow> u32" where
  "Sigma1_256 x = ROTR32 6 x XOR ROTR32 11 x XOR ROTR32 25 x"

definition sigma0_256 :: "u32 \<Rightarrow> u32" where
  "sigma0_256 x = ROTR32 7 x XOR ROTR32 18 x XOR drop_bit 3 x"

definition sigma1_256 :: "u32 \<Rightarrow> u32" where
  "sigma1_256 x = ROTR32 17 x XOR ROTR32 19 x XOR drop_bit 10 x"

definition Sigma0_512 :: "u64 \<Rightarrow> u64" where
  "Sigma0_512 x = ROTR64 28 x XOR ROTR64 34 x XOR ROTR64 39 x"

definition Sigma1_512 :: "u64 \<Rightarrow> u64" where
  "Sigma1_512 x = ROTR64 14 x XOR ROTR64 18 x XOR ROTR64 41 x"

definition sigma0_512 :: "u64 \<Rightarrow> u64" where
  "sigma0_512 x = ROTR64 1 x XOR ROTR64 8 x XOR drop_bit 7 x"

definition sigma1_512 :: "u64 \<Rightarrow> u64" where
  "sigma1_512 x = ROTR64 19 x XOR ROTR64 61 x XOR drop_bit 6 x"

definition sha1_initial_hash_value :: "u32 list" where
  "sha1_initial_hash_value =
     [0x67452301, 0xefcdab89, 0x98badcfe, 0x10325476, 0xc3d2e1f0]"

text \<open>The tables of round constants, row by row.\<close>

definition K256 :: "u32 list" where
  "K256 = concat
     [[0x428a2f98, 0x71374491, 0xb5c0fbcf, 0xe9b5dba5], [0x3956c25b, 0x59f111f1, 0x923f82a4, 0xab1c5ed5],
      [0xd807aa98, 0x12835b01, 0x243185be, 0x550c7dc3], [0x72be5d74, 0x80deb1fe, 0x9bdc06a7, 0xc19bf174],
      [0xe49b69c1, 0xefbe4786, 0x0fc19dc6, 0x240ca1cc], [0x2de92c6f, 0x4a7484aa, 0x5cb0a9dc, 0x76f988da],
      [0x983e5152, 0xa831c66d, 0xb00327c8, 0xbf597fc7], [0xc6e00bf3, 0xd5a79147, 0x06ca6351, 0x14292967],
      [0x27b70a85, 0x2e1b2138, 0x4d2c6dfc, 0x53380d13], [0x650a7354, 0x766a0abb, 0x81c2c92e, 0x92722c85],
      [0xa2bfe8a1, 0xa81a664b, 0xc24b8b70, 0xc76c51a3], [0xd192e819, 0xd6990624, 0xf40e3585, 0x106aa070],
      [0x19a4c116, 0x1e376c08, 0x2748774c, 0x34b0bcb5], [0x391c0cb3, 0x4ed8aa4a, 0x5b9cca4f, 0x682e6ff3],
      [0x748f82ee, 0x78a5636f, 0x84c87814, 0x8cc70208], [0x90befffa, 0xa4506ceb, 0xbef9a3f7, 0xc67178f2]]"

definition sha256_initial_hash_value :: "u32 list" where
  "sha256_initial_hash_value =
     [0x6a09e667, 0xbb67ae85, 0x3c6ef372, 0xa54ff53a, 0x510e527f, 0x9b05688c, 0x1f83d9ab, 0x5be0cd19]"

definition K512 :: "u64 list" where
  "K512 = concat
     [[0x428a2f98d728ae22, 0x7137449123ef65cd], [0xb5c0fbcfec4d3b2f, 0xe9b5dba58189dbbc],
      [0x3956c25bf348b538, 0x59f111f1b605d019], [0x923f82a4af194f9b, 0xab1c5ed5da6d8118],
      [0xd807aa98a3030242, 0x12835b0145706fbe], [0x243185be4ee4b28c, 0x550c7dc3d5ffb4e2],
      [0x72be5d74f27b896f, 0x80deb1fe3b1696b1], [0x9bdc06a725c71235, 0xc19bf174cf692694],
      [0xe49b69c19ef14ad2, 0xefbe4786384f25e3], [0x0fc19dc68b8cd5b5, 0x240ca1cc77ac9c65],
      [0x2de92c6f592b0275, 0x4a7484aa6ea6e483], [0x5cb0a9dcbd41fbd4, 0x76f988da831153b5],
      [0x983e5152ee66dfab, 0xa831c66d2db43210], [0xb00327c898fb213f, 0xbf597fc7beef0ee4],
      [0xc6e00bf33da88fc2, 0xd5a79147930aa725], [0x06ca6351e003826f, 0x142929670a0e6e70],
      [0x27b70a8546d22ffc, 0x2e1b21385c26c926], [0x4d2c6dfc5ac42aed, 0x53380d139d95b3df],
      [0x650a73548baf63de, 0x766a0abb3c77b2a8], [0x81c2c92e47edaee6, 0x92722c851482353b],
      [0xa2bfe8a14cf10364, 0xa81a664bbc423001], [0xc24b8b70d0f89791, 0xc76c51a30654be30],
      [0xd192e819d6ef5218, 0xd69906245565a910], [0xf40e35855771202a, 0x106aa07032bbd1b8],
      [0x19a4c116b8d2d0c8, 0x1e376c085141ab53], [0x2748774cdf8eeb99, 0x34b0bcb5e19b48a8],
      [0x391c0cb3c5c95a63, 0x4ed8aa4ae3418acb], [0x5b9cca4f7763e373, 0x682e6ff3d6b2b8a3],
      [0x748f82ee5defb2fc, 0x78a5636f43172f60], [0x84c87814a1f0ab72, 0x8cc702081a6439ec],
      [0x90befffa23631e28, 0xa4506cebde82bde9], [0xbef9a3f7b2c67915, 0xc67178f2e372532b],
      [0xca273eceea26619c, 0xd186b8c721c0c207], [0xeada7dd6cde0eb1e, 0xf57d4f7fee6ed178],
      [0x06f067aa72176fba, 0x0a637dc5a2c898a6], [0x113f9804bef90dae, 0x1b710b35131c471b],
      [0x28db77f523047d84, 0x32caab7b40c72493], [0x3c9ebe0a15c9bebc, 0x431d67c49c100d4c],
      [0x4cc5d4becb3e42b6, 0x597f299cfc657e2a], [0x5fcb6fab3ad6faec, 0x6c44198c4a475817]]"

definition sha512_initial_hash_value :: "u64 list" where
  "sha512_initial_hash_value =
     [0x6a09e667f3bcc908, 0xbb67ae8584caa73b, 0x3c6ef372fe94f82b, 0xa54ff53a5f1d36f1, 0x510e527fade682d1,
      0x9b05688c2b3e6c1f, 0x1f83d9abfb41bd6b, 0x5be0cd19137e2179]"

section \<open>Transforms\<close>

text \<open>One round on the working registers \<open>a\<close> to \<open>h\<close>, for a round constant and a schedule word.\<close>

type_synonym 'a regs8 = "'a word \<times> 'a word \<times> 'a word \<times> 'a word \<times> 'a word \<times> 'a word \<times> 'a word \<times> 'a word"

definition round256 :: "u32 \<Rightarrow> u32 \<Rightarrow> 32 regs8 \<Rightarrow> 32 regs8" where
  "round256 k w = (\<lambda>(a, b, c, d, e, f, g, h).
     let T1 = h + Sigma1_256 e + Ch e f g + k + w; T2 = Sigma0_256 a + Maj a b c
     in (T1 + T2, a, b, c, d + T1, e, f, g))"

definition round512 :: "u64 \<Rightarrow> u64 \<Rightarrow> 64 regs8 \<Rightarrow> 64 regs8" where
  "round512 k w = (\<lambda>(a, b, c, d, e, f, g, h).
     let T1 = h + Sigma1_512 e + Ch e f g + k + w; T2 = Sigma0_512 a + Maj a b c
     in (T1 + T2, a, b, c, d + T1, e, f, g))"

definition regs8 :: "'a::len word list \<Rightarrow> 'a regs8" where
  "regs8 st = (st ! 0, st ! 1, st ! 2, st ! 3, st ! 4, st ! 5, st ! 6, st ! 7)"

definition add_regs8 :: "'a::len word list \<Rightarrow> 'a regs8 \<Rightarrow> 'a word list" where
  "add_regs8 st = (\<lambda>(a, b, c, d, e, f, g, h).
     [st ! 0 + a, st ! 1 + b, st ! 2 + c, st ! 3 + d, st ! 4 + e, st ! 5 + f, st ! 6 + g, st ! 7 + h])"

text \<open>
  The bodies of the two loops. \<open>W256\<close> is uninitialised at first; every entry is written by
  the first loop before the second one reads it.
\<close>

definition sha256_copy_step :: "u32 list \<Rightarrow> u32 list \<times> 32 regs8 \<Rightarrow> nat \<Rightarrow> u32 list \<times> 32 regs8" where
  "sha256_copy_step data = (\<lambda>(W256, r) j. (W256[j := data ! j], round256 (K256 ! j) (data ! j) r))"

definition sha256_step :: "u32 list \<times> 32 regs8 \<Rightarrow> nat \<Rightarrow> u32 list \<times> 32 regs8" where
  "sha256_step = (\<lambda>(W256, r) j.
     let s0 = sigma0_256 (W256 ! ((j + 1) mod 16)); s1 = sigma1_256 (W256 ! ((j + 14) mod 16));
         w = W256 ! (j mod 16) + (s1 + W256 ! ((j + 9) mod 16) + s0)
     in (W256[j mod 16 := w], round256 (K256 ! j) w r))"

definition sha256_Transform :: "u32 list \<Rightarrow> u32 list \<Rightarrow> u32 list" where
  "sha256_Transform state_in data =
     (let s1 = foldl (sha256_copy_step data) (replicate 16 0, regs8 state_in) [0..<16];
          s2 = foldl sha256_step s1 [16..<64]
      in add_regs8 state_in (snd s2))"

definition sha512_copy_step :: "u64 list \<Rightarrow> u64 list \<times> 64 regs8 \<Rightarrow> nat \<Rightarrow> u64 list \<times> 64 regs8" where
  "sha512_copy_step data = (\<lambda>(W512, r) j. (W512[j := data ! j], round512 (K512 ! j) (data ! j) r))"

definition sha512_step :: "u64 list \<times> 64 regs8 \<Rightarrow> nat \<Rightarrow> u64 list \<times> 64 regs8" where
  "sha512_step = (\<lambda>(W512, r) j.
     let s0 = sigma0_512 (W512 ! ((j + 1) mod 16)); s1 = sigma1_512 (W512 ! ((j + 14) mod 16));
         w = W512 ! (j mod 16) + (s1 + W512 ! ((j + 9) mod 16) + s0)
     in (W512[j mod 16 := w], round512 (K512 ! j) w r))"

definition sha512_Transform :: "u64 list \<Rightarrow> u64 list \<Rightarrow> u64 list" where
  "sha512_Transform state_in data =
     (let s1 = foldl (sha512_copy_step data) (replicate 16 0, regs8 state_in) [0..<16];
          s2 = foldl sha512_step s1 [16..<80]
      in add_regs8 state_in (snd s2))"

text \<open>SHA-1: five loops, with the function and the constant of their range.\<close>

type_synonym regs5 = "u32 \<times> u32 \<times> u32 \<times> u32 \<times> u32"

definition round1 :: "(u32 \<Rightarrow> u32 \<Rightarrow> u32 \<Rightarrow> u32) \<Rightarrow> u32 \<Rightarrow> u32 \<Rightarrow> regs5 \<Rightarrow> regs5" where
  "round1 f k w = (\<lambda>(a, b, c, d, e). (ROTL32 5 a + f b c d + e + k + w, a, ROTL32 30 b, c, d))"

definition sha1_copy_step :: "u32 list \<Rightarrow> u32 list \<times> regs5 \<Rightarrow> nat \<Rightarrow> u32 list \<times> regs5" where
  "sha1_copy_step data = (\<lambda>(W1, r) j. (W1[j := data ! j], round1 Ch 0x5a827999 (data ! j) r))"

definition sha1_step :: "(u32 \<Rightarrow> u32 \<Rightarrow> u32 \<Rightarrow> u32) \<Rightarrow> u32 \<Rightarrow> u32 list \<times> regs5 \<Rightarrow> nat \<Rightarrow> u32 list \<times> regs5" where
  "sha1_step f k = (\<lambda>(W1, r) j.
     let T1 = W1 ! ((j + 13) mod 16) XOR W1 ! ((j + 8) mod 16) XOR W1 ! ((j + 2) mod 16) XOR W1 ! (j mod 16);
         w = ROTL32 1 T1
     in (W1[j mod 16 := w], round1 f k w r))"

definition sha1_Transform :: "u32 list \<Rightarrow> u32 list \<Rightarrow> u32 list" where
  "sha1_Transform state_in data =
     (let s0 = foldl (sha1_copy_step data)
            (replicate 16 0, (state_in ! 0, state_in ! 1, state_in ! 2, state_in ! 3, state_in ! 4)) [0..<16];
          s1 = foldl (sha1_step Ch 0x5a827999) s0 [16..<20];
          s2 = foldl (sha1_step Parity 0x6ed9eba1) s1 [20..<40];
          s3 = foldl (sha1_step Maj 0x8f1bbcdc) s2 [40..<60];
          (W, a, b, c, d, e) = foldl (sha1_step Parity 0xca62c1d6) s3 [60..<80]
      in [state_in ! 0 + a, state_in ! 1 + b, state_in ! 2 + c, state_in ! 3 + d, state_in ! 4 + e])"

section \<open>Contexts\<close>

text \<open>
  SHA-1 and SHA-256 have the same block size and counter. In the finishing step the first
  fourteen words are converted and the last two hold the length in bits.
\<close>

type_synonym sha32_ctx = "(u32 list, u64, u32 list) hash_ctx"
type_synonym sha512_ctx = "(u64 list, u64 \<times> u64, u64 list) hash_ctx"

definition sha32_alg :: "(u32 list \<Rightarrow> u32 list \<Rightarrow> u32 list) \<Rightarrow> (u32 list, u64, u32 list) hash_alg" where
  "sha32_alg transform =
     \<lparr>ha_block = 64, ha_short = 56, ha_used = (\<lambda>n. unat (drop_bit 3 n mod 64)),
      ha_add = (\<lambda>k n. n + push_bit 3 (of_nat k)), ha_memcpy = memcpy32, ha_conv = map REVERSE32,
      ha_transform = transform,
      ha_set_length = (\<lambda>n b. map REVERSE32 (take 14 b) @ [ucast (drop_bit 32 n), ucast (n AND 0xffffffff)])\<rparr>"

text \<open>\<open>ADDINC128\<close>: a counter of two words.\<close>

definition ADDINC128 :: "u64 \<Rightarrow> u64 \<times> u64 \<Rightarrow> u64 \<times> u64" where
  "ADDINC128 n w = (let w0 = fst w + n in (w0, if w0 < n then snd w + 1 else snd w))"

definition sha512_alg :: "(u64 list, u64 \<times> u64, u64 list) hash_alg" where
  "sha512_alg =
     \<lparr>ha_block = 128, ha_short = 112, ha_used = (\<lambda>n. unat (drop_bit 3 (fst n) mod 128)),
      ha_add = (\<lambda>k n. ADDINC128 (push_bit 3 (of_nat k)) n), ha_memcpy = memcpy64, ha_conv = map REVERSE64,
      ha_transform = sha512_Transform,
      ha_set_length = (\<lambda>n b. map REVERSE64 (take 14 b) @ [snd n, fst n])\<rparr>"

definition sha1_Init :: sha32_ctx where
  "sha1_Init = \<lparr>hc_state = sha1_initial_hash_value, hc_count = 0, hc_buffer = replicate 16 0\<rparr>"

definition sha1_Update :: "bytes \<Rightarrow> sha32_ctx \<Rightarrow> sha32_ctx option" where
  "sha1_Update = hash_Update (sha32_alg sha1_Transform)"

text \<open>The finished digest (when a buffer for it is passed) and the cleared context.\<close>

definition sha1_Final :: "bool \<Rightarrow> sha32_ctx \<Rightarrow> (bytes option \<times> sha32_ctx) option" where
  "sha1_Final digest context =
     (let cleared = \<lparr>hc_state = replicate 5 0, hc_count = 0, hc_buffer = replicate 16 0\<rparr>
      in if digest then do {
           c \<leftarrow> hash_Last (sha32_alg sha1_Transform) context;
           Some (Some (concat (map host32 (map REVERSE32 (hc_state c)))), cleared) }
         else Some (None, cleared))"

definition sha256_Init :: sha32_ctx where
  "sha256_Init = \<lparr>hc_state = sha256_initial_hash_value, hc_count = 0, hc_buffer = replicate 16 0\<rparr>"

definition sha256_Update :: "bytes \<Rightarrow> sha32_ctx \<Rightarrow> sha32_ctx option" where
  "sha256_Update = hash_Update (sha32_alg sha256_Transform)"

definition sha256_Final :: "bool \<Rightarrow> sha32_ctx \<Rightarrow> (bytes option \<times> sha32_ctx) option" where
  "sha256_Final digest context =
     (let cleared = \<lparr>hc_state = replicate 8 0, hc_count = 0, hc_buffer = replicate 16 0\<rparr>
      in if digest then do {
           c \<leftarrow> hash_Last (sha32_alg sha256_Transform) context;
           Some (Some (concat (map host32 (map REVERSE32 (hc_state c)))), cleared) }
         else Some (None, cleared))"

definition sha512_Init :: sha512_ctx where
  "sha512_Init = \<lparr>hc_state = sha512_initial_hash_value, hc_count = (0, 0), hc_buffer = replicate 16 0\<rparr>"

definition sha512_Update :: "bytes \<Rightarrow> sha512_ctx \<Rightarrow> sha512_ctx option" where
  "sha512_Update = hash_Update sha512_alg"

definition sha512_Last :: "sha512_ctx \<Rightarrow> sha512_ctx option" where
  "sha512_Last = hash_Last sha512_alg"

definition sha512_Final :: "bool \<Rightarrow> sha512_ctx \<Rightarrow> (bytes option \<times> sha512_ctx) option" where
  "sha512_Final digest context =
     (let cleared = \<lparr>hc_state = replicate 8 0, hc_count = (0, 0), hc_buffer = replicate 16 0\<rparr>
      in if digest then do {
           c \<leftarrow> sha512_Last context;
           Some (Some (concat (map host64 (map REVERSE64 (hc_state c)))), cleared) }
         else Some (None, cleared))"

text \<open>\<open>Raw\<close>: one call for a whole message.\<close>

definition sha1_Raw :: "bytes \<Rightarrow> bytes option" where
  "sha1_Raw data = do { c \<leftarrow> sha1_Update data sha1_Init; (d, c') \<leftarrow> sha1_Final True c; d }"

definition sha256_Raw :: "bytes \<Rightarrow> bytes option" where
  "sha256_Raw data = do { c \<leftarrow> sha256_Update data sha256_Init; (d, c') \<leftarrow> sha256_Final True c; d }"

definition sha512_Raw :: "bytes \<Rightarrow> bytes option" where
  "sha512_Raw data = do { c \<leftarrow> sha512_Update data sha512_Init; (d, c') \<leftarrow> sha512_Final True c; d }"

text \<open>\<open>End\<close>: the digest in hexadecimal, zero terminated, in the caller's buffer.\<close>

definition sha2_hex_digits :: bytes where
  "sha2_hex_digits = [48, 49, 50, 51, 52, 53, 54, 55, 56, 57, 97, 98, 99, 100, 101, 102]"

definition sha2_hex :: "bytes \<Rightarrow> bytes" where
  "sha2_hex d = concat (map (\<lambda>b. [sha2_hex_digits ! unat (drop_bit 4 (b AND 0xf0)), sha2_hex_digits ! unat (b AND 0x0f)]) d) @ [0]"

definition sha1_End :: "bool \<Rightarrow> sha32_ctx \<Rightarrow> (bytes option \<times> sha32_ctx) option" where
  "sha1_End buf context = map_option (\<lambda>(d, c). (map_option sha2_hex d, c)) (sha1_Final buf context)"

definition sha256_End :: "bool \<Rightarrow> sha32_ctx \<Rightarrow> (bytes option \<times> sha32_ctx) option" where
  "sha256_End buf context = map_option (\<lambda>(d, c). (map_option sha2_hex d, c)) (sha256_Final buf context)"

definition sha512_End :: "bool \<Rightarrow> sha512_ctx \<Rightarrow> (bytes option \<times> sha512_ctx) option" where
  "sha512_End buf context = map_option (\<lambda>(d, c). (map_option sha2_hex d, c)) (sha512_Final buf context)"

definition sha1_Data :: "bytes \<Rightarrow> bytes option" where
  "sha1_Data data = do { c \<leftarrow> sha1_Update data sha1_Init; (d, c') \<leftarrow> sha1_End True c; d }"

definition sha256_Data :: "bytes \<Rightarrow> bytes option" where
  "sha256_Data data = do { c \<leftarrow> sha256_Update data sha256_Init; (d, c') \<leftarrow> sha256_End True c; d }"

definition sha512_Data :: "bytes \<Rightarrow> bytes option" where
  "sha512_Data data = do { c \<leftarrow> sha512_Update data sha512_Init; (d, c') \<leftarrow> sha512_End True c; d }"

section \<open>Reference\<close>

text \<open>
  The message schedule in full: each new word is computed by \<open>mix\<close> from the sixteen words before
  it, given by their offset in that window.
\<close>

fun schedule :: "((nat \<Rightarrow> 'w) \<Rightarrow> 'w) \<Rightarrow> 'w list \<Rightarrow> nat \<Rightarrow> 'w list" where
  "schedule mix m 0 = m"
| "schedule mix m (Suc k) = (let w = schedule mix m k in w @ [mix (\<lambda>i. w ! (k + i))])"

definition mix256 :: "(nat \<Rightarrow> u32) \<Rightarrow> u32" where
  "mix256 w = sigma1_256 (w 14) + w 9 + sigma0_256 (w 1) + w 0"

definition mix512 :: "(nat \<Rightarrow> u64) \<Rightarrow> u64" where
  "mix512 w = sigma1_512 (w 14) + w 9 + sigma0_512 (w 1) + w 0"

definition mix1 :: "(nat \<Rightarrow> u32) \<Rightarrow> u32" where
  "mix1 w = ROTL32 1 (w 13 XOR w 8 XOR w 2 XOR w 0)"

definition round1_at :: "nat \<Rightarrow> u32 \<Rightarrow> regs5 \<Rightarrow> regs5" where
  "round1_at t =
     (if t < 20 then round1 Ch 0x5a827999 else if t < 40 then round1 Parity 0x6ed9eba1
      else if t < 60 then round1 Maj 0x8f1bbcdc else round1 Parity 0xca62c1d6)"

text \<open>Words and their big-endian bytes.\<close>

definition be_word :: "bytes \<Rightarrow> 'a::len word" where
  "be_word b = foldl (\<lambda>w x. push_bit 8 w OR ucast x) 0 b"

definition be_bytes :: "nat \<Rightarrow> 'a::len word \<Rightarrow> bytes" where
  "be_bytes n w = rev (map (\<lambda>i. ucast (drop_bit (8 * i) w)) [0..<n])"

definition be_words32 :: "bytes \<Rightarrow> u32 list" where
  "be_words32 b = map (\<lambda>i. be_word (take 4 (drop (4 * i) b))) [0..<length b div 4]"

definition be_words64 :: "bytes \<Rightarrow> u64 list" where
  "be_words64 b = map (\<lambda>i. be_word (take 8 (drop (8 * i) b))) [0..<length b div 8]"

definition sha256_block :: "u32 list \<Rightarrow> bytes \<Rightarrow> u32 list" where
  "sha256_block H b =
     (let W = schedule mix256 (be_words32 b) 48
      in add_regs8 H (foldl (\<lambda>r t. round256 (K256 ! t) (W ! t) r) (regs8 H) [0..<64]))"

definition sha512_block :: "u64 list \<Rightarrow> bytes \<Rightarrow> u64 list" where
  "sha512_block H b =
     (let W = schedule mix512 (be_words64 b) 64
      in add_regs8 H (foldl (\<lambda>r t. round512 (K512 ! t) (W ! t) r) (regs8 H) [0..<80]))"

definition sha1_block :: "u32 list \<Rightarrow> bytes \<Rightarrow> u32 list" where
  "sha1_block H b =
     (let W = schedule mix1 (be_words32 b) 64;
          (a, b, c, d, e) = foldl (\<lambda>r t. round1_at t (W ! t) r) (H ! 0, H ! 1, H ! 2, H ! 3, H ! 4) [0..<80]
      in [H ! 0 + a, H ! 1 + b, H ! 2 + c, H ! 3 + d, H ! 4 + e])"

definition len64 :: "nat \<Rightarrow> bytes" where
  "len64 k = be_bytes 8 (of_nat (8 * k) :: u64)"

definition len128 :: "nat \<Rightarrow> bytes" where
  "len128 k = be_bytes 16 (of_nat (8 * k) :: 128 word)"

definition sha1_spec :: "bytes \<Rightarrow> bytes" where
  "sha1_spec m = concat (map (be_bytes 4) (fold_blocks 64 sha1_block sha1_initial_hash_value (hash_pad 64 56 len64 m)))"

definition sha256_spec :: "bytes \<Rightarrow> bytes" where
  "sha256_spec m = concat (map (be_bytes 4) (fold_blocks 64 sha256_block sha256_initial_hash_value (hash_pad 64 56 len64 m)))"

definition sha512_spec :: "bytes \<Rightarrow> bytes" where
  "sha512_spec m = concat (map (be_bytes 8) (fold_blocks 128 sha512_block sha512_initial_hash_value (hash_pad 128 112 len128 m)))"

abbreviation le_word32 :: "byte \<Rightarrow> byte \<Rightarrow> byte \<Rightarrow> byte \<Rightarrow> u32" where
  "le_word32 a b c d \<equiv> ucast a OR push_bit 8 (ucast b) OR push_bit 16 (ucast c) OR push_bit 24 (ucast d)"

abbreviation le_word64 :: "byte \<Rightarrow> byte \<Rightarrow> byte \<Rightarrow> byte \<Rightarrow> byte \<Rightarrow> byte \<Rightarrow> byte \<Rightarrow> byte \<Rightarrow> u64" where
  "le_word64 a b c d e f g h \<equiv> ucast a OR push_bit 8 (ucast b) OR push_bit 16 (ucast c) OR push_bit 24 (ucast d) OR
      push_bit 32 (ucast e) OR push_bit 40 (ucast f) OR push_bit 48 (ucast g) OR push_bit 56 (ucast h)"

text \<open>Before round \<open>16 + k\<close> the window holds the last sixteen words of the schedule, cyclically.\<close>

definition window :: "'w list \<Rightarrow> nat \<Rightarrow> 'w list \<Rightarrow> bool" where
  "window full k W \<longleftrightarrow> length W = 16 \<and> (\<forall>i < 16. W ! ((k + i) mod 16) = full ! (k + i))"

definition local_mix :: "((nat \<Rightarrow> 'w) \<Rightarrow> 'w) \<Rightarrow> bool" where
  "local_mix mix \<longleftrightarrow> (\<forall>f g. (\<forall>i < 16. f i = g i) \<longrightarrow> mix f = mix g)"

abbreviation window_round ::
  "((nat \<Rightarrow> 'w) \<Rightarrow> 'w) \<Rightarrow> (nat \<Rightarrow> 'w \<Rightarrow> 'r \<Rightarrow> 'r) \<Rightarrow> 'w list \<times> 'r \<Rightarrow> nat \<Rightarrow> 'w list \<times> 'r" where
  "window_round mix rnd \<equiv> \<lambda>(W, r) j. let w = mix (\<lambda>i. W ! ((j + i) mod 16)) in (W[j mod 16 := w], rnd j w r)"

definition counts64 :: "u64 \<Rightarrow> nat \<Rightarrow> bool" where
  "counts64 n k \<longleftrightarrow> n = of_nat (8 * k)"

definition counts128 :: "u64 \<times> u64 \<Rightarrow> nat \<Rightarrow> bool" where
  "counts128 n k \<longleftrightarrow> k < 2 ^ 61 \<and> n = (of_nat (8 * k), 0)"

definition buf32 :: "u32 list \<Rightarrow> bytes" where
  "buf32 b = concat (map host32 b)"

definition buf64 :: "u64 list \<Rightarrow> bytes" where
  "buf64 b = concat (map host64 b)"

abbreviation words16 :: "'w list \<Rightarrow> bool" where
  "words16 b \<equiv> length b = 16"

text \<open>A message hashed in pieces.\<close>

fun sha1_pieces :: "bytes list \<Rightarrow> sha32_ctx \<Rightarrow> sha32_ctx option" where
  "sha1_pieces [] c = Some c"
| "sha1_pieces (d # ds) c = do { c1 \<leftarrow> sha1_Update d c; sha1_pieces ds c1 }"

fun sha256_pieces :: "bytes list \<Rightarrow> sha32_ctx \<Rightarrow> sha32_ctx option" where
  "sha256_pieces [] c = Some c"
| "sha256_pieces (d # ds) c = do { c1 \<leftarrow> sha256_Update d c; sha256_pieces ds c1 }"

fun sha512_pieces :: "bytes list \<Rightarrow> sha512_ctx \<Rightarrow> sha512_ctx option" where
  "sha512_pieces [] c = Some c"
| "sha512_pieces (d # ds) c = do { c1 \<leftarrow> sha512_Update d c; sha512_pieces ds c1 }"

section \<open>Byte order\<close>

lemma bit_high:
  "32 \<le> n \<Longrightarrow> \<not> bit (w :: u32) n" "64 \<le> n \<Longrightarrow> \<not> bit (v :: u64) n" "8 \<le> n \<Longrightarrow> \<not> bit (b :: byte) n"
  using bit_imp_le_length [of w n] bit_imp_le_length [of v n] bit_imp_le_length [of b n] by auto

lemma upto_32: "[0..<32] =
     [0, 1, 2, 3, 4, 5, 6, 7, 8, 9, 10, 11, 12, 13, 14, 15, 16, 17, 18, 19, 20, 21, 22, 23, 24, 25, 26,
      27, 28, 29, 30, 31]"
  by code_simp

lemma upto_64: "[0..<64] =
     [0, 1, 2, 3, 4, 5, 6, 7, 8, 9, 10, 11, 12, 13, 14, 15, 16, 17, 18, 19, 20, 21, 22, 23, 24, 25, 26,
      27, 28, 29, 30, 31, 32, 33, 34, 35, 36, 37, 38, 39, 40, 41, 42, 43, 44, 45, 46, 47, 48, 49,
      50, 51, 52, 53, 54, 55, 56, 57, 58, 59, 60, 61, 62, 63]"
  by code_simp

lemma bit_REVERSE32:
  assumes "n < 32"
  shows "bit (REVERSE32 w) n \<longleftrightarrow> bit w (8 * (3 - n div 8) + n mod 8)"
proof -
  have "list_all (\<lambda>n. bit (REVERSE32 w) n \<longleftrightarrow> bit w (8 * (3 - n div 8) + n mod 8)) [0..<32]"
    unfolding upto_32 by (simp add: REVERSE32_def bit_simps bit_high numeral_2_eq_2 [symmetric])
  with assms show ?thesis by (simp add: list_all_iff)
qed

lemma bit_REVERSE64:
  assumes "n < 64"
  shows "bit (REVERSE64 w) n \<longleftrightarrow> bit w (8 * (7 - n div 8) + n mod 8)"
proof -
  have "list_all (\<lambda>n. bit (REVERSE64 w) n \<longleftrightarrow> bit w (8 * (7 - n div 8) + n mod 8)) [0..<64]"
    unfolding upto_64 by (simp add: REVERSE64_def bit_simps bit_high numeral_2_eq_2 [symmetric])
  with assms show ?thesis by (simp add: list_all_iff)
qed

lemma host32_REVERSE: "host32 (REVERSE32 w) = be_bytes 4 w"
proof -
  have "(ucast (drop_bit (8 * i) (REVERSE32 w)) :: byte) = ucast (drop_bit (8 * (3 - i)) w)" if "i < 4" for i
    by (rule bit_word_eqI) (use that in \<open>simp add: bit_simps bit_REVERSE32\<close>)
  from this [of 0] this [of 1] this [of 2] this [of 3] show ?thesis
    by (simp add: host32_def be_bytes_def upt_rec)
qed

lemma host64_REVERSE: "host64 (REVERSE64 w) = be_bytes 8 w"
proof -
  have "(ucast (drop_bit (8 * i) (REVERSE64 w)) :: byte) = ucast (drop_bit (8 * (7 - i)) w)" if "i < 8" for i
    by (rule bit_word_eqI) (use that in \<open>simp add: bit_simps bit_REVERSE64\<close>)
  from this [of 0] this [of 1] this [of 2] this [of 3] this [of 4] this [of 5] this [of 6] this [of 7] show ?thesis
    by (simp add: host64_def be_bytes_def upt_rec)
qed

lemma REVERSE32_word: "REVERSE32 (le_word32 a b c d) = be_word [a, b, c, d]"
proof (rule bit_word_eqI)
  fix n assume n: "n < LENGTH(32)"
  have "list_all (\<lambda>n. bit (REVERSE32 (le_word32 a b c d)) n \<longleftrightarrow> bit (be_word [a, b, c, d] :: u32) n) [0..<32]"
    unfolding upto_32 by (simp add: bit_REVERSE32 be_word_def bit_simps bit_high numeral_2_eq_2 [symmetric])
  with n show "bit (REVERSE32 (le_word32 a b c d)) n \<longleftrightarrow> bit (be_word [a, b, c, d] :: u32) n"
    by (simp add: list_all_iff)
qed

lemma host32_word: "host32 (le_word32 a b c d) = [a, b, c, d]"
proof -
  have "ucast (le_word32 a b c d) = a" "ucast (drop_bit 8 (le_word32 a b c d)) = b"
    "ucast (drop_bit 16 (le_word32 a b c d)) = c" "ucast (drop_bit 24 (le_word32 a b c d)) = d"
    by (rule bit_word_eqI, simp add: bit_simps bit_high)+
  then show ?thesis by (simp add: host32_def upt_rec)
qed

lemma word_host32:
  "le_word32 (ucast w) (ucast (drop_bit 8 w)) (ucast (drop_bit 16 w)) (ucast (drop_bit 24 w)) = w"
proof (rule bit_word_eqI)
  fix n assume n: "n < LENGTH(32)"
  consider "n < 8" | "8 \<le> n" "n < 16" | "16 \<le> n" "n < 24" | "24 \<le> n" "n < 32" using n by fastforce
  then show "bit (le_word32 (ucast w) (ucast (drop_bit 8 w)) (ucast (drop_bit 16 w)) (ucast (drop_bit 24 w))) n
      \<longleftrightarrow> bit w n" by cases (auto simp: bit_simps)
qed

lemma REVERSE64_word: "REVERSE64 (le_word64 a b c d e f g h) = be_word [a, b, c, d, e, f, g, h]"
proof (rule bit_word_eqI)
  fix n assume n: "n < LENGTH(64)"
  have "list_all (\<lambda>n. bit (REVERSE64 (le_word64 a b c d e f g h)) n \<longleftrightarrow>
      bit (be_word [a, b, c, d, e, f, g, h] :: u64) n) [0..<64]"
    unfolding upto_64 by (simp add: bit_REVERSE64 be_word_def bit_simps bit_high numeral_2_eq_2 [symmetric])
  with n show "bit (REVERSE64 (le_word64 a b c d e f g h)) n \<longleftrightarrow> bit (be_word [a, b, c, d, e, f, g, h] :: u64) n"
    by (simp add: list_all_iff)
qed

lemma host64_word: "host64 (le_word64 a b c d e f g h) = [a, b, c, d, e, f, g, h]"
proof -
  have "ucast (le_word64 a b c d e f g h) = a" "ucast (drop_bit 8 (le_word64 a b c d e f g h)) = b"
    "ucast (drop_bit 16 (le_word64 a b c d e f g h)) = c" "ucast (drop_bit 24 (le_word64 a b c d e f g h)) = d"
    "ucast (drop_bit 32 (le_word64 a b c d e f g h)) = e" "ucast (drop_bit 40 (le_word64 a b c d e f g h)) = f"
    "ucast (drop_bit 48 (le_word64 a b c d e f g h)) = g" "ucast (drop_bit 56 (le_word64 a b c d e f g h)) = h"
    by (rule bit_word_eqI, simp add: bit_simps bit_high)+
  then show ?thesis by (simp add: host64_def upt_rec)
qed

lemma chunk_cases:
  "length (bs :: bytes) = 4 * Suc k \<Longrightarrow> (\<And>a b c d r. bs = a # b # c # d # r \<Longrightarrow> length r = 4 * k \<Longrightarrow> P) \<Longrightarrow> P"
  "length (bs :: bytes) = 8 * Suc k \<Longrightarrow>
   (\<And>a b c d e f g h r. bs = a # b # c # d # e # f # g # h # r \<Longrightarrow> length r = 8 * k \<Longrightarrow> P) \<Longrightarrow> P"
  by (cases bs rule: words32.cases; simp) (cases bs rule: words64.cases; simp)

lemma upt_0_Suc: "[0..<Suc n] = 0 # map Suc [0..<n]"
  by (simp add: upt_conv_Cons map_Suc_upt del: upt_Suc)

lemma be_words32_Cons: "be_words32 (a # b # c # d # r) = be_word [a, b, c, d] # be_words32 r"
proof -
  have l: "length (a # b # c # d # r) div 4 = Suc (length r div 4)" by simp
  have "drop (4 + n) (a # b # c # d # r) = drop n r" for n
    using drop_drop [of n 4 "a # b # c # d # r"] by (simp add: add.commute)
  then show ?thesis by (simp only: be_words32_def upt_0_Suc l) simp
qed

lemma be_words64_Cons:
  "be_words64 (a # b # c # d # e # f # g # h # r) = be_word [a, b, c, d, e, f, g, h] # be_words64 r"
proof -
  have l: "length (a # b # c # d # e # f # g # h # r) div 8 = Suc (length r div 8)" by simp
  have "drop (8 + n) (a # b # c # d # e # f # g # h # r) = drop n r" for n
    using drop_drop [of n 8 "a # b # c # d # e # f # g # h # r"] by (simp add: add.commute)
  then show ?thesis by (simp only: be_words64_def upt_0_Suc l) simp
qed

lemma words32_host:
  "length bs = 4 * k \<Longrightarrow>
   concat (map host32 (words32 bs)) = bs \<and> length (words32 bs) = k \<and> map REVERSE32 (words32 bs) = be_words32 bs"
proof (induction k arbitrary: bs)
  case (Suc k)
  from Suc.prems show ?case
    by (rule chunk_cases) (use Suc.IH in \<open>simp add: host32_word REVERSE32_word be_words32_Cons\<close>)
qed (simp add: be_words32_def)

lemma words64_host:
  "length bs = 8 * k \<Longrightarrow>
   concat (map host64 (words64 bs)) = bs \<and> length (words64 bs) = k \<and> map REVERSE64 (words64 bs) = be_words64 bs"
proof (induction k arbitrary: bs)
  case (Suc k)
  from Suc.prems show ?case
    by (rule chunk_cases) (use Suc.IH in \<open>simp add: host64_word REVERSE64_word be_words64_Cons\<close>)
qed (simp add: be_words64_def)

section \<open>The window of sixteen schedule words\<close>

lemma length_schedule [simp]: "length (schedule mix m k) = length m + k"
  by (induction k) (simp_all add: Let_def)

lemma schedule_prefix: "j < length m + k \<Longrightarrow> schedule mix m (k + n) ! j = schedule mix m k ! j"
  by (induction n) (simp_all add: Let_def nth_append)

lemma schedule_start: "j < length m \<Longrightarrow> schedule mix m k ! j = m ! j"
  using schedule_prefix [of j m 0 mix k] by simp

text \<open>The copying loop fills the window with the block and runs the rounds over it.\<close>

lemma copy_loop:
  assumes "n \<le> 16" and "length data = 16"
  shows "foldl (\<lambda>(W, r) j. (W[j := data ! j], rnd j (data ! j) r)) (replicate 16 x, r0) [0..<n] =
     (take n data @ replicate (16 - n) x, foldl (\<lambda>r j. rnd j (data ! j) r) r0 [0..<n])"
  using assms(1)
proof (induction n)
  case (Suc n)
  have "(take n data @ replicate (16 - n) x)[n := data ! n] = take (Suc n) data @ replicate (16 - Suc n) x"
  proof -
    have "16 - n = Suc (16 - Suc n)" using Suc.prems by simp
    then show ?thesis using Suc.prems assms(2) by (simp add: list_update_append take_Suc_conv_app_nth)
  qed
  with Suc show ?case by simp
qed simp

lemma window_step:
  assumes "window full k W" and "length full = 16 + k"
  shows "window (full @ [v]) (Suc k) (W[k mod 16 := v])"
proof -
  have "W[k mod 16 := v] ! ((Suc k + i) mod 16) = (full @ [v]) ! (Suc k + i)" if "i < 16" for i
  proof (cases "i = 15")
    case True
    then have "(Suc k + i) mod 16 = k mod 16" by simp
    with True assms show ?thesis by (simp add: window_def nth_append)
  next
    case False
    then have i: "Suc i < 16" using that by simp
    then have "(k + Suc i) mod 16 \<noteq> k mod 16" by (auto simp: mod_eq_dvd_iff_nat dest: dvd_imp_le)
    moreover have "W ! ((k + Suc i) mod 16) = full ! (k + Suc i)"
      using assms(1) i unfolding window_def by blast
    ultimately show ?thesis using assms(2) i by (simp add: nth_append)
  qed
  with assms(1) show ?thesis by (simp add: window_def)
qed

lemma window_loop:
  assumes "local_mix mix" and "length m = 16" and "n \<le> N"
  shows "\<exists>W. foldl (window_round mix rnd) (m, r0) [16..<16 + n] =
      (W, foldl (\<lambda>r j. rnd j (schedule mix m N ! j) r) r0 [16..<16 + n]) \<and> window (schedule mix m n) n W"
  using assms(3)
proof (induction n)
  case 0
  then show ?case using assms(2) by (simp add: window_def)
next
  case (Suc n)
  then obtain W where W: "foldl (window_round mix rnd) (m, r0) [16..<16 + n] =
      (W, foldl (\<lambda>r j. rnd j (schedule mix m N ! j) r) r0 [16..<16 + n])" "window (schedule mix m n) n W"
    by auto
  let ?v = "mix (\<lambda>i. schedule mix m n ! (n + i))"
  have "(16 + n + i) mod 16 = (n + i) mod 16" for i by (simp add: add.assoc)
  then have win: "W ! ((16 + n + i) mod 16) = schedule mix m n ! (n + i)" if "i < 16" for i
    using W(2) that by (simp add: window_def)
  have "mix (\<lambda>i. W ! ((16 + n + i) mod 16)) = ?v"
    by (rule assms(1) [unfolded local_mix_def, rule_format]) (rule win)
  moreover have "schedule mix m N ! (16 + n) = ?v"
    using schedule_prefix [of "16 + n" m "Suc n" mix "N - Suc n"] Suc.prems assms(2)
    by (simp add: Let_def nth_append)
  moreover have "window (schedule mix m (Suc n)) (Suc n) (W[n mod 16 := ?v])"
    using window_step [OF W(2), of ?v] assms(2) by (simp add: Let_def)
  moreover have u: "[16..<16 + Suc n] = [16..<16 + n] @ [16 + n]" using upt_Suc [of 16 "16 + n"] by simp
  ultimately show ?case
    unfolding u foldl_append W(1) by (intro exI [of _ "W[n mod 16 := ?v]"]) (simp add: Let_def)
qed

text \<open>Both loops together: the rounds over the full schedule.\<close>

lemma transform_loops:
  assumes "local_mix mix" and "length data = 16"
  shows "snd (foldl (window_round mix rnd)
       (foldl (\<lambda>(W, r) j. (W[j := data ! j], rnd j (data ! j) r)) (replicate 16 x, r0) [0..<16]) [16..<16 + n]) =
     foldl (\<lambda>r j. rnd j (schedule mix data n ! j) r) r0 [0..<16 + n]"
proof -
  have a: "foldl (\<lambda>r j. rnd j (data ! j) r) r0 [0..<16] = foldl (\<lambda>r j. rnd j (schedule mix data n ! j) r) r0 [0..<16]"
    by (rule foldl_cong) (use assms(2) in \<open>simp_all add: schedule_start\<close>)
  have "[0..<16 + n] = [0..<16] @ [16..<16 + n]" by (rule upt_add_eq_append) simp
  moreover obtain W where "foldl (window_round mix rnd) (data, foldl (\<lambda>r j. rnd j (data ! j) r) r0 [0..<16]) [16..<16 + n] =
      (W, foldl (\<lambda>r j. rnd j (schedule mix data n ! j) r) (foldl (\<lambda>r j. rnd j (data ! j) r) r0 [0..<16]) [16..<16 + n])"
    using window_loop [OF assms order_refl, of rnd _ n] by blast
  ultimately show ?thesis using copy_loop [of 16 data rnd x r0] assms(2) by (simp add: a)
qed

section \<open>The transforms compute the reference blocks\<close>

lemma local_mixes: "local_mix mix256" "local_mix mix512" "local_mix mix1"
  by (simp_all add: local_mix_def mix256_def mix512_def mix1_def)

lemma sha256_Transform_block:
  assumes "length b = 64"
  shows "sha256_Transform H (be_words32 b) = sha256_block H b"
proof -
  have l: "length (be_words32 b) = 16" using assms by (simp add: be_words32_def)
  have s: "sha256_step = window_round mix256 (\<lambda>j. round256 (K256 ! j))"
    by (auto simp: sha256_step_def mix256_def Let_def fun_eq_iff ac_simps)
  show ?thesis
    using transform_loops [OF local_mixes(1) l, of "\<lambda>j. round256 (K256 ! j)" 0 "regs8 H" 48]
    by (simp add: sha256_Transform_def sha256_block_def sha256_copy_step_def s Let_def)
qed

lemma sha512_Transform_block:
  assumes "length b = 128"
  shows "sha512_Transform H (be_words64 b) = sha512_block H b"
proof -
  have l: "length (be_words64 b) = 16" using assms by (simp add: be_words64_def)
  have s: "sha512_step = window_round mix512 (\<lambda>j. round512 (K512 ! j))"
    by (auto simp: sha512_step_def mix512_def Let_def fun_eq_iff ac_simps)
  show ?thesis
    using transform_loops [OF local_mixes(2) l, of "\<lambda>j. round512 (K512 ! j)" 0 "regs8 H" 64]
    by (simp add: sha512_Transform_def sha512_block_def sha512_copy_step_def s Let_def)
qed

lemma sha1_step_window:
  assumes "\<forall>j \<in> set js. round1_at j = round1 f k"
  shows "foldl (sha1_step f k) s js = foldl (window_round mix1 round1_at) s js"
  by (rule foldl_cong) (use assms in \<open>auto simp: sha1_step_def mix1_def Let_def\<close>)

lemma sha1_Transform_block:
  assumes "length b = 64"
  shows "sha1_Transform H (be_words32 b) = sha1_block H b"
proof -
  let ?d = "be_words32 b" and ?r = "(H ! 0, H ! 1, H ! 2, H ! 3, H ! 4)"
  have l: "length ?d = 16" using assms by (simp add: be_words32_def)
  have c: "foldl (sha1_copy_step ?d) s [0..<16] =
      foldl (\<lambda>(W, r) j. (W[j := ?d ! j], round1_at j (?d ! j) r)) s [0..<16]" for s
    by (rule foldl_cong) (auto simp: sha1_copy_step_def round1_at_def)
  have w: "foldl (sha1_step Ch 0x5a827999) s [16..<20] = foldl (window_round mix1 round1_at) s [16..<20]"
    "foldl (sha1_step Parity 0x6ed9eba1) s [20..<40] = foldl (window_round mix1 round1_at) s [20..<40]"
    "foldl (sha1_step Maj 0x8f1bbcdc) s [40..<60] = foldl (window_round mix1 round1_at) s [40..<60]"
    "foldl (sha1_step Parity 0xca62c1d6) s [60..<80] = foldl (window_round mix1 round1_at) s [60..<80]" for s
    by (rule sha1_step_window, simp add: round1_at_def)+
  have u: "[16..<80] = [16..<20] @ [20..<40] @ [40..<60] @ [60..<80]" by code_simp
  define z where "z = foldl (window_round mix1 round1_at)
    (foldl (\<lambda>(W, r) j. (W[j := ?d ! j], round1_at j (?d ! j) r)) (replicate 16 0, ?r) [0..<16]) [16..<80]"
  have "snd z = foldl (\<lambda>r t. round1_at t (schedule mix1 ?d 64 ! t) r) ?r [0..<80]"
    using transform_loops [OF local_mixes(3) l, of round1_at 0 ?r 64] by (simp add: z_def)
  moreover have "sha1_Transform H ?d = (let (W, a, b, c, d, e) = z
      in [H ! 0 + a, H ! 1 + b, H ! 2 + c, H ! 3 + d, H ! 4 + e])"
    by (simp only: sha1_Transform_def Let_def c w z_def u foldl_append)
  ultimately show ?thesis by (simp add: sha1_block_def Let_def split_def)
qed

section \<open>The contexts satisfy the streaming contract\<close>

lemma used_bytes: "k < 2 ^ 61 \<Longrightarrow> drop_bit 3 (of_nat (8 * k) :: u64) = of_nat k"
proof -
  assume "k < 2 ^ 61"
  then have "unat (of_nat (8 * k) :: u64) = 8 * k" "unat (of_nat k :: u64) = k"
    by (intro unat_of_nat_lt, simp)+
  then have "unat (drop_bit 3 (of_nat (8 * k) :: u64)) = unat (of_nat k :: u64)"
    unfolding unat_drop_bit_eq by (simp only: drop_bit_eq_div) simp
  then show ?thesis by (metis word_unat_eq_iff)
qed

lemma counts64_used: "k < 2 ^ 61 \<Longrightarrow> unat (drop_bit 3 (of_nat (8 * k) :: u64) mod 64) = k mod 64"
  by (simp only: used_bytes) (simp add: unat_mod unat_of_nat take_bit_nat_eq_self)

lemma counts128_used: "k < 2 ^ 61 \<Longrightarrow> unat (drop_bit 3 (of_nat (8 * k) :: u64) mod 128) = k mod 128"
  by (simp only: used_bytes) (simp add: unat_mod unat_of_nat take_bit_nat_eq_self)

lemma counts_add: "(of_nat (8 * k) :: u64) + push_bit 3 (of_nat j) = of_nat (8 * (k + j))"
  by (simp add: push_bit_eq_mult algebra_simps)

lemma host32_list: "host32 w = [ucast w, ucast (drop_bit 8 w), ucast (drop_bit 16 w), ucast (drop_bit 24 w)]"
  by (simp add: host32_def upt_rec)

lemma host64_list: "host64 w = [ucast w, ucast (drop_bit 8 w), ucast (drop_bit 16 w), ucast (drop_bit 24 w),
    ucast (drop_bit 32 w), ucast (drop_bit 40 w), ucast (drop_bit 48 w), ucast (drop_bit 56 w)]"
  by (simp add: host64_def upt_rec)

lemma length_host: "length (host32 w) = 4" "length (host64 v) = 8"
  by (simp_all add: host32_def host64_def)

lemma word_host64:
  "le_word64 (ucast w) (ucast (drop_bit 8 w)) (ucast (drop_bit 16 w)) (ucast (drop_bit 24 w))
     (ucast (drop_bit 32 w)) (ucast (drop_bit 40 w)) (ucast (drop_bit 48 w)) (ucast (drop_bit 56 w)) = w"
  (is "?l = w")
proof (rule bit_word_eqI)
  fix n assume n: "n < LENGTH(64)"
  have "list_all (\<lambda>n. bit ?l n \<longleftrightarrow> bit w n) [0..<64]"
    unfolding upto_64 by (simp add: bit_simps bit_high numeral_2_eq_2 [symmetric])
  with n show "bit ?l n \<longleftrightarrow> bit w n" by (simp add: list_all_iff)
qed

lemma buf_Nil [simp]: "buf32 [] = []" "buf64 [] = []"
  by (simp_all add: buf32_def buf64_def)

lemma length_buf32 [simp]: "length (buf32 b) = 4 * length b"
  by (induction b) (simp_all add: buf32_def host32_def)

lemma length_buf64 [simp]: "length (buf64 b) = 8 * length b"
  by (induction b) (simp_all add: buf64_def host64_def)

lemma words_buf32: "words32 (buf32 b) = b"
  by (induction b) (simp_all add: buf32_def host32_list word_host32)

lemma words_buf64: "words64 (buf64 b) = b"
  by (induction b) (simp_all add: buf64_def host64_list word_host64)

lemma be_words_buf32: "be_words32 (buf32 b) = map REVERSE32 b"
  using words32_host [of "buf32 b" "length b"] by (simp add: words_buf32)

lemma be_words_buf64: "be_words64 (buf64 b) = map REVERSE64 b"
  using words64_host [of "buf64 b" "length b"] by (simp add: words_buf64)

lemma be_words32_append: "length x = 4 * k \<Longrightarrow> be_words32 (x @ y) = be_words32 x @ be_words32 y"
proof (induction k arbitrary: x)
  case (Suc k)
  from Suc.prems show ?case by (rule chunk_cases) (use Suc.IH in \<open>simp add: be_words32_Cons\<close>)
qed (simp add: be_words32_def)

lemma be_words64_append: "length x = 8 * k \<Longrightarrow> be_words64 (x @ y) = be_words64 x @ be_words64 y"
proof (induction k arbitrary: x)
  case (Suc k)
  from Suc.prems show ?case by (rule chunk_cases) (use Suc.IH in \<open>simp add: be_words64_Cons\<close>)
qed (simp add: be_words64_def)

lemma take_buf32: "take (4 * k) (buf32 b) = buf32 (take k b)"
proof (induction b arbitrary: k)
  case (Cons w b)
  then show ?case by (cases k) (simp_all add: buf32_def length_host)
qed simp

lemma take_buf64: "take (8 * k) (buf64 b) = buf64 (take k b)"
proof (induction b arbitrary: k)
  case (Cons w b)
  then show ?case by (cases k) (simp_all add: buf64_def length_host)
qed simp

lemma memcpy32_view:
  assumes "words16 b" and "off + length d \<le> 64"
  shows "\<exists>b'. memcpy32 b off d = Some b' \<and> words16 b' \<and> buf32 b' = take off (buf32 b) @ d @ drop (off + length d) (buf32 b)"
proof -
  have "length (take off (buf32 b) @ d @ drop (off + length d) (buf32 b)) = 4 * 16" using assms by simp
  from words32_host [OF this] show ?thesis
    using assms by (auto simp: memcpy32_def mem_write_def buf32_def [symmetric])
qed

lemma memcpy64_view:
  assumes "words16 b" and "off + length d \<le> 128"
  shows "\<exists>b'. memcpy64 b off d = Some b' \<and> words16 b' \<and> buf64 b' = take off (buf64 b) @ d @ drop (off + length d) (buf64 b)"
proof -
  have "length (take off (buf64 b) @ d @ drop (off + length d) (buf64 b)) = 8 * 16" using assms by simp
  from words64_host [OF this] show ?thesis
    using assms by (auto simp: memcpy64_def mem_write_def buf64_def [symmetric])
qed

lemma be_word_be_bytes32: "be_word [ucast (drop_bit 24 w), ucast (drop_bit 16 w), ucast (drop_bit 8 w), ucast w] = (w :: u32)"
  (is "?l = w")
proof (rule bit_word_eqI)
  fix n assume n: "n < LENGTH(32)"
  have "list_all (\<lambda>n. bit ?l n \<longleftrightarrow> bit w n) [0..<32]"
    unfolding upto_32 by (simp add: be_word_def bit_simps bit_high numeral_2_eq_2 [symmetric])
  with n show "bit ?l n \<longleftrightarrow> bit w n" by (simp add: list_all_iff)
qed

lemma be_words32_length: "be_words32 (be_bytes 8 (n :: u64)) = [ucast (drop_bit 32 n), ucast (n AND 0xffffffff)]"
proof -
  let ?hi = "ucast (drop_bit 32 n) :: u32" and ?lo = "ucast n :: u32"
  have "be_bytes 8 n = [ucast (drop_bit 24 ?hi), ucast (drop_bit 16 ?hi), ucast (drop_bit 8 ?hi), ucast ?hi,
      ucast (drop_bit 24 ?lo), ucast (drop_bit 16 ?lo), ucast (drop_bit 8 ?lo), ucast ?lo]"
    by (simp add: be_bytes_def upt_rec) (auto intro!: bit_word_eqI simp: bit_simps)
  moreover have "(ucast (n AND 0xffffffff) :: u32) = ?lo"
  proof (rule bit_word_eqI)
    fix i assume i: "i < LENGTH(32)"
    have "list_all (\<lambda>i. bit (ucast (n AND 0xffffffff) :: u32) i \<longleftrightarrow> bit ?lo i) [0..<32]"
      unfolding upto_32 by (simp add: bit_simps)
    with i show "bit (ucast (n AND 0xffffffff) :: u32) i \<longleftrightarrow> bit ?lo i" by (simp add: list_all_iff)
  qed
  ultimately show ?thesis by (simp add: be_words32_Cons be_word_be_bytes32) (simp add: be_words32_def)
qed

lemma be_word_be_bytes64: "be_word [ucast (drop_bit 56 w), ucast (drop_bit 48 w), ucast (drop_bit 40 w),
    ucast (drop_bit 32 w), ucast (drop_bit 24 w), ucast (drop_bit 16 w), ucast (drop_bit 8 w), ucast w] = (w :: u64)"
  (is "?l = w")
proof (rule bit_word_eqI)
  fix n assume n: "n < LENGTH(64)"
  have "list_all (\<lambda>n. bit ?l n \<longleftrightarrow> bit w n) [0..<64]"
    unfolding upto_64 by (simp add: be_word_def bit_simps bit_high numeral_2_eq_2 [symmetric])
  with n show "bit ?l n \<longleftrightarrow> bit w n" by (simp add: list_all_iff)
qed

lemma be_words64_length:
  "be_words64 (be_bytes 16 (n :: 128 word)) = [ucast (drop_bit 64 n), ucast n]"
proof -
  let ?hi = "ucast (drop_bit 64 n) :: u64" and ?lo = "ucast n :: u64"
  have "be_bytes 16 n = [ucast (drop_bit 56 ?hi), ucast (drop_bit 48 ?hi), ucast (drop_bit 40 ?hi), ucast (drop_bit 32 ?hi),
      ucast (drop_bit 24 ?hi), ucast (drop_bit 16 ?hi), ucast (drop_bit 8 ?hi), ucast ?hi,
      ucast (drop_bit 56 ?lo), ucast (drop_bit 48 ?lo), ucast (drop_bit 40 ?lo), ucast (drop_bit 32 ?lo),
      ucast (drop_bit 24 ?lo), ucast (drop_bit 16 ?lo), ucast (drop_bit 8 ?lo), ucast ?lo]"
    by (simp add: be_bytes_def upt_rec) (auto intro!: bit_word_eqI simp: bit_simps)
  then show ?thesis by (simp add: be_words64_Cons be_word_be_bytes64) (simp add: be_words64_def)
qed

lemma len64_words: "be_words32 (len64 k) = [ucast (drop_bit 32 (of_nat (8 * k) :: u64)), ucast ((of_nat (8 * k) :: u64) AND 0xffffffff)]"
  by (simp only: len64_def be_words32_length)

lemma len128_words: "k < 2 ^ 61 \<Longrightarrow> be_words64 (len128 k) = [0, of_nat (8 * k)]"
proof -
  assume k: "k < 2 ^ 61"
  have "unat (of_nat (8 * k) :: 128 word) = 8 * k" by (rule unat_of_nat_lt) (use k in simp)
  then have "unat (drop_bit 64 (of_nat (8 * k) :: 128 word)) = 0"
    unfolding unat_drop_bit_eq using k by (simp only: drop_bit_eq_div) simp
  then have "drop_bit 64 (of_nat (8 * k) :: 128 word) = 0" by (simp only: unat_eq_zero)
  moreover have "(ucast (of_nat (8 * k) :: 128 word) :: u64) = of_nat (8 * k)"
  proof -
    have "take_bit LENGTH(128) (8 * k) = 8 * k" by (rule take_bit_nat_eq_self) (use k in simp)
    then show ?thesis by (simp only: unsigned_of_nat)
  qed
  ultimately show ?thesis by (simp only: len128_def be_words64_length) simp
qed

lemma sha32_set_length:
  assumes "words16 b"
  shows "be_words32 (take 56 (buf32 b) @ len64 k) =
     map REVERSE32 (take 14 b) @ [ucast (drop_bit 32 (of_nat (8 * k) :: u64)), ucast ((of_nat (8 * k) :: u64) AND 0xffffffff)]"
proof -
  have "take 56 (buf32 b) = buf32 (take 14 b)" using take_buf32 [of 14 b] by simp
  then show ?thesis
    using be_words32_append [of "buf32 (take 14 b)" 14 "len64 k"] assms len64_words [of k]
    by (simp only: be_words_buf32) simp
qed

lemma sha512_set_length:
  assumes "words16 b" and "k < 2 ^ 61"
  shows "be_words64 (take 112 (buf64 b) @ len128 k) = map REVERSE64 (take 14 b) @ [0, of_nat (8 * k)]"
proof -
  have "take 112 (buf64 b) = buf64 (take 14 b)" using take_buf64 [of 14 b] by simp
  then show ?thesis
    using be_words64_append [of "buf64 (take 14 b)" 14 "len128 k"] assms(1) len128_words [OF assms(2)]
    by (simp only: be_words_buf64) simp
qed

lemma length_len: "length (len64 k) = 8" "length (len128 k) = 16"
  by (simp_all add: len64_def len128_def be_bytes_def)

text \<open>What the two 32-bit functions need of their transform.\<close>

lemma sha32_stream:
  assumes "\<And>s b. length b = 64 \<Longrightarrow> transform s (be_words32 b) = f s b"
  shows "hash_stream (sha32_alg transform) words16 buf32 counts64 (2 ^ 61) f len64"
proof (unfold_locales, goal_cases)
  case (5 b s)
  then show ?case using assms [of "buf32 b" s] by (simp add: sha32_alg_def be_words_buf32)
next
  case (6 n k)
  then show ?case using counts64_used [of k] by (simp only: counts64_def) (simp add: sha32_alg_def)
next
  case (7 n k j)
  then show ?case using counts_add [of k j] by (simp only: counts64_def) (simp add: sha32_alg_def)
next
  case (8 b n k s)
  then show ?case
    using assms [of "take 56 (buf32 b) @ len64 k" s] sha32_set_length [of b k]
    by (simp add: sha32_alg_def counts64_def length_len)
next
  case (4 b off d)
  then show ?case using memcpy32_view [of b off d] by (simp add: sha32_alg_def)
qed (simp_all add: sha32_alg_def length_len)

interpretation h1: hash_stream "sha32_alg sha1_Transform" words16 buf32 counts64 "2 ^ 61" sha1_block len64
  by (rule sha32_stream) (rule sha1_Transform_block)

interpretation h256: hash_stream "sha32_alg sha256_Transform" words16 buf32 counts64 "2 ^ 61" sha256_block len64
  by (rule sha32_stream) (rule sha256_Transform_block)

lemma ADDINC128_count:
  assumes "k + j < 2 ^ 61"
  shows "ADDINC128 (push_bit 3 (of_nat j)) (of_nat (8 * k), 0) = (of_nat (8 * (k + j)), 0)"
proof -
  have p: "push_bit 3 (of_nat j :: u64) = of_nat (8 * j)" by (simp add: push_bit_eq_mult)
  have "unat (of_nat (8 * (k + j)) :: u64) = 8 * (k + j)" "unat (of_nat (8 * j) :: u64) = 8 * j"
    using assms by (intro unat_of_nat_lt, simp)+
  then have "\<not> (of_nat (8 * (k + j)) :: u64) < of_nat (8 * j)" by (simp only: word_less_nat_alt) simp
  with counts_add [of k j] show ?thesis by (simp only: ADDINC128_def Let_def fst_conv snd_conv p) simp
qed

interpretation h512: hash_stream sha512_alg words16 buf64 counts128 "2 ^ 61" sha512_block len128
proof (unfold_locales, goal_cases)
  case (4 b off d)
  then show ?case using memcpy64_view [of b off d] by (simp add: sha512_alg_def)
next
  case (5 b s)
  then show ?case using sha512_Transform_block [of "buf64 b" s] by (simp add: sha512_alg_def be_words_buf64)
next
  case (6 n k)
  then show ?case using counts128_used [of k] by (simp only: counts128_def) (simp add: sha512_alg_def)
next
  case (7 n k j)
  then show ?case using ADDINC128_count [of k j] by (simp only: counts128_def) (simp add: sha512_alg_def)
next
  case (8 b n k s)
  then show ?case
    using sha512_Transform_block [of "take 112 (buf64 b) @ len128 k" s] sha512_set_length [of b k]
    by (simp add: sha512_alg_def counts128_def length_len)
qed (simp_all add: sha512_alg_def length_len)

section \<open>Properties\<close>

lemma digest32: "concat (map host32 (map REVERSE32 st)) = concat (map (be_bytes 4) st)"
  by (simp add: host32_REVERSE comp_def)

lemma digest64: "concat (map host64 (map REVERSE64 st)) = concat (map (be_bytes 8) st)"
  by (simp add: host64_REVERSE comp_def)

lemma sha32_sizes: "ha_block (sha32_alg tr) = 64" "ha_short (sha32_alg tr) = 56" "ha_block sha512_alg = 128" "ha_short sha512_alg = 112"
  by (simp_all add: sha32_alg_def sha512_alg_def)

lemma pieces_updates:
  "sha1_pieces ds = hash_updates (sha32_alg sha1_Transform) ds"
  "sha256_pieces ds = hash_updates (sha32_alg sha256_Transform) ds"
  "sha512_pieces ds = hash_updates sha512_alg ds"
  by (induction ds) (rule ext, simp add: sha1_Update_def sha256_Update_def sha512_Update_def)+

lemma sha256_stream:
  assumes "length (concat ds) < 2 ^ 61"
  shows "\<exists>c c'. sha256_pieces ds sha256_Init = Some c \<and> sha256_Final True c = Some (Some (sha256_spec (concat ds)), c')"
  using h256.stream_correct [of sha256_Init sha256_initial_hash_value ds] assms
  by (auto simp: sha256_Init_def counts64_def pieces_updates sha256_Final_def sha256_spec_def digest32 sha32_sizes
      simp del: map_map)

lemma sha1_stream:
  assumes "length (concat ds) < 2 ^ 61"
  shows "\<exists>c c'. sha1_pieces ds sha1_Init = Some c \<and> sha1_Final True c = Some (Some (sha1_spec (concat ds)), c')"
  using h1.stream_correct [of sha1_Init sha1_initial_hash_value ds] assms
  by (auto simp: sha1_Init_def counts64_def pieces_updates sha1_Final_def sha1_spec_def digest32 sha32_sizes
      simp del: map_map)

lemma sha512_stream:
  assumes "length (concat ds) < 2 ^ 61"
  shows "\<exists>c c'. sha512_pieces ds sha512_Init = Some c \<and> sha512_Final True c = Some (Some (sha512_spec (concat ds)), c')"
  using h512.stream_correct [of sha512_Init sha512_initial_hash_value ds] assms
  by (auto simp: sha512_Init_def counts128_def pieces_updates sha512_Final_def sha512_Last_def sha512_spec_def digest64
      sha32_sizes simp del: map_map)

text \<open>
  C36. SHA-1, SHA-256 and SHA-512 computed incrementally are the FIPS 180 functions: however a
  message of less than \<open>2 ^ 61\<close> bytes is cut into \<open>Update\<close> calls, no access leaves the buffer and
  \<open>Final\<close> returns the digest of the whole message, defined by its padding, the full message
  schedule of every block and the rounds.
\<close>

theorem sha2_incremental:
  assumes "length (concat ds) < 2 ^ 61"
  shows "\<exists>c1 c1' c2 c2' c3 c3'.
     sha1_pieces ds sha1_Init = Some c1 \<and> sha1_Final True c1 = Some (Some (sha1_spec (concat ds)), c1') \<and>
     sha256_pieces ds sha256_Init = Some c2 \<and> sha256_Final True c2 = Some (Some (sha256_spec (concat ds)), c2') \<and>
     sha512_pieces ds sha512_Init = Some c3 \<and> sha512_Final True c3 = Some (Some (sha512_spec (concat ds)), c3')"
  using sha1_stream [OF assms] sha256_stream [OF assms] sha512_stream [OF assms] by blast

theorem sha2_incremental_witness:
  "\<exists>c1 c1' c2 c2' c3 c3'.
     sha1_pieces [[97], [98, 99]] sha1_Init = Some c1 \<and> sha1_Final True c1 = Some (Some (sha1_spec [97, 98, 99]), c1') \<and>
     sha256_pieces [[97], [98, 99]] sha256_Init = Some c2 \<and> sha256_Final True c2 = Some (Some (sha256_spec [97, 98, 99]), c2') \<and>
     sha512_pieces [[97], [98, 99]] sha512_Init = Some c3 \<and> sha512_Final True c3 = Some (Some (sha512_spec [97, 98, 99]), c3')"
  using sha2_incremental [of "[[97], [98, 99]]"] by (simp del: sha1_pieces.simps sha256_pieces.simps sha512_pieces.simps)

lemma sha256_Raw_spec: "length m < 2 ^ 61 \<Longrightarrow> sha256_Raw m = Some (sha256_spec m)"
  using sha256_stream [of "[m]"] by (auto simp: sha256_Raw_def split: bind_splits)

lemma sha512_Raw_spec: "length m < 2 ^ 61 \<Longrightarrow> sha512_Raw m = Some (sha512_spec m)"
  using sha512_stream [of "[m]"] by (auto simp: sha512_Raw_def split: bind_splits)

lemma sha1_Raw_spec: "length m < 2 ^ 61 \<Longrightarrow> sha1_Raw m = Some (sha1_spec m)"
  using sha1_stream [of "[m]"] by (auto simp: sha1_Raw_def split: bind_splits)

section \<open>Lengths, and contexts set up by hand\<close>

lemma length_add_regs8: "length (add_regs8 st r) = 8"
  by (simp add: add_regs8_def split: prod.splits)

lemma length_block_state:
  "length (fold_blocks B sha256_block sha256_initial_hash_value m) = 8"
  "length (fold_blocks B sha512_block sha512_initial_hash_value m) = 8"
  by (rule fold_blocks_inv, simp_all add: sha256_block_def sha512_block_def Let_def length_add_regs8
      sha256_initial_hash_value_def sha512_initial_hash_value_def)+

lemma length_be_bytes [simp]: "length (be_bytes n w) = n"
  by (simp add: be_bytes_def)

lemma length_sha256_spec: "length (sha256_spec m) = 32"
  by (simp add: sha256_spec_def length_concat comp_def sum_list_triv length_block_state)

lemma length_sha512_spec: "length (sha512_spec m) = 64"
  by (simp add: sha512_spec_def length_concat comp_def sum_list_triv length_block_state)

lemma sha256_resumed:
  assumes "length p = 64" and "length (p @ concat ds) < 2 ^ 61" and "length garb = 16"
  shows "\<exists>c c'. sha256_pieces ds \<lparr>hc_state = sha256_block sha256_initial_hash_value p, hc_count = 64 * 8, hc_buffer = garb\<rparr>
      = Some c \<and> sha256_Final True c = Some (Some (sha256_spec (p @ concat ds)), c')"
  using h256.stream_resumed [of "\<lparr>hc_state = sha256_block sha256_initial_hash_value p, hc_count = 64 * 8, hc_buffer = garb\<rparr>"
      sha256_initial_hash_value p ds] assms fold_blocks_one [of 64 p sha256_block _ "[]"]
  by (auto simp: counts64_def pieces_updates sha256_Final_def sha256_spec_def digest32 sha32_sizes fold_blocks_short
      simp del: map_map)

lemma sha512_resumed:
  assumes "length p = 128" and "length (p @ concat ds) < 2 ^ 61" and "length garb = 16"
  shows "\<exists>c c'. sha512_pieces ds \<lparr>hc_state = sha512_block sha512_initial_hash_value p, hc_count = (128 * 8, 0), hc_buffer = garb\<rparr>
      = Some c \<and> sha512_Final True c = Some (Some (sha512_spec (p @ concat ds)), c')"
  using h512.stream_resumed [of "\<lparr>hc_state = sha512_block sha512_initial_hash_value p, hc_count = (128 * 8, 0), hc_buffer = garb\<rparr>"
      sha512_initial_hash_value p ds] assms fold_blocks_one [of 128 p sha512_block _ "[]"]
  by (auto simp: counts128_def pieces_updates sha512_Final_def sha512_Last_def sha512_spec_def digest64 sha32_sizes
      fold_blocks_short simp del: map_map)

lemma REVERSE_twice: "REVERSE32 (REVERSE32 w) = w" "REVERSE64 (REVERSE64 v) = v"
proof -
  show "REVERSE32 (REVERSE32 w) = w"
  proof (rule bit_word_eqI)
    fix n assume n: "n < LENGTH(32)"
    have "list_all (\<lambda>n. bit (REVERSE32 (REVERSE32 w)) n \<longleftrightarrow> bit w n) [0..<32]"
      unfolding upto_32 by (simp add: bit_REVERSE32 numeral_2_eq_2 [symmetric])
    with n show "bit (REVERSE32 (REVERSE32 w)) n \<longleftrightarrow> bit w n" by (simp add: list_all_iff)
  qed
  show "REVERSE64 (REVERSE64 v) = v"
  proof (rule bit_word_eqI)
    fix n assume n: "n < LENGTH(64)"
    have "list_all (\<lambda>n. bit (REVERSE64 (REVERSE64 v)) n \<longleftrightarrow> bit v n) [0..<64]"
      unfolding upto_64 by (simp add: bit_REVERSE64 numeral_2_eq_2 [symmetric])
    with n show "bit (REVERSE64 (REVERSE64 v)) n \<longleftrightarrow> bit v n" by (simp add: list_all_iff)
  qed
qed

end
