(* ===== verification/Hmac.thy ===== *)
theory Hmac
  imports Sha2
begin

text \<open>
  \<^verbatim>\<open>src/ptp_crypto/hmac.cpp\<close> and \<^verbatim>\<open>src/ptp_crypto/pbkdf2.cpp\<close>: message authentication with SHA-256
  and SHA-512, and the derivation of a key from a password.

  The code has every function twice, for the two hash functions. The record \<open>hash_prims\<close> holds
  what a function calls of \<^verbatim>\<open>sha2.cpp\<close> and the constants of its word size; a function is
  defined once over the record and instantiated twice. \<open>None\<close> is an access outside an array.
  Static scratch arrays are local; they are overwritten before use and cleared after it.
\<close>

section \<open>What the functions use\<close>

record ('w, 'c) hash_prims =
  hp_block :: nat
  hp_init :: 'c
  hp_update :: "bytes \<Rightarrow> 'c \<Rightarrow> 'c option"
  hp_final :: "'c \<Rightarrow> (bytes \<times> 'c) option"
  hp_resume :: "'w list \<Rightarrow> 'w list \<Rightarrow> 'c"
  hp_iv :: "'w list"
  hp_transform :: "'w list \<Rightarrow> 'w list \<Rightarrow> 'w list"
  hp_memcpy :: "'w list \<Rightarrow> nat \<Rightarrow> bytes \<Rightarrow> 'w list option"
  hp_reverse :: "'w \<Rightarrow> 'w"
  hp_host :: "'w \<Rightarrow> bytes"
  hp_xor :: "'w \<Rightarrow> 'w \<Rightarrow> 'w"
  hp_zero :: 'w
  hp_opad :: 'w
  hp_ipad :: 'w
  hp_one :: 'w
  hp_bits :: 'w

text \<open>
  \<open>Final\<close> with a digest buffer. \<open>hp_resume\<close> is the context that \<open>pbkdf2_Init\<close> sets up by hand: a
  state, one block counted, and the uninitialised buffer.
\<close>

definition sha256_prims :: "(u32, sha32_ctx) hash_prims" where
  "sha256_prims =
     \<lparr>hp_block = 64, hp_init = sha256_Init, hp_update = sha256_Update,
      hp_final = (\<lambda>c. do { (d, c') \<leftarrow> sha256_Final True c; d' \<leftarrow> d; Some (d', c') }),
      hp_resume = (\<lambda>st garb. \<lparr>hc_state = st, hc_count = 64 * 8, hc_buffer = garb\<rparr>),
      hp_iv = sha256_initial_hash_value, hp_transform = sha256_Transform, hp_memcpy = memcpy32,
      hp_reverse = REVERSE32, hp_host = host32, hp_xor = (XOR), hp_zero = 0,
      hp_opad = 0x5c5c5c5c, hp_ipad = 0x36363636, hp_one = 0x80000000, hp_bits = (64 + 32) * 8\<rparr>"

definition sha512_prims :: "(u64, sha512_ctx) hash_prims" where
  "sha512_prims =
     \<lparr>hp_block = 128, hp_init = sha512_Init, hp_update = sha512_Update,
      hp_final = (\<lambda>c. do { (d, c') \<leftarrow> sha512_Final True c; d' \<leftarrow> d; Some (d', c') }),
      hp_resume = (\<lambda>st garb. \<lparr>hc_state = st, hc_count = (128 * 8, 0), hc_buffer = garb\<rparr>),
      hp_iv = sha512_initial_hash_value, hp_transform = sha512_Transform, hp_memcpy = memcpy64,
      hp_reverse = REVERSE64, hp_host = host64, hp_xor = (XOR), hp_zero = 0,
      hp_opad = 0x5c5c5c5c5c5c5c5c, hp_ipad = 0x3636363636363636, hp_one = 0x8000000000000000,
      hp_bits = (128 + 64) * 8\<rparr>"

section \<open>HMAC\<close>

record 'c hmac_ctx =
  o_key_pad :: bytes
  hm_ctx :: 'c

definition hash_Raw :: "('w, 'c) hash_prims \<Rightarrow> bytes \<Rightarrow> bytes option" where
  "hash_Raw F data = do { c \<leftarrow> hp_update F data (hp_init F); (d, c') \<leftarrow> hp_final F c; Some d }"

definition hmac_Init :: "('w, 'c) hash_prims \<Rightarrow> bytes \<Rightarrow> 'c hmac_ctx option" where
  "hmac_Init F key =
     (let zeros = replicate (hp_block F) 0
      in do {
        key_pad \<leftarrow> (if length key > hp_block F
                   then do { d \<leftarrow> hash_Raw F key; mem_write zeros 0 d } else mem_write zeros 0 key);
        c \<leftarrow> hp_update F (map (\<lambda>b. b XOR 0x36) key_pad) (hp_init F);
        Some \<lparr>o_key_pad = map (\<lambda>b. b XOR 0x5c) key_pad, hm_ctx = c\<rparr> })"

definition hmac_Update :: "('w, 'c) hash_prims \<Rightarrow> bytes \<Rightarrow> 'c hmac_ctx \<Rightarrow> 'c hmac_ctx option" where
  "hmac_Update F msg hctx = do { c \<leftarrow> hp_update F msg (hm_ctx hctx); Some (hctx\<lparr>hm_ctx := c\<rparr>) }"

definition hmac_Final :: "('w, 'c) hash_prims \<Rightarrow> 'c hmac_ctx \<Rightarrow> bytes option" where
  "hmac_Final F hctx = do {
     (hmac, c0) \<leftarrow> hp_final F (hm_ctx hctx);
     c1 \<leftarrow> hp_update F (o_key_pad hctx) (hp_init F);
     c2 \<leftarrow> hp_update F hmac c1;
     (hmac', c3) \<leftarrow> hp_final F c2;
     Some hmac' }"

definition hmac_whole :: "('w, 'c) hash_prims \<Rightarrow> bytes \<Rightarrow> bytes \<Rightarrow> bytes option" where
  "hmac_whole F key msg = do {
     h0 \<leftarrow> hmac_Init F key;
     h1 \<leftarrow> hmac_Update F msg h0;
     hmac_Final F h1 }"

text \<open>The states after the outer and the inner key block.\<close>

definition hmac_prepare :: "('w, 'c) hash_prims \<Rightarrow> bytes \<Rightarrow> ('w list \<times> 'w list) option" where
  "hmac_prepare F key =
     (let zeros = replicate 16 (hp_zero F)
      in do {
        key_pad \<leftarrow> (if length key > hp_block F
                   then do { d \<leftarrow> hash_Raw F key; hp_memcpy F zeros 0 d } else hp_memcpy F zeros 0 key);
        let o_pad = map (\<lambda>w. hp_xor F (hp_reverse F w) (hp_opad F)) key_pad;
        let i_pad = map (\<lambda>w. hp_xor F (hp_xor F w (hp_opad F)) (hp_ipad F)) o_pad;
        Some (hp_transform F (hp_iv F) o_pad, hp_transform F (hp_iv F) i_pad) })"

definition hmac_sha256_Init where "hmac_sha256_Init = hmac_Init sha256_prims"
definition hmac_sha256_Update where "hmac_sha256_Update = hmac_Update sha256_prims"
definition hmac_sha256_Final where "hmac_sha256_Final = hmac_Final sha256_prims"
definition hmac_sha256 where "hmac_sha256 = hmac_whole sha256_prims"
definition hmac_sha256_prepare where "hmac_sha256_prepare = hmac_prepare sha256_prims"
definition hmac_sha512_Init where "hmac_sha512_Init = hmac_Init sha512_prims"
definition hmac_sha512_Update where "hmac_sha512_Update = hmac_Update sha512_prims"
definition hmac_sha512_Final where "hmac_sha512_Final = hmac_Final sha512_prims"
definition hmac_sha512 where "hmac_sha512 = hmac_whole sha512_prims"
definition hmac_sha512_prepare where "hmac_sha512_prepare = hmac_prepare sha512_prims"

section \<open>PBKDF2\<close>

record 'w pbkdf2_ctx =
  pb_odig :: "'w list"
  pb_idig :: "'w list"
  pb_f :: "'w list"
  pb_g :: "'w list"
  pb_first :: u32

text \<open>
  A transform into \<open>g\<close> itself: the block is read before the first eight words are written; the
  padding in the last eight stays.
\<close>

definition pb_transform :: "('w, 'c) hash_prims \<Rightarrow> 'w list \<Rightarrow> 'w list \<Rightarrow> 'w list" where
  "pb_transform F st g = hp_transform F st g @ drop 8 g"

definition pbkdf2_Init :: "('w, 'c) hash_prims \<Rightarrow> 'w list \<Rightarrow> bytes \<Rightarrow> bytes \<Rightarrow> 'w pbkdf2_ctx option" where
  "pbkdf2_Init F garb pass salt = do {
     (odig, idig) \<leftarrow> hmac_prepare F pass;
     let g0 = (replicate 16 (hp_zero F))[8 := hp_one F, 15 := hp_bits F];
     c1 \<leftarrow> hp_update F salt (hp_resume F idig garb);
     c2 \<leftarrow> hp_update F (host32 (REVERSE32 1)) c1;
     (d, c3) \<leftarrow> hp_final F c2;
     g1 \<leftarrow> hp_memcpy F g0 0 d;
     let g2 = map (hp_reverse F) (take 8 g1) @ drop 8 g1;
     let g3 = pb_transform F odig g2;
     Some \<lparr>pb_odig = odig, pb_idig = idig, pb_f = take 8 g3, pb_g = g3, pb_first = 1\<rparr> }"

definition pbkdf2_step :: "('w, 'c) hash_prims \<Rightarrow> 'w pbkdf2_ctx \<Rightarrow> 'w pbkdf2_ctx" where
  "pbkdf2_step F p =
     (let g1 = pb_transform F (pb_idig p) (pb_g p); g2 = pb_transform F (pb_odig p) g1
      in p\<lparr>pb_g := g2, pb_f := map2 (hp_xor F) (pb_f p) (take 8 g2)\<rparr>)"

definition pbkdf2_Update :: "('w, 'c) hash_prims \<Rightarrow> u32 \<Rightarrow> 'w pbkdf2_ctx \<Rightarrow> 'w pbkdf2_ctx" where
  "pbkdf2_Update F iterations p =
     (fold (\<lambda>i. pbkdf2_step F) [unat (pb_first p)..<unat iterations] p)\<lparr>pb_first := 0\<rparr>"

definition pbkdf2_Final :: "('w, 'c) hash_prims \<Rightarrow> 'w pbkdf2_ctx \<Rightarrow> bytes" where
  "pbkdf2_Final F p = concat (map (hp_host F) (map (hp_reverse F) (pb_f p)))"

definition pbkdf2_whole :: "('w, 'c) hash_prims \<Rightarrow> 'w list \<Rightarrow> bytes \<Rightarrow> bytes \<Rightarrow> u32 \<Rightarrow> bytes option" where
  "pbkdf2_whole F garb pass salt iterations = do {
     p \<leftarrow> pbkdf2_Init F garb pass salt;
     Some (pbkdf2_Final F (pbkdf2_Update F iterations p)) }"

definition pbkdf2_hmac_sha256_Init where "pbkdf2_hmac_sha256_Init = pbkdf2_Init sha256_prims"
definition pbkdf2_hmac_sha256_Update where "pbkdf2_hmac_sha256_Update = pbkdf2_Update sha256_prims"
definition pbkdf2_hmac_sha256_Final where "pbkdf2_hmac_sha256_Final = pbkdf2_Final sha256_prims"
definition pbkdf2_hmac_sha256 where "pbkdf2_hmac_sha256 = pbkdf2_whole sha256_prims"
definition pbkdf2_hmac_sha512_Init where "pbkdf2_hmac_sha512_Init = pbkdf2_Init sha512_prims"
definition pbkdf2_hmac_sha512_Update where "pbkdf2_hmac_sha512_Update = pbkdf2_Update sha512_prims"
definition pbkdf2_hmac_sha512_Final where "pbkdf2_hmac_sha512_Final = pbkdf2_Final sha512_prims"
definition pbkdf2_hmac_sha512 where "pbkdf2_hmac_sha512 = pbkdf2_whole sha512_prims"

section \<open>Specification\<close>

text \<open>RFC 2104, for a hash function \<open>H\<close> with blocks of \<open>B\<close> bytes.\<close>

definition hmac_key :: "(bytes \<Rightarrow> bytes) \<Rightarrow> nat \<Rightarrow> bytes \<Rightarrow> bytes" where
  "hmac_key H B key = (let k = (if length key > B then H key else key) in k @ replicate (B - length k) 0)"

definition hmac_spec :: "(bytes \<Rightarrow> bytes) \<Rightarrow> nat \<Rightarrow> bytes \<Rightarrow> bytes \<Rightarrow> bytes" where
  "hmac_spec H B key m =
     (let k = hmac_key H B key
      in H (map (\<lambda>b. b XOR 0x5c) k @ H (map (\<lambda>b. b XOR 0x36) k @ m)))"

text \<open>RFC 8018, for a pseudo random function \<open>mac\<close>: the exclusive or of the iterates, first block only.\<close>

fun pbkdf2_iterate :: "(bytes \<Rightarrow> bytes) \<Rightarrow> bytes \<Rightarrow> nat \<Rightarrow> bytes" where
  "pbkdf2_iterate mac salt 0 = mac (salt @ [0, 0, 0, 1])"
| "pbkdf2_iterate mac salt (Suc n) = mac (pbkdf2_iterate mac salt n)"

fun pbkdf2_spec :: "(bytes \<Rightarrow> bytes) \<Rightarrow> bytes \<Rightarrow> nat \<Rightarrow> bytes" where
  "pbkdf2_spec mac salt 0 = pbkdf2_iterate mac salt 0"
| "pbkdf2_spec mac salt (Suc n) = map2 (XOR) (pbkdf2_spec mac salt n) (pbkdf2_iterate mac salt (Suc n))"

section \<open>The interface of the hash functions\<close>

fun feed :: "('w, 'c) hash_prims \<Rightarrow> bytes list \<Rightarrow> 'c \<Rightarrow> 'c option" where
  "feed F [] c = Some c"
| "feed F (d # ds) c = do { c1 \<leftarrow> hp_update F d c; feed F ds c1 }"

definition out_words :: "('w, 'c) hash_prims \<Rightarrow> 'w list \<Rightarrow> bytes" where
  "out_words F ws = concat (map (hp_host F) (map (hp_reverse F) ws))"

definition pad_words :: "('w, 'c) hash_prims \<Rightarrow> 'w list" where
  "pad_words F = [hp_one F, hp_zero F, hp_zero F, hp_zero F, hp_zero F, hp_zero F, hp_zero F, hp_bits F]"

text \<open>The calls of a message given in pieces.\<close>

fun hmac_pieces :: "('w, 'c) hash_prims \<Rightarrow> bytes list \<Rightarrow> 'c hmac_ctx \<Rightarrow> 'c hmac_ctx option" where
  "hmac_pieces F [] h = Some h"
| "hmac_pieces F (d # ds) h = do { h1 \<leftarrow> hmac_Update F d h; hmac_pieces F ds h1 }"

text \<open>
  What HMAC and PBKDF2 rely on: the incremental functions compute \<open>H\<close>, from the start and from the
  state after one block; the transform is the compression of a block given as words; a block of
  eight words and the constant padding is the second and last block of a message.
\<close>

locale hash_provider =
  fixes F :: "('w, 'c) hash_prims" and H :: "bytes \<Rightarrow> bytes"
    and compress :: "'w list \<Rightarrow> bytes \<Rightarrow> 'w list" and be :: "bytes \<Rightarrow> 'w list"
  assumes stream: "length (concat ds) < 2 ^ 61 \<Longrightarrow>
      \<exists>c c'. feed F ds (hp_init F) = Some c \<and> hp_final F c = Some (H (concat ds), c')"
    and resume: "length b = hp_block F \<Longrightarrow> length (b @ concat ds) < 2 ^ 61 \<Longrightarrow> length garb = 16 \<Longrightarrow>
      \<exists>c c'. feed F ds (hp_resume F (compress (hp_iv F) b) garb) = Some c \<and> hp_final F c = Some (H (b @ concat ds), c')"
    and digest: "length (H m) = hp_block F div 2" "0 < hp_block F" "hp_block F \<le> 128"
    and transform: "length b = hp_block F \<Longrightarrow> hp_transform F s (be b) = compress s b"
    and transform_length: "length (hp_transform F s ws) = 8"
    and second_block: "length b = hp_block F \<Longrightarrow> length st = 8 \<Longrightarrow>
      H (b @ out_words F st) = out_words F (hp_transform F (compress (hp_iv F) b) (st @ pad_words F))"
    and memcpy_key: "length d \<le> hp_block F \<Longrightarrow> \<exists>ws. hp_memcpy F (replicate 16 (hp_zero F)) 0 d = Some ws \<and>
      map (hp_reverse F) ws = be (d @ replicate (hp_block F - length d) 0)"
    and memcpy_digest: "length g = 16 \<Longrightarrow> length d = hp_block F div 2 \<Longrightarrow>
      \<exists>ws. hp_memcpy F g 0 d = Some (ws @ drop 8 g) \<and> length ws = 8 \<and> out_words F (map (hp_reverse F) ws) = d"
    and xor_opad: "length x = hp_block F \<Longrightarrow> be (map (\<lambda>b. b XOR 0x5c) x) = map (\<lambda>w. hp_xor F w (hp_opad F)) (be x)"
    and xor_ipad: "length x = hp_block F \<Longrightarrow> be (map (\<lambda>b. b XOR 0x36) x) = map (\<lambda>w. hp_xor F w (hp_ipad F)) (be x)"
    and xor_twice: "hp_xor F (hp_xor F w v) v = w"
    and xor_out: "length us = length vs \<Longrightarrow>
      out_words F (map2 (hp_xor F) us vs) = map2 (XOR) (out_words F us) (out_words F vs)"
begin

abbreviation key_of :: "bytes \<Rightarrow> bytes" where
  "key_of \<equiv> hmac_key H (hp_block F)"

lemma key_length: "length (key_of key) = hp_block F"
  using digest(1) by (simp add: hmac_key_def Let_def)

lemma Raw: "length m < 2 ^ 61 \<Longrightarrow> hash_Raw F m = Some (H m)"
  using stream [of "[m]"] by (auto simp: hash_Raw_def split: bind_splits)

lemma pieces_feed: "hmac_pieces F ds h = map_option (\<lambda>c. h\<lparr>hm_ctx := c\<rparr>) (feed F ds (hm_ctx h))"
proof (induction ds arbitrary: h)
  case (Cons d ds)
  then show ?case by (cases "hp_update F d (hm_ctx h)") (simp_all add: hmac_Update_def)
qed simp

lemma hmac_provided:
  assumes "length key < 2 ^ 61" and "length (concat ds) < 2 ^ 60"
  shows "\<exists>h0 h. hmac_Init F key = Some h0 \<and> hmac_pieces F ds h0 = Some h \<and>
     hmac_Final F h = Some (hmac_spec H (hp_block F) key (concat ds))"
proof -
  let ?k = "key_of key"
  let ?i = "map (\<lambda>b. b XOR 0x36) ?k" and ?o = "map (\<lambda>b. b XOR 0x5c) ?k"
  have pad: "(if length key > hp_block F then do { d \<leftarrow> hash_Raw F key; mem_write (replicate (hp_block F) 0) 0 d }
      else mem_write (replicate (hp_block F) 0) 0 key) = Some ?k"
    using Raw [OF assms(1)] digest(1) [of key] by (auto simp: mem_write_def hmac_key_def Let_def)
  have "length (concat (?i # ds)) < 2 ^ 61" using assms(2) key_length [of key] digest(3) by simp
  from stream [OF this] obtain ci c c' where c: "hp_update F ?i (hp_init F) = Some ci" "feed F ds ci = Some c"
    "hp_final F c = Some (H (?i @ concat ds), c')" by (auto split: bind_splits)
  have "length (concat [?o, H (?i @ concat ds)]) < 2 ^ 61"
    using key_length [of key] digest(1) [of "?i @ concat ds"] digest(3) by simp
  from stream [OF this] obtain co c2 c3 where o: "hp_update F ?o (hp_init F) = Some co"
    "hp_update F (H (?i @ concat ds)) co = Some c2" "hp_final F c2 = Some (H (?o @ H (?i @ concat ds)), c3)"
    by (auto split: bind_splits)
  have "hmac_Init F key = Some \<lparr>o_key_pad = ?o, hm_ctx = ci\<rparr>"
    using pad c(1) by (simp add: hmac_Init_def Let_def)
  moreover have "hmac_pieces F ds \<lparr>o_key_pad = ?o, hm_ctx = ci\<rparr> = Some \<lparr>o_key_pad = ?o, hm_ctx = c\<rparr>"
    using c(2) by (simp add: pieces_feed)
  moreover have "hmac_Final F \<lparr>o_key_pad = ?o, hm_ctx = c\<rparr> = Some (hmac_spec H (hp_block F) key (concat ds))"
    using c(3) o by (simp add: hmac_Final_def hmac_spec_def Let_def)
  ultimately show ?thesis by blast
qed

abbreviation inner :: "bytes \<Rightarrow> 'w list" where
  "inner key \<equiv> compress (hp_iv F) (map (\<lambda>b. b XOR 0x36) (key_of key))"

abbreviation outer :: "bytes \<Rightarrow> 'w list" where
  "outer key \<equiv> compress (hp_iv F) (map (\<lambda>b. b XOR 0x5c) (key_of key))"

lemma prepare_correct:
  assumes "length key < 2 ^ 61"
  shows "hmac_prepare F key = Some (outer key, inner key)"
proof -
  let ?d = "if length key > hp_block F then H key else key"
  have "length ?d \<le> hp_block F" using digest(1) [of key] by simp
  from memcpy_key [OF this] obtain ws where ws: "hp_memcpy F (replicate 16 (hp_zero F)) 0 ?d = Some ws"
    "map (hp_reverse F) ws = be (key_of key)" by (auto simp: hmac_key_def Let_def)
  let ?op = "map (\<lambda>w. hp_xor F (hp_reverse F w) (hp_opad F)) ws"
  have "?op = map (\<lambda>w. hp_xor F w (hp_opad F)) (map (hp_reverse F) ws)" by simp
  then have op: "?op = be (map (\<lambda>b. b XOR 0x5c) (key_of key))" unfolding ws(2) using xor_opad [OF key_length] by simp
  have "map (\<lambda>w. hp_xor F (hp_xor F w (hp_opad F)) (hp_ipad F)) ?op =
      map (\<lambda>w. hp_xor F w (hp_ipad F)) (map (hp_reverse F) ws)" by (simp add: xor_twice)
  then have ip: "map (\<lambda>w. hp_xor F (hp_xor F w (hp_opad F)) (hp_ipad F)) ?op = be (map (\<lambda>b. b XOR 0x36) (key_of key))"
    unfolding ws(2) using xor_ipad [OF key_length] by simp
  have "(if length key > hp_block F then do { d \<leftarrow> hash_Raw F key; hp_memcpy F (replicate 16 (hp_zero F)) 0 d }
      else hp_memcpy F (replicate 16 (hp_zero F)) 0 key) = Some ws"
    using ws(1) Raw [OF assms] by (simp split: if_splits)
  then show ?thesis
    unfolding hmac_prepare_def Let_def using transform key_length by (simp add: op ip [unfolded op] del: map_map)
qed

abbreviation mac :: "bytes \<Rightarrow> bytes \<Rightarrow> bytes" where
  "mac \<equiv> hmac_spec H (hp_block F)"

lemma prf_words:
  assumes "length u = 8"
  shows "\<exists>v. pb_transform F (outer key) (pb_transform F (inner key) (u @ pad_words F)) = v @ pad_words F \<and>
     length v = 8 \<and> out_words F v = mac key (out_words F u)"
proof -
  let ?u1 = "hp_transform F (inner key) (u @ pad_words F)"
  let ?v = "hp_transform F (outer key) (?u1 @ pad_words F)"
  have "H (map (\<lambda>b. b XOR 0x36) (key_of key) @ out_words F u) = out_words F ?u1"
    by (rule second_block) (simp_all add: key_length assms)
  moreover have "H (map (\<lambda>b. b XOR 0x5c) (key_of key) @ out_words F ?u1) = out_words F ?v"
    by (rule second_block) (simp_all add: key_length transform_length)
  ultimately have "out_words F ?v = mac key (out_words F u)" by (simp add: hmac_spec_def Let_def)
  then show ?thesis using assms by (simp add: pb_transform_def transform_length)
qed

definition pb_inv :: "bytes \<Rightarrow> bytes \<Rightarrow> nat \<Rightarrow> 'w pbkdf2_ctx \<Rightarrow> bool" where
  "pb_inv key salt n p \<longleftrightarrow> pb_odig p = outer key \<and> pb_idig p = inner key \<and>
     (\<exists>u. pb_g p = u @ pad_words F \<and> length u = 8 \<and> out_words F u = pbkdf2_iterate (mac key) salt n) \<and>
     length (pb_f p) = 8 \<and> out_words F (pb_f p) = pbkdf2_spec (mac key) salt n"

lemma step_inv: "pb_inv key salt n p \<Longrightarrow> pb_inv key salt (Suc n) (pbkdf2_step F p)"
proof -
  assume inv: "pb_inv key salt n p"
  then obtain u where u: "pb_g p = u @ pad_words F" "length u = 8" "out_words F u = pbkdf2_iterate (mac key) salt n"
    by (auto simp: pb_inv_def)
  from prf_words [OF u(2), of key] obtain v where
    v: "pb_transform F (outer key) (pb_transform F (inner key) (u @ pad_words F)) = v @ pad_words F" "length v = 8"
      "out_words F v = mac key (out_words F u)" by blast
  with inv u show ?thesis
    by (simp add: pb_inv_def pbkdf2_step_def Let_def xor_out)
qed

lemma steps_inv: "pb_inv key salt n p \<Longrightarrow> pb_inv key salt (n + k) (fold (\<lambda>i. pbkdf2_step F) [m..<m + k] p)"
  by (induction k) (simp_all add: step_inv)

lemma Init_inv:
  assumes "length key < 2 ^ 61" and "length salt < 2 ^ 60" and "length garb = 16"
  shows "\<exists>p. pbkdf2_Init F garb key salt = Some p \<and> pb_first p = 1 \<and> pb_inv key salt 0 p"
proof -
  let ?i = "map (\<lambda>b. b XOR 0x36) (key_of key)" and ?o = "map (\<lambda>b. b XOR 0x5c) (key_of key)"
  let ?m = "salt @ [0, 0, 0, 1]" and ?g0 = "(replicate 16 (hp_zero F))[8 := hp_one F, 15 := hp_bits F]"
  have one: "host32 (REVERSE32 1) = [0, 0, 0, 1]" by (simp add: host32_REVERSE be_bytes_def upt_rec)
  have "length (?i @ concat [salt, [0, 0, 0, 1]]) < 2 ^ 61" using assms(2) key_length [of key] digest(3) by simp
  from resume [OF _ this assms(3)] obtain c1 c2 c3 where c: "hp_update F salt (hp_resume F (inner key) garb) = Some c1"
    "hp_update F [0, 0, 0, 1] c1 = Some c2" "hp_final F c2 = Some (H (?i @ ?m), c3)"
    by (auto simp: key_length split: bind_splits)
  have g0: "length ?g0 = 16" "drop 8 ?g0 = pad_words F" by (simp_all add: pad_words_def eval_nat_numeral)
  from memcpy_digest [OF g0(1) digest(1)] obtain ws where ws: "hp_memcpy F ?g0 0 (H (?i @ ?m)) = Some (ws @ pad_words F)"
    "length ws = 8" "out_words F (map (hp_reverse F) ws) = H (?i @ ?m)" unfolding g0(2) by blast
  let ?v = "hp_transform F (outer key) (map (hp_reverse F) ws @ pad_words F)"
  have "H (?o @ out_words F (map (hp_reverse F) ws)) = out_words F ?v"
    by (rule second_block) (simp_all add: key_length ws(2))
  then have "out_words F ?v = mac key ?m" by (simp add: ws(3) hmac_spec_def Let_def)
  then show ?thesis
    using prepare_correct [OF assms(1)] c ws(1,2)
    by (simp add: pbkdf2_Init_def Let_def one pb_transform_def pb_inv_def transform_length)
qed

lemma pbkdf2_provided:
  assumes "length key < 2 ^ 61" and "length salt < 2 ^ 60" and "length garb = 16"
  shows "pbkdf2_whole F garb key salt iterations = Some (pbkdf2_spec (mac key) salt (unat iterations - 1))"
proof -
  from Init_inv [OF assms] obtain p where p: "pbkdf2_Init F garb key salt = Some p" "pb_first p = 1" "pb_inv key salt 0 p"
    by blast
  have "[1..<unat iterations] = [1..<1 + (unat iterations - 1)]" by (cases "unat iterations") simp_all
  then have "pb_inv key salt (unat iterations - 1) (fold (\<lambda>i. pbkdf2_step F) [1..<unat iterations] p)"
    using steps_inv [OF p(3), of "unat iterations - 1" 1] by simp
  then show ?thesis
    using p(1,2) by (simp add: pbkdf2_whole_def pbkdf2_Update_def pbkdf2_Final_def pb_inv_def out_words_def)
qed

end

section \<open>SHA-256 and SHA-512 as providers\<close>

lemma sha256_prims_simps [simp]:
  "hp_block sha256_prims = 64" "hp_init sha256_prims = sha256_Init" "hp_update sha256_prims = sha256_Update"
  "hp_resume sha256_prims = (\<lambda>st garb. \<lparr>hc_state = st, hc_count = 64 * 8, hc_buffer = garb\<rparr>)" "hp_iv sha256_prims = sha256_initial_hash_value" "hp_transform sha256_prims = sha256_Transform"
  "hp_memcpy sha256_prims = memcpy32" "hp_reverse sha256_prims = REVERSE32" "hp_host sha256_prims = host32"
  "hp_xor sha256_prims = (XOR)" "hp_zero sha256_prims = 0" "hp_opad sha256_prims = 0x5c5c5c5c"
  "hp_ipad sha256_prims = 0x36363636" "hp_one sha256_prims = 0x80000000" "hp_bits sha256_prims = 768"
  by (simp_all add: sha256_prims_def)

lemma sha512_prims_simps [simp]:
  "hp_block sha512_prims = 128" "hp_init sha512_prims = sha512_Init" "hp_update sha512_prims = sha512_Update"
  "hp_resume sha512_prims = (\<lambda>st garb. \<lparr>hc_state = st, hc_count = (128 * 8, 0), hc_buffer = garb\<rparr>)" "hp_iv sha512_prims = sha512_initial_hash_value" "hp_transform sha512_prims = sha512_Transform"
  "hp_memcpy sha512_prims = memcpy64" "hp_reverse sha512_prims = REVERSE64" "hp_host sha512_prims = host64"
  "hp_xor sha512_prims = (XOR)" "hp_zero sha512_prims = 0" "hp_opad sha512_prims = 0x5c5c5c5c5c5c5c5c"
  "hp_ipad sha512_prims = 0x3636363636363636" "hp_one sha512_prims = 0x8000000000000000" "hp_bits sha512_prims = 1536"
  by (simp_all add: sha512_prims_def)

lemma feed_pieces: "feed sha256_prims ds c = sha256_pieces ds c" "feed sha512_prims ds c' = sha512_pieces ds c'"
proof -
  show "feed sha256_prims ds c = sha256_pieces ds c"
  proof (induction ds arbitrary: c)
    case (Cons d ds)
    then show ?case by (cases "sha256_Update d c") simp_all
  qed simp
  show "feed sha512_prims ds c' = sha512_pieces ds c'"
  proof (induction ds arbitrary: c')
    case (Cons d ds)
    then show ?case by (cases "sha512_Update d c'") simp_all
  qed simp
qed

lemma out_words_buf: "out_words sha256_prims ws = buf32 (map REVERSE32 ws)" "out_words sha512_prims vs = buf64 (map REVERSE64 vs)"
  by (simp_all add: out_words_def buf32_def buf64_def)

lemma be_words_out: "be_words32 (buf32 (map REVERSE32 ws)) = ws" "be_words64 (buf64 (map REVERSE64 vs)) = vs"
  by (simp_all add: be_words_buf32 be_words_buf64 comp_def REVERSE_twice)

lemma fold_two_blocks:
  "0 < B \<Longrightarrow> length a = B \<Longrightarrow> length b = B \<Longrightarrow> fold_blocks B f s (a @ b) = f (f s a) b"
  using fold_blocks_one [of B a f s b] fold_blocks_one [of B b f "f s a" "[]"] by (simp add: fold_blocks_short)

lemma sha256_second_block:
  assumes "length b = 64" and "length st = 8"
  shows "sha256_spec (b @ buf32 (map REVERSE32 st)) =
     buf32 (map REVERSE32 (sha256_Transform (sha256_block sha256_initial_hash_value b) (st @ pad_words sha256_prims)))"
proof -
  let ?o = "buf32 (map REVERSE32 st)" and ?z = "[0x80] @ replicate 23 0 @ len64 96"
  have pad: "hash_pad 64 56 len64 (b @ ?o) = b @ (?o @ ?z)" using assms by (simp add: hash_pad_def)
  have "be_words32 ?z = pad_words sha256_prims" unfolding pad_words_def sha256_prims_simps by code_simp
  then have "be_words32 (?o @ ?z) = st @ pad_words sha256_prims"
    using be_words32_append [of ?o 8 ?z] assms(2) by (simp only: be_words_out) simp
  moreover have "length (?o @ ?z) = 64" using assms(2) by (simp add: length_len)
  ultimately show ?thesis
    using sha256_Transform_block [of "?o @ ?z"] fold_two_blocks [of 64 b "?o @ ?z" sha256_block] assms(1)
    unfolding sha256_spec_def pad by (simp add: buf32_def host32_REVERSE comp_def)
qed

lemma sha512_second_block:
  assumes "length b = 128" and "length st = 8"
  shows "sha512_spec (b @ buf64 (map REVERSE64 st)) =
     buf64 (map REVERSE64 (sha512_Transform (sha512_block sha512_initial_hash_value b) (st @ pad_words sha512_prims)))"
proof -
  let ?o = "buf64 (map REVERSE64 st)" and ?z = "[0x80] @ replicate 47 0 @ len128 192"
  have pad: "hash_pad 128 112 len128 (b @ ?o) = b @ (?o @ ?z)" using assms by (simp add: hash_pad_def)
  have "be_words64 ([0x80] @ replicate 47 0) = [0x8000000000000000, 0, 0, 0, 0, 0]" by code_simp
  then have "be_words64 ?z = pad_words sha512_prims"
    using be_words64_append [of "[0x80] @ replicate 47 0" 6 "len128 192"] len128_words [of 192] by (simp add: pad_words_def)
  then have "be_words64 (?o @ ?z) = st @ pad_words sha512_prims"
    using be_words64_append [of ?o 8 ?z] assms(2) by (simp only: be_words_out) simp
  moreover have "length (?o @ ?z) = 128" using assms(2) by (simp add: length_len)
  ultimately show ?thesis
    using sha512_Transform_block [of "?o @ ?z"] fold_two_blocks [of 128 b "?o @ ?z" sha512_block] assms(1)
    unfolding sha512_spec_def pad by (simp add: buf64_def host64_REVERSE comp_def)
qed

lemma be_word_xor32: "be_word [a XOR k, b XOR k, c XOR k, d XOR k] = (be_word [a, b, c, d] XOR be_word [k, k, k, k] :: u32)"
  (is "?l = ?r")
proof (rule bit_word_eqI)
  fix n assume n: "n < LENGTH(32)"
  have "list_all (\<lambda>n. bit ?l n \<longleftrightarrow> bit ?r n) [0..<32]"
    unfolding upto_32 by (simp add: be_word_def bit_simps bit_high numeral_2_eq_2 [symmetric])
  with n show "bit ?l n \<longleftrightarrow> bit ?r n" by (simp add: list_all_iff)
qed

lemma be_word_xor64:
  "be_word [a XOR k, b XOR k, c XOR k, d XOR k, e XOR k, f XOR k, g XOR k, h XOR k] =
     (be_word [a, b, c, d, e, f, g, h] XOR be_word [k, k, k, k, k, k, k, k] :: u64)"
  (is "?l = ?r")
proof (rule bit_word_eqI)
  fix n assume n: "n < LENGTH(64)"
  have "list_all (\<lambda>n. bit ?l n \<longleftrightarrow> bit ?r n) [0..<64]"
    unfolding upto_64 by (simp add: be_word_def bit_simps bit_high numeral_2_eq_2 [symmetric])
  with n show "bit ?l n \<longleftrightarrow> bit ?r n" by (simp add: list_all_iff)
qed

lemma be_words_xor32:
  "length x = 4 * n \<Longrightarrow> be_words32 (map (\<lambda>b. b XOR k) x) = map (\<lambda>w. w XOR be_word [k, k, k, k]) (be_words32 x)"
proof (induction n arbitrary: x)
  case (Suc n)
  from Suc.prems show ?case by (rule chunk_cases) (use Suc.IH in \<open>simp add: be_words32_Cons be_word_xor32\<close>)
qed (simp add: be_words32_def)

lemma be_words_xor64:
  "length x = 8 * n \<Longrightarrow>
   be_words64 (map (\<lambda>b. b XOR k) x) = map (\<lambda>w. w XOR be_word [k, k, k, k, k, k, k, k]) (be_words64 x)"
proof (induction n arbitrary: x)
  case (Suc n)
  from Suc.prems show ?case by (rule chunk_cases) (use Suc.IH in \<open>simp add: be_words64_Cons be_word_xor64\<close>)
qed (simp add: be_words64_def)

lemma key_constants:
  "be_word [0x5c, 0x5c, 0x5c, 0x5c] = (0x5c5c5c5c :: u32)" "be_word [0x36, 0x36, 0x36, 0x36] = (0x36363636 :: u32)"
  "be_word [0x5c, 0x5c, 0x5c, 0x5c, 0x5c, 0x5c, 0x5c, 0x5c] = (0x5c5c5c5c5c5c5c5c :: u64)"
  "be_word [0x36, 0x36, 0x36, 0x36, 0x36, 0x36, 0x36, 0x36] = (0x3636363636363636 :: u64)"
  by code_simp+

lemma be_bytes_xor:
  "be_bytes n (u XOR v) = map2 (XOR) (be_bytes n u) (be_bytes n v)"
  by (rule nth_equalityI) (auto simp: be_bytes_def rev_nth intro!: bit_word_eqI simp: bit_simps)

lemma out_words_xor:
  "length us = length vs \<Longrightarrow> concat (map (be_bytes n) (map2 (XOR) us vs)) =
     map2 (XOR) (concat (map (be_bytes n) us)) (concat (map (be_bytes n) vs))"
proof (induction us vs rule: list_induct2)
  case (Cons u us v vs)
  then show ?case by (simp add: be_bytes_xor)
qed simp

lemma drop_buf: "drop (4 * k) (buf32 b) = buf32 (drop k b)" "drop (8 * k) (buf64 c) = buf64 (drop k c)"
proof -
  show "drop (4 * k) (buf32 b) = buf32 (drop k b)"
  proof (induction b arbitrary: k)
    case (Cons w b)
    then show ?case by (cases k) (simp_all add: buf32_def length_host)
  qed simp
  show "drop (8 * k) (buf64 c) = buf64 (drop k c)"
  proof (induction c arbitrary: k)
    case (Cons w c)
    then show ?case by (cases k) (simp_all add: buf64_def length_host)
  qed simp
qed

lemma memcpy32_digest:
  assumes "length g = 16" and "length d = 32"
  shows "\<exists>ws. memcpy32 g 0 d = Some (ws @ drop 8 g) \<and> length ws = 8 \<and> buf32 ws = d"
proof -
  from memcpy32_view [of g 0 d] assms obtain ws where ws: "memcpy32 g 0 d = Some ws" "length ws = 16"
    "buf32 ws = d @ drop 32 (buf32 g)" by auto
  from ws(3) have "buf32 (drop 8 ws) = buf32 (drop 8 g)" "buf32 (take 8 ws) = d"
    using drop_buf(1) [of 8 ws] drop_buf(1) [of 8 g] take_buf32 [of 8 ws] assms(2) by simp_all
  then have "drop 8 ws = drop 8 g" by (metis words_buf32)
  then have "ws = take 8 ws @ drop 8 g" by (metis append_take_drop_id)
  with ws(1,2) \<open>buf32 (take 8 ws) = d\<close> show ?thesis by (intro exI [of _ "take 8 ws"]) simp
qed

lemma memcpy64_digest:
  assumes "length g = 16" and "length d = 64"
  shows "\<exists>ws. memcpy64 g 0 d = Some (ws @ drop 8 g) \<and> length ws = 8 \<and> buf64 ws = d"
proof -
  from memcpy64_view [of g 0 d] assms obtain ws where ws: "memcpy64 g 0 d = Some ws" "length ws = 16"
    "buf64 ws = d @ drop 64 (buf64 g)" by auto
  from ws(3) have "buf64 (drop 8 ws) = buf64 (drop 8 g)" "buf64 (take 8 ws) = d"
    using drop_buf(2) [of 8 ws] drop_buf(2) [of 8 g] take_buf64 [of 8 ws] assms(2) by simp_all
  then have "drop 8 ws = drop 8 g" by (metis words_buf64)
  then have "ws = take 8 ws @ drop 8 g" by (metis append_take_drop_id)
  with ws(1,2) \<open>buf64 (take 8 ws) = d\<close> show ?thesis by (intro exI [of _ "take 8 ws"]) simp
qed

lemma buf_zeros: "buf32 (replicate n 0) = replicate (4 * n) 0" "buf64 (replicate n 0) = replicate (8 * n) 0"
  by (induction n) (simp_all add: buf32_def buf64_def host32_list host64_list eval_nat_numeral)

lemma memcpy32_key:
  assumes "length d \<le> 64"
  shows "\<exists>ws. memcpy32 (replicate 16 0) 0 d = Some ws \<and> map REVERSE32 ws = be_words32 (d @ replicate (64 - length d) 0)"
  using memcpy32_view [of "replicate 16 0" 0 d] assms by (auto simp: be_words_buf32 [symmetric] buf_zeros)

lemma memcpy64_key:
  assumes "length d \<le> 128"
  shows "\<exists>ws. memcpy64 (replicate 16 0) 0 d = Some ws \<and> map REVERSE64 ws = be_words64 (d @ replicate (128 - length d) 0)"
  using memcpy64_view [of "replicate 16 0" 0 d] assms by (auto simp: be_words_buf64 [symmetric] buf_zeros)

lemma hp_final_digest:
  "sha256_Final True c = Some (Some d, c') \<Longrightarrow> hp_final sha256_prims c = Some (d, c')"
  "sha512_Final True e = Some (Some d, e') \<Longrightarrow> hp_final sha512_prims e = Some (d, e')"
  by (simp_all add: sha256_prims_def sha512_prims_def)

lemma length_Transform: "length (sha256_Transform s ws) = 8" "length (sha512_Transform t vs) = 8"
  by (simp_all add: sha256_Transform_def sha512_Transform_def Let_def length_add_regs8)

lemma out_words_xor_prims:
  "length us = length vs \<Longrightarrow> out_words sha256_prims (map2 (XOR) us vs) =
     map2 (XOR) (out_words sha256_prims us) (out_words sha256_prims vs)"
  "length xs = length ys \<Longrightarrow> out_words sha512_prims (map2 (XOR) xs ys) =
     map2 (XOR) (out_words sha512_prims xs) (out_words sha512_prims ys)"
proof -
  have "out_words sha256_prims ws = concat (map (be_bytes 4) ws)" for ws
    by (simp add: out_words_def comp_def host32_REVERSE)
  then show "length us = length vs \<Longrightarrow> out_words sha256_prims (map2 (XOR) us vs) =
     map2 (XOR) (out_words sha256_prims us) (out_words sha256_prims vs)" by (simp only: out_words_xor)
  have "out_words sha512_prims ws = concat (map (be_bytes 8) ws)" for ws
    by (simp add: out_words_def comp_def host64_REVERSE)
  then show "length xs = length ys \<Longrightarrow> out_words sha512_prims (map2 (XOR) xs ys) =
     map2 (XOR) (out_words sha512_prims xs) (out_words sha512_prims ys)" by (simp only: out_words_xor)
qed

interpretation p256: hash_provider sha256_prims sha256_spec sha256_block be_words32
proof (unfold_locales, goal_cases)
  case (1 ds)
  then show ?case using sha256_stream [of ds] hp_final_digest(1) by (fastforce simp: feed_pieces)
next
  case (2 b ds garb)
  then show ?case using sha256_resumed [of b ds garb] hp_final_digest(1) by (fastforce simp: feed_pieces)
next
  case (8 b st)
  then show ?case using sha256_second_block [of b st] by (simp add: out_words_buf)
next
  case (10 g d)
  then show ?case using memcpy32_digest [of g d] by (auto simp: out_words_buf comp_def REVERSE_twice)
qed (simp_all add: length_sha256_spec sha256_Transform_block length_Transform memcpy32_key
    be_words_xor32 [of _ 16] key_constants xor.assoc out_words_xor_prims)

interpretation p512: hash_provider sha512_prims sha512_spec sha512_block be_words64
proof (unfold_locales, goal_cases)
  case (1 ds)
  then show ?case using sha512_stream [of ds] hp_final_digest(2) by (fastforce simp: feed_pieces)
next
  case (2 b ds garb)
  then show ?case using sha512_resumed [of b ds garb] hp_final_digest(2) by (fastforce simp: feed_pieces)
next
  case (8 b st)
  then show ?case using sha512_second_block [of b st] by (simp add: out_words_buf)
next
  case (10 g d)
  then show ?case using memcpy64_digest [of g d] by (auto simp: out_words_buf comp_def REVERSE_twice)
qed (simp_all add: length_sha512_spec sha512_Transform_block length_Transform memcpy64_key
    be_words_xor64 [of _ 16] key_constants xor.assoc out_words_xor_prims)

section \<open>Properties\<close>

text \<open>
  C35. The incremental HMAC functions compute HMAC: for a key of any length and a message given in
  any pieces, \<open>Init\<close>, \<open>Update\<close> and \<open>Final\<close> return the RFC 2104 value over SHA-256 and SHA-512.
\<close>

theorem hmac_correct:
  assumes "length key < 2 ^ 32" and "length (concat ds) < 2 ^ 60"
  shows "(\<exists>h0 h. hmac_sha256_Init key = Some h0 \<and> hmac_pieces sha256_prims ds h0 = Some h \<and>
       hmac_sha256_Final h = Some (hmac_spec sha256_spec 64 key (concat ds))) \<and>
     (\<exists>h0 h. hmac_sha512_Init key = Some h0 \<and> hmac_pieces sha512_prims ds h0 = Some h \<and>
       hmac_sha512_Final h = Some (hmac_spec sha512_spec 128 key (concat ds)))"
  using p256.hmac_provided [of key ds] p512.hmac_provided [of key ds] assms
  by (simp add: hmac_sha256_Init_def hmac_sha256_Final_def hmac_sha512_Init_def hmac_sha512_Final_def)

theorem hmac_correct_witness:
  "\<exists>h0 h. hmac_sha512_Init [107] = Some h0 \<and> hmac_pieces sha512_prims [[1, 2], [3]] h0 = Some h \<and>
     hmac_sha512_Final h = Some (hmac_spec sha512_spec 128 [107] [1, 2, 3])"
  using hmac_correct [of "[107]" "[[1, 2], [3]]"] by simp

lemma hmac_whole_spec:
  assumes "length key < 2 ^ 61" and "length m < 2 ^ 60"
  shows "hmac_sha256 key m = Some (hmac_spec sha256_spec 64 key m)" and "hmac_sha512 key m = Some (hmac_spec sha512_spec 128 key m)"
  using p256.hmac_provided [of key "[m]"] p512.hmac_provided [of key "[m]"] assms
  by (auto simp: hmac_sha256_def hmac_sha512_def hmac_whole_def split: bind_splits)

text \<open>
  C34. The optimised PBKDF2 is PBKDF2: working on the two precomputed states and one block of words
  with fixed padding, whatever the uninitialised buffer holds, it returns the RFC 8018 key, the
  exclusive or of as many HMAC iterates as asked for (one when none are).
\<close>

theorem pbkdf2_correct:
  assumes "length pass < 2 ^ 31" and "length salt < 2 ^ 31" and "length garb32 = 16" and "length garb64 = 16"
  shows "pbkdf2_hmac_sha256 garb32 pass salt iterations =
       Some (pbkdf2_spec (hmac_spec sha256_spec 64 pass) salt (unat iterations - 1)) \<and>
     pbkdf2_hmac_sha512 garb64 pass salt iterations =
       Some (pbkdf2_spec (hmac_spec sha512_spec 128 pass) salt (unat iterations - 1))"
  using p256.pbkdf2_provided [of pass salt garb32 iterations] p512.pbkdf2_provided [of pass salt garb64 iterations] assms
  by (simp add: pbkdf2_hmac_sha256_def pbkdf2_hmac_sha512_def)

theorem pbkdf2_correct_witness:
  "pbkdf2_hmac_sha256 (replicate 16 0xdeadbeef) [112] [115] 1 =
       Some (pbkdf2_spec (hmac_spec sha256_spec 64 [112]) [115] 0) \<and>
     pbkdf2_hmac_sha512 (replicate 16 7) [112] [115] 1 =
       Some (pbkdf2_spec (hmac_spec sha512_spec 128 [112]) [115] 0)"
  using pbkdf2_correct [of "[112]" "[115]" "replicate 16 0xdeadbeef" "replicate 16 7" 1] by simp

end
