(* ===== verification/Bip39.thy ===== *)
theory Bip39
  imports Config_File_Reader Hmac
begin

text \<open>
  The recovery phrases of the wallet: word lists (\<^verbatim>\<open>src/ptp_wallet/word_list.cpp\<close>), the conversion
  between bytes and word indices (\<^verbatim>\<open>src/ptp_wallet/mnemonic.cpp\<close>), BIP-39 with its checksum
  (\<^verbatim>\<open>src/ptp_wallet/bip39.cpp\<close>) and the interface the accounts use
  (\<^verbatim>\<open>src/ptp_wallet/MnemonicHelper.cpp\<close>).

  The generated word lists are the argument \<open>w\<close>. A C string is its bytes without the terminator,
  so it has no zero byte. Pointers are not null and allocation succeeds. \<open>None\<close> is an access
  outside an array. The functions of \<open>MnemonicHelper\<close> that take a language first look its word list
  up; \<open>w\<close> is that list, \<open>bip39_get_wordlist\<close> the search. Random bytes are an argument.
\<close>

section \<open>Word lists\<close>

record words =
  w_len :: nat
  w_bits :: nat
  w_sorted :: bool
  w_indices :: "bytes list"

fun get_bits :: "nat \<Rightarrow> nat" where
  "get_bits n = (if n div 2 = 0 then 0 else Suc (get_bits (n div 2)))"

declare get_bits.simps [simp del]

definition wordlist_count :: "bytes \<Rightarrow> nat" where
  "wordlist_count s = 1 + length (filter (\<lambda>c. c = 32) s)"

text \<open>The tokeniser: the second argument is the text from \<open>p\<close>, \<open>None\<close> behind its terminator.\<close>

fun wordlist_tokens :: "nat \<Rightarrow> bytes option \<Rightarrow> bytes list option" where
  "wordlist_tokens 0 p = Some []"
| "wordlist_tokens (Suc k) p = do {
     s \<leftarrow> p;
     let word = takeWhile (\<lambda>c. c \<noteq> 32) s;
     ws \<leftarrow> wordlist_tokens k (if length word < length s then Some (drop (length word + 1) s) else None);
     Some (word # ws) }"

text \<open>\<open>strcmp\<close> compares bytes as unsigned, as the order on lists of words does.\<close>

definition wordlist_init :: "bytes \<Rightarrow> words option" where
  "wordlist_init s =
     (let len = wordlist_count s
      in do {
        ws \<leftarrow> wordlist_tokens len (Some s);
        Some \<lparr>w_len = len, w_bits = get_bits len,
             w_sorted = list_all (\<lambda>i. ws ! (i - 1) \<le> ws ! i) [1..<len], w_indices = ws\<rparr> })"

text \<open>\<open>std::lower_bound\<close>, and the test that what it points to is the word.\<close>

function lower_bound :: "bytes list \<Rightarrow> bytes \<Rightarrow> nat \<Rightarrow> nat \<Rightarrow> nat" where
  "lower_bound v x first len =
     (if len = 0 then first
      else
        (let half = len div 2; middle = first + half
         in if v ! middle < x then lower_bound v x (middle + 1) (len - half - 1)
            else lower_bound v x first half))"
  by pat_completeness auto
termination
  by (relation "measure (\<lambda>(v, x, first, len). len)") auto

declare lower_bound.simps [simp del]

definition binary_search_find_index :: "bytes list \<Rightarrow> bytes \<Rightarrow> int" where
  "binary_search_find_index v x =
     (let i = lower_bound v x 0 (length v) in if i = length v \<or> v ! i \<noteq> x then -1 else int i)"

fun linear_find :: "bytes list \<Rightarrow> bytes \<Rightarrow> nat option" where
  "linear_find [] x = None"
| "linear_find (y # ys) x = (if x = y then Some 0 else map_option Suc (linear_find ys x))"

text \<open>The binary search leaves out the last word; the linear search finds it.\<close>

definition wordlist_lookup_word :: "words \<Rightarrow> bytes \<Rightarrow> nat" where
  "wordlist_lookup_word w word =
     (let found = (if w_sorted w then
                     (let idx = binary_search_find_index (take (w_len w - 1) (w_indices w)) word
                      in if idx \<noteq> -1 then Some (nat idx) else None)
                   else None);
          found' = (if \<not> w_sorted w \<or> found = None then linear_find (take (w_len w) (w_indices w)) (cstr word) else found)
      in case found' of None \<Rightarrow> 0 | Some i \<Rightarrow> i + 1)"

definition wordlist_lookup_index :: "words \<Rightarrow> nat \<Rightarrow> bytes option" where
  "wordlist_lookup_index w idx =
     (if idx \<ge> w_len w then None else if idx < length (w_indices w) then Some (w_indices w ! idx) else None)"

section \<open>Bytes and word indices\<close>

definition U8_MASK :: "nat \<Rightarrow> byte" where
  "U8_MASK pos = push_bit (7 - pos mod 8) 1"

text \<open>\<open>(value << 1) | b\<close> for a bit \<open>b\<close> is \<open>2 * value + b\<close>.\<close>

definition extract_index :: "nat \<Rightarrow> bytes \<Rightarrow> nat \<Rightarrow> nat option" where
  "extract_index bits bs n =
     foldl (\<lambda>value pos. do {
         v \<leftarrow> value;
         if pos div 8 < length bs
         then Some (2 * v + of_bool (bs ! (pos div 8) AND U8_MASK pos \<noteq> 0)) else None })
       (Some 0) [n * bits..<n * bits + bits]"

definition store_index :: "nat \<Rightarrow> bytes \<Rightarrow> nat \<Rightarrow> nat \<Rightarrow> bytes option" where
  "store_index bits bytes_out n value =
     foldl (\<lambda>m i. do {
         bs \<leftarrow> m;
         let pos = n * bits + i;
         if bit value (bits - i - 1) then
           (if pos div 8 < length bs
            then Some (bs[pos div 8 := bs ! (pos div 8) OR U8_MASK pos]) else None)
         else Some bs })
       (Some bytes_out) [0..<bits]"

fun join_words :: "bytes list \<Rightarrow> bytes" where
  "join_words [] = []"
| "join_words [x] = x"
| "join_words (x # xs) = x @ [32] @ join_words xs"

text \<open>\<open>Some None\<close> is the null result for no words.\<close>

definition mnemonic_from_bytes :: "words \<Rightarrow> bytes \<Rightarrow> bytes option option" where
  "mnemonic_from_bytes w bs =
     (let total_mnemonics = length bs * 8 div w_bits w
      in do {
        idxs \<leftarrow> those (map (extract_index (w_bits w) bs) [0..<total_mnemonics]);
        ws \<leftarrow> those (map (\<lambda>i. if i < length (w_indices w) then Some (w_indices w ! i) else None) idxs);
        Some (if ws = [] then None else Some (join_words ws)) })"

definition MINTER_OK :: int where "MINTER_OK = 0"
definition MINTER_EINVAL :: int where "MINTER_EINVAL = -2"

fun store_words :: "words \<Rightarrow> bytes list \<Rightarrow> nat \<Rightarrow> bytes \<Rightarrow> (int \<times> bytes) option" where
  "store_words w [] i out = Some (MINTER_OK, out)"
| "store_words w (x # xs) i out =
     (let idx = wordlist_lookup_word w x
      in if idx = 0 then Some (MINTER_EINVAL, replicate (length out) 0)
         else do {
           out' \<leftarrow> store_index (w_bits w) out i (idx - 1);
           store_words w xs (i + 1) out' })"

text \<open>Result, the contents of \<open>bytes_out\<close> (all of its \<open>len\<close> bytes) and \<open>written\<close>.\<close>

definition mnemonic_to_bytes :: "words \<Rightarrow> bytes \<Rightarrow> bytes \<Rightarrow> (int \<times> bytes \<times> nat) option" where
  "mnemonic_to_bytes w mnemonic bytes_out = do {
     mnemonic_w \<leftarrow> wordlist_init mnemonic;
     let need = (w_len mnemonic_w * w_bits w + 7) div 8;
     if bytes_out = [] then Some (MINTER_EINVAL, bytes_out, 0)
     else if need > length bytes_out then Some (MINTER_OK, bytes_out, need)
     else do {
       (ret, out) \<leftarrow> store_words w (w_indices mnemonic_w) 0 (replicate (length bytes_out) 0);
       Some (ret, out, if ret = MINTER_OK then need else 0) } }"

section \<open>BIP-39\<close>

definition len_to_mask :: "nat \<Rightarrow> u64" where
  "len_to_mask len =
     (if len = 16 then 0xf0 else if len = 20 then 0xf8 else if len = 24 then 0xfc else if len = 28 then 0xfe
      else if len = 32 then 0xff else if len = 36 then 0x80ff else if len = 40 then 0xC0ff else 0)"

definition bip39_checksum :: "bytes \<Rightarrow> u64 \<Rightarrow> u64 option" where
  "bip39_checksum bs cmask = do {
     c \<leftarrow> sha256_Update bs sha256_Init;
     (d, c') \<leftarrow> sha256_Final True c;
     digest \<leftarrow> d;
     if 2 \<le> length digest
     then Some ((ucast (digest ! 0) OR push_bit 8 (ucast (digest ! 1))) AND cmask) else None }"

definition bip39_mnemonic_from_bytes :: "words \<Rightarrow> bytes \<Rightarrow> (int \<times> bytes option) option" where
  "bip39_mnemonic_from_bytes w bs =
     (let cmask = len_to_mask (length bs)
      in if bs = [] then Some (MINTER_EINVAL, None)
         else if w_bits w \<noteq> 11 \<or> cmask = 0 then Some (MINTER_EINVAL, None)
         else do {
           checksum \<leftarrow> bip39_checksum bs cmask;
           let tmp = bs @ [ucast (checksum AND 0xFF)]
                 @ (if cmask > 0xFF then [ucast (drop_bit 8 checksum AND 0xFF)] else []);
           output \<leftarrow> mnemonic_from_bytes w tmp;
           Some (if output = None then -3 else MINTER_OK, output) })"

definition checksum_ok :: "bytes \<Rightarrow> nat \<Rightarrow> u64 \<Rightarrow> bool option" where
  "checksum_ok bs idx cmask = do {
     calculated \<leftarrow> bip39_checksum (take idx bs) cmask;
     if idx + (if cmask > 0xff then 1 else 0) < length bs
     then
       (let stored = ucast (bs ! idx) OR (if cmask > 0xff then push_bit 8 (ucast (bs ! (idx + 1))) else 0)
        in Some (stored AND cmask = calculated))
     else None }"

text \<open>
  \<open>BIP39_ENTROPY_LEN_MAX\<close> is 42. The result: return value, the caller's buffer and \<open>written\<close>. A
  phrase longer than the buffer reports its length and writes nothing.
\<close>

definition bip39_mnemonic_to_bytes :: "words \<Rightarrow> bytes \<Rightarrow> bytes \<Rightarrow> (int \<times> bytes \<times> nat) option" where
  "bip39_mnemonic_to_bytes w mnemonic bytes_out =
     (if w_bits w \<noteq> 11 then Some (MINTER_EINVAL, bytes_out, 0)
      else do {
        (ret, tmp, n) \<leftarrow> mnemonic_to_bytes w mnemonic (replicate 42 0);
        if ret \<noteq> 0 then Some (ret, bytes_out, 0)
        else
          (let t1 = n - 1; tmp_len = (if t1 > 32 then t1 - 1 else t1)
           in if tmp_len > 42 then Some (MINTER_EINVAL, bytes_out, 0)
              else if tmp_len \<le> length bytes_out then do {
                let cmask = len_to_mask tmp_len;
                valid \<leftarrow> (if cmask = 0 then Some False else checksum_ok tmp tmp_len cmask);
                if valid
                then do { out \<leftarrow> mem_write bytes_out 0 (take tmp_len tmp); Some (MINTER_OK, out, tmp_len) }
                else Some (MINTER_EINVAL, bytes_out, 0) }
              else Some (MINTER_OK, bytes_out, tmp_len)) })"

definition bip39_mnemonic_validate :: "words \<Rightarrow> bytes \<Rightarrow> int option" where
  "bip39_mnemonic_validate w mnemonic =
     map_option fst (bip39_mnemonic_to_bytes w mnemonic (replicate 42 0))"

section \<open>MnemonicHelper\<close>

datatype mnemonic_status = Ok | UnsupportedEntropy | UnknownError

record mnemonic_result =
  mr_status :: mnemonic_status
  mr_words :: "bytes list"
  mr_raw :: bytes
  mr_len :: nat

definition validateEntropy :: "nat \<Rightarrow> bool" where
  "validateEntropy entropy \<longleftrightarrow> entropy \<in> {16, 20, 24, 28, 32, 36, 40}"

text \<open>\<open>split_string\<close> with the delimiter the helper passes, a blank.\<close>

fun split_string :: "bytes \<Rightarrow> bytes \<Rightarrow> bytes list" where
  "split_string token [] = [token]"
| "split_string token (c # cs) = (if c = 32 then token # split_string [] cs else split_string (token @ [c]) cs)"

definition entropyToMnemonic :: "words \<Rightarrow> bytes \<Rightarrow> mnemonic_result option" where
  "entropyToMnemonic w entropy =
     (let result = \<lparr>mr_status = Ok, mr_words = [], mr_raw = [], mr_len = 0\<rparr>
      in if \<not> validateEntropy (length entropy) then Some (result\<lparr>mr_status := UnsupportedEntropy\<rparr>)
         else do {
           (ret, output) \<leftarrow> bip39_mnemonic_from_bytes w entropy;
           if ret \<noteq> MINTER_OK then Some (result\<lparr>mr_status := UnknownError\<rparr>)
           else do {
             s \<leftarrow> output;
             let ws = split_string [] s;
             Some \<lparr>mr_status = Ok, mr_words = ws, mr_raw = s, mr_len = length ws\<rparr> } })"

text \<open>The same body after an assertion on the length, \<open>None\<close> when it fails.\<close>

definition encodeBytes :: "words \<Rightarrow> bytes \<Rightarrow> mnemonic_result option" where
  "encodeBytes w src = (if length src = 16 then entropyToMnemonic w src else None)"

text \<open>\<open>mnemonicBytesOut\<close> has \<open>entropyLen\<close> bytes; the results are the return value and its contents.\<close>

definition decodeMnemonic :: "words \<Rightarrow> bytes \<Rightarrow> bytes \<Rightarrow> (nat \<times> bytes) option" where
  "decodeMnemonic w mnemonicWords mnemonicBytesOut =
     (if \<not> validateEntropy (length mnemonicBytesOut) then Some (0, mnemonicBytesOut)
      else do {
        (ret, out, written) \<leftarrow> bip39_mnemonic_to_bytes w mnemonicWords mnemonicBytesOut;
        Some (written, out) })"

definition validateWords :: "words \<Rightarrow> bytes \<Rightarrow> bool option" where
  "validateWords w mnemonicWords = map_option (\<lambda>ret. ret = MINTER_OK) (bip39_mnemonic_validate w mnemonicWords)"

section \<open>Languages\<close>

text \<open>The table of languages, over the seven word lists.\<close>

record word_lists =
  en_words :: words
  es_words :: words
  fr_words :: words
  it_words :: words
  jp_words :: words
  zhs_words :: words
  zht_words :: words

definition lookup :: "word_lists \<Rightarrow> (string \<times> words) list" where
  "lookup L = [(''en'', en_words L), (''es'', es_words L), (''fr'', fr_words L), (''it'', it_words L),
     (''jp'', jp_words L), (''zhs'', zhs_words L), (''zht'', zht_words L)]"

definition bip39_get_languages_size :: "word_lists \<Rightarrow> nat" where
  "bip39_get_languages_size L = length (lookup L)"

definition bip39_get_languages :: "word_lists \<Rightarrow> string list" where
  "bip39_get_languages L = map (\<lambda>i. fst (lookup L ! i)) [0..<bip39_get_languages_size L]"

text \<open>English when the language is null or not in the table.\<close>

definition bip39_get_wordlist :: "word_lists \<Rightarrow> string option \<Rightarrow> words" where
  "bip39_get_wordlist L lang =
     (case lang of None \<Rightarrow> en_words L
      | Some l \<Rightarrow> (case map_of (lookup L) l of None \<Rightarrow> en_words L | Some w \<Rightarrow> w))"

definition bip39_get_word :: "words \<Rightarrow> nat \<Rightarrow> int \<times> bytes option" where
  "bip39_get_word w idx =
     (case wordlist_lookup_index w idx of
        None \<Rightarrow> (MINTER_EINVAL, None)
      | Some word \<Rightarrow> (if length word \<noteq> 0 then MINTER_OK else -3, Some word))"

definition getLanguages :: "word_lists \<Rightarrow> string list" where
  "getLanguages L = (if bip39_get_languages_size L \<le> 0 then [] else bip39_get_languages L)"

definition getWordsFromLanguage :: "word_lists \<Rightarrow> string option \<Rightarrow> bytes list" where
  "getWordsFromLanguage L lang =
     (let w = bip39_get_wordlist L lang in map (\<lambda>i. w_indices w ! i) [0..<w_len w])"

section \<open>The seed\<close>

text \<open>\<open>garb\<close> is the uninitialised buffer of the hash context. The result: return value, seed and \<open>written\<close>.\<close>

definition mnemonic_prefix :: bytes where
  "mnemonic_prefix = [109, 110, 101, 109, 111, 110, 105, 99]"

definition bip39_mnemonic_to_seed ::
  "u64 list \<Rightarrow> bytes \<Rightarrow> bytes option \<Rightarrow> nat \<Rightarrow> (int \<times> bytes option \<times> nat) option" where
  "bip39_mnemonic_to_seed garb mnemonic password len =
     (if len \<noteq> 64 then Some (MINTER_EINVAL, None, 0)
      else do {
        let salt = mnemonic_prefix @ (case password of None \<Rightarrow> [] | Some p \<Rightarrow> p);
        key \<leftarrow> pbkdf2_hmac_sha512 garb mnemonic salt 2048;
        Some (1, Some key, 64) })"

definition wordsToSeed :: "u64 list \<Rightarrow> bytes \<Rightarrow> (bytes option \<times> nat) option" where
  "wordsToSeed garb ws = map_option snd (bip39_mnemonic_to_seed garb ws None 64)"

definition mnemonicWordsToEntropy :: "words \<Rightarrow> bytes \<Rightarrow> bytes \<Rightarrow> (nat \<times> bytes) option" where
  "mnemonicWordsToEntropy w mnemonicWords mnemonicBytesOut = decodeMnemonic w mnemonicWords mnemonicBytesOut"

text \<open>\<open>generate\<close> with the bytes \<open>RAND_bytes\<close> fills the buffer with.\<close>

definition generate :: "words \<Rightarrow> bytes \<Rightarrow> mnemonic_result option" where
  "generate w buf = (if length buf = 16 then encodeBytes w buf else None)"

section \<open>Specification\<close>

text \<open>What the generated lists satisfy: 2048 different words without blanks.\<close>

definition word_list_ok :: "words \<Rightarrow> bool" where
  "word_list_ok w \<longleftrightarrow> w_len w = 2048 \<and> w_bits w = 11 \<and> length (w_indices w) = 2048 \<and> distinct (w_indices w)
     \<and> list_all (\<lambda>x. x \<noteq> [] \<and> 32 \<notin> set x \<and> 0 \<notin> set x) (w_indices w)"

text \<open>Bit \<open>pos\<close> of an array, most significant bit of each byte first.\<close>

definition bit_at :: "bytes \<Rightarrow> nat \<Rightarrow> bool" where
  "bit_at bs pos \<longleftrightarrow> bit (bs ! (pos div 8)) (7 - pos mod 8)"

section \<open>Looking words up\<close>

lemma linear_find_nth: "distinct ys \<Longrightarrow> i < length ys \<Longrightarrow> linear_find ys (ys ! i) = Some i"
proof (induction ys arbitrary: i)
  case (Cons y ys)
  then show ?case by (cases i) auto
qed simp

lemma lower_bound_le: "lower_bound v x first len \<le> first + len"
proof (induction v x first len rule: lower_bound.induct)
  case (1 v x first len)
  show ?case
  proof (cases "len = 0")
    case False
    then show ?thesis
      using 1(1) [OF False refl refl] 1(2) [OF False refl refl]
      by (subst lower_bound.simps) (simp add: Let_def, linarith)
  qed (simp add: lower_bound.simps)
qed

lemma lookup_word_nth:
  assumes "word_list_ok w" and "i < 2048"
  shows "wordlist_lookup_word w (w_indices w ! i) = i + 1"
proof -
  let ?ws = "w_indices w" and ?x = "w_indices w ! i" and ?v = "take 2047 (w_indices w)"
  have ok: "w_len w = 2048" "length ?ws = 2048" "distinct ?ws" using assms(1) by (simp_all add: word_list_ok_def)
  have x: "cstr ?x = ?x"
    using assms ok(2) by (auto simp: word_list_ok_def list_all_iff cstr_def takeWhile_eq_all_conv)
  have "nat (binary_search_find_index ?v ?x) = i" if "binary_search_find_index ?v ?x \<noteq> -1"
  proof -
    define k where "k = lower_bound ?v ?x 0 (length ?v)"
    have k: "k \<noteq> length ?v" "?v ! k = ?x" "binary_search_find_index ?v ?x = int k"
      using that by (auto simp: binary_search_find_index_def Let_def k_def split: if_splits)
    have "k \<le> length ?v" unfolding k_def using lower_bound_le [of ?v ?x 0 "length ?v"] by simp
    with k(1,2) ok assms(2) have "k = i" by (simp add: nth_eq_iff_index_eq)
    with k(3) show ?thesis by simp
  qed
  moreover have "linear_find (take 2048 ?ws) ?x = Some i" using ok assms(2) linear_find_nth [of ?ws i] by simp
  ultimately show ?thesis using ok(1) x by (auto simp: wordlist_lookup_word_def Let_def)
qed

section \<open>Tokens of a phrase\<close>

lemma count_join: "\<forall>x \<in> set ws. 32 \<notin> set x \<Longrightarrow> ws \<noteq> [] \<Longrightarrow> wordlist_count (join_words ws) = length ws"
proof (induction ws rule: join_words.induct)
  case (2 x)
  then show ?case by (auto simp: wordlist_count_def filter_empty_conv)
next
  case (3 x y ys)
  then have "filter (\<lambda>c. c = 32) x = []" by (auto simp: filter_empty_conv)
  with 3 show ?case by (simp add: wordlist_count_def)
qed simp

lemma takeWhile_word: "32 \<notin> set x \<Longrightarrow> takeWhile (\<lambda>c. c \<noteq> 32) (x @ 32 # r) = x"
  "32 \<notin> set x \<Longrightarrow> takeWhile (\<lambda>c. c \<noteq> 32) x = x"
  by (induction x) auto

lemma tokens_join:
  "\<forall>x \<in> set ws. 32 \<notin> set x \<Longrightarrow> ws \<noteq> [] \<Longrightarrow> wordlist_tokens (length ws) (Some (join_words ws)) = Some ws"
proof (induction ws rule: join_words.induct)
  case (2 x)
  then show ?case by (simp add: takeWhile_word)
next
  case (3 x y ys)
  then show ?case by (simp add: takeWhile_word)
qed simp

lemma wordlist_init_join:
  assumes "\<forall>x \<in> set ws. 32 \<notin> set x" and "ws \<noteq> []"
  shows "\<exists>m. wordlist_init (join_words ws) = Some m \<and> w_len m = length ws \<and> w_indices m = ws"
  using count_join [OF assms] tokens_join [OF assms] by (simp add: wordlist_init_def Let_def)

lemma split_string_join:
  "\<forall>x \<in> set ws. 32 \<notin> set x \<Longrightarrow> ws \<noteq> [] \<Longrightarrow> split_string t (join_words ws) = (t @ hd ws) # tl ws"
proof -
  have one: "32 \<notin> set x \<Longrightarrow> split_string t x = [t @ x]" for x t by (induction x arbitrary: t) auto
  have more: "32 \<notin> set x \<Longrightarrow> split_string t (x @ 32 # r) = (t @ x) # split_string [] r" for x t r
    by (induction x arbitrary: t) auto
  show "\<forall>x \<in> set ws. 32 \<notin> set x \<Longrightarrow> ws \<noteq> [] \<Longrightarrow> split_string t (join_words ws) = (t @ hd ws) # tl ws"
    by (induction ws arbitrary: t rule: join_words.induct) (simp_all add: one more)
qed

section \<open>Bits\<close>

lemma mask_bit: "(b AND U8_MASK pos \<noteq> 0) \<longleftrightarrow> bit b (7 - pos mod 8)"
  by (simp add: U8_MASK_def bit_iff_and_push_bit_not_eq_0)

lemma bit_at_ext:
  assumes "length a = length b" and "\<And>pos. pos < 8 * length a \<Longrightarrow> bit_at a pos = bit_at b pos"
  shows "a = b"
proof (rule nth_equalityI [OF assms(1)])
  fix i assume i: "i < length a"
  show "a ! i = b ! i"
  proof (rule bit_word_eqI)
    fix n assume "n < LENGTH(8)"
    then have n: "n < 8" by simp
    define q where "q = 8 * i + (7 - n)"
    have m: "q mod 8 = 7 - n" "q div 8 = i"
      using n mod_mult_self4 [of 8 i "7 - n"] div_mult_self4 [of 8 i "7 - n"] by (simp_all add: q_def)
    have "q < 8 * length a" using i by (simp add: q_def)
    from assms(2) [OF this] n show "bit (a ! i) n = bit (b ! i) n" unfolding bit_at_def m by simp
  qed
qed

lemma bit_U8_MASK: "bit (U8_MASK p) k \<longleftrightarrow> k = 7 - p mod 8"
proof -
  have "7 - p mod 8 < LENGTH(8)" by simp
  then show ?thesis unfolding U8_MASK_def push_bit_of_1 bit_exp_iff by (auto simp: possible_bit_word)
qed

lemma bit_at_set:
  assumes "p < 8 * length bs" and "q < 8 * length bs"
  shows "bit_at (bs[p div 8 := bs ! (p div 8) OR U8_MASK p]) q \<longleftrightarrow> bit_at bs q \<or> q = p"
proof (cases "q div 8 = p div 8")
  case True
  have "p div 8 < length bs" using assms(1) by auto
  moreover have "7 - p mod 8 = 7 - q mod 8 \<longleftrightarrow> q = p"
  proof
    assume "7 - p mod 8 = 7 - q mod 8"
    moreover have "p mod 8 < 8" "q mod 8 < 8" by simp_all
    ultimately have "p mod 8 = q mod 8" by linarith
    with True show "q = p" by (metis div_mult_mod_eq)
  qed simp
  ultimately show ?thesis using True
    by (auto simp: bit_at_def bit_or_iff bit_U8_MASK)
next
  case False
  then show ?thesis by (auto simp: bit_at_def)
qed

lemma extract_bits:
  assumes "n * bits + m \<le> 8 * length bs"
  shows "\<exists>v. foldl (\<lambda>value pos. do {
         v \<leftarrow> value;
         if pos div 8 < length bs
         then Some (2 * v + of_bool (bs ! (pos div 8) AND U8_MASK pos \<noteq> 0)) else None })
       (Some 0) [n * bits..<n * bits + m] = Some v \<and> v < (2 :: nat) ^ m \<and>
     (\<forall>i < m. bit v (m - 1 - i) = bit_at bs (n * bits + i))"
  using assms
proof (induction m)
  case (Suc m)
  then obtain v where v: "foldl (\<lambda>value pos. do {
         v \<leftarrow> value;
         if pos div 8 < length bs
         then Some (2 * v + of_bool (bs ! (pos div 8) AND U8_MASK pos \<noteq> 0)) else None })
       (Some 0) [n * bits..<n * bits + m] = Some v" "v < (2 :: nat) ^ m"
     "\<forall>i < m. bit v (m - 1 - i) = bit_at bs (n * bits + i)" by auto
  let ?b = "bit_at bs (n * bits + m)"
  have "bit (2 * v + of_bool ?b) (Suc m - 1 - i) = bit_at bs (n * bits + i)" if "i < Suc m" for i
  proof (cases "i = m")
    case True
    then show ?thesis by (simp add: bit_0)
  next
    case False
    then have "Suc m - 1 - i = Suc (m - 1 - i)" using that by simp
    with False that v(3) show ?thesis by (simp add: bit_Suc)
  qed
  moreover have "2 * v + of_bool ?b < 2 ^ Suc m" using v(2) by (cases ?b) auto
  moreover have "(n * bits + m) div 8 < length bs" using Suc.prems by auto
  ultimately show ?case using v(1) by (simp add: mask_bit bit_at_def)
qed simp

lemma extract_index_bits:
  assumes "n * bits + bits \<le> 8 * length bs"
  shows "\<exists>v. extract_index bits bs n = Some v \<and> v < 2 ^ bits \<and> (\<forall>i < bits. bit v (bits - 1 - i) = bit_at bs (n * bits + i))"
  using extract_bits [OF assms] by (simp add: extract_index_def)

lemma store_bits:
  assumes "n * bits + m \<le> 8 * length bs"
  shows "\<exists>out. foldl (\<lambda>m i. do {
         bs \<leftarrow> m;
         let pos = n * bits + i;
         if bit value (bits - i - 1) then
           (if pos div 8 < length bs
            then Some (bs[pos div 8 := bs ! (pos div 8) OR U8_MASK pos]) else None)
         else Some bs })
       (Some bs) [0..<m] = Some out \<and> length out = length bs \<and>
     (\<forall>q < 8 * length bs. bit_at out q \<longleftrightarrow>
        bit_at bs q \<or> n * bits \<le> q \<and> q < n * bits + m \<and> bit (value :: nat) (bits - (q - n * bits) - 1))"
  using assms
proof (induction m)
  case (Suc m)
  then obtain out where o: "foldl (\<lambda>m i. do {
         bs \<leftarrow> m;
         let pos = n * bits + i;
         if bit value (bits - i - 1) then
           (if pos div 8 < length bs
            then Some (bs[pos div 8 := bs ! (pos div 8) OR U8_MASK pos]) else None)
         else Some bs })
       (Some bs) [0..<m] = Some out" "length out = length bs"
     "\<forall>q < 8 * length bs. bit_at out q \<longleftrightarrow>
        bit_at bs q \<or> n * bits \<le> q \<and> q < n * bits + m \<and> bit value (bits - (q - n * bits) - 1)" by auto
  have p: "n * bits + m < 8 * length out" using Suc.prems o(2) by simp
  then have p8: "(n * bits + m) div 8 < length out" by auto
  show ?case
  proof (cases "bit value (bits - m - 1)")
    case True
    with o p p8 show ?thesis by (auto simp: Let_def bit_at_set less_Suc_eq)
  next
    case False
    then show ?thesis using o by (auto simp: less_Suc_eq)
  qed
qed auto

lemma store_index_bits:
  assumes "n * bits + bits \<le> 8 * length bs"
  shows "\<exists>out. store_index bits bs n value = Some out \<and> length out = length bs \<and>
     (\<forall>q < 8 * length bs. bit_at out q \<longleftrightarrow>
        bit_at bs q \<or> n * bits \<le> q \<and> q < n * bits + bits \<and> bit value (bits - (q - n * bits) - 1))"
  using store_bits [OF assms, of "value"] by (simp add: store_index_def)

definition checksum_word :: "bytes \<Rightarrow> u64" where
  "checksum_word bs = ucast (sha256_spec bs ! 0) OR push_bit 8 (ucast (sha256_spec bs ! 1))"

definition index_at :: "bytes \<Rightarrow> nat \<Rightarrow> nat" where
  "index_at T j = the (extract_index 11 T j)"

abbreviation phrase :: "words \<Rightarrow> bytes \<Rightarrow> nat \<Rightarrow> bytes list" where
  "phrase w T k \<equiv> map (\<lambda>j. w_indices w ! index_at T j) [0..<k]"

section \<open>The phrase of a byte array\<close>

lemma bip39_checksum_spec:
  assumes "length bs < 2 ^ 61"
  shows "bip39_checksum bs cmask = Some (checksum_word bs AND cmask)"
  using sha256_stream [of "[bs]"] assms length_sha256_spec [of bs]
  by (auto simp: bip39_checksum_def checksum_word_def split: bind_splits)

lemma those_map_Some: "(\<And>x. x \<in> set xs \<Longrightarrow> f x = Some (g x)) \<Longrightarrow> those (map f xs) = Some (map g xs)"
  by (induction xs) auto

lemma index_at:
  assumes "11 * (j + 1) \<le> 8 * length T"
  shows "extract_index 11 T j = Some (index_at T j)" and "index_at T j < 2048"
    and "i < 11 \<Longrightarrow> bit (index_at T j) (10 - i) = bit_at T (11 * j + i)"
  using extract_index_bits [of j 11 T] assms by (auto simp: index_at_def mult.commute)

lemma extract_all:
  assumes "11 * k \<le> 8 * length T"
  shows "those (map (extract_index 11 T) [0..<k]) = Some (map (index_at T) [0..<k])"
  using assms by (intro those_map_Some index_at(1)) auto

lemma mnemonic_from_bytes_phrase:
  assumes "word_list_ok w" and "k = 8 * length T div 11" and "0 < k"
  shows "mnemonic_from_bytes w T = Some (Some (join_words (phrase w T k)))"
proof -
  have ok: "w_bits w = 11" "length (w_indices w) = 2048" using assms(1) by (simp_all add: word_list_ok_def)
  have le: "11 * k \<le> 8 * length T" using assms(2) by simp
  then have "index_at T j < 2048" if "j < k" for j using that by (intro index_at(2)) auto
  then have "those (map (\<lambda>i. if i < length (w_indices w) then Some (w_indices w ! i) else None) (map (index_at T) [0..<k]))
     = Some (phrase w T k)"
    unfolding map_map using ok(2) by (intro those_map_Some) auto
  with extract_all [OF le] assms(2,3) ok(1) show ?thesis
    by (simp add: mnemonic_from_bytes_def Let_def mult.commute)
qed

lemma store_words_bits:
  assumes "word_list_ok w" and "\<forall>x \<in> set idxs. x < 2048" and "11 * (i + length idxs) \<le> 8 * length out"
  shows "\<exists>out'. store_words w (map ((!) (w_indices w)) idxs) i out = Some (MINTER_OK, out') \<and> length out' = length out \<and>
     (\<forall>q < 8 * length out. bit_at out' q \<longleftrightarrow> bit_at out q \<or>
        11 * i \<le> q \<and> q < 11 * (i + length idxs) \<and> bit (idxs ! (q div 11 - i)) (10 - q mod 11))"
  using assms(2,3)
proof (induction idxs arbitrary: i out)
  case (Cons x xs)
  have bits: "w_bits w = 11" using assms(1) by (simp add: word_list_ok_def)
  obtain out1 where out1: "store_index 11 out i x = Some out1" "length out1 = length out"
    "\<forall>q < 8 * length out. bit_at out1 q \<longleftrightarrow>
        bit_at out q \<or> i * 11 \<le> q \<and> q < i * 11 + 11 \<and> bit x (11 - (q - i * 11) - 1)"
    using store_index_bits [of i 11 out x] Cons.prems(2) by auto
  obtain out2 where out2: "store_words w (map ((!) (w_indices w)) xs) (i + 1) out1 = Some (MINTER_OK, out2)"
    "length out2 = length out1"
    "\<forall>q < 8 * length out1. bit_at out2 q \<longleftrightarrow> bit_at out1 q \<or>
        11 * (i + 1) \<le> q \<and> q < 11 * (i + 1 + length xs) \<and> bit (xs ! (q div 11 - (i + 1))) (10 - q mod 11)"
    using Cons.IH [of "i + 1" out1] Cons.prems out1(2) by auto
  have "bit_at out2 q \<longleftrightarrow> bit_at out q \<or>
        11 * i \<le> q \<and> q < 11 * (i + length (x # xs)) \<and> bit ((x # xs) ! (q div 11 - i)) (10 - q mod 11)"
    if q: "q < 8 * length out" for q
  proof (cases "11 * i \<le> q \<and> q < 11 * i + 11")
    case True
    then have d: "q div 11 = i" by (simp add: div_nat_eqI)
    moreover have "q mod 11 = q - 11 * i" using minus_mult_div_eq_mod [of q 11] unfolding d by simp
    ultimately show ?thesis using True q out1 out2 by (auto simp: mult.commute)
  next
    case False
    have "q div 11 - i = Suc (q div 11 - (i + 1))" if "11 * (i + 1) \<le> q" using that by auto
    with False q out1 out2 show ?thesis by (auto simp: mult.commute)
  qed
  moreover have "store_words w (map ((!) (w_indices w)) (x # xs)) i out = Some (MINTER_OK, out2)"
    using lookup_word_nth [OF assms(1), of x] Cons.prems(1) out1(1) out2(1) bits by simp
  ultimately show ?case using out1(2) out2(2) by auto
qed auto

lemma bit_at_zeros: "q < 8 * n \<Longrightarrow> \<not> bit_at (replicate n 0) q"
  by (auto simp: bit_at_def)

lemma bit_at_append: "q < 8 * (length T + n) \<Longrightarrow> bit_at (T @ replicate n 0) q \<longleftrightarrow> q < 8 * length T \<and> bit_at T q"
  by (auto simp: bit_at_def nth_append)

lemma store_phrase:
  assumes "word_list_ok w" and "11 * k \<le> 8 * length T" and "\<And>q. 11 * k \<le> q \<Longrightarrow> q < 8 * length T \<Longrightarrow> \<not> bit_at T q"
  shows "store_words w (phrase w T k) 0 (replicate (length T + n) 0) = Some (MINTER_OK, T @ replicate n 0)"
proof -
  let ?idxs = "map (index_at T) [0..<k]" and ?z = "replicate (length T + n) (0 :: byte)"
  have idx: "index_at T j < 2048" "i < 11 \<Longrightarrow> bit (index_at T j) (10 - i) = bit_at T (11 * j + i)" if "j < k" for i j
    using index_at(2,3) [of j T] that assms(2) by auto
  have ph: "phrase w T k = map ((!) (w_indices w)) ?idxs" by simp
  obtain out where out: "store_words w (phrase w T k) 0 ?z = Some (MINTER_OK, out)" "length out = length T + n"
    "\<forall>q < 8 * (length T + n). bit_at out q \<longleftrightarrow> bit_at ?z q \<or> q < 11 * k \<and> bit (?idxs ! (q div 11)) (10 - q mod 11)"
    using store_words_bits [OF assms(1), of ?idxs 0 ?z] idx(1) assms(2) unfolding ph by auto
  have "out = T @ replicate n 0"
  proof (rule bit_at_ext)
    fix q assume q: "q < 8 * length out"
    have "bit (?idxs ! (q div 11)) (10 - q mod 11) = bit_at T q" if "q < 11 * k"
    proof -
      have "q div 11 < k" using that by (simp add: less_mult_imp_div_less mult.commute)
      with idx(2) [of "q div 11" "q mod 11"] show ?thesis by simp
    qed
    with q out(2,3) assms(2,3) bit_at_zeros [of q "length T + n"] bit_at_append [of q T n]
    show "bit_at out q = bit_at (T @ replicate n 0) q"
      by (cases "q < 11 * k") (auto simp: not_less)
  qed (simp add: out(2))
  with out(1) show ?thesis by simp
qed

definition with_checksum :: "bytes \<Rightarrow> bytes" where
  "with_checksum bs =
     (let cmask = len_to_mask (length bs); c = checksum_word bs AND cmask
      in bs @ [ucast (c AND 0xFF)] @ (if cmask > 0xFF then [ucast (drop_bit 8 c AND 0xFF)] else []))"

definition sample_words :: words where
  "sample_words = \<lparr>w_len = 2048, w_bits = 11, w_sorted = False,
     w_indices = map (\<lambda>n. [of_nat (97 + n div 64), of_nat (97 + n mod 64)]) [0..<2048]\<rparr>"

section \<open>The round trip\<close>

lemma validateEntropy_cases:
  assumes "validateEntropy n"
  obtains "n = 16" | "n = 20" | "n = 24" | "n = 28" | "n = 32" | "n = 36" | "n = 40"
  using assms by (auto simp: validateEntropy_def)

lemma length_with_checksum:
  "validateEntropy (length bs) \<Longrightarrow> length (with_checksum bs) = (if length bs \<le> 32 then length bs + 1 else length bs + 2)"
  by (erule validateEntropy_cases) (simp_all add: with_checksum_def len_to_mask_def Let_def)

lemma with_checksum_sizes:
  assumes "validateEntropy (length bs)"
  defines "T \<equiv> with_checksum bs" and "k \<equiv> 3 * length bs div 4"
  shows "8 * length T div 11 = k" and "(11 * k + 7) div 8 = length T" and "0 < k" and "11 * k \<le> 8 * length T"
    and "length T \<le> 42"
  using assms length_with_checksum [OF assms(1)] by (auto elim!: validateEntropy_cases)

lemma with_checksum_padding:
  assumes "validateEntropy (length bs)" and "11 * (3 * length bs div 4) \<le> q" and "q < 8 * length (with_checksum bs)"
  shows "\<not> bit_at (with_checksum bs) q"
proof -
  have "list_all (\<lambda>q. \<not> bit_at (with_checksum bs) q) [11 * (3 * length bs div 4)..<8 * length (with_checksum bs)]"
    unfolding length_with_checksum [OF assms(1)] using assms(1)
    by (cases rule: validateEntropy_cases)
      (simp_all add: upt_rec bit_at_def with_checksum_def Let_def len_to_mask_def nth_append bit_simps)
  with assms(2,3) show ?thesis by (auto simp: list_all_iff)
qed

lemma checksum_ok_with_checksum:
  assumes "validateEntropy (length bs)"
  shows "checksum_ok (with_checksum bs @ r) (length bs) (len_to_mask (length bs)) = Some True"
proof -
  let ?m = "len_to_mask (length bs)" and ?T = "with_checksum bs"
  have stored: "(ucast (ucast (c AND 0xFF) :: byte) OR (if ?m > 0xff then push_bit 8 (ucast (ucast (drop_bit 8 c AND 0xFF) :: byte)) else 0)) AND ?m = c"
    if "c = x AND ?m" for c x :: u64
  proof (rule bit_word_eqI)
    fix n assume n: "n < LENGTH(64)"
    have "list_all (\<lambda>n. bit ((ucast (ucast (c AND 0xFF) :: byte) OR (if ?m > 0xff then push_bit 8 (ucast (ucast (drop_bit 8 c AND 0xFF) :: byte)) else 0)) AND ?m) n \<longleftrightarrow> bit c n) [0..<64]"
      unfolding upto_64 that using assms
      by (cases rule: validateEntropy_cases) (simp_all add: len_to_mask_def bit_simps bit_high numeral_2_eq_2 [symmetric])
    with n show "bit ((ucast (ucast (c AND 0xFF) :: byte) OR (if ?m > 0xff then push_bit 8 (ucast (ucast (drop_bit 8 c AND 0xFF) :: byte)) else 0)) AND ?m) n \<longleftrightarrow> bit c n"
      by (simp add: list_all_iff)
  qed
  have "take (length bs) (?T @ r) = bs" "(?T @ r) ! length bs = ucast ((checksum_word bs AND ?m) AND 0xFF)"
    "?m > 0xff \<Longrightarrow> (?T @ r) ! (length bs + 1) = ucast (drop_bit 8 (checksum_word bs AND ?m) AND 0xFF)"
    "length bs + (if ?m > 0xff then 1 else 0) < length (?T @ r)"
    by (simp_all add: with_checksum_def Let_def nth_append)
  moreover have "bip39_checksum bs ?m = Some (checksum_word bs AND ?m)"
    by (rule bip39_checksum_spec) (use assms in \<open>auto simp: validateEntropy_def\<close>)
  ultimately show ?thesis using stored [OF refl, of "checksum_word bs"]
    by (cases "?m > 0xff") (simp_all add: checksum_ok_def Let_def)
qed

lemma phrase_blank_free:
  assumes "word_list_ok w" and "11 * k \<le> 8 * length T"
  shows "\<forall>x \<in> set (phrase w T k). 32 \<notin> set x"
proof -
  have "index_at T j < 2048" if "j < k" for j using that assms(2) by (intro index_at(2)) auto
  then show ?thesis using assms(1) by (auto simp: word_list_ok_def list_all_iff)
qed

lemma bip39_from_bytes_phrase:
  assumes "word_list_ok w" and "validateEntropy (length bs)"
  shows "bip39_mnemonic_from_bytes w bs =
     Some (MINTER_OK, Some (join_words (phrase w (with_checksum bs) (3 * length bs div 4))))"
proof -
  have "bip39_checksum bs m = Some (checksum_word bs AND m)" for m
    by (rule bip39_checksum_spec) (use assms(2) in \<open>auto simp: validateEntropy_def\<close>)
  moreover have "len_to_mask (length bs) \<noteq> 0" "bs \<noteq> []" using assms(2) by (auto simp: validateEntropy_def len_to_mask_def)
  moreover have "w_bits w = 11" using assms(1) by (simp add: word_list_ok_def)
  moreover note mnemonic_from_bytes_phrase [OF assms(1) with_checksum_sizes(1) [OF assms(2), symmetric] with_checksum_sizes(3) [OF assms(2)]]
  ultimately show ?thesis by (simp add: bip39_mnemonic_from_bytes_def Let_def with_checksum_def)
qed

lemma bip39_to_bytes_phrase:
  assumes "word_list_ok w" and "validateEntropy (length bs)" and "length bs \<le> length buf"
  shows "bip39_mnemonic_to_bytes w (join_words (phrase w (with_checksum bs) (3 * length bs div 4))) buf =
     Some (MINTER_OK, bs @ drop (length bs) buf, length bs)"
proof -
  let ?T = "with_checksum bs" and ?k = "3 * length bs div 4"
  note sizes = with_checksum_sizes [OF assms(2)]
  have bits: "w_bits w = 11" using assms(1) by (simp add: word_list_ok_def)
  have ne: "phrase w ?T ?k \<noteq> []" using sizes(3) by simp
  obtain m where m: "wordlist_init (join_words (phrase w ?T ?k)) = Some m" "w_len m = ?k" "w_indices m = phrase w ?T ?k"
    using wordlist_init_join [OF phrase_blank_free [OF assms(1) sizes(4)] ne] by auto
  have "store_words w (phrase w ?T ?k) 0 (replicate (length ?T + (42 - length ?T)) 0)
      = Some (MINTER_OK, ?T @ replicate (42 - length ?T) 0)"
    by (rule store_phrase [OF assms(1) sizes(4) with_checksum_padding [OF assms(2)]])
  then have to: "mnemonic_to_bytes w (join_words (phrase w ?T ?k)) (replicate 42 0)
      = Some (MINTER_OK, ?T @ replicate (42 - length ?T) 0, length ?T)"
    using m sizes(2,5) bits by (simp add: mnemonic_to_bytes_def Let_def mult.commute)
  define tmp where "tmp = ?T @ replicate (42 - length ?T) 0"
  have "checksum_ok tmp (length bs) (len_to_mask (length bs)) = Some True" "take (length bs) tmp = bs"
    using checksum_ok_with_checksum [OF assms(2)] by (simp_all add: tmp_def with_checksum_def Let_def)
  moreover have "len_to_mask (length bs) \<noteq> 0" "length bs \<le> 42"
    using assms(2) by (auto simp: validateEntropy_def len_to_mask_def)
  ultimately show ?thesis
    using to [folded tmp_def] bits assms(3) length_with_checksum [OF assms(2)]
    by (cases "length bs \<le> 32") (simp_all add: bip39_mnemonic_to_bytes_def Let_def MINTER_OK_def mem_write_def)
qed

lemma entropy_phrase:
  assumes "word_list_ok w" and "validateEntropy (length entropy)" and "length buf = length entropy"
  shows "\<exists>r. entropyToMnemonic w entropy = Some r \<and> mr_status r = Ok \<and> mr_len r = 3 * length entropy div 4 \<and>
     mr_len r = length (mr_words r) \<and> mr_raw r = join_words (mr_words r) \<and> set (mr_words r) \<subseteq> set (w_indices w) \<and>
     validateWords w (mr_raw r) = Some True \<and>
     decodeMnemonic w (mr_raw r) buf = Some (length entropy, entropy)"
proof -
  let ?T = "with_checksum entropy" and ?k = "3 * length entropy div 4"
  let ?p = "phrase w ?T ?k"
  note sizes = with_checksum_sizes [OF assms(2)]
  have ne: "?p \<noteq> []" using sizes(3) by simp
  have "split_string [] (join_words ?p) = ?p"
    using split_string_join [OF phrase_blank_free [OF assms(1) sizes(4)] ne, of "[]"] ne by (simp del: map_is_Nil_conv)
  then have e: "entropyToMnemonic w entropy = Some \<lparr>mr_status = Ok, mr_words = ?p, mr_raw = join_words ?p, mr_len = ?k\<rparr>"
    using assms(2) bip39_from_bytes_phrase [OF assms(1,2)] by (simp add: entropyToMnemonic_def MINTER_OK_def Let_def)
  have "index_at ?T j < 2048" if "j < ?k" for j using that sizes(4) by (intro index_at(2)) auto
  then have "set ?p \<subseteq> set (w_indices w)" using assms(1) by (auto simp: word_list_ok_def)
  moreover have "validateWords w (join_words ?p) = Some True"
    using bip39_to_bytes_phrase [OF assms(1,2), of "replicate 42 0"] assms(2)
    by (auto simp: validateWords_def bip39_mnemonic_validate_def validateEntropy_def)
  moreover have "decodeMnemonic w (join_words ?p) buf = Some (length entropy, entropy)"
    using bip39_to_bytes_phrase [OF assms(1,2), of buf] assms(2,3) by (simp add: decodeMnemonic_def)
  ultimately show ?thesis using e by simp
qed

text \<open>
  C15. A recovery phrase restores its entropy. For every supported length and every word list of
  2048 different words, \<open>entropyToMnemonic\<close> succeeds with three words for every four bytes,
  \<open>validateWords\<close> accepts the phrase (its checksum is right), and \<open>decodeMnemonic\<close> into a buffer of
  that length returns the length and exactly the entropy.
\<close>

theorem mnemonic_roundtrip:
  assumes "word_list_ok w" and "validateEntropy (length entropy)" and "length buf = length entropy"
  shows "\<exists>r. entropyToMnemonic w entropy = Some r \<and> mr_status r = Ok \<and> mr_len r = 3 * length entropy div 4 \<and>
     mr_len r = length (mr_words r) \<and> set (mr_words r) \<subseteq> set (w_indices w) \<and>
     validateWords w (mr_raw r) = Some True \<and>
     decodeMnemonic w (mr_raw r) buf = Some (length entropy, entropy)"
  using entropy_phrase [OF assms] by blast

lemma sample_byte:
  assumes "n < 2048"
  shows "unat (of_nat (97 + n div 64) :: byte) = 97 + n div 64" and "unat (of_nat (97 + n mod 64) :: byte) = 97 + n mod 64"
proof -
  have "n div 64 < 32" "n mod 64 < 64" using assms by auto
  then show "unat (of_nat (97 + n div 64) :: byte) = 97 + n div 64" "unat (of_nat (97 + n mod 64) :: byte) = 97 + n mod 64"
    by (intro unat_of_nat_lt, simp)+
qed

lemma sample_words_ok: "word_list_ok sample_words"
proof -
  let ?f = "\<lambda>n. [of_nat (97 + n div 64) :: byte, of_nat (97 + n mod 64)]"
  have "inj_on ?f {0..<2048}"
  proof (rule inj_onI)
    fix m n assume *: "m \<in> {0..<2048}" "n \<in> {0..<2048}" "?f m = ?f n"
    then have "unat (of_nat (97 + m div 64) :: byte) = unat (of_nat (97 + n div 64) :: byte)"
      "unat (of_nat (97 + m mod 64) :: byte) = unat (of_nat (97 + n mod 64) :: byte)" by (simp_all only: list.inject)
    moreover have "m < 2048" "n < 2048" using *(1,2) by simp_all
    ultimately have "97 + m div 64 = 97 + n div 64" "97 + m mod 64 = 97 + n mod 64"
      using sample_byte [of m] sample_byte [of n] by metis+
    then have "m div 64 = n div 64" "m mod 64 = n mod 64" by simp_all
    then show "m = n" by (metis div_mult_mod_eq)
  qed
  moreover have "32 \<notin> set (?f n) \<and> 0 \<notin> set (?f n)" if "n < 2048" for n
  proof -
    have "b \<noteq> 32 \<and> b \<noteq> 0" if "97 \<le> unat b" for b :: byte using that by auto
    moreover have "97 \<le> unat (of_nat (97 + n div 64) :: byte)" "97 \<le> unat (of_nat (97 + n mod 64) :: byte)"
      using sample_byte [OF that] by (simp_all only:)
    ultimately show ?thesis by (metis empty_set list.set(2) insertE empty_iff)
  qed
  ultimately show ?thesis
    by (auto simp: word_list_ok_def sample_words_def distinct_map list_all_iff simp del: of_nat_add)
qed

theorem mnemonic_roundtrip_witness:
  "\<exists>r. entropyToMnemonic sample_words (replicate 16 7) = Some r \<and> mr_status r = Ok \<and> mr_len r = 12 \<and>
     mr_len r = length (mr_words r) \<and> set (mr_words r) \<subseteq> set (w_indices sample_words) \<and>
     validateWords sample_words (mr_raw r) = Some True \<and>
     decodeMnemonic sample_words (mr_raw r) (replicate 16 0) = Some (16, replicate 16 7)"
  using mnemonic_roundtrip [OF sample_words_ok, of "replicate 16 7" "replicate 16 0"]
  by (simp add: validateEntropy_def)

text \<open>
  A phrase of 24 words of the list, decoded into a buffer for a shorter entropy, is reported as
  decoded, 32 bytes: its checksum is not looked at and the buffer is not written.
\<close>

lemma decodeMnemonic_unchecked:
  assumes "word_list_ok w" and "length T = 33" and "length buf \<in> {16, 20, 24, 28}"
  shows "decodeMnemonic w (join_words (phrase w T 24)) buf = Some (32, buf)"
proof -
  have bits: "w_bits w = 11" using assms(1) by (simp add: word_list_ok_def)
  obtain m where m: "wordlist_init (join_words (phrase w T 24)) = Some m" "w_len m = 24" "w_indices m = phrase w T 24"
    using wordlist_init_join [OF phrase_blank_free [OF assms(1), of 24 T]] assms(2) by auto
  have "store_words w (phrase w T 24) 0 (replicate (length T + 9) 0) = Some (MINTER_OK, T @ replicate 9 0)"
    by (rule store_phrase [OF assms(1)]) (simp_all add: assms(2))
  then have "mnemonic_to_bytes w (join_words (phrase w T 24)) (replicate 42 0) = Some (MINTER_OK, T @ replicate 9 0, 33)"
    using m bits assms(2) by (simp add: mnemonic_to_bytes_def Let_def del: upt_rec)
  with bits assms(3) show ?thesis
    by (auto simp: decodeMnemonic_def validateEntropy_def bip39_mnemonic_to_bytes_def Let_def MINTER_OK_def)
qed

section \<open>Wallet creation and recovery\<close>

lemma mnemonic_to_seed_spec:
  assumes "length garb = 16" and "length mnemonic < 2 ^ 30" and "length password < 2 ^ 30"
  shows "bip39_mnemonic_to_seed garb mnemonic (Some password) 64 =
     Some (1, Some (pbkdf2_spec (hmac_spec sha512_spec 128 mnemonic) (mnemonic_prefix @ password) 2047), 64)"
  using p512.pbkdf2_provided [of mnemonic "mnemonic_prefix @ password" garb 2048] assms
  by (simp add: bip39_mnemonic_to_seed_def pbkdf2_hmac_sha512_def mnemonic_prefix_def)

lemma length_join_words: "list_all (\<lambda>x. length x < n) ws \<Longrightarrow> length (join_words ws) \<le> length ws * n"
  by (induction ws rule: join_words.induct) auto

text \<open>
  C16. A wallet can be recovered on another device: from any 16 random bytes \<open>generate\<close> returns twelve
  words that validate, decode to those bytes, and derive the seed of the standard (PBKDF2 over
  HMAC-SHA-512, 2048 rounds, salt \<open>mnemonic\<close>), whatever the uninitialised memory holds.
\<close>

theorem wallet_recovery:
  assumes "word_list_ok w" and "list_all (\<lambda>x. length x < 2 ^ 20) (w_indices w)"
    and "length random = 16" and "length garb = 16"
  shows "\<exists>r. generate w random = Some r \<and> mr_status r = Ok \<and> mr_len r = 12 \<and> validateWords w (mr_raw r) = Some True \<and>
     mnemonicWordsToEntropy w (mr_raw r) (replicate 16 0) = Some (16, random) \<and>
     wordsToSeed garb (mr_raw r) =
       Some (Some (pbkdf2_spec (hmac_spec sha512_spec 128 (mr_raw r)) mnemonic_prefix 2047), 64)"
proof -
  have "validateEntropy (length random)" using assms(3) by (simp add: validateEntropy_def)
  from entropy_phrase [OF assms(1) this, of "replicate 16 0"] assms(3) obtain r where
    r: "entropyToMnemonic w random = Some r" "mr_status r = Ok" "mr_len r = 12" "length (mr_words r) = 12"
      "mr_raw r = join_words (mr_words r)" "set (mr_words r) \<subseteq> set (w_indices w)" "validateWords w (mr_raw r) = Some True"
      "decodeMnemonic w (mr_raw r) (replicate 16 0) = Some (16, random)" by auto
  have "list_all (\<lambda>x. length x < 2 ^ 20) (mr_words r)" using assms(2) r(6) by (auto simp: list_all_iff)
  from length_join_words [OF this] r(4,5) have "length (mr_raw r) < 2 ^ 30" by simp
  from mnemonic_to_seed_spec [OF assms(4) this, of "[]"] show ?thesis
    using r assms(3)
    by (auto simp: generate_def encodeBytes_def mnemonicWordsToEntropy_def wordsToSeed_def bip39_mnemonic_to_seed_def)
qed

theorem wallet_recovery_witness:
  "\<exists>r. generate sample_words (replicate 16 7) = Some r \<and> mr_status r = Ok \<and> mr_len r = 12 \<and>
     validateWords sample_words (mr_raw r) = Some True \<and>
     mnemonicWordsToEntropy sample_words (mr_raw r) (replicate 16 0) = Some (16, replicate 16 7) \<and>
     wordsToSeed (replicate 16 0) (mr_raw r) =
       Some (Some (pbkdf2_spec (hmac_spec sha512_spec 128 (mr_raw r)) mnemonic_prefix 2047), 64)"
  by (rule wallet_recovery [OF sample_words_ok]) (simp_all add: sample_words_def list_all_iff)

lemma unknown_language: "l \<notin> set (getLanguages L) \<Longrightarrow> bip39_get_wordlist L (Some l) = en_words L"
  by (simp add: getLanguages_def bip39_get_languages_def bip39_get_languages_size_def bip39_get_wordlist_def lookup_def
      upt_rec)

end
