(* ===== verification/Aes_Simple.thy ===== *)
theory Aes_Simple
  imports Util_Pdu
begin

text \<open>
  \<^verbatim>\<open>src/ptp_crypto/Base64.cpp\<close> and \<^verbatim>\<open>src/ptp_crypto/AesSimple.cpp\<close>: Base64 with a 32-bit accumulator, and the encryption of a
  byte string by AES in single blocks, with the length of the text in the last four bytes, as Base64 text. The two
  functions of OpenSSL on one block, \<open>AES_encrypt\<close> and \<open>AES_decrypt\<close>, are the arguments \<open>enc\<close> and \<open>dec\<close>; the theorems assume of
  them that blocks have sixteen bytes and that \<open>dec\<close> inverts \<open>enc\<close>.

  \<open>None\<close> is an access out of bounds or a failed \<open>assert\<close>. The shifts of the \<open>unsigned int\<close> accumulator drop its high bits. A byte from
  128 on is a negative \<open>char\<close> and no white space.
\<close>

section \<open>Base64\<close>

definition b64_table :: bytes where
  "b64_table = map of_nat ([65..<91] @ [97..<123] @ [48..<58] @ [43, 47])"

definition reverse_table :: bytes where
  "reverse_table = replicate 43 64 @ [62] @ replicate 3 64 @ [63] @ map of_nat [52..<62] @ replicate 7 64 @
     map of_nat [0..<26] @ replicate 6 64 @ map of_nat [26..<52] @ replicate 5 64"

definition b64_char :: "u32 \<Rightarrow> byte" where
  "b64_char a = b64_table ! unat (a AND 0x3f)"

fun b64_emit :: "u32 \<Rightarrow> nat \<Rightarrow> bytes \<times> nat" where
  "b64_emit accumulator bits =
     (if bits \<ge> 6 then (let (cs, k) = b64_emit accumulator (bits - 6) in (b64_char (drop_bit (bits - 6) accumulator) # cs, k))
      else ([], bits))"

declare b64_emit.simps [simp del]

fun b64_enc_loop :: "bytes \<Rightarrow> u32 \<Rightarrow> nat \<Rightarrow> bytes \<times> u32 \<times> nat" where
  "b64_enc_loop [] accumulator bits = ([], accumulator, bits)"
| "b64_enc_loop (c # cs) accumulator bits =
     (let a = push_bit 8 accumulator OR ucast c;
          (out, k) = b64_emit a (bits + 8);
          (rest, r) = b64_enc_loop cs a k
      in (out @ rest, r))"

definition base64_encode :: "bytes \<Rightarrow> bytes option" where
  "base64_encode bindata =
     (if length bindata > (2 ^ 64 - 1) div 4 * 3 then Some []
      else let binlen = length bindata;
               n = (binlen + 2) div 3 * 4;
               (cs, a, bits) = b64_enc_loop bindata 0 0;
               out = cs @ (if bits > 0 then [b64_char (push_bit (6 - bits) a)] else [])
           in if of_nat (length out) \<ge> (of_nat n - 2 :: u64) \<and> length out \<le> n then Some (out @ replicate (n - length out) 61) else None)"

definition isspace :: "byte \<Rightarrow> bool" where
  "isspace c \<longleftrightarrow> c = 32 \<or> 9 \<le> c \<and> c \<le> 13"

fun b64_dec_loop :: "bytes \<Rightarrow> u32 \<Rightarrow> nat \<Rightarrow> bytes \<Rightarrow> bytes" where
  "b64_dec_loop [] accumulator bits retval = retval"
| "b64_dec_loop (c # cs) accumulator bits retval =
     (if isspace c \<or> c = 61 then b64_dec_loop cs accumulator bits retval
      else if c > 127 \<or> reverse_table ! unat c > 63 then []
      else let a = push_bit 6 accumulator OR ucast (reverse_table ! unat c)
           in if bits + 6 \<ge> 8 then b64_dec_loop cs a (bits + 6 - 8) (retval @ [ucast (drop_bit (bits + 6 - 8) a AND 0xff)])
              else b64_dec_loop cs a (bits + 6) retval)"

definition base64_decode :: "bytes \<Rightarrow> bytes" where
  "base64_decode ascdata = b64_dec_loop ascdata 0 0 []"

section \<open>AES\<close>

definition aes_blocks :: "(bytes \<Rightarrow> bytes) \<Rightarrow> bytes \<Rightarrow> nat \<Rightarrow> bytes" where
  "aes_blocks f d n = concat (map (\<lambda>i. f (take 16 (drop (i * 16) d))) [0..<n])"

datatype aes_result = AesFailed int | AesData bytes

definition CAes_Encrypt :: "(bytes \<Rightarrow> bytes) \<Rightarrow> bytes \<Rightarrow> aes_result option" where
  "CAes_Encrypt enc pInData =
     (let nInLen = of_nat (length pInData) :: u32
      in if nInLen = 0 then Some (AesFailed (-1))
         else let nRemain = nInLen mod 16;
                  nBlocks = (nInLen + 15) div 16 + (if nRemain > 12 \<or> nRemain = 0 then 1 else 0);
                  nEncryptLen = nBlocks * 16
              in do {
                pData \<leftarrow> mem_write (replicate (unat nEncryptLen) 0) 0 (take (unat nInLen) pInData);
                pData \<leftarrow> mem_write pData (unat (nEncryptLen - 4)) (put_u32 nInLen);
                strDec \<leftarrow> base64_encode (aes_blocks enc pData (unat nBlocks));
                Some (AesData strDec) })"

definition CAes_Decrypt :: "(bytes \<Rightarrow> bytes) \<Rightarrow> bytes \<Rightarrow> aes_result option" where
  "CAes_Decrypt dec pInData =
     (let nInLen = of_nat (length pInData) :: u32 in
      if nInLen = 0 then Some (AesFailed (-1))
      else let strResult = base64_decode (take (unat nInLen) pInData);
               nLen = of_nat (length strResult) :: u32
           in if nLen = 0 then Some (AesFailed (-2))
              else if nLen mod 16 \<noteq> 0 then Some (AesFailed (-3))
              else let pTmp = aes_blocks dec strResult (unat (nLen div 16))
                   in do {
                     nOutLen \<leftarrow> map_option be32 (mem_read pTmp (unat (nLen - 4)) 4);
                     if nOutLen > nLen then Some (AesFailed (-4))
                     else Some (AesData (take (unat nOutLen) pTmp)) })"

section \<open>Decoding inverts encoding\<close>

definition code_of :: "u32 \<Rightarrow> byte" where
  "code_of a = ucast (a AND 0x3f)"

lemma code_of_lt: "code_of a < 64"
proof -
  have "a AND 63 = take_bit 6 a" by (simp add: take_bit_eq_mask mask_eq_exp_minus_1)
  then have "unat (code_of a) < 64"
    using take_bit_nat_less_exp [of 6 "unat a"] by (simp add: code_of_def unsigned_ucast_eq unsigned_take_bit_eq)
  then show ?thesis by (simp add: word_less_nat_alt)
qed

lemma b64_tables: "\<forall>i < 64. let c = b64_table ! i in \<not> isspace c \<and> c \<noteq> 61 \<and> c \<noteq> 0 \<and> c \<le> 127 \<and> reverse_table ! unat c = of_nat i"
  by code_simp

lemma b64_char_props:
  "\<not> isspace (b64_char a)" "b64_char a \<noteq> 61" "b64_char a \<noteq> 0" "\<not> b64_char a > 127" "reverse_table ! unat (b64_char a) = code_of a"
proof -
  have e: "unat (a AND 63) = unat (code_of a)"
  proof -
    have "a AND 63 = take_bit 6 a" by (simp add: take_bit_eq_mask mask_eq_exp_minus_1)
    then show ?thesis using take_bit_nat_less_exp [of 6 "unat a"]
      by (simp add: code_of_def unsigned_ucast_eq unsigned_take_bit_eq take_bit_nat_eq_self)
  qed
  have "unat (code_of a) < 64" using code_of_lt [of a] by (simp add: word_less_nat_alt)
  with b64_tables e show "\<not> isspace (b64_char a)" "b64_char a \<noteq> 61" "b64_char a \<noteq> 0" "\<not> b64_char a > 127"
      "reverse_table ! unat (b64_char a) = code_of a"
    unfolding b64_char_def Let_def by (auto simp: not_less)
qed

lemma dec_char:
  "b64_dec_loop (b64_char a # cs) A bits rv =
     (let A' = push_bit 6 A OR ucast (code_of a)
      in if bits + 6 \<ge> 8 then b64_dec_loop cs A' (bits - 2) (rv @ [ucast (drop_bit (bits - 2) A' AND 0xff)])
         else b64_dec_loop cs A' (bits + 6) rv)"
proof -
  have "\<not> code_of a > 63" using code_of_lt [of a] by (simp add: word_less_nat_alt)
  moreover have "bits + 6 - 8 = bits - 2" by simp
  ultimately show ?thesis using b64_char_props [of a] by (simp only: b64_dec_loop.simps if_False simp_thms)
qed

definition b64_out :: "bytes \<Rightarrow> u32 \<Rightarrow> bytes" where
  "b64_out x a = (let (cs, a', bits) = b64_enc_loop x a 0 in cs @ (if bits > 0 then [b64_char (push_bit (6 - bits) a')] else []))"

lemma b64_emit_eval:
  "b64_emit a 8 = ([b64_char (drop_bit 2 a)], 2)" "b64_emit a 10 = ([b64_char (drop_bit 4 a)], 4)"
  "b64_emit a 12 = ([b64_char (drop_bit 6 a), b64_char a], 0)"
  by (simp_all add: b64_emit.simps)

lemma b64_out_eval:
  "b64_out [] a = []"
  "b64_out [b0] a = (let a1 = push_bit 8 a OR ucast b0 in [b64_char (drop_bit 2 a1), b64_char (push_bit 4 a1)])"
  "b64_out [b0, b1] a = (let a1 = push_bit 8 a OR ucast b0; a2 = push_bit 8 a1 OR ucast b1
     in [b64_char (drop_bit 2 a1), b64_char (drop_bit 4 a2), b64_char (push_bit 2 a2)])"
  "b64_out (b0 # b1 # b2 # r) a = (let a1 = push_bit 8 a OR ucast b0; a2 = push_bit 8 a1 OR ucast b1; a3 = push_bit 8 a2 OR ucast b2
     in [b64_char (drop_bit 2 a1), b64_char (drop_bit 4 a2), b64_char (drop_bit 6 a3), b64_char a3] @ b64_out r a3)"
  by (simp_all add: b64_out_def b64_emit_eval Let_def split: prod.split)

lemma dec_padding: "b64_dec_loop (replicate n 61) A bits rv = rv"
  by (induction n) simp_all

text \<open>The bits of a byte, put together again from the six-bit codes it was cut into.\<close>

lemma byte_bits: "(\<And>n. n < 8 \<Longrightarrow> bit (x :: byte) n = bit y n) \<Longrightarrow> x = y"
  by (rule bit_word_eqI) simp

lemma bit_code: "bit (ucast (code_of c) :: u32) n \<longleftrightarrow> n < 6 \<and> bit c n"
proof -
  have "code_of c = ucast (take_bit 6 c)" by (simp add: code_of_def take_bit_eq_mask mask_eq_exp_minus_1)
  then show ?thesis by (auto simp: bit_simps)
qed

lemma bit_ff: "bit (ucast (w AND 0xff :: u32) :: byte) n \<longleftrightarrow> n < 8 \<and> bit w n"
proof -
  have "w AND 0xff = take_bit 8 w" by (simp add: take_bit_eq_mask mask_eq_exp_minus_1)
  then show ?thesis by (auto simp: bit_simps)
qed

lemma join_codes:
  fixes A c c' :: u32 and b :: byte
  assumes "k \<le> 4" and "\<And>n. n < 8 \<Longrightarrow> bit b n \<longleftrightarrow> (if n + k < 6 then bit c (n + k) else bit c' (n + k - 6))"
  shows "ucast (drop_bit k (push_bit 6 (push_bit 6 A OR ucast (code_of c')) OR ucast (code_of c)) AND 0xff) = b" (is "?l = b")
proof (rule byte_bits)
  fix n :: nat
  assume "n < 8"
  with assms(1) have "n + k < 32" "n + k - 6 < 6" by simp_all
  then show "bit ?l n = bit b n"
    using assms(2) [OF \<open>n < 8\<close>] \<open>n < 8\<close>
    by (simp only: bit_ff bit_drop_bit_eq bit_or_iff bit_push_bit_iff bit_code o_def add.commute [of k]) (auto split: if_splits)
qed

lemma less_8_cases: "n < 8 \<Longrightarrow> n = 0 \<or> n = 1 \<or> n = 2 \<or> n = 3 \<or> n = 4 \<or> n = 5 \<or> n = 6 \<or> n = (7 :: nat)"
  by linarith

lemma high_bit_byte: "8 \<le> n \<Longrightarrow> \<not> bit (b :: byte) n"
  by (auto dest: bit_imp_le_length)

lemma join_bytes:
  fixes a A a1 a2 a3 :: u32 and b0 b1 b2 :: byte
  assumes "a1 = push_bit 8 a OR ucast b0" and "a2 = push_bit 8 a1 OR ucast b1" and "a3 = push_bit 8 a2 OR ucast b2"
  shows "ucast (drop_bit 4 (push_bit 6 (push_bit 6 A OR ucast (code_of (drop_bit 2 a1))) OR ucast (code_of (drop_bit 4 a2))) AND 0xff) = b0"
    and "ucast (drop_bit 2 (push_bit 6 (push_bit 6 A OR ucast (code_of (drop_bit 4 a2))) OR ucast (code_of (drop_bit 6 a3))) AND 0xff) = b1"
    and "ucast (drop_bit 0 (push_bit 6 (push_bit 6 A OR ucast (code_of (drop_bit 6 a3))) OR ucast (code_of a3)) AND 0xff) = b2"
    and "ucast (drop_bit 4 (push_bit 6 (push_bit 6 A OR ucast (code_of (drop_bit 2 a1))) OR ucast (code_of (push_bit 4 a1))) AND 0xff) = b0"
    and "ucast (drop_bit 2 (push_bit 6 (push_bit 6 A OR ucast (code_of (drop_bit 4 a2))) OR ucast (code_of (push_bit 2 a2))) AND 0xff) = b1"
  by (rule join_codes; (drule less_8_cases)?; (elim disjE)?; simp add: assms bit_simps high_bit_byte)+

lemma dec_step:
  "b64_dec_loop (b64_char a # cs) A 0 rv = b64_dec_loop cs (push_bit 6 A OR ucast (code_of a)) 6 rv"
  "b64_dec_loop (b64_char a # cs) A 6 rv =
     b64_dec_loop cs (push_bit 6 A OR ucast (code_of a)) 4 (rv @ [ucast (drop_bit 4 (push_bit 6 A OR ucast (code_of a)) AND 0xff)])"
  "b64_dec_loop (b64_char a # cs) A 4 rv =
     b64_dec_loop cs (push_bit 6 A OR ucast (code_of a)) 2 (rv @ [ucast (drop_bit 2 (push_bit 6 A OR ucast (code_of a)) AND 0xff)])"
  "b64_dec_loop (b64_char a # cs) A 2 rv =
     b64_dec_loop cs (push_bit 6 A OR ucast (code_of a)) 0 (rv @ [ucast (drop_bit 0 (push_bit 6 A OR ucast (code_of a)) AND 0xff)])"
  by (simp_all add: dec_char Let_def del: b64_dec_loop.simps)

lemma decode_out: "b64_dec_loop (b64_out x a @ replicate n 61) A 0 rv = rv @ x"
proof (induction x arbitrary: a A rv rule: length_induct)
  case (1 x)
  consider "x = []" | b0 where "x = [b0]" | b0 b1 where "x = [b0, b1]" | b0 b1 b2 r where "x = b0 # b1 # b2 # r"
    by (cases x; cases "tl x"; cases "tl (tl x)") auto
  then show ?case
  proof cases
    case (2 b0)
    define a1 where a1: "a1 = push_bit 8 a OR ucast b0"
    show ?thesis
      by (simp only: 2 b64_out_eval Let_def a1 [symmetric] append.simps dec_step join_bytes(4) [OF a1 refl refl] dec_padding append_Nil)
  next
    case (3 b0 b1)
    define a1 a2 where a: "a1 = push_bit 8 a OR ucast b0" "a2 = push_bit 8 a1 OR ucast b1"
    show ?thesis
      by (simp only: 3 b64_out_eval Let_def a [symmetric] append.simps dec_step join_bytes(1,5) [OF a refl] dec_padding append_assoc append_Nil)
  next
    case (4 b0 b1 b2 r)
    define a1 a2 a3 where a: "a1 = push_bit 8 a OR ucast b0" "a2 = push_bit 8 a1 OR ucast b1" "a3 = push_bit 8 a2 OR ucast b2"
    from 1 4 have "b64_dec_loop (b64_out r a @ replicate n 61) A 0 rv = rv @ r" for a A rv by simp
    then show ?thesis
      by (simp only: 4 b64_out_eval Let_def a [symmetric] append.simps dec_step join_bytes(1-3) [OF a] append_assoc append_Nil)
  qed (simp add: b64_out_eval dec_padding)
qed

lemma length_b64_out: "length (b64_out x a) = (4 * length x + 2) div 3"
proof (induction x arbitrary: a rule: length_induct)
  case (1 x)
  consider "x = []" | b0 where "x = [b0]" | b0 b1 where "x = [b0, b1]" | b0 b1 b2 r where "x = b0 # b1 # b2 # r"
    by (cases x; cases "tl x"; cases "tl (tl x)") auto
  then show ?case using 1 by cases (auto simp: b64_out_eval Let_def)
qed

lemma b64_out_nonzero: "0 \<notin> set (b64_out x a)"
proof (induction x arbitrary: a rule: length_induct)
  case (1 x)
  consider "x = []" | b0 where "x = [b0]" | b0 b1 where "x = [b0, b1]" | b0 b1 b2 r where "x = b0 # b1 # b2 # r"
    by (cases x; cases "tl x"; cases "tl (tl x)") auto
  then show ?case
    using 1 b64_char_props(3) by cases (auto simp: b64_out_eval Let_def dest: sym [of 0])
qed

lemma length_assert:
  assumes "2 \<le> n" and "n < 2 ^ 64" and "n - 2 \<le> l" and "l \<le> n"
  shows "(of_nat n - 2 :: u64) \<le> of_nat l"
proof -
  have "(of_nat n - 2 :: u64) = of_nat (n - 2)" using assms(1) by (simp only: of_nat_diff of_nat_numeral)
  moreover have u: "unat (of_nat m :: u64) = m" if "m < 2 ^ 64" for m using that by (simp add: unsigned_of_nat take_bit_nat_eq_self)
  have "unat (of_nat (n - 2) :: u64) = n - 2" "unat (of_nat l :: u64) = l" by (rule u, use assms in linarith)+
  ultimately show ?thesis using assms(3) by (simp only: word_le_nat_alt)
qed

lemma base64_encode_alt:
  "base64_encode x =
     (if length x > (2 ^ 64 - 1) div 4 * 3 then Some []
      else let n = (length x + 2) div 3 * 4; l = length (b64_out x 0)
           in if of_nat l \<ge> (of_nat n - 2 :: u64) \<and> l \<le> n then Some (b64_out x 0 @ replicate (n - l) 61) else None)"
  by (simp only: base64_encode_def b64_out_def Let_def split: prod.split) simp

lemma base64_encode_out:
  assumes "x \<noteq> []" and "length x \<le> (2 ^ 64 - 1) div 4 * 3"
  shows "base64_encode x = Some (b64_out x 0 @ replicate ((length x + 2) div 3 * 4 - (4 * length x + 2) div 3) 61)"
proof -
  let ?n = "(length x + 2) div 3 * 4" and ?l = "(4 * length x + 2) div 3"
  have pos: "0 < length x" using assms(1) by simp
  from assms(2) have "length x \<le> 13835058055282163709" by simp
  then have "?n < 18446744073709551616" by linarith
  then have lt: "?n < 2 ^ 64" by simp
  from pos have le: "?n - 2 \<le> ?l" "?l \<le> ?n" "2 \<le> ?n" by linarith+
  have "\<not> length x > (2 ^ 64 - 1) div 4 * 3" using assms(2) by simp
  with length_assert [OF le(3) lt le(1,2)] le(2) show ?thesis
    unfolding base64_encode_alt Let_def length_b64_out by simp
qed

text \<open>Decoding returns what was encoded, and the text has no zero byte, so that a C string holds it. The empty string is no input: its encoding fails an \<open>assert\<close>.\<close>

lemma base64_roundtrip:
  assumes "x \<noteq> []" and "length x \<le> (2 ^ 64 - 1) div 4 * 3"
  shows "\<exists>t. base64_encode x = Some t \<and> base64_decode t = x \<and> 0 \<notin> set t \<and> length t = (length x + 2) div 3 * 4"
proof -
  have "(4 * length x + 2) div 3 \<le> (length x + 2) div 3 * 4" by simp
  with base64_encode_out [OF assms] decode_out [of x 0 _ 0 "[]"] b64_out_nonzero [of x 0] length_b64_out [of x 0] show ?thesis
    by (auto simp: base64_decode_def)
qed

lemma base64_encode_empty: "base64_encode [] = None"
  by (simp add: base64_encode_def)

section \<open>Decryption inverts encryption\<close>

lemma aes_blocks_Suc: "aes_blocks f d (Suc n) = f (take 16 d) @ aes_blocks f (drop 16 d) n"
proof -
  have "[0..<Suc n] = 0 # map Suc [0..<n]" by (simp add: upt_conv_Cons map_Suc_upt del: upt_Suc)
  then show ?thesis by (simp add: aes_blocks_def o_def add.commute del: upt_Suc)
qed

definition block_cipher :: "(bytes \<Rightarrow> bytes) \<Rightarrow> (bytes \<Rightarrow> bytes) \<Rightarrow> bool" where
  "block_cipher enc dec \<longleftrightarrow> (\<forall>b. length b = 16 \<longrightarrow> length (enc b) = 16 \<and> dec (enc b) = b)"

lemma aes_blocks_inverse:
  assumes "block_cipher enc dec"
  shows "length d = 16 * n \<Longrightarrow> length (aes_blocks enc d n) = 16 * n \<and> aes_blocks dec (aes_blocks enc d n) n = d"
proof (induction n arbitrary: d)
  case (Suc n)
  have "length (enc (take 16 d)) = 16" "dec (enc (take 16 d)) = take 16 d" using assms Suc.prems by (simp_all add: block_cipher_def)
  with Suc.IH [of "drop 16 d"] Suc.prems show ?case by (simp add: aes_blocks_Suc)
qed (simp add: aes_blocks_def)

text \<open>The arithmetic of \<open>Encrypt\<close>: the blocks hold the text and, in their last four bytes, its length.\<close>

lemma block_bounds:
  fixes n :: nat
  assumes "0 < n"
  shows "n + 4 \<le> 16 * ((n + 15) div 16 + (if n mod 16 > 12 \<or> n mod 16 = 0 then 1 else 0))" (is "_ \<le> 16 * ?k")
    and "16 * ((n + 15) div 16 + (if n mod 16 > 12 \<or> n mod 16 = 0 then 1 else 0)) \<le> n + 31"
proof -
  define d r where "d = n div 16" "r = n mod 16"
  then have n: "n = 16 * d + r" "r < 16" by simp_all
  have "(n + 15) div 16 = d + (r + 15) div 16" using n(1) by simp
  also have "(r + 15) div 16 = (if r = 0 then 0 else 1)" using n(2) by (auto intro: div_nat_eqI)
  finally have k: "?k = d + (if r = 0 then 0 else 1) + (if r > 12 \<or> r = 0 then 1 else 0)" by (simp only: d_r_def)
  show "n + 4 \<le> 16 * ?k" "16 * ?k \<le> n + 31" unfolding k using n by (auto simp: n(1))
qed

lemma encrypt_blocks:
  fixes n :: u32
  defines "k \<equiv> (n + 15) div 16 + (if n mod 16 > 12 \<or> n mod 16 = 0 then 1 else 0)"
  assumes "n \<noteq> 0" and "unat n < 2 ^ 32 - 32"
  shows "unat (k * 16) = 16 * unat k" "unat n + 4 \<le> 16 * unat k" "unat (k * 16 - 4) = 16 * unat k - 4" "0 < unat k" "16 * unat k < 2 ^ 32"
    "16 * unat k \<le> unat n + 31"
proof -
  have pos: "0 < unat n" using assms(2) by (simp add: unat_gt_0)
  have n15: "unat (n + 15) = unat n + 15" using assms(3) by (simp add: unat_word_ariths)
  have u: "unat k = (unat n + 15) div 16 + (if unat n mod 16 > 12 \<or> unat n mod 16 = 0 then 1 else 0)"
  proof -
    have c: "n mod 16 > 12 \<or> n mod 16 = 0 \<longleftrightarrow> unat n mod 16 > 12 \<or> unat n mod 16 = 0"
      by (simp add: word_less_nat_alt unat_mod word_unat_eq_iff)
    have "unat ((n + 15) div 16) = (unat n + 15) div 16" by (simp add: unat_div n15)
    with assms(3) show ?thesis unfolding k_def c by (auto simp: unat_word_ariths)
  qed
  have b: "unat n + 4 \<le> 16 * unat k" "16 * unat k \<le> unat n + 31" unfolding u by (rule block_bounds [OF pos])+
  then show m: "unat (k * 16) = 16 * unat k" "unat n + 4 \<le> 16 * unat k" "0 < unat k" "16 * unat k < 2 ^ 32"
    "16 * unat k \<le> unat n + 31"
    using assms(3) by (auto simp: unat_word_ariths)
  have "(4 :: u32) \<le> k * 16" using b m(1) by (simp add: word_le_nat_alt)
  then show "unat (k * 16 - 4) = 16 * unat k - 4" using m(1) by (simp add: unat_sub)
qed

definition padded :: "bytes \<Rightarrow> nat \<Rightarrow> bytes" where
  "padded x k = x @ replicate (16 * k - 4 - length x) 0 @ put_u32 (of_nat (length x))"

lemma encrypt_text:
  assumes "x \<noteq> []" and "length x < 2 ^ 32 - 32"
  shows "\<exists>k. 0 < k \<and> length x + 4 \<le> 16 * k \<and> 16 * k < 2 ^ 32 \<and> 16 * k \<le> length x + 31 \<and>
    CAes_Encrypt enc x = map_option AesData (base64_encode (aes_blocks enc (padded x k) k))"
proof -
  let ?n = "of_nat (length x) :: u32"
  let ?k = "(?n + 15) div 16 + (if ?n mod 16 > 12 \<or> ?n mod 16 = 0 then 1 else 0)"
  have n: "unat ?n = length x" using assms(2) by (intro unat_of_nat_lt) simp
  then have nz: "?n \<noteq> 0" using assms(1) by (metis length_0_conv unat_0)
  note b = encrypt_blocks [OF nz, unfolded n, OF assms(2)]
  have "mem_write (replicate (16 * unat ?k) 0) 0 x = Some (x @ replicate (16 * unat ?k - length x) 0)"
    using b(2) by (simp add: mem_write_def)
  moreover have "mem_write (x @ replicate (16 * unat ?k - length x) 0) (16 * unat ?k - 4) (put_u32 ?n) = Some (padded x (unat ?k))"
    using b(2) by (simp add: mem_write_def padded_def c32.enc_length min_def)
  ultimately have "CAes_Encrypt enc x = map_option AesData (base64_encode (aes_blocks enc (padded x (unat ?k)) (unat ?k)))"
    unfolding CAes_Encrypt_def Let_def using nz b(1,3) n by (simp add: map_conv_bind_option o_def)
  with b show ?thesis by blast
qed

lemma aes_inverse:
  assumes "block_cipher enc dec" and "x \<noteq> []" and "length x < 2 ^ 31"
  shows "\<exists>t. CAes_Encrypt enc x = Some (AesData t) \<and> CAes_Decrypt dec t = Some (AesData x) \<and> 0 \<notin> set t \<and> t \<noteq> [] \<and> length t \<le> 2 * length x + 100"
proof -
  have lt: "length x < 2 ^ 32 - 32" using assms(3) by simp
  from encrypt_text [OF assms(2) lt, of enc] obtain k where k: "0 < k" "length x + 4 \<le> 16 * k" "16 * k < 2 ^ 32" "16 * k \<le> length x + 31"
    and enc: "CAes_Encrypt enc x = map_option AesData (base64_encode (aes_blocks enc (padded x k) k))" by blast
  have "length (padded x k) = 16 * k" using k(2) by (simp add: padded_def c32.enc_length)
  note blocks = aes_blocks_inverse [OF assms(1) this]
  let ?e = "aes_blocks enc (padded x k) k"
  have e: "?e \<noteq> []" "length ?e \<le> (2 ^ 64 - 1) div 4 * 3" using blocks k by (auto simp flip: length_greater_0_conv)
  from base64_encode_out [OF e] decode_out [of ?e 0 _ 0 "[]"] b64_out_nonzero [of ?e 0] length_b64_out [of ?e 0] k(1) blocks
  obtain t where t: "base64_encode ?e = Some t" "base64_decode t = ?e" "0 \<notin> set t" and lt: "length t = (length ?e + 2) div 3 * 4"
    by (auto simp: base64_decode_def)
  let ?l = "of_nat (16 * k) :: u32"
  have l: "unat ?l = 16 * k" using k(3) by (intro unat_of_nat_lt) simp
  have nz: "?l \<noteq> 0" "(16 :: u32) * (?l div 16) = ?l" "?l mod 16 = 0" "unat (?l div 16) = k" "unat (?l - 4) = 16 * k - 4"
    using l k by (auto simp: word_unat_eq_iff unat_div unat_mod unat_word_ariths unat_sub word_le_nat_alt)
  have "length t < 2 ^ 32" "0 < length t" "length t \<le> 2 * length x + 100" using lt blocks k assms(3) by auto
  then have tl: "unat (of_nat (length t) :: u32) = length t" "(of_nat (length t) :: u32) \<noteq> 0"
    by (auto simp: unat_of_nat_lt word_unat_eq_iff)
  have "mem_read (padded x k) (16 * k - 4) 4 = Some (put_u32 (of_nat (length x)))"
    using k(2) by (simp add: mem_read_def padded_def c32.enc_length)
  moreover have "unat (of_nat (length x) :: u32) = length x" "\<not> (of_nat (length x) :: u32) > ?l"
    using lt l k(2) assms(3) by (simp_all add: word_less_nat_alt unat_of_nat_lt)
  ultimately have "CAes_Decrypt dec t = Some (AesData x)"
    unfolding CAes_Decrypt_def Let_def using t(2) tl nz blocks by (simp add: c32.dec_enc padded_def)
  with enc t \<open>0 < length t\<close> \<open>length t \<le> 2 * length x + 100\<close> show ?thesis by auto
qed

text \<open>
  Decryption returns what was encrypted, for every text of one to \<open>2\<^sup>31 - 1\<close> bytes, and the encrypted text has no zero
  byte. About the cipher this needs only that decrypting a block inverts encrypting it.
\<close>

lemma aes_simple_roundtrip:
  assumes "block_cipher enc dec" and "x \<noteq> []" and "length x < 2 ^ 31"
  shows "\<exists>t. CAes_Encrypt enc x = Some (AesData t) \<and> CAes_Decrypt dec t = Some (AesData x) \<and> 0 \<notin> set t"
  using aes_inverse [OF assms] by blast

end
