(* ===== verification/Account_Store.thy ===== *)
theory Account_Store
  imports Config_Store Bip39 Aes_Simple Ptp_Helpers
begin

text \<open>
  The accounts of the client library, \<^verbatim>\<open>src/ptp_net/AccountManager.cpp\<close>: the entropy of an account's recovery phrase is kept
  as hexadecimal text, encrypted, in a file of \<open>Config\<close>; it is read at the first use after a start, and made and saved when
  there is no file. Also \<open>hex_to_bytes\<close> and \<open>bytes_to_hex\<close> of \<^verbatim>\<open>src/ptp_toolbox/data/utils.cpp\<close> and \<open>entropyHexToMnemonic\<close> of
  \<^verbatim>\<open>src/ptp_wallet/MnemonicHelper.cpp\<close>.

  Arguments are, in \<open>account_env\<close>, the English word list, MD5 and AES of OpenSSL, and the derivation of an address from a
  phrase (\<^verbatim>\<open>HDKey.cpp\<close>); in \<open>account_io\<close>, what the system answers during one call: the results of the file operations, the
  contents of fresh and of uninitialised memory, the random bytes, and whether the address file can be opened. Paths are
  those of the build for Linux. \<open>None\<close> is undefined behaviour, or a recursion deeper than the list of answers is long.
\<close>

section \<open>Hexadecimal text\<close>

definition bytes_to_hex :: "bytes \<Rightarrow> bytes" where
  "bytes_to_hex d = [48, 120] @ concat (map hex2 d)"

definition hex_value :: "byte \<Rightarrow> nat option" where
  "hex_value c =
     (if 48 \<le> c \<and> c \<le> 57 then Some (unat c - 48)
      else if 97 \<le> c \<and> c \<le> 102 then Some (unat c - 87)
      else if 65 \<le> c \<and> c \<le> 70 then Some (unat c - 55) else None)"

text \<open>\<open>strtol\<close> to the base 16, of at most two characters: white space, a sign, digits. A prefix \<open>0x\<close> has no digit after it and counts as 0.\<close>

definition strtol16 :: "bytes \<Rightarrow> int" where
  "strtol16 s =
     (let s1 = dropWhile isspace s;
          neg = (s1 \<noteq> [] \<and> hd s1 = 45);
          s2 = (if s1 \<noteq> [] \<and> (hd s1 = 45 \<or> hd s1 = 43) then tl s1 else s1);
          v = foldl (\<lambda>n c. 16 * n + int (the (hex_value c))) 0 (takeWhile (\<lambda>c. hex_value c \<noteq> None) s2)
      in if neg then - v else v)"

fun hex_to_bytes :: "bytes \<Rightarrow> bytes" where
  "hex_to_bytes [] = []"
| "hex_to_bytes [a] = [of_int (strtol16 (takeWhile (\<lambda>c. c \<noteq> 0) [a]))]"
| "hex_to_bytes (a # b # r) = of_int (strtol16 (takeWhile (\<lambda>c. c \<noteq> 0) [a, b])) # hex_to_bytes r"

definition entropyHexToMnemonic :: "words \<Rightarrow> bytes \<Rightarrow> mnemonic_result option" where
  "entropyHexToMnemonic w entropyHex = do {
     let entropyBytes = hex_to_bytes (takeWhile (\<lambda>c. c \<noteq> 0) entropyHex);
     d \<leftarrow> mem_read entropyBytes 0 16;
     entropyToMnemonic w d }"

section \<open>State\<close>

record account_env =
  ae_words :: words
  ae_md5 :: "bytes \<Rightarrow> bytes"
  ae_aes_enc :: "bytes \<Rightarrow> bytes \<Rightarrow> bytes"
  ae_aes_dec :: "bytes \<Rightarrow> bytes \<Rightarrow> bytes"
  ae_address :: "bytes \<Rightarrow> bytes option"

record account_io =
  ai_io :: io
  ai_garb :: "nat \<Rightarrow> byte"
  ai_stack :: bytes
  ai_random :: bytes
  ai_open :: bool

record account =
  m_accountId :: u32
  m_entropy :: bytes
  m_address :: bytes

record store =
  st_fs :: file_system
  st_pool :: buffers_storage
  st_path :: bytes

definition AccountManager :: "u32 \<Rightarrow> account" where
  "AccountManager accountId = \<lparr>m_accountId = accountId, m_entropy = [], m_address = []\<rparr>"

definition text_bytes :: "string \<Rightarrow> bytes" where
  "text_bytes s = map (\<lambda>c. of_nat (of_char c)) s"

definition as_path :: "bytes \<Rightarrow> string" where
  "as_path b = map (\<lambda>c. char_of (unat c)) b"

section \<open>Names and keys\<close>

definition getConfigPath :: "bytes \<Rightarrow> bytes" where
  "getConfigPath p = (if p \<noteq> [] \<and> last p \<noteq> 47 then p @ [47] else p)"

definition getAccountAddressFile :: "bytes \<Rightarrow> bytes \<Rightarrow> bytes" where
  "getAccountAddressFile p address = getConfigPath p @ address @ text_bytes ''.dat''"

definition MD5_Calculate :: "(bytes \<Rightarrow> bytes) \<Rightarrow> bytes \<Rightarrow> bytes option" where
  "MD5_Calculate md5 d = bytes_to_hex_string (md5 d) 16"

definition getEncryptEntropyKey :: "account_env \<Rightarrow> u32 \<Rightarrow> bytes \<Rightarrow> bytes option" where
  "getEncryptEntropyKey e accountId address = MD5_Calculate (ae_md5 e) (int2string accountId @ address)"

definition getEntropyStorePathName :: "account_env \<Rightarrow> u32 \<Rightarrow> bytes option" where
  "getEntropyStorePathName e accountId = do {
     h \<leftarrow> MD5_Calculate (ae_md5 e) (text_bytes ''account_'' @ int2string accountId);
     Some (text_bytes ''account_'' @ h @ text_bytes ''.dat'') }"

text \<open>The key schedules read 32 bytes of the key. After a failed encryption the pointer to the text is uninitialised, and used.\<close>

definition encryptDataUseAecSimple :: "account_env \<Rightarrow> bytes \<Rightarrow> bytes \<Rightarrow> bytes option" where
  "encryptDataUseAecSimple e plainData key = do {
     k \<leftarrow> mem_read (key @ [0]) 0 32;
     r \<leftarrow> CAes_Encrypt (ae_aes_enc e k) plainData;
     (case r of AesData t \<Rightarrow> Some t | AesFailed _ \<Rightarrow> None) }"

definition decryptDataUseAecSimple :: "account_env \<Rightarrow> bytes \<Rightarrow> bytes \<Rightarrow> bytes option" where
  "decryptDataUseAecSimple e cipherData key = do {
     k \<leftarrow> mem_read (key @ [0]) 0 32;
     r \<leftarrow> CAes_Decrypt (ae_aes_dec e k) cipherData;
     Some (case r of AesData t \<Rightarrow> t | AesFailed _ \<Rightarrow> []) }"

section \<open>Operations\<close>

definition open_config :: "account_env \<Rightarrow> account_io \<Rightarrow> u32 \<Rightarrow> store \<Rightarrow> (config \<times> store) option" where
  "open_config e i accountId s = do {
     name \<leftarrow> getEntropyStorePathName e accountId;
     let path = getConfigPath (st_path s);
     let (c, fs) = Config (ai_io i) 0 (as_path (path @ name)) (st_fs s);
     Some (c, s\<lparr>st_fs := fs, st_path := path\<rparr>) }"

text \<open>The part that \<open>setWords\<close> and \<open>upsertEntropy\<close> have in common: encrypt the text, size and fill a buffer, write the file.\<close>

definition save_entropy :: "account_env \<Rightarrow> account_io \<Rightarrow> u32 \<Rightarrow> bytes \<Rightarrow> config \<Rightarrow> store \<Rightarrow> store option" where
  "save_entropy e i accountId entropy c s = do {
     key \<leftarrow> getEncryptEntropyKey e accountId (int2string accountId);
     cipherData \<leftarrow> encryptDataUseAecSimple e entropy key;
     (_, sizeCalculator) \<leftarrow> nb_writeString cipherData (nb_clearCapacity (NativeByteBuffer_calc True));
     (p, pool) \<leftarrow> getFreeBuffer (ai_garb i) (nb_capacity sizeCalculator) (st_pool s);
     b \<leftarrow> bst_heap pool p;
     (_, buffer1) \<leftarrow> nb_writeString (takeWhile (\<lambda>c. c \<noteq> 0) cipherData) b;
     (tr, fs) \<leftarrow> writeConfig (ai_io i) c buffer1 (st_fs s);
     pool1 \<leftarrow> nb_reuse p (pool\<lparr>bst_heap := (bst_heap pool)(p \<mapsto> buffer1)\<rparr>);
     Some (s\<lparr>st_fs := fs, st_pool := pool1\<rparr>) }"

definition save_address :: "account_io \<Rightarrow> bytes \<Rightarrow> store \<Rightarrow> store" where
  "save_address i address s =
     (let path = getConfigPath (st_path s)
      in s\<lparr>st_path := path,
           st_fs := (if ai_open i then (st_fs s)(as_path (getAccountAddressFile path address) \<mapsto> put_le32 1) else st_fs s)\<rparr>)"

text \<open>\<open>getAccountAddress\<close>, with \<open>upsertEntropy\<close> as an argument; the entropy it uses is the one from before that call.\<close>

definition address_with ::
  "account_env \<Rightarrow> (account \<Rightarrow> store \<Rightarrow> (account \<times> store) option) \<Rightarrow> account \<Rightarrow> store \<Rightarrow> (bytes \<times> account \<times> store) option" where
  "address_with e upsert a s =
     (if m_address a \<noteq> [] then Some (m_address a, a, s)
      else do {
        let entropy = m_entropy a;
        (a1, s1) \<leftarrow> (if entropy = [] then upsert a s else Some (a, s));
        if m_address a1 \<noteq> [] then Some (m_address a1, a1, s1)
        else do {
          r \<leftarrow> entropyHexToMnemonic (ae_words e) entropy;
          address \<leftarrow> ae_address e (mr_raw r);
          Some (address, a1\<lparr>m_address := address\<rparr>, s1) } })"

fun upsertEntropy :: "account_env \<Rightarrow> account_io list \<Rightarrow> account \<Rightarrow> store \<Rightarrow> (account \<times> store) option" where
  "upsertEntropy e [] a s = (if m_entropy a \<noteq> [] then Some (a, s) else None)"
| "upsertEntropy e (i # is) a s =
     (if m_entropy a \<noteq> [] then Some (a, s)
      else do {
        (c, s1) \<leftarrow> open_config e i (m_accountId a) s;
        (buffer, pool) \<leftarrow> readConfig (ai_garb i) (ai_io i) c (st_fs s1) (st_pool s1);
        let s2 = s1\<lparr>st_pool := pool\<rparr>;
        (case buffer of
           Some p \<Rightarrow> do {
             b \<leftarrow> bst_heap pool p;
             (cipherData, err, b1) \<leftarrow> nb_readString b;
             key \<leftarrow> getEncryptEntropyKey e (m_accountId a) (int2string (m_accountId a));
             entropy \<leftarrow> decryptDataUseAecSimple e cipherData key;
             (address, a2, s3) \<leftarrow> address_with e (\<lambda>a s. upsertEntropy e is a s) (a\<lparr>m_entropy := entropy\<rparr>)
               (s2\<lparr>st_pool := pool\<lparr>bst_heap := (bst_heap pool)(p \<mapsto> b1)\<rparr>\<rparr>);
             Some (a2\<lparr>m_address := address\<rparr>, s3) }
         | None \<Rightarrow> do {
             mnemonic \<leftarrow> generate (ae_words e) (ai_random i);
             (_, entropyBytes) \<leftarrow> mnemonicWordsToEntropy (ae_words e) (mr_raw mnemonic) (ai_stack i);
             let entropy = bytes_to_hex entropyBytes;
             s3 \<leftarrow> save_entropy e i (m_accountId a) entropy c s2;
             (address, a2, s4) \<leftarrow> address_with e (\<lambda>a s. upsertEntropy e is a s) (a\<lparr>m_entropy := entropy\<rparr>) s3;
             Some (a2\<lparr>m_address := address\<rparr>, save_address i address s4) }) })"

definition getAccountAddress :: "account_env \<Rightarrow> account_io list \<Rightarrow> account \<Rightarrow> store \<Rightarrow> (bytes \<times> account \<times> store) option" where
  "getAccountAddress e is a s = address_with e (upsertEntropy e is) a s"

definition getWords :: "account_env \<Rightarrow> account_io list \<Rightarrow> account \<Rightarrow> store \<Rightarrow> (bytes \<times> account \<times> store) option" where
  "getWords e is a s = do {
     (a1, s1) \<leftarrow> upsertEntropy e is a s;
     mnemonicResult \<leftarrow> entropyHexToMnemonic (ae_words e) (m_entropy a1);
     Some (mr_raw mnemonicResult, a1, s1) }"

definition genWords :: "account_env \<Rightarrow> bytes \<Rightarrow> bytes option" where
  "genWords e random = map_option mr_raw (generate (ae_words e) random)"

definition acct_validateWords :: "account_env \<Rightarrow> bytes \<Rightarrow> bool option" where
  "acct_validateWords e ws = validateWords (ae_words e) ws"

definition getAddressByEntropy :: "account_env \<Rightarrow> bytes \<Rightarrow> bytes option" where
  "getAddressByEntropy e entropy = do { r \<leftarrow> entropyHexToMnemonic (ae_words e) entropy; ae_address e (mr_raw r) }"

definition getAddressByWords :: "account_env \<Rightarrow> account_io \<Rightarrow> bytes \<Rightarrow> bytes option" where
  "getAddressByWords e i ws = do {
     (_, entropyBytes) \<leftarrow> mnemonicWordsToEntropy (ae_words e) ws (ai_stack i);
     r \<leftarrow> entropyHexToMnemonic (ae_words e) (bytes_to_hex entropyBytes);
     ae_address e (mr_raw r) }"

definition isAddressExists :: "store \<Rightarrow> bytes \<Rightarrow> bool" where
  "isAddressExists s address \<longleftrightarrow> st_fs s (as_path (getAccountAddressFile (st_path s) address)) \<noteq> None"

definition setWords :: "account_env \<Rightarrow> account_io \<Rightarrow> account_io list \<Rightarrow> bytes \<Rightarrow> account \<Rightarrow> store \<Rightarrow> (bool \<times> account \<times> store) option" where
  "setWords e i is ws a s = do {
     (c, s1) \<leftarrow> open_config e i (m_accountId a) s;
     (_, entropyBytes) \<leftarrow> mnemonicWordsToEntropy (ae_words e) ws (ai_stack i);
     let entropy = bytes_to_hex entropyBytes;
     s2 \<leftarrow> save_entropy e i (m_accountId a) entropy c s1;
     (address, a1, s3) \<leftarrow> getAccountAddress e is (a\<lparr>m_entropy := entropy\<rparr>) s2;
     Some (True, a1, save_address i address s3) }"

section \<open>Hexadecimal text read back\<close>

lemma lut_hex:
  assumes "n < 16"
  shows "hex_value (lut ! n) = Some n" "\<not> isspace (lut ! n)" "lut ! n \<noteq> 0" "lut ! n \<noteq> 45" "lut ! n \<noteq> 43"
proof -
  have "list_all (\<lambda>n. hex_value (lut ! n) = Some n \<and> \<not> isspace (lut ! n) \<and> lut ! n \<noteq> 0 \<and> lut ! n \<noteq> 45 \<and> lut ! n \<noteq> 43) [0..<16]"
    by code_simp
  with assms show "hex_value (lut ! n) = Some n" "\<not> isspace (lut ! n)" "lut ! n \<noteq> 0" "lut ! n \<noteq> 45" "lut ! n \<noteq> 43"
    by (auto simp: list_all_iff)
qed

lemma nibbles: "unat (b :: byte) div 16 < 16" "unat b mod 16 < 16"
  using unat_byte [of b] by auto

lemma strtol16_hex2: "of_int (strtol16 (takeWhile (\<lambda>c. c \<noteq> 0) (hex2 b))) = b"
proof -
  note d = nibbles [of b]
  have "16 * int (unat b div 16) + int (unat b mod 16) = int (unat b)" by (metis div_mult_mod_eq mult.commute of_nat_add of_nat_mult of_nat_numeral)
  with lut_hex [OF d(1)] lut_hex [OF d(2)] have "strtol16 (takeWhile (\<lambda>c. c \<noteq> 0) (hex2 b)) = int (unat b)"
    by (simp add: strtol16_def hex2_def)
  then show ?thesis by simp
qed

lemma hex_to_bytes_hex: "hex_to_bytes (concat (map hex2 d)) = d"
  using strtol16_hex2 by (induction d) (simp_all add: hex2_def del: takeWhile.simps)

lemma hex_nonzero: "0 \<notin> set (bytes_to_hex d)"
proof -
  have "0 \<notin> set (hex2 b)" for b
    using lut_hex(3) [OF nibbles(1), of b] lut_hex(3) [OF nibbles(2), of b] by (auto simp: hex2_def)
  then show ?thesis by (auto simp: bytes_to_hex_def)
qed

lemma hex_to_bytes_prefixed: "hex_to_bytes (bytes_to_hex d) = 0 # d"
  using hex_to_bytes_hex [of d] by (simp add: bytes_to_hex_def strtol16_def isspace_def hex_value_def)

lemma entropyHex_shifted:
  assumes "length d = 16"
  shows "entropyHexToMnemonic w (bytes_to_hex d) = entropyToMnemonic w (0 # take 15 d)"
proof -
  have "takeWhile (\<lambda>c. c \<noteq> 0) (bytes_to_hex d) = bytes_to_hex d"
    using hex_nonzero [of d] unfolding takeWhile_eq_all_conv by metis
  moreover have "mem_read (0 # d) 0 16 = Some (0 # take 15 d)" using assms by (simp add: mem_read_def)
  ultimately show ?thesis by (simp only: entropyHexToMnemonic_def Let_def hex_to_bytes_prefixed bind.bind_lunit)
qed

section \<open>Saving and loading\<close>

definition env_good :: "account_env \<Rightarrow> bool" where
  "env_good e \<longleftrightarrow> word_list_ok (ae_words e) \<and> (\<forall>x. length (ae_md5 e x) = 16) \<and>
     (\<forall>k. block_cipher (ae_aes_enc e k) (ae_aes_dec e k)) \<and> (\<forall>x. \<exists>y. ae_address e x = Some (48 # y))"

definition account_key :: "account_env \<Rightarrow> u32 \<Rightarrow> bytes" where
  "account_key e n = the (getEncryptEntropyKey e n (int2string n))"

definition file_image :: "bytes \<Rightarrow> bytes" where
  "file_image t = put_le32 (of_nat (length (tl_encode t))) @ tl_encode t"

lemma MD5_ok: "env_good e \<Longrightarrow> MD5_Calculate (ae_md5 e) x = Some (bytes_to_hex (ae_md5 e x))"
  by (simp add: env_good_def MD5_Calculate_def bytes_to_hex_string_def mem_read_def bytes_to_hex_def)

lemma length_bytes_to_hex: "length (bytes_to_hex d) = 2 + 2 * length d"
  by (simp add: bytes_to_hex_def hex2_def length_concat o_def sum_list_triv)

lemma key_ok:
  assumes "env_good e"
  shows "getEncryptEntropyKey e n (int2string n) = Some (account_key e n)" "mem_read (account_key e n @ [0]) 0 32 = Some (take 32 (account_key e n))"
proof -
  show k: "getEncryptEntropyKey e n (int2string n) = Some (account_key e n)"
    using MD5_ok [OF assms] by (simp add: account_key_def getEncryptEntropyKey_def)
  with MD5_ok [OF assms] have "account_key e n = bytes_to_hex (ae_md5 e (int2string n @ int2string n))"
    by (simp add: getEncryptEntropyKey_def)
  with assms have "length (account_key e n) = 34" by (simp add: length_bytes_to_hex env_good_def)
  then show "mem_read (account_key e n @ [0]) 0 32 = Some (take 32 (account_key e n))" by (simp add: mem_read_def)
qed

lemma class_capacity_small: "class_capacity k \<le> 160000"
  by (cases k) simp_all

lemma getFreeBuffer_capacity:
  assumes "bst_wf ow s" and "getFreeBuffer garb sz s = Some (p, s')" and "bst_heap s' p = Some b" and "unat sz < 2147483648"
  shows "unat (nb_capacity b) < 2147483648"
proof -
  obtain s1 b0 where o: "bst_obtain garb sz s = (p, s1)" "bst_heap s1 p = Some b0" "nb_capacity b = nb_capacity b0"
    using assms(2,3) by (auto simp: getFreeBuffer_def Let_def nb_rewind_def nb_set_limit_def bind_eq_Some_conv split: prod.splits)
  show ?thesis
  proof (cases "class_for_size sz")
    case None
    with o assms(4) show ?thesis by (auto simp: bst_obtain_def bst_new_def NativeByteBuffer_size_def)
  next
    case (Some kn)
    obtain k n where kn: "kn = (k, n)" by (cases kn)
    note c = class_for_size_spec [OF Some [unfolded kn]]
    show ?thesis
    proof (cases "bst_free s k")
      case Nil
      with o Some kn c class_capacity_small [of k] show ?thesis by (auto simp: bst_obtain_def bst_new_def NativeByteBuffer_size_def)
    next
      case (Cons q qs)
      with o Some kn have p: "q = p" "bst_heap s p = Some b0" by (auto simp: bst_obtain_def)
      with Cons have "p \<in> set (bst_free s k)" by simp
      from bst_wf_free [OF assms(1) this] p(2) have "unat (nb_capacity b0) = class_capacity k" by (metis option.inject)
      with o(3) class_capacity_small [of k] show ?thesis by simp
    qed
  qed
qed

lemma encrypt_ok:
  assumes "env_good e" and "x \<noteq> []" and "length x < 2 ^ 20"
  shows "\<exists>t. encryptDataUseAecSimple e x (account_key e n) = Some t \<and> decryptDataUseAecSimple e t (account_key e n) = Some x \<and>
    0 \<notin> set t \<and> length t < 2 ^ 22"
proof -
  have "block_cipher (ae_aes_enc e k) (ae_aes_dec e k)" for k using assms(1) by (simp add: env_good_def)
  from aes_inverse [OF this [of "take 32 (account_key e n)"] assms(2)] assms(3) obtain t where
    t: "CAes_Encrypt (ae_aes_enc e (take 32 (account_key e n))) x = Some (AesData t)"
      "CAes_Decrypt (ae_aes_dec e (take 32 (account_key e n))) t = Some (AesData x)" "0 \<notin> set t" "length t \<le> 2 * length x + 100" by auto
  with key_ok(2) [OF assms(1), of n] assms(3) show ?thesis
    by (auto simp: encryptDataUseAecSimple_def decryptDataUseAecSimple_def)
qed

lemma tl_encode_small: "length t < 2 ^ 22 \<Longrightarrow> 0 < length (tl_encode t) \<and> length (tl_encode t) < 2 ^ 23"
  by (auto simp: length_tl_encode tl_pad_def)

lemma save_entropy_ok:
  assumes e: "env_good e" and x: "x \<noteq> []" "length x < 2 ^ 20" and c: "config_ok c" "io_good (ai_io i)"
    and fs: "st_fs s (backupPath c) = None" and wf: "bst_wf ow (st_pool s)"
  shows "\<exists>t pool. save_entropy e i n x c s =
      Some (s\<lparr>st_fs := (st_fs s)(configPath c \<mapsto> file_image t), st_pool := pool\<rparr>) \<and> bst_wf ow pool \<and>
      decryptDataUseAecSimple e t (account_key e n) = Some x \<and> length t < 2 ^ 22"
proof -
  from encrypt_ok [OF e x, of n] obtain t where t: "encryptDataUseAecSimple e x (account_key e n) = Some t"
    "decryptDataUseAecSimple e t (account_key e n) = Some x" "0 \<notin> set t" "length t < 2 ^ 22" by blast
  note k = key_ok(1) [OF e, of n]
  let ?l = "of_nat (length (tl_encode t)) :: u32"
  have l: "unat ?l = length (tl_encode t)" using tl_encode_small [OF t(4)] by (intro unat_of_nat_lt) simp
  have cs: "takeWhile (\<lambda>c. c \<noteq> 0) t = t" using t(3) unfolding takeWhile_eq_all_conv by metis
  have calc: "nb_writeString t (nb_clearCapacity (NativeByteBuffer_calc True)) =
      Some (False, (NativeByteBuffer_calc True)\<lparr>nb_capacity := ?l\<rparr>)"
    using nb_writeString_calc [of "nb_clearCapacity (NativeByteBuffer_calc True)" t] t(4)
    by (simp add: NativeByteBuffer_calc_def nb_clearCapacity_def)
  from getFreeBuffer_spec [OF wf, of "ai_garb i" ?l] obtain p pool b where
    b: "getFreeBuffer (ai_garb i) ?l (st_pool s) = Some (p, pool)" "p \<notin> ow" "bst_wf (insert p ow) pool" "bst_heap pool p = Some b"
      "pool_buffer b" "?l \<le> nb_capacity b" "nb_limit b = ?l" "nb_position b = 0" by blast
  have "unat (nb_capacity b) < 2147483648"
    using getFreeBuffer_capacity [OF wf b(1,4)] l tl_encode_small [OF t(4)] by simp
  with b have wb: "nb_wf b" by (intro buffer_for_wf [of ?l]) (simp_all add: buffer_for_def)
  have room: "unat (nb_position b) + length (tl_encode t) \<le> unat (nb_limit b)" using b(7,8) l by simp
  from str.write_then_read [OF wb _ room] t(4) obtain b1 where b1: "nb_writeString t b = Some (False, b1)" "nb_wf b1"
      "unat (nb_position b1) = unat (nb_position b) + length (tl_encode t)" "nb_position b1 = nb_position b + ?l"
      "take (unat (nb_position b1)) (nb_buffer b1) = take (unat (nb_position b)) (nb_buffer b) @ tl_encode t" by auto
  have st: "nb_store (tl_encode t) b = Some b1" using nb_writeString_store [OF wb _ room] t(4) b1(1) by (cases "nb_store (tl_encode t) b") auto
  then have pb: "pool_buffer b1 \<and> nb_capacity b1 = nb_capacity b"
    using b(5) by (auto simp: nb_store_def pool_buffer_def bind_eq_Some_conv mem_write_length)
  have image: "config_image b1 = file_image t" using b1(4,5) b(8) by (simp add: config_image_def file_image_def)
  obtain tr where w: "writeConfig (ai_io i) c b1 (st_fs s) = Some (tr, (st_fs s)(configPath c \<mapsto> file_image t))"
    using writeConfig_good [OF c b1(2), of "st_fs s"] fs image by auto
  let ?pool = "pool\<lparr>bst_heap := (bst_heap pool)(p \<mapsto> b1)\<rparr>"
  have "bst_wf (insert p ow) ?pool" using pb by (intro bst_wf_update [OF b(3,4)]) simp_all
  from reuseFreeBuffer_spec [OF this, of p] obtain pool1 where
    p1: "reuseFreeBuffer (Some p) ?pool = Some pool1" "bst_wf (insert p ow - {p}) pool1" by auto
  have "insert p ow - {p} = ow" using b(2) by blast
  with p1 pb have re: "nb_reuse p ?pool = Some pool1" "bst_wf ow pool1" by (simp_all add: nb_reuse_def pool_buffer_def)
  have "save_entropy e i n x c s = Some (s\<lparr>st_fs := (st_fs s)(configPath c \<mapsto> file_image t), st_pool := pool1\<rparr>)"
    by (simp add: save_entropy_def k t(1) calc b(1,4) b1(1) w re(1) cs)
  with re(2) t(2,4) show ?thesis by blast
qed

lemma readConfig_capacity:
  assumes "readConfig garb i c fs pool = Some (Some p, pool1)" and "bst_heap pool1 p = Some b" and "bst_wf ow pool"
    and "fs (configPath c) = Some x" and "unat (le32 (take 4 x)) < 2147483648"
  shows "unat (nb_capacity b) < 2147483648"
proof -
  from assms(1,2,4) obtain s1 b0 m where "getFreeBuffer garb (le32 (take 4 x)) pool = Some (p, s1)" "bst_heap s1 p = Some b0" "b = b0\<lparr>nb_buffer := m\<rparr>"
    by (auto simp: readConfig_def Let_def bind_eq_Some_conv split: if_splits)
  with getFreeBuffer_capacity [OF assms(3) _ _ assms(5)] show ?thesis by fastforce
qed

lemma load_ok:
  assumes f: "fs (configPath c) = Some (file_image t)" and t: "length t < 2 ^ 22" and wf: "bst_wf ow pool" and i: "io_fseek i"
  shows "\<exists>p pool1 b b1. readConfig garb i c fs pool = Some (Some p, pool1) \<and> bst_heap pool1 p = Some b \<and>
    nb_readString b = Some (t, False, b1) \<and> bst_wf (insert p ow) (pool1\<lparr>bst_heap := (bst_heap pool1)(p \<mapsto> b1)\<rparr>)"
proof -
  let ?x = "tl_encode t" and ?l = "of_nat (length (tl_encode t)) :: u32"
  note small = tl_encode_small [OF t]
  have l: "unat ?l = length ?x" using small by (intro unat_of_nat_lt) simp
  let ?b = "(NativeByteBuffer_wrap ?x ?l)\<lparr>nb_position := ?l\<rparr>"
  have b: "nb_wf ?b" "0 < nb_position ?b" "config_image ?b = file_image t" "nb_position ?b = ?l" "nb_buffer ?b = ?x"
    using l small by (simp_all add: nb_wf_def NativeByteBuffer_wrap_def config_image_def file_image_def word_less_nat_alt)
  have "fs (configPath c) = Some (config_image ?b)" using f b(3) by simp
  from readConfig_image [where fs = fs and c = c and b = ?b, OF this b(1,2) wf i, of garb, unfolded b(4,5)] obtain p pool1 r where
    r: "readConfig garb i c fs pool = Some (Some p, pool1)" "bst_wf (insert p ow) pool1" "bst_heap pool1 p = Some r"
      "nb_limit r = ?l" "nb_position r = 0" "take (unat ?l) (nb_buffer r) = ?x"
    by (auto simp: l)
  have "take 4 (file_image t) = put_le32 ?l" by (simp add: file_image_def)
  then have cap: "unat (nb_capacity r) < 2147483648"
    using readConfig_capacity [OF r(1,3) wf f] l small by (simp add: le32_put)
  have "pool_buffer r" using r(2,3) unfolding bst_wf_def by blast
  moreover have "length ?x \<le> length (nb_buffer r)" using arg_cong [OF r(6), of length] l by simp
  ultimately have wr: "nb_wf r" "nb_rest r = ?x @ []" "pool_buffer r"
    using r(4-6) cap l by (auto simp: pool_buffer_def nb_wf_def nb_rest_def)
  from nb_readString_enc [OF wr(1,2)] t have rd: "nb_readString r = Some (t, False, nb_advance (length ?x) r)" by simp
  have "bst_wf (insert p ow) (pool1\<lparr>bst_heap := (bst_heap pool1)(p \<mapsto> nb_advance (length ?x) r)\<rparr>)"
    using wr(3) by (intro bst_wf_update [OF r(2,3)]) (simp_all add: nb_advance_def pool_buffer_def)
  with r(1,3) rd show ?thesis by blast
qed

section \<open>The files of an account\<close>

definition account_config :: "account_env \<Rightarrow> bytes \<Rightarrow> u32 \<Rightarrow> config" where
  "account_config e p n =
     (let f = as_path (getConfigPath p @ the (getEntropyStorePathName e n)) in \<lparr>instanceNum = 0, configPath = f, backupPath = f @ ''.bak''\<rparr>)"

lemma getConfigPath_twice [simp]: "getConfigPath (getConfigPath p) = getConfigPath p"
  by (simp add: getConfigPath_def)

lemma account_config_path [simp]: "account_config e (getConfigPath p) n = account_config e p n"
  by (simp add: account_config_def)

lemma account_config_ok: "config_ok (account_config e p n)"
  by (simp add: account_config_def config_ok_def Let_def)

lemma open_config_ok:
  assumes "env_good e" and "st_fs s (backupPath (account_config e (st_path s) n)) = None"
  shows "open_config e i n s = Some (account_config e (st_path s) n, s\<lparr>st_path := getConfigPath (st_path s)\<rparr>)"
  using assms(2) MD5_ok [OF assms(1)]
  by (simp add: open_config_def getEntropyStorePathName_def Config_def account_config_def Let_def)

lemma address_file_other:
  assumes "env_good e"
  shows "as_path (getAccountAddressFile p (48 # y)) \<noteq> configPath (account_config e p n)"
    "as_path (getAccountAddressFile p (48 # y)) \<noteq> backupPath (account_config e p n)"
proof -
  obtain z where z: "getEntropyStorePathName e n = Some (97 # z)"
    using MD5_ok [OF assms] by (auto simp: getEntropyStorePathName_def text_bytes_def)
  have "(char_of (unat (48 :: byte)) :: char) \<noteq> char_of (unat (97 :: byte))" by simp
  then show "as_path (getAccountAddressFile p (48 # y)) \<noteq> configPath (account_config e p n)"
    "as_path (getAccountAddressFile p (48 # y)) \<noteq> backupPath (account_config e p n)"
    by (simp_all add: z as_path_def getAccountAddressFile_def account_config_def Let_def)
qed

lemma phrase_of:
  assumes "env_good e" and "length d = 16" and "length buf = 16"
  obtains r where "entropyToMnemonic (ae_words e) d = Some r" "mr_status r = Ok" "mnemonicWordsToEntropy (ae_words e) (mr_raw r) buf = Some (16, d)"
proof -
  have "word_list_ok (ae_words e)" "validateEntropy (length d)" using assms by (auto simp: env_good_def validateEntropy_def)
  from entropy_phrase [OF this, of buf] assms(2,3) that show thesis by (auto simp: mnemonicWordsToEntropy_def)
qed

text \<open>The phrase and the address the code gives to the entropy \<open>d\<close>.\<close>

definition account_words :: "account_env \<Rightarrow> bytes \<Rightarrow> bytes" where
  "account_words e d = mr_raw (the (entropyToMnemonic (ae_words e) (0 # take 15 d)))"

definition account_address :: "account_env \<Rightarrow> bytes \<Rightarrow> bytes" where
  "account_address e d = the (ae_address e (account_words e d))"

lemma account_words_ok:
  assumes "env_good e" and "length d = 16"
  shows "\<exists>r. entropyHexToMnemonic (ae_words e) (bytes_to_hex d) = Some r \<and> mr_raw r = account_words e d"
    "ae_address e (account_words e d) = Some (account_address e d)" "\<exists>y. account_address e d = 48 # y"
    "length buf = 16 \<Longrightarrow> mnemonicWordsToEntropy (ae_words e) (account_words e d) buf = Some (16, 0 # take 15 d)"
proof -
  have "length (0 # take 15 d) = 16" using assms(2) by simp
  note phrase_of [OF assms(1) this]
  then show "\<exists>r. entropyHexToMnemonic (ae_words e) (bytes_to_hex d) = Some r \<and> mr_raw r = account_words e d"
    "length buf = 16 \<Longrightarrow> mnemonicWordsToEntropy (ae_words e) (account_words e d) buf = Some (16, 0 # take 15 d)"
    using entropyHex_shifted [OF assms(2), of "ae_words e"] by (metis account_words_def option.sel length_replicate)+
  from assms(1) obtain y where "ae_address e (account_words e d) = Some (48 # y)" unfolding env_good_def by blast
  then show "ae_address e (account_words e d) = Some (account_address e d)" "\<exists>y. account_address e d = 48 # y"
    by (simp_all add: account_address_def)
qed

lemma address_with_ok:
  assumes "env_good e" and "length d = 16" and "m_entropy a = bytes_to_hex d"
  shows "address_with e up a s = Some (if m_address a = [] then account_address e d else m_address a,
    a\<lparr>m_address := if m_address a = [] then account_address e d else m_address a\<rparr>, s)"
proof -
  have "m_entropy a \<noteq> []" using assms(3) by (simp add: bytes_to_hex_def)
  with account_words_ok(1,2) [OF assms(1,2)] assms(3) show ?thesis by (auto simp: address_with_def)
qed

lemma save_address_ok:
  assumes "env_good e"
  shows "st_fs (save_address i (48 # y) s) (configPath (account_config e (st_path s) n)) = st_fs s (configPath (account_config e (st_path s) n))"
    "st_fs (save_address i (48 # y) s) (backupPath (account_config e (st_path s) n)) = st_fs s (backupPath (account_config e (st_path s) n))"
    "st_path (save_address i (48 # y) s) = getConfigPath (st_path s)" "st_pool (save_address i (48 # y) s) = st_pool s"
  using address_file_other [OF assms, of "getConfigPath (st_path s)" y n] by (auto simp: save_address_def Let_def)

text \<open>The file of account \<open>n\<close> holds the entropy \<open>d\<close>.\<close>

definition stored :: "account_env \<Rightarrow> u32 \<Rightarrow> bytes \<Rightarrow> store \<Rightarrow> bool" where
  "stored e n d s \<longleftrightarrow> (\<exists>t. st_fs s (configPath (account_config e (st_path s) n)) = Some (file_image t) \<and> length t < 2 ^ 22 \<and>
     st_fs s (backupPath (account_config e (st_path s) n)) = None \<and> decryptDataUseAecSimple e t (account_key e n) = Some (bytes_to_hex d))"

lemma setWords_ok:
  assumes e: "env_good e" and i: "io_good (ai_io i)" "length (ai_stack i) = 16"
    and s: "st_fs s (backupPath (account_config e (st_path s) (m_accountId a))) = None" "bst_wf ow (st_pool s)"
    and d: "length d = 16" "entropyToMnemonic (ae_words e) d = Some r" and a: "m_address a = [] \<or> hd (m_address a) = 48"
  shows "\<exists>s1. setWords e i is (mr_raw r) a s =
      Some (True, a\<lparr>m_entropy := bytes_to_hex d, m_address := if m_address a = [] then account_address e d else m_address a\<rparr>, s1) \<and>
      stored e (m_accountId a) d s1 \<and> bst_wf ow (st_pool s1) \<and> st_path s1 = getConfigPath (st_path s)"
proof -
  let ?n = "m_accountId a" and ?c = "account_config e (st_path s) (m_accountId a)" and ?x = "bytes_to_hex d"
  let ?s = "s\<lparr>st_path := getConfigPath (st_path s)\<rparr>" and ?a = "if m_address a = [] then account_address e d else m_address a"
  have x: "?x \<noteq> []" "length ?x < 2 ^ 20" using d(1) by (auto simp: length_bytes_to_hex simp flip: length_greater_0_conv)
  have w: "mnemonicWordsToEntropy (ae_words e) (mr_raw r) (ai_stack i) = Some (16, d)"
    using phrase_of [OF e d(1) i(2)] d(2) by auto
  have "st_fs ?s (backupPath ?c) = None" "bst_wf ow (st_pool ?s)" using s by simp_all
  from save_entropy_ok [OF e x account_config_ok i(1) this, of ?n] obtain t pool where
    t: "save_entropy e i ?n ?x ?c ?s = Some (?s\<lparr>st_fs := (st_fs s)(configPath ?c \<mapsto> file_image t), st_pool := pool\<rparr>)" "bst_wf ow pool"
      "decryptDataUseAecSimple e t (account_key e ?n) = Some ?x" "length t < 2 ^ 22" by auto
  let ?s2 = "?s\<lparr>st_fs := (st_fs s)(configPath ?c \<mapsto> file_image t), st_pool := pool\<rparr>"
  obtain y where y: "?a = 48 # y" using a account_words_ok(3) [OF e d(1)] by (cases "m_address a") auto
  have set: "setWords e i is (mr_raw r) a s = Some (True, a\<lparr>m_entropy := ?x, m_address := ?a\<rparr>, save_address i ?a ?s2)"
    using open_config_ok [OF e s(1), of i] w t(1) address_with_ok [OF e d(1), of "a\<lparr>m_entropy := ?x\<rparr>" "upsertEntropy e is" ?s2]
    by (simp add: setWords_def getAccountAddress_def)
  have "stored e ?n d (save_address i ?a ?s2)"
    unfolding stored_def y using save_address_ok(1,2) [OF e, where i = i and y = y and s = ?s2 and n = ?n] save_address_ok(3) [OF e, where i = i and y = y and s = ?s2] t(3,4) s(1) config_paths [OF account_config_ok]
    by (intro exI [of _ t]) auto
  with set t(2) save_address_ok(3,4) [OF e, where i = i and y = y and s = ?s2] show ?thesis unfolding y by auto
qed

lemma reload_ok:
  assumes e: "env_good e" and i: "io_good (ai_io i)" and s: "stored e (m_accountId a) d s" "bst_wf ow (st_pool s)" and d: "length d = 16"
    and a: "m_entropy a = []" "m_address a = []"
  shows "\<exists>s1. upsertEntropy e (i # is) a s = Some (a\<lparr>m_entropy := bytes_to_hex d, m_address := account_address e d\<rparr>, s1)"
proof -
  let ?n = "m_accountId a" and ?c = "account_config e (st_path s) (m_accountId a)" and ?s = "s\<lparr>st_path := getConfigPath (st_path s)\<rparr>"
  from s(1) obtain t where t: "st_fs s (configPath ?c) = Some (file_image t)" "length t < 2 ^ 22" "st_fs s (backupPath ?c) = None"
    "decryptDataUseAecSimple e t (account_key e ?n) = Some (bytes_to_hex d)" unfolding stored_def by blast
  have "io_fseek (ai_io i)" using i by (simp add: io_good_def)
  from load_ok [where fs = "st_fs s" and c = ?c, OF t(1,2) s(2) this, of "ai_garb i"] obtain p pool b b1 where
    p: "readConfig (ai_garb i) (ai_io i) ?c (st_fs s) (st_pool s) = Some (Some p, pool)" "bst_heap pool p = Some b"
      "nb_readString b = Some (t, False, b1)" by blast
  show ?thesis
    using open_config_ok [OF e t(3), of i] p t(4) key_ok(1) [OF e, of ?n] a
      address_with_ok [OF e d, of "a\<lparr>m_entropy := bytes_to_hex d\<rparr>"]
    by simp
qed

lemma create_ok:
  assumes e: "env_good e" and i: "io_good (ai_io i)" "length (ai_stack i) = 16" "length (ai_random i) = 16"
    and s: "st_fs s (configPath (account_config e (st_path s) (m_accountId a))) = None"
      "st_fs s (backupPath (account_config e (st_path s) (m_accountId a))) = None" "bst_wf ow (st_pool s)"
    and a: "m_entropy a = []" "m_address a = []"
  shows "\<exists>s1. upsertEntropy e (i # is) a s =
      Some (a\<lparr>m_entropy := bytes_to_hex (ai_random i), m_address := account_address e (ai_random i)\<rparr>, s1) \<and>
      stored e (m_accountId a) (ai_random i) s1 \<and> bst_wf ow (st_pool s1) \<and> st_path s1 = getConfigPath (st_path s)"
proof -
  let ?n = "m_accountId a" and ?c = "account_config e (st_path s) (m_accountId a)" and ?d = "ai_random i"
  let ?s = "s\<lparr>st_path := getConfigPath (st_path s)\<rparr>" and ?x = "bytes_to_hex (ai_random i)"
  have x: "?x \<noteq> []" "length ?x < 2 ^ 20" using i(3) by (auto simp: length_bytes_to_hex simp flip: length_greater_0_conv)
  from phrase_of [OF e i(3,2)] obtain r where r: "entropyToMnemonic (ae_words e) ?d = Some r"
    "mnemonicWordsToEntropy (ae_words e) (mr_raw r) (ai_stack i) = Some (16, ?d)" by blast
  then have g: "generate (ae_words e) ?d = Some r" using i(3) by (simp add: generate_def encodeBytes_def)
  have none: "readConfig (ai_garb i) (ai_io i) ?c (st_fs s) (st_pool s) = Some (None, st_pool s)" using s(1) by (simp add: readConfig_def)
  have "st_fs ?s (backupPath ?c) = None" "bst_wf ow (st_pool ?s)" using s by simp_all
  from save_entropy_ok [OF e x account_config_ok i(1) this, of ?n] obtain t pool where
    t: "save_entropy e i ?n ?x ?c ?s = Some (?s\<lparr>st_fs := (st_fs s)(configPath ?c \<mapsto> file_image t), st_pool := pool\<rparr>)" "bst_wf ow pool"
      "decryptDataUseAecSimple e t (account_key e ?n) = Some ?x" "length t < 2 ^ 22" by auto
  let ?s2 = "?s\<lparr>st_fs := (st_fs s)(configPath ?c \<mapsto> file_image t), st_pool := pool\<rparr>"
  obtain y where y: "account_address e ?d = 48 # y" using account_words_ok(3) [OF e i(3)] by blast
  have up: "upsertEntropy e (i # is) a s = Some (a\<lparr>m_entropy := ?x, m_address := account_address e ?d\<rparr>, save_address i (account_address e ?d) ?s2)"
    using open_config_ok [OF e s(2), of i] none g r(2) t(1) a address_with_ok [OF e i(3), of "a\<lparr>m_entropy := ?x\<rparr>" _ ?s2] by simp
  have "stored e ?n ?d (save_address i (account_address e ?d) ?s2)"
    unfolding stored_def y
    using save_address_ok(1,2) [OF e, where i = i and y = y and s = ?s2 and n = ?n] save_address_ok(3) [OF e, where i = i and y = y and s = ?s2]
      t(3,4) s(2) config_paths [OF account_config_ok]
    by (intro exI [of _ t]) auto
  with up t(2) save_address_ok(3,4) [OF e, where i = i and y = y and s = ?s2] show ?thesis unfolding y by auto
qed

lemma stored_pool: "stored e n d (s\<lparr>st_pool := pool\<rparr>) = stored e n d s"
  by (simp add: stored_def)

section \<open>What the account manager does\<close>


text \<open>A concrete environment: a word list with the properties of the English one, a cipher that inverts the bits of a block, one address.\<close>

definition sample_env :: account_env where
  "sample_env = \<lparr>ae_words = sample_words, ae_md5 = (\<lambda>_. replicate 16 0), ae_aes_enc = (\<lambda>_. map not), ae_aes_dec = (\<lambda>_. map not),
     ae_address = (\<lambda>_. Some [48, 120, 49])\<rparr>"

definition sample_io :: account_io where
  "sample_io = \<lparr>ai_io = io_all_ok, ai_garb = (\<lambda>_. 0), ai_stack = replicate 16 0, ai_random = replicate 16 7, ai_open = True\<rparr>"

definition sample_store :: store where
  "sample_store = \<lparr>st_fs = Map.empty, st_pool = BuffersStorage (\<lambda>_. 0) True, st_path = [47, 116]\<rparr>"

lemma sample_ok: "env_good sample_env" "io_good (ai_io sample_io)" "length (ai_stack sample_io) = 16" "length (ai_random sample_io) = 16"
  "st_fs sample_store = Map.empty" "bst_wf {} (st_pool sample_store)"
  using sample_words_ok BuffersStorage_wf
  by (simp_all add: env_good_def sample_env_def sample_io_def sample_store_def io_good_def io_all_ok_def write_error_def block_cipher_def o_def)


text \<open>
  C24. The recovery phrase a user gives to \<open>setWords\<close> is not the phrase of the account: \<open>bytes_to_hex\<close> puts \<open>0x\<close> in front of the text,
  and \<open>hex_to_bytes\<close>, which expects none, reads it as one more byte 0. The phrase that \<open>getWords\<close> shows, at once and after every
  restart, and from which the address is derived, belongs to the entropy moved by one byte, without its last byte: it differs
  from the given phrase unless the entropy is zero, and the 256 phrases whose entropies differ in the last byte only have one
  address.
\<close>

theorem set_words_other_phrase:
  assumes "env_good e" and "io_good (ai_io i)" and "length (ai_stack i) = 16"
    and "st_fs s (backupPath (account_config e (st_path s) n)) = None" and "bst_wf ow (st_pool s)"
    and "length d = 16" and "d \<noteq> replicate 16 0" and "entropyToMnemonic (ae_words e) d = Some r"
  shows "\<exists>a1 s1 ws. setWords e i is (mr_raw r) (AccountManager n) s = Some (True, a1, s1) \<and> getWords e js a1 s1 = Some (ws, a1, s1) \<and>
      ws \<noteq> mr_raw r \<and> mnemonicWordsToEntropy (ae_words e) ws (ai_stack i) = Some (16, 0 # take 15 d) \<and> ae_address e ws = Some (m_address a1) \<and>
      (\<forall>d' r'. length d' = 16 \<and> take 15 d' = take 15 d \<and> entropyToMnemonic (ae_words e) d' = Some r' \<longrightarrow>
         getAddressByWords e i (mr_raw r') = Some (m_address a1))"
proof -
  let ?a = "AccountManager n"
  have a: "m_accountId ?a = n" "m_entropy ?a = []" "m_address ?a = []" by (simp_all add: AccountManager_def)
  from setWords_ok [OF assms(1-3), of s ?a ow d r "is"] assms(4-8) a obtain s1 where
    s1: "setWords e i is (mr_raw r) ?a s = Some (True, ?a\<lparr>m_entropy := bytes_to_hex d, m_address := account_address e d\<rparr>, s1)" by auto
  let ?a1 = "?a\<lparr>m_entropy := bytes_to_hex d, m_address := account_address e d\<rparr>"
  have up: "upsertEntropy e js ?a1 s1 = Some (?a1, s1)" by (cases js) (simp_all add: bytes_to_hex_def)
  note w = account_words_ok [OF assms(1,6)]
  have g: "getWords e js ?a1 s1 = Some (account_words e d, ?a1, s1)" using w(1) up by (auto simp: getWords_def)
  have "mnemonicWordsToEntropy (ae_words e) (mr_raw r) (ai_stack i) = Some (16, d)"
    using phrase_of [OF assms(1,6,3)] assms(8) by auto
  moreover have "d \<noteq> 0 # take 15 d"
  proof
    assume eq: "d = 0 # take 15 d"
    have "d ! k = 0" if "k < 16" for k
      using that
    proof (induction k)
      case 0
      show ?case using arg_cong [OF eq, of "\<lambda>x. x ! 0"] by simp
    next
      case (Suc k)
      then show ?case using arg_cong [OF eq, of "\<lambda>x. x ! Suc k"] by simp
    qed
    with assms(6,7) show False by (metis length_replicate nth_equalityI nth_replicate)
  qed
  ultimately have ne: "account_words e d \<noteq> mr_raw r" using w(4) [OF assms(3)] by auto
  have "getAddressByWords e i (mr_raw r') = Some (account_address e d)"
    if d': "length d' = 16" "take 15 d' = take 15 d" "entropyToMnemonic (ae_words e) d' = Some r'" for d' r'
  proof -
    have "account_words e d' = account_words e d" using d'(2) by (simp add: account_words_def)
    moreover have "mnemonicWordsToEntropy (ae_words e) (mr_raw r') (ai_stack i) = Some (16, d')"
      using phrase_of [OF assms(1) d'(1) assms(3)] d'(3) by auto
    ultimately show ?thesis using account_words_ok(1,2) [OF assms(1) d'(1)] by (auto simp: getAddressByWords_def account_address_def)
  qed
  with s1 g ne w(4) [OF assms(3)] w(2) show ?thesis by auto
qed

theorem set_words_other_phrase_witness:
  "\<exists>a1 s1 ws. setWords sample_env sample_io [] (mr_raw (the (entropyToMnemonic sample_words (replicate 16 7)))) (AccountManager 1) sample_store = Some (True, a1, s1) \<and>
     getWords sample_env [] a1 s1 = Some (ws, a1, s1) \<and> ws \<noteq> mr_raw (the (entropyToMnemonic sample_words (replicate 16 7)))"
proof -
  have "length (replicate 16 (7 :: byte)) = 16" "replicate 16 (7 :: byte) \<noteq> replicate 16 0" by simp_all
  moreover have w: "ae_words sample_env = sample_words" by (simp add: sample_env_def)
  moreover obtain r where r: "entropyToMnemonic sample_words (replicate 16 7) = Some r"
    using phrase_of [OF sample_ok(1) _ sample_ok(3), of "replicate 16 7"] w by auto
  ultimately show ?thesis
    using set_words_other_phrase [OF sample_ok(1-3) _ sample_ok(6), of 1 "replicate 16 7" r "[]" "[]"] sample_ok(5) by auto
qed

section \<open>A damaged account file\<close>

text \<open>The file of the account is there and does not decrypt.\<close>

definition damaged :: "account_env \<Rightarrow> u32 \<Rightarrow> store \<Rightarrow> bool" where
  "damaged e n s \<longleftrightarrow> (\<exists>t ow. st_fs s (configPath (account_config e (st_path s) n)) = Some (file_image t) \<and> length t < 2 ^ 22 \<and>
     st_fs s (backupPath (account_config e (st_path s) n)) = None \<and> decryptDataUseAecSimple e t (account_key e n) = Some [] \<and> bst_wf ow (st_pool s))"

lemma damaged_again:
  assumes e: "env_good e" and i: "io_good (ai_io i)" and s: "damaged e (m_accountId a) s" and a: "m_entropy a = []" "m_address a = []"
  shows "\<exists>s1 k. damaged e (m_accountId a) s1 \<and> upsertEntropy e (i # is) a s = Option.bind (upsertEntropy e is a s1) k"
proof -
  let ?n = "m_accountId a" and ?c = "account_config e (st_path s) (m_accountId a)" and ?s = "s\<lparr>st_path := getConfigPath (st_path s)\<rparr>"
  from s obtain t ow where t: "st_fs s (configPath ?c) = Some (file_image t)" "length t < 2 ^ 22" "st_fs s (backupPath ?c) = None"
    "decryptDataUseAecSimple e t (account_key e ?n) = Some []" "bst_wf ow (st_pool s)" unfolding damaged_def by blast
  have "io_fseek (ai_io i)" using i by (simp add: io_good_def)
  from load_ok [where fs = "st_fs s" and c = ?c, OF t(1,2,5) this, of "ai_garb i"] obtain p pool b b1 where
    p: "readConfig (ai_garb i) (ai_io i) ?c (st_fs s) (st_pool s) = Some (Some p, pool)" "bst_heap pool p = Some b"
      "nb_readString b = Some (t, False, b1)" "bst_wf (insert p ow) (pool\<lparr>bst_heap := (bst_heap pool)(p \<mapsto> b1)\<rparr>)" by blast
  let ?s1 = "s\<lparr>st_path := getConfigPath (st_path s), st_pool := pool\<lparr>bst_heap := (bst_heap pool)(p \<mapsto> b1)\<rparr>\<rparr>"
  have "damaged e ?n ?s1" unfolding damaged_def using t(1-4) p(4) by auto
  moreover have same: "a\<lparr>m_entropy := []\<rparr> = a" using a by simp
  have "\<exists>k. upsertEntropy e (i # is) a s = Option.bind (upsertEntropy e is a ?s1) k"
    using open_config_ok [OF e t(3), of i] p t(4) key_ok(1) [OF e, of ?n] a
    by (auto simp: same address_with_def case_prod_beta' intro!: exI)
  ultimately show ?thesis by blast
qed



text \<open>A replaced phrase keeps the address of the one before, as long as the process runs.\<close>

lemma setWords_keeps_address:
  assumes "env_good e" and "io_good (ai_io i)" and "length (ai_stack i) = 16"
    and "st_fs s (backupPath (account_config e (st_path s) (m_accountId a))) = None" and "bst_wf ow (st_pool s)"
    and "length d = 16" and "entropyToMnemonic (ae_words e) d = Some r" and "m_address a = 48 # y"
  shows "\<exists>a1 s1. setWords e i is (mr_raw r) a s = Some (True, a1, s1) \<and> m_entropy a1 = bytes_to_hex d \<and> m_address a1 = m_address a"
  using setWords_ok [OF assms(1-7), of "is"] assms(8) by auto

end
