(* ===== verification/Account_Net.thy ===== *)
theory Account_Net
  imports Client_Conn Account_Store Msg_Server
begin

text \<open>
  The network side of \<^verbatim>\<open>src/ptp_net/AccountManager.cpp\<close>: the accounts of the process, the dialogue by which a client answers the
  captcha of the server, the encryption of PDUs, the notifications to the application and its requests. It runs on the
  connections of \<open>Client_Conn\<close> and on the stored accounts of \<open>Account_Store\<close>.

  Arguments are, in \<open>net_env\<close>: what is said there of \<open>account_env\<close>; the signature and the shared key that HD keys and libsecp256k1
  make from a phrase; the recovery of a key from a signature; AES-GCM; the serialisation of the login message. \<open>net_io\<close> is what the
  system answers during one call. \<open>None\<close> is undefined behaviour or an exception nobody catches.
\<close>

section \<open>State\<close>

record net_env =
  ne_account :: account_env
  ne_sign :: "bytes \<Rightarrow> bytes \<Rightarrow> bytes"
  ne_share :: "bytes \<Rightarrow> bytes \<Rightarrow> bytes"
  ne_recover :: "bytes \<Rightarrow> bytes \<Rightarrow> (bytes \<times> bytes) option"
  ne_parse :: "bytes \<Rightarrow> bool"
  ne_gcm_encrypt :: "bytes \<Rightarrow> bytes \<Rightarrow> bytes \<Rightarrow> bytes \<Rightarrow> bytes"
  ne_gcm_decrypt :: "bytes \<Rightarrow> bytes \<Rightarrow> bytes \<Rightarrow> bytes \<Rightarrow> int \<times> bytes"
  ne_login_req :: "bytes \<Rightarrow> bytes \<Rightarrow> bytes \<Rightarrow> bytes option"

record net_io =
  ni_ios :: "account_io list"
  ni_garb :: "nat \<Rightarrow> byte"
  ni_junk :: u32
  ni_tick :: u64
  ni_ks :: "send_fn list"
  ni_random :: bytes

record client_account =
  ca_account :: account
  ca_connectionState :: conn_state
  ca_instanceNum :: u32
  ca_ivHex :: bytes
  ca_aadHex :: bytes
  ca_sharedKeyHex :: bytes

record account_client = client +
  ac_accounts :: "u32 \<Rightarrow> client_account option"
  ac_current_account_id :: u32
  ac_store :: store
  ac_delegate :: bool
  ac_notes :: "(addr \<times> bytes option) list"

definition put_account :: "u32 \<Rightarrow> client_account \<Rightarrow> account_client \<Rightarrow> account_client" where
  "put_account a x s = s\<lparr>ac_accounts := (ac_accounts s)(a \<mapsto> x)\<rparr>"

definition state_code :: "conn_state \<Rightarrow> u32" where
  "state_code st =
     (case st of NoConnectionState \<Rightarrow> 0 | ConnectionStateConnecting \<Rightarrow> 1 | ConnectionStateWaitingForNetwork \<Rightarrow> 2 | ConnectionStateConnected \<Rightarrow> 3
        | ConnectionStateConnectingViaProxy \<Rightarrow> 4 | ConnectionLogged \<Rightarrow> 10 | ConnectionStateClosed \<Rightarrow> 11)"

text \<open>\<open>getInstance\<close>: the account, made when it is not there. \<open>m_instanceNum\<close> is not initialised.\<close>

definition am_getInstance :: "u32 \<Rightarrow> u32 \<Rightarrow> account_client \<Rightarrow> client_account \<times> account_client" where
  "am_getInstance junk a s =
     (case ac_accounts s a of
        Some x \<Rightarrow> (x, s)
      | None \<Rightarrow>
          (let x = \<lparr>ca_account = AccountManager a, ca_connectionState = ConnectionStateClosed, ca_instanceNum = junk,
                    ca_ivHex = [], ca_aadHex = [], ca_sharedKeyHex = []\<rparr>
           in (x, put_account a x s)))"

definition isConnected :: "client_account \<Rightarrow> bool" where
  "isConnected x \<longleftrightarrow> ca_connectionState x = ConnectionLogged \<or> ca_connectionState x = ConnectionStateConnected"

definition isConnecting :: "client_account \<Rightarrow> bool" where
  "isConnecting x \<longleftrightarrow> ca_connectionState x = ConnectionStateConnecting"

definition isClosed :: "client_account \<Rightarrow> bool" where
  "isClosed x \<longleftrightarrow> ca_connectionState x = ConnectionStateClosed"

section \<open>Notifications\<close>

definition getStringSize :: "bytes \<Rightarrow> u32 option" where
  "getStringSize str = do {
     (_, sizeCalculator) \<leftarrow> nb_writeString str (nb_clearCapacity (NativeByteBuffer_calc True));
     Some (nb_capacity sizeCalculator) }"

text \<open>The writes ignore errors.\<close>

fun nb_write_seq :: "tl_value list \<Rightarrow> native_buffer \<Rightarrow> native_buffer option" where
  "nb_write_seq [] b = Some b"
| "nb_write_seq (v # vs) b = do { (_, b1) \<leftarrow> tl_write v b; nb_write_seq vs b1 }"

text \<open>\<open>onNotify\<close> gives the buffer back to the pool and then hands it to the delegate, which is recorded with what the buffer holds at that time.\<close>

definition am_onNotify :: "addr \<Rightarrow> account_client \<Rightarrow> account_client option" where
  "am_onNotify p s =
     (if ac_delegate s then do {
        let st = ac_store s;
        b \<leftarrow> bst_heap (st_pool st) p;
        pool \<leftarrow> nb_reuse p ((st_pool st)\<lparr>bst_heap := (bst_heap (st_pool st))(p \<mapsto> nb_set_position 0 b)\<rparr>);
        Some (s\<lparr>ac_store := st\<lparr>st_pool := pool\<rparr>, ac_notes := ac_notes s @ [(p, map_option nb_buffer (bst_heap pool p))]\<rparr>) }
      else Some s)"

definition fill_buffer :: "(nat \<Rightarrow> byte) \<Rightarrow> u32 \<Rightarrow> tl_value list \<Rightarrow> account_client \<Rightarrow> (addr \<times> account_client) option" where
  "fill_buffer garb n vs s = do {
     let st = ac_store s;
     (p, pool) \<leftarrow> getFreeBuffer garb n (st_pool st);
     b \<leftarrow> bst_heap pool p;
     b1 \<leftarrow> nb_write_seq vs b;
     Some (p, s\<lparr>ac_store := st\<lparr>st_pool := pool\<lparr>bst_heap := (bst_heap pool)(p \<mapsto> b1)\<rparr>\<rparr>\<rparr>) }"

definition am_notify :: "(nat \<Rightarrow> byte) \<Rightarrow> u32 \<Rightarrow> tl_value list \<Rightarrow> account_client \<Rightarrow> account_client option" where
  "am_notify garb n vs s = do { (p, s1) \<leftarrow> fill_buffer garb n vs s; am_onNotify p s1 }"

abbreviation NativeInvokeHeaderSize :: u32 where "NativeInvokeHeaderSize \<equiv> 16"
abbreviation NativeInvokeIntSize :: u32 where "NativeInvokeIntSize \<equiv> 4"

text \<open>\<open>getAccountAddress\<close> of the account \<open>a\<close>.\<close>

definition am_address :: "net_env \<Rightarrow> net_io \<Rightarrow> u32 \<Rightarrow> account_client \<Rightarrow> (bytes \<times> account_client) option" where
  "am_address e i a s0 =
     (let (x, s) = am_getInstance (ni_junk i) a s0
      in do {
        (address, y, st) \<leftarrow> getAccountAddress (ne_account e) (ni_ios i) (ca_account x) (ac_store s);
        Some (address, put_account a (x\<lparr>ca_account := y\<rparr>) (s\<lparr>ac_store := st\<rparr>)) })"

text \<open>The first notification of \<open>onConnectionStateChanged\<close>.\<close>

definition tell_address :: "net_env \<Rightarrow> net_io \<Rightarrow> u32 \<Rightarrow> account_client \<Rightarrow> account_client option" where
  "tell_address e i a s1 = do {
     (address, s2) \<leftarrow> am_address e i a s1;
     l \<leftarrow> getStringSize address;
     let n = NativeInvokeHeaderSize + l;
     am_notify (ni_garb i) n [TInt32 n, TInt32 1009, TInt32 0, TInt32 a, TString address] s2 }"

definition am_onConnectionStateChanged :: "net_env \<Rightarrow> net_io \<Rightarrow> conn_state \<Rightarrow> u32 \<Rightarrow> account_client \<Rightarrow> account_client option" where
  "am_onConnectionStateChanged e i st a s0 =
     (let (x, s) = am_getInstance (ni_junk i) a s0;
          s1 = put_account a (x\<lparr>ca_connectionState := st\<rparr>) s
      in do {
        s2 \<leftarrow> (if st = ConnectionStateConnecting then tell_address e i a s1 else Some s1);
        let n = NativeInvokeHeaderSize + NativeInvokeIntSize;
        am_notify (ni_garb i) n [TInt32 n, TInt32 1007, TInt32 0, TInt32 a, TInt32 (state_code st)] s2 })"

section \<open>Sending\<close>

definition am_send :: "net_io \<Rightarrow> u32 \<Rightarrow> im_pdu \<Rightarrow> account_client \<Rightarrow> (int \<times> account_client) option" where
  "am_send i a pPdu s =
     (case get_conn a s of
        None \<Rightarrow> Some (-1, s)
      | Some p \<Rightarrow> cl_SendPdu (ni_garb i) (ni_tick i) (ni_ks i) pPdu p s)"

definition am_SendPdu :: "net_env \<Rightarrow> net_io \<Rightarrow> u32 \<Rightarrow> im_pdu \<Rightarrow> account_client \<Rightarrow> (int \<times> account_client) option" where
  "am_SendPdu e i a pPdu s0 =
     (let (x, s) = am_getInstance (ni_junk i) a s0
      in if pdu_GetReversed pPdu = 1 \<and> pdu_GetBodyLength pPdu > 0 then do {
           pdu1 \<leftarrow> encrypt_pdu (ni_garb i) (ni_junk i) (ne_gcm_encrypt e) (ca_sharedKeyHex x) (ca_ivHex x) (ca_aadHex x) pPdu;
           am_send i a pdu1 s }
         else am_send i a pPdu s)"

definition am_SendPduBuf :: "net_env \<Rightarrow> net_io \<Rightarrow> u32 \<Rightarrow> bytes \<Rightarrow> account_client \<Rightarrow> (int \<times> account_client) option" where
  "am_SendPduBuf e i a pduBytes s = do {
     r \<leftarrow> ReadPdu (ni_garb i) (ni_junk i) pduBytes (of_nat (length pduBytes));
     (case r of Inr (Some pPdu) \<Rightarrow> am_SendPdu e i a pPdu s | _ \<Rightarrow> None) }"

text \<open>
  \<open>closeSocket\<close> and \<open>onHeartBeat\<close> make their PDU by \<open>SetPBMsg(nullptr)\<close>, which in the class \<open>ImPdu\<close> calls \<open>ByteSize\<close> of the null pointer.
\<close>

definition am_closeSocket :: "u32 \<Rightarrow> u32 \<Rightarrow> account_client \<Rightarrow> account_client option" where
  "am_closeSocket junk a s0 = (let (x, s) = am_getInstance junk a s0 in if isConnected x then None else Some s)"

definition am_onHeartBeat :: "u32 \<Rightarrow> u32 \<Rightarrow> account_client \<Rightarrow> account_client option" where
  "am_onHeartBeat junk a s0 = (let (x, s) = am_getInstance junk a s0 in if isConnected x \<or> isConnecting x then None else Some s)"

definition am_setCurrentAccountId :: "u32 \<Rightarrow> u32 \<Rightarrow> account_client \<Rightarrow> account_client option" where
  "am_setCurrentAccountId junk a s = do {
     s1 \<leftarrow> (if a \<noteq> ac_current_account_id s \<and> ac_current_account_id s \<noteq> 0 then am_closeSocket junk (ac_current_account_id s) s else Some s);
     let s2 = (if a \<noteq> ac_current_account_id s1
               then (let (x, s2) = am_getInstance junk a s1 in put_account a (x\<lparr>ca_instanceNum := 0\<rparr>) s2) else s1);
     Some (s2\<lparr>ac_current_account_id := a\<rparr>) }"

section \<open>Handling a PDU\<close>

text \<open>The phrase of an account, from which its keys are derived.\<close>

definition am_phrase :: "net_env \<Rightarrow> client_account \<Rightarrow> bytes option" where
  "am_phrase e x = map_option mr_raw (entropyHexToMnemonic (ae_words (ne_account e)) (m_entropy (ca_account x)))"

definition signMessage :: "net_env \<Rightarrow> bytes \<Rightarrow> client_account \<Rightarrow> bytes option" where
  "signMessage e message x = do {
     ws \<leftarrow> am_phrase e x;
     Some (ne_sign e ws (format_sign_msg_data message SignMsgType_ptp)) }"

definition createShareKey :: "net_env \<Rightarrow> bytes \<Rightarrow> client_account \<Rightarrow> bytes option" where
  "createShareKey e pub_key x = do { ws \<leftarrow> am_phrase e x; Some (ne_share e ws pub_key) }"

text \<open>The first part of \<open>handlePdu\<close>: an encrypted PDU is replaced by its plain one; \<open>None\<close> inside is an error that ends the handling.\<close>

definition decrypt_pdu :: "net_env \<Rightarrow> net_io \<Rightarrow> u32 \<Rightarrow> im_pdu \<Rightarrow> account_client \<Rightarrow> (im_pdu option \<times> account_client) option" where
  "decrypt_pdu e i a pPdu s0 =
     (let (x, s) = am_getInstance (ni_junk i) a s0
      in if pdu_GetReversed pPdu = 1 then do {
           s1 \<leftarrow> (if ca_connectionState x \<noteq> ConnectionLogged then am_onConnectionStateChanged e i ConnectionLogged a s else Some s);
           shared_secret \<leftarrow> key_bytes (ca_sharedKeyHex x) 32;
           iv \<leftarrow> key_bytes (ca_ivHex x) 16;
           aad \<leftarrow> key_bytes (ca_aadHex x) 16;
           cipherData \<leftarrow> pdu_body pPdu;
           let (decLen, decData) = ne_gcm_decrypt e shared_secret iv aad cipherData;
           _ \<leftarrow> mem_write (replicate 1024 0) 0 decData;
           if decLen > 0 then do {
             pdu \<leftarrow> CImPdu_SetPBMsg_buf (ni_garb i) (take (nat decLen) decData) (CImPdu (ni_junk i));
             pdu \<leftarrow> pdu_SetServiceId 0 pdu;
             pdu \<leftarrow> pdu_SetCommandId (pdu_GetCommandId pPdu) pdu;
             pdu \<leftarrow> pdu_SetSeqNum (pdu_GetSeqNum pPdu) pdu;
             pdu \<leftarrow> pdu_SetReversed 0 pdu;
             r \<leftarrow> ReadPdu (ni_garb i) (ni_junk i) (pdu_GetBuffer pdu) (pdu_GetLength pdu);
             (case r of Inr (Some q) \<Rightarrow> Some (Some q, s1) | _ \<Rightarrow> None) }
           else Some (None, s1) }
         else Some (Some pPdu, s))"

text \<open>The captcha: its fields are read at fixed places of the body, whatever the length of the body.\<close>

definition read_captcha :: "im_pdu \<Rightarrow> (bytes \<times> bytes \<times> bytes \<times> bytes \<times> bytes) option" where
  "read_captcha pPdu = do {
     let buf = drop 16 (pdu_GetBuffer pPdu);
     captchaBuff \<leftarrow> mem_read buf 2 6;
     addressBuff \<leftarrow> mem_read buf 10 20;
     ivBuf \<leftarrow> mem_read buf 32 16;
     aadBuff \<leftarrow> mem_read buf 50 16;
     sign65Buf \<leftarrow> mem_read buf 68 65;
     Some (takeWhile (\<lambda>c. c \<noteq> 0) captchaBuff, addressBuff, ivBuf, aadBuff, sign65Buf) }"

definition answer_captcha :: "net_env \<Rightarrow> net_io \<Rightarrow> u32 \<Rightarrow> im_pdu \<Rightarrow> account_client \<Rightarrow> account_client option" where
  "answer_captcha e i a pPdu s0 = do {
     (address, s1) \<leftarrow> am_address e i a s0;
     (captcha, addressBuff, ivBuf, aadBuff, sign65Buf) \<leftarrow> read_captcha pPdu;
     let (x, s2) = am_getInstance (ni_junk i) a s1;
     let y = x\<lparr>ca_ivHex := bytes_to_hex ivBuf, ca_aadHex := bytes_to_hex aadBuff\<rparr>;
     let s3 = put_account a y s2;
     (case ne_recover e sign65Buf (format_sign_msg_data captcha SignMsgType_ptp) of
        None \<Rightarrow> Some s3
      | Some (pub_key_33, srv_address_hex) \<Rightarrow>
          if srv_address_hex \<noteq> bytes_to_hex addressBuff then am_closeSocket (ni_junk i) a s3
          else if \<not> ne_parse e pub_key_33 then Some s3
          else do {
            shared_secret \<leftarrow> createShareKey e pub_key_33 y;
            let z = y\<lparr>ca_sharedKeyHex := bytes_to_hex shared_secret\<rparr>;
            sign65Buf1 \<leftarrow> signMessage e captcha z;
            pdu \<leftarrow> ImPdu_SetPBMsg_cmd (ni_garb i) (ne_login_req e address captcha sign65Buf1) CID_AuthLoginReq 0 (CImPdu (ni_junk i));
            (_, s4) \<leftarrow> am_SendPdu e i a pdu (put_account a z s3);
            Some s4 }) }"

definition am_handlePdu :: "net_env \<Rightarrow> net_io \<Rightarrow> u32 \<Rightarrow> im_pdu \<Rightarrow> account_client \<Rightarrow> account_client option" where
  "am_handlePdu e i a pPdu s = do {
     (q, s1) \<leftarrow> decrypt_pdu e i a pPdu s;
     (case q of
        None \<Rightarrow> Some s1
      | Some pdu \<Rightarrow> if pdu_GetCommandId pdu = 262 then answer_captcha e i a pdu s1 else Some s1) }"

fun handle_pdus :: "net_env \<Rightarrow> net_io list \<Rightarrow> u32 \<Rightarrow> im_pdu list \<Rightarrow> account_client \<Rightarrow> account_client option" where
  "handle_pdus e is a [] s = Some s"
| "handle_pdus e [] a (pdu # pdus) s = None"
| "handle_pdus e (i # is) a (pdu # pdus) s = do { s1 \<leftarrow> am_handlePdu e i a pdu s; handle_pdus e is a pdus s1 }"

section \<open>Requests of the application\<close>

definition am_words :: "net_env \<Rightarrow> net_io \<Rightarrow> u32 \<Rightarrow> account_client \<Rightarrow> (bytes \<times> account_client) option" where
  "am_words e i a s0 =
     (let (x, s) = am_getInstance (ni_junk i) a s0
      in do {
        (ws, y, st) \<leftarrow> getWords (ne_account e) (ni_ios i) (ca_account x) (ac_store s);
        Some (ws, put_account a (x\<lparr>ca_account := y\<rparr>) (s\<lparr>ac_store := st\<rparr>)) })"

text \<open>An answer of a header and a text; the buffer, and whether it is to be notified.\<close>

definition text_answer :: "net_io \<Rightarrow> u32 \<Rightarrow> u32 \<Rightarrow> u32 \<Rightarrow> bytes \<Rightarrow> account_client \<Rightarrow> (addr option \<times> account_client) option" where
  "text_answer i type seqNum accountId t s = do {
     l \<leftarrow> getStringSize t;
     let notifySize = NativeInvokeHeaderSize + l;
     (p, s1) \<leftarrow> fill_buffer (ni_garb i) notifySize [TInt32 notifySize, TInt32 type, TInt32 seqNum, TInt32 accountId, TString t] s;
     Some (if notifySize > 0 then Some p else None, s1) }"

text \<open>The requests to sign, to send and to set words have empty branches. The heartbeat takes a buffer that nobody gives back.\<close>

definition invoke_branch :: "net_env \<Rightarrow> net_io \<Rightarrow> u32 \<Rightarrow> u32 \<Rightarrow> u32 \<Rightarrow> u32 \<Rightarrow> native_buffer \<Rightarrow> account_client \<Rightarrow> (addr option \<times> account_client) option" where
  "invoke_branch e i len type seqNum accountId task s =
     (if type = 1010 then map_option (Pair None) (am_closeSocket (ni_junk i) accountId s)
      else if type = 1009 then do {
        (address, s1) \<leftarrow> am_address e i accountId s;
        (b, s2) \<leftarrow> text_answer i 1009 seqNum accountId address s1;
        s3 \<leftarrow> am_setCurrentAccountId (ni_junk i) accountId s2;
        Some (b, s3) }
      else if type = 1000 then do {
        (p, s1) \<leftarrow> fill_buffer (ni_garb i) NativeInvokeHeaderSize [TInt32 0, TInt32 type, TInt32 seqNum, TInt32 accountId] s;
        Some (None, s1) }
      else if type = 100602 \<or> type = 100601 then do {
        _ \<leftarrow> nb_readBytes_ba (len - NativeInvokeHeaderSize) task;
        Some (None, s) }
      else if type = 1002 then do {
        (accountId1, _, _) \<leftarrow> nb_readInt32 task;
        (ws, s1) \<leftarrow> am_words e i accountId1 s;
        text_answer i type seqNum accountId ws s1 }
      else if type = 1005 then do {
        ws \<leftarrow> genWords (ne_account e) (ni_random i);
        text_answer i type seqNum accountId ws s }
      else Some (None, s))"

definition am_handleInvoke :: "net_env \<Rightarrow> net_io \<Rightarrow> native_buffer \<Rightarrow> account_client \<Rightarrow> account_client option" where
  "am_handleInvoke e i task s = do {
     (len, _, t1) \<leftarrow> nb_readInt32 task;
     (type, _, t2) \<leftarrow> nb_readInt32 t1;
     (seqNum, _, t3) \<leftarrow> nb_readInt32 t2;
     (accountId, _, t4) \<leftarrow> nb_readInt32 t3;
     (buffer, s1) \<leftarrow> invoke_branch e i len type seqNum accountId t4 s;
     (case buffer of None \<Rightarrow> Some s1 | Some p \<Rightarrow> am_onNotify p s1) }"

section \<open>The connections stay as they are\<close>

lemma same_conns_ac [simp]:
  "same_conns s (s\<lparr>ac_accounts := m\<rparr>)" "same_conns s (s\<lparr>ac_store := st\<rparr>)" "same_conns s (s\<lparr>ac_store := st, ac_notes := n\<rparr>)"
  "same_conns s (s\<lparr>ac_current_account_id := a\<rparr>)" "same_conns s (put_account a x s)"
  by (simp_all add: same_conns_def put_account_def)

lemma am_getInstance_same: "am_getInstance junk a s = (x, s') \<Longrightarrow> same_conns s s'"
  by (auto simp: am_getInstance_def Let_def split: option.splits)

lemma am_onNotify_same: "am_onNotify p s = Some s' \<Longrightarrow> same_conns s s'"
  by (auto simp: am_onNotify_def Let_def split: bind_splits if_splits)

lemma fill_buffer_same: "fill_buffer garb n vs s = Some (p, s') \<Longrightarrow> same_conns s s'"
  by (auto simp: fill_buffer_def Let_def split: bind_splits)

lemma am_notify_same: "am_notify garb n vs s = Some s' \<Longrightarrow> same_conns s s'"
  by (auto simp: am_notify_def split: bind_splits intro: same_conns_trans dest!: am_onNotify_same fill_buffer_same)

lemma am_address_same:
  assumes "am_address e i a s = Some (address, s')"
  shows "same_conns s s'"
proof -
  obtain x s0 where g: "am_getInstance (ni_junk i) a s = (x, s0)" by (cases "am_getInstance (ni_junk i) a s")
  from assms obtain y st where s': "s' = put_account a (x\<lparr>ca_account := y\<rparr>) (s0\<lparr>ac_store := st\<rparr>)"
    by (auto simp: am_address_def g split: bind_splits)
  have "same_conns s0 (s0\<lparr>ac_store := st\<rparr>)" by simp
  also have "same_conns (s0\<lparr>ac_store := st\<rparr>) s'" unfolding s' by simp
  finally show ?thesis by (rule same_conns_trans [OF am_getInstance_same [OF g]])
qed

lemma tell_address_same: "tell_address e i a s = Some s' \<Longrightarrow> same_conns s s'"
  by (auto simp: tell_address_def Let_def split: bind_splits intro: same_conns_trans dest!: am_notify_same am_address_same)

lemma am_onConnectionStateChanged_same:
  assumes "am_onConnectionStateChanged e i st a s = Some s'"
  shows "same_conns s s'"
proof -
  obtain x s0 where g: "am_getInstance (ni_junk i) a s = (x, s0)" by (cases "am_getInstance (ni_junk i) a s")
  let ?s1 = "put_account a (x\<lparr>ca_connectionState := st\<rparr>) s0"
  have "same_conns s0 ?s1" by simp
  with am_getInstance_same [OF g] have "same_conns s ?s1" by (rule same_conns_trans)
  moreover from assms obtain s2 n vs where s2: "(if st = ConnectionStateConnecting then tell_address e i a ?s1 else Some ?s1) = Some s2"
      "am_notify (ni_garb i) n vs s2 = Some s'"
    unfolding am_onConnectionStateChanged_def g Let_def by (auto simp: bind_eq_Some_conv)
  moreover have "same_conns ?s1 s2" using s2(1) tell_address_same by (auto split: if_splits)
  ultimately show ?thesis using am_notify_same by (blast intro: same_conns_trans)
qed

lemma am_send_same: "am_send i a pdu s = Some (r, s') \<Longrightarrow> same_conns s s'"
  by (auto simp: am_send_def split: option.splits dest: cl_SendPdu_same)

lemma am_SendPdu_same: "am_SendPdu e i a pdu s = Some (r, s') \<Longrightarrow> same_conns s s'"
  by (auto simp: am_SendPdu_def split: prod.splits bind_splits if_splits intro: same_conns_trans dest!: am_send_same am_getInstance_same)

lemma am_closeSocket_same: "am_closeSocket junk a s = Some s' \<Longrightarrow> same_conns s s'"
  by (auto simp: am_closeSocket_def split: prod.splits if_splits dest: am_getInstance_same)

lemma decrypt_pdu_same: "decrypt_pdu e i a pdu s = Some (q, s') \<Longrightarrow> same_conns s s'"
  by (auto simp: decrypt_pdu_def Let_def split: prod.splits bind_splits if_splits sum.splits option.splits
      intro: same_conns_trans dest!: am_getInstance_same am_onConnectionStateChanged_same)

lemma answer_captcha_same:
  assumes "answer_captcha e i a pdu s = Some s'"
  shows "same_conns s s'"
proof -
  from assms obtain address s1 where s1: "am_address e i a s = Some (address, s1)" by (auto simp: answer_captcha_def split: bind_splits)
  obtain x s2 where g: "am_getInstance (ni_junk i) a s1 = (x, s2)" by (cases "am_getInstance (ni_junk i) a s1")
  have "same_conns s s2" by (rule same_conns_trans [OF am_address_same [OF s1] am_getInstance_same [OF g]])
  moreover have "same_conns s2 s'"
  proof -
    have put: "same_conns s2 (put_account a z (put_account a y s2))" for y z
      by (rule same_conns_trans [of s2 "put_account a y s2"]) simp_all
    show ?thesis using assms
      by (auto simp: answer_captcha_def s1 g Let_def split: bind_splits if_splits option.splits prod.splits
          intro: same_conns_trans [OF put] same_conns_trans [OF same_conns_ac(5)] dest!: am_SendPdu_same am_closeSocket_same)
  qed
  ultimately show ?thesis by (rule same_conns_trans)
qed

lemma am_handlePdu_same: "am_handlePdu e i a pdu s = Some s' \<Longrightarrow> same_conns s s'"
  by (auto simp: am_handlePdu_def split: bind_splits option.splits if_splits intro: same_conns_trans dest!: decrypt_pdu_same answer_captcha_same)

lemma handle_pdus_same: "handle_pdus e is a pdus s = Some s' \<Longrightarrow> same_conns s s'"
  by (induction e "is" a pdus s rule: handle_pdus.induct) (auto split: bind_splits intro: same_conns_trans dest!: am_handlePdu_same)

interpretation am: pdu_handler "handle_pdus e" for e
  by unfold_locales (rule handle_pdus_same)

section \<open>What the client does\<close>

text \<open>The process with its delegates set and no connection yet.\<close>

definition client_start :: "store \<Rightarrow> account_client" where
  "client_start st =
     \<lparr>cn_delegate = True, cn_state = NoConnectionState, cn_conns = Map.empty, cn_fresh = 0, cn_map = [], cn_accounts = [], cn_current = 0,
      cn_connecting_cnt = 0, cn_timer_cnt = 0, cn_idle_cnt = 0, cn_reconnect_cnt = 0, cn_timers = 0, cn_told = [], cn_closed = [], cn_wire = [],
      ac_accounts = Map.empty, ac_current_account_id = 0, ac_store = st, ac_delegate = True, ac_notes = []\<rparr>"

lemma client_start_inv: "cl_inv None (client_start st)"
  by (simp add: cl_inv_def client_start_def)


definition sample_net :: net_env where
  "sample_net = \<lparr>ne_account = Account_Store.sample_env, ne_sign = (\<lambda>_ _. replicate 65 5), ne_share = (\<lambda>_ _. replicate 32 6),
     ne_recover = (\<lambda>_ _. Some (replicate 33 2, bytes_to_hex (replicate 20 4))), ne_parse = (\<lambda>_. True),
     ne_gcm_encrypt = (\<lambda>_ _ _ d. d), ne_gcm_decrypt = (\<lambda>_ _ _ d. (int (length d), d)), ne_login_req = (\<lambda>a c g. Some (a @ c @ g))\<rparr>"

definition sample_nio :: net_io where
  "sample_nio = \<lparr>ni_ios = [sample_io], ni_garb = (\<lambda>_. 0), ni_junk = 0, ni_tick = 0, ni_ks = [], ni_random = replicate 16 7\<rparr>"


section \<open>Keys that cannot be used\<close>

lemma prefixed_key: "key_bytes (bytes_to_hex d) n = None"
proof (cases "hex_to_string (bytes_to_hex d)")
  case (Inr out)
  with hex_to_string_inverse [of "bytes_to_hex d" out] have eq: "bytes_to_hex d = concat (map hex2 out)" by simp
  then obtain b r where "out = b # r" by (cases out) (simp_all add: bytes_to_hex_def)
  with eq have "lut ! (unat b mod 16) = 120" by (simp add: bytes_to_hex_def hex2_def)
  with lut_hex(1) [OF nibbles(2) [of b]] show ?thesis by (simp add: hex_value_def)
qed (simp add: key_bytes_def)

lemma empty_key: "0 < n \<Longrightarrow> key_bytes [] (Suc n) = None"
  by (simp add: key_bytes_def hex_to_string_def mem_read_def)

text \<open>The shared key of an account is not there or is text with a prefix.\<close>

definition key_unusable :: "u32 \<Rightarrow> account_client \<Rightarrow> bool" where
  "key_unusable a s = (case ac_accounts s a of None \<Rightarrow> True | Some x \<Rightarrow> ca_sharedKeyHex x = [] \<or> (\<exists>d. ca_sharedKeyHex x = bytes_to_hex d))"

lemma unusable_getInstance:
  assumes "key_unusable a s" and "am_getInstance junk a s = (x, s')"
  shows "key_bytes (ca_sharedKeyHex x) 32 = None" "ca_sharedKeyHex x = [] \<or> (\<exists>d. ca_sharedKeyHex x = bytes_to_hex d)"
proof -
  show "ca_sharedKeyHex x = [] \<or> (\<exists>d. ca_sharedKeyHex x = bytes_to_hex d)"
    using assms by (auto simp: key_unusable_def am_getInstance_def Let_def split: option.splits)
  then show "key_bytes (ca_sharedKeyHex x) 32 = None" using prefixed_key empty_key [of 31] by auto
qed

lemma unusable_put [simp]: "key_unusable a (put_account a x s) = (ca_sharedKeyHex x = [] \<or> (\<exists>d. ca_sharedKeyHex x = bytes_to_hex d))"
  by (simp add: key_unusable_def put_account_def)

lemma unusable_same: "ac_accounts s' = ac_accounts s \<Longrightarrow> key_unusable a s' = key_unusable a s"
  by (simp add: key_unusable_def)

lemma getInstance_unusable: "am_getInstance junk a s = (x, s') \<Longrightarrow> key_unusable a s \<Longrightarrow> key_unusable a s'"
  by (auto simp: am_getInstance_def Let_def split: option.splits)

lemma am_send_accounts: "am_send i a pdu s = Some (r, s') \<Longrightarrow> ac_accounts s' = ac_accounts s"
  by (auto simp: am_send_def cl_SendPdu_def cl_Send_def put_client_def split: option.splits bind_splits)

lemma am_SendPdu_unusable: "am_SendPdu e i a pdu s = Some (r, s') \<Longrightarrow> key_unusable a s \<Longrightarrow> key_unusable a s'"
  by (auto simp: am_SendPdu_def split: prod.splits bind_splits if_splits dest: getInstance_unusable am_send_accounts [THEN unusable_same, of _ _ _ _ _ _ a])

lemma am_closeSocket_unusable: "am_closeSocket junk a s = Some s' \<Longrightarrow> key_unusable a s \<Longrightarrow> key_unusable a s'"
  by (auto simp: am_closeSocket_def split: prod.splits if_splits dest: getInstance_unusable)

lemma am_address_unusable:
  assumes "am_address e i a s = Some (address, s')" and "key_unusable a s"
  shows "key_unusable a s'"
proof -
  obtain x s0 where g: "am_getInstance (ni_junk i) a s = (x, s0)" by (cases "am_getInstance (ni_junk i) a s")
  from assms(1) obtain y st where s': "s' = put_account a (x\<lparr>ca_account := y\<rparr>) (s0\<lparr>ac_store := st\<rparr>)"
    by (auto simp: am_address_def g split: bind_splits)
  with unusable_getInstance(2) [OF assms(2) g] show ?thesis by simp
qed

lemma decrypt_pdu_unusable:
  assumes "key_unusable a s"
  shows "pdu_GetReversed pdu = 1 \<Longrightarrow> decrypt_pdu e i a pdu s = None" "decrypt_pdu e i a pdu s = Some (q, s') \<Longrightarrow> key_unusable a s'"
proof -
  obtain x s0 where g: "am_getInstance (ni_junk i) a s = (x, s0)" by (cases "am_getInstance (ni_junk i) a s")
  show *: "pdu_GetReversed pdu = 1 \<Longrightarrow> decrypt_pdu e i a pdu s = None"
    using unusable_getInstance(1) [OF assms g] by (auto simp: decrypt_pdu_def g bind_eq_None_conv)
  show "decrypt_pdu e i a pdu s = Some (q, s') \<Longrightarrow> key_unusable a s'"
    using * getInstance_unusable [OF g assms] by (cases "pdu_GetReversed pdu = 1") (auto simp: decrypt_pdu_def g)
qed

lemma answer_captcha_unusable:
  assumes "answer_captcha e i a pdu s = Some s'" and "key_unusable a s"
  shows "key_unusable a s'"
proof -
  from assms(1) obtain address s1 where s1: "am_address e i a s = Some (address, s1)" by (auto simp: answer_captcha_def split: bind_splits)
  obtain x s2 where g: "am_getInstance (ni_junk i) a s1 = (x, s2)" by (cases "am_getInstance (ni_junk i) a s1")
  have x: "ca_sharedKeyHex x = [] \<or> (\<exists>d. ca_sharedKeyHex x = bytes_to_hex d)"
    by (rule unusable_getInstance(2) [OF am_address_unusable [OF s1 assms(2)] g])
  show ?thesis using assms(1) x
    by (auto simp: answer_captcha_def s1 g Let_def split: bind_splits if_splits option.splits prod.splits)
      (erule am_SendPdu_unusable am_closeSocket_unusable, auto)+
qed

lemma am_handlePdu_unusable:
  assumes "am_handlePdu e i a pdu s = Some s'" and "key_unusable a s"
  shows "key_unusable a s'"
proof -
  from assms(1) obtain q s0 where q: "decrypt_pdu e i a pdu s = Some (q, s0)"
    "(case q of None \<Rightarrow> Some s0 | Some p \<Rightarrow> if pdu_GetCommandId p = 262 then answer_captcha e i a p s0 else Some s0) = Some s'"
    by (auto simp: am_handlePdu_def bind_eq_Some_conv)
  have "key_unusable a s0" by (rule decrypt_pdu_unusable(2) [OF assms(2) q(1)])
  with q(2) answer_captcha_unusable [of e i a _ s0 s'] show ?thesis by (auto split: option.splits if_splits)
qed

lemma handle_pdus_unusable: "handle_pdus e is a pdus s = Some s' \<Longrightarrow> key_unusable a s \<Longrightarrow> key_unusable a s'"
  by (induction e "is" a pdus s rule: handle_pdus.induct) (auto simp: bind_eq_Some_conv dest: am_handlePdu_unusable)

text \<open>
  C30. Encrypted PDUs end the client: the keys of an account are stored as text with the prefix \<open>0x\<close>, which \<open>hex_to_string\<close> refuses
  by an exception that nobody catches, or, before the captcha is answered, as the empty text, of which 32 bytes are
  read. Whatever PDUs an account has handled since the start, a PDU that is marked as encrypted can neither be
  received nor sent.
\<close>

theorem encrypted_pdu_fatal:
  assumes "handle_pdus e is a pdus s0 = Some s" and "ac_accounts s0 a = None" and "pdu_GetReversed pdu = 1"
  shows "am_handlePdu e i a pdu s = None \<and> (pdu_GetBodyLength pdu > 0 \<longrightarrow> am_SendPdu e i a pdu s = None)"
proof -
  have "key_unusable a s0" using assms(2) by (simp add: key_unusable_def)
  with assms(1) have u: "key_unusable a s" by (rule handle_pdus_unusable)
  obtain x s1 where g: "am_getInstance (ni_junk i) a s = (x, s1)" by (cases "am_getInstance (ni_junk i) a s")
  with unusable_getInstance(1) [OF u g] decrypt_pdu_unusable(1) [OF u assms(3)] assms(3) show ?thesis
    by (simp add: am_handlePdu_def am_SendPdu_def encrypt_pdu_def)
qed

theorem encrypted_pdu_fatal_witness:
  "am_handlePdu sample_net sample_nio 7 ((CImPdu 0)\<lparr>m_pdu_header := (m_pdu_header (CImPdu 0))\<lparr>h_reversed := 1\<rparr>\<rparr>) (client_start sample_store) = None"
  using encrypted_pdu_fatal [of sample_net "[]" 7 "[]" "client_start sample_store" "client_start sample_store"
      "(CImPdu 0)\<lparr>m_pdu_header := (m_pdu_header (CImPdu 0))\<lparr>h_reversed := 1\<rparr>\<rparr>" sample_nio]
  by (simp add: client_start_def)

section \<open>The answer to the captcha\<close>

lemma cl_SendPdu_queued:
  assumes "cn_conns s p = Some c" and "conn_out_wf (cl_conn c)" and "list_all send_fn_ok ks" and "pdu_bytes q = Some d"
    and "length (sb_contents (m_out_buf (cl_conn c))) + length d < 2147483648"
  shows "\<exists>s' k sent. cl_SendPdu garb tick ks q p s = Some (int (length d), s') \<and>
     s' = (put_client p (c\<lparr>cl_conn := k\<rparr>) s)\<lparr>cn_wire := cn_wire s @ [(p, sent)]\<rparr> \<and>
     sent @ sb_contents (m_out_buf k) = sb_contents (m_out_buf (cl_conn c)) @ d"
proof -
  from conn_Send_spec [OF assms(2,3,5), of garb tick] obtain b sent ks' k where
    "conn_Send garb tick ks d (cl_conn c) = Some (int (length d), b, sent, ks', k)" "sent @ sb_contents (m_out_buf k) = sb_contents (m_out_buf (cl_conn c)) @ d"
    by blast
  with assms(1,4) show ?thesis by (intro exI [of _ k] exI [of _ sent] exI) (simp add: cl_SendPdu_def cl_Send_def pdu_bytes_def)
qed

text \<open>An account whose entropy is known needs no file: its address is that of its phrase, unless it is already known.\<close>

definition known_address :: "net_env \<Rightarrow> bytes \<Rightarrow> client_account \<Rightarrow> bytes" where
  "known_address e d x = (if m_address (ca_account x) = [] then account_address (ne_account e) d else m_address (ca_account x))"

lemma am_address_known:
  assumes "env_good (ne_account e)" and "ac_accounts s a = Some x" and "m_entropy (ca_account x) = bytes_to_hex d" and "length d = 16"
  shows "am_address e i a s = Some (known_address e d x,
    put_account a (x\<lparr>ca_account := (ca_account x)\<lparr>m_address := known_address e d x\<rparr>\<rparr>) s)"
  using address_with_ok [OF assms(1,4,3)] assms(2)
  by (simp add: am_address_def am_getInstance_def getAccountAddress_def known_address_def put_account_def)

lemma am_phrase_known:
  assumes "env_good (ne_account e)" and "m_entropy (ca_account x) = bytes_to_hex d" and "length d = 16"
  shows "am_phrase e x = Some (account_words (ne_account e) d)"
  using account_words_ok(1) [OF assms(1,3)] assms(2) by (auto simp: am_phrase_def)

text \<open>
  C29. The client answers the captcha of a server that signed it with the key of the address it claims: the login message,
  with the captcha and the signature by the key of the account, is queued on the connection of the account behind all
  earlier bytes, and the keys of the session are stored.
\<close>

theorem client_answers_captcha:
  assumes env: "env_good (ne_account e)" "list_all send_fn_ok (ni_ks i)"
    and x: "ac_accounts s a = Some x" "m_entropy (ca_account x) = bytes_to_hex d" "length d = 16"
    and pdu: "pdu_GetReversed pdu \<noteq> 1" "pdu_GetCommandId pdu = 262" "read_captcha pdu = Some (captcha, addr, iv, aad, sig)"
    and srv: "ne_recover e sig (format_sign_msg_data captcha SignMsgType_ptp) = Some (pub, bytes_to_hex addr)" "ne_parse e pub"
    and m: "ne_login_req e (known_address e d x) captcha
      (ne_sign e (account_words (ne_account e) d) (format_sign_msg_data captcha SignMsgType_ptp)) = Some m" "length m < 2000000000"
    and c: "get_conn a s = Some p" "cn_conns s p = Some c" "conn_out_wf (cl_conn c)" "length (sb_contents (m_out_buf (cl_conn c))) < 100000000"
  shows "\<exists>s' y k q sent. am_handlePdu e i a pdu s = Some s' \<and>
    ImPdu_SetPBMsg_cmd (ni_garb i) (Some m) CID_AuthLoginReq 0 (CImPdu (ni_junk i)) = Some q \<and> pdu_body q = Some m \<and> pdu_GetCommandId q = CID_AuthLoginReq \<and>
    cn_wire s' = cn_wire s @ [(p, sent)] \<and> cn_conns s' p = Some (c\<lparr>cl_conn := k\<rparr>) \<and>
    sent @ sb_contents (m_out_buf k) = sb_contents (m_out_buf (cl_conn c)) @ pdu_contents q \<and>
    ac_accounts s' a = Some y \<and> ca_ivHex y = bytes_to_hex iv \<and> ca_aadHex y = bytes_to_hex aad \<and>
    ca_sharedKeyHex y = bytes_to_hex (ne_share e (account_words (ne_account e) d) pub)"
proof -
  let ?w = "account_words (ne_account e) d" and ?x = "x\<lparr>ca_account := (ca_account x)\<lparr>m_address := known_address e d x\<rparr>\<rparr>"
  let ?y = "?x\<lparr>ca_ivHex := bytes_to_hex iv, ca_aadHex := bytes_to_hex aad, ca_sharedKeyHex := bytes_to_hex (ne_share e ?w pub)\<rparr>"
  let ?s = "put_account a ?y s"
  have "length m < 2147483648" using m(2) by simp
  from built_pdu [OF this, of "ni_garb i" CID_AuthLoginReq 0 "ni_junk i"] obtain q where
    q: "ImPdu_SetPBMsg_cmd (ni_garb i) (Some m) CID_AuthLoginReq 0 (CImPdu (ni_junk i)) = Some q" "pdu_wf q" "pdu_GetCommandId q = CID_AuthLoginReq"
      "pdu_body q = Some m" "unat (pdu_GetLength q) = 16 + length m" "pdu_bytes q = Some (pdu_contents q)" by blast
  have rev: "pdu_GetReversed q = 0"
    using q(1) by (auto simp: ImPdu_SetPBMsg_cmd_def pdu_reset_def pdu_append_def pdu_WriteHeader_def pdu_with_buffer_def CImPdu_def Let_def bind_eq_Some_conv)
  have "length (sb_contents (m_out_buf (cl_conn c))) + length (pdu_contents q) < 2147483648"
    using c(4) m(2) q(5) pdu_GetLength_contents [OF q(2)] by simp
  moreover have "cn_conns ?s p = Some c" using c(2) by (simp add: put_account_def)
  ultimately obtain s' k sent where s': "cl_SendPdu (ni_garb i) (ni_tick i) (ni_ks i) q p ?s = Some (int (length (pdu_contents q)), s')"
    "s' = (put_client p (c\<lparr>cl_conn := k\<rparr>) ?s)\<lparr>cn_wire := cn_wire ?s @ [(p, sent)]\<rparr>"
    "sent @ sb_contents (m_out_buf k) = sb_contents (m_out_buf (cl_conn c)) @ pdu_contents q"
    using cl_SendPdu_queued [OF _ c(3) env(2) q(6)] by blast
  have conn: "get_conn a ?s = Some p" using c(1) by (simp add: get_conn_def put_account_def)
  have ph: "am_phrase e z = Some ?w" if "m_entropy (ca_account z) = m_entropy (ca_account x)" for z
    using am_phrase_known [OF env(1) _ x(3)] that x(2) by simp
  have "am_SendPdu e i a q ?s = Some (int (length (pdu_contents q)), s')"
    using s'(1) conn rev by (simp add: am_SendPdu_def am_send_def am_getInstance_def put_account_def)
  then have "answer_captcha e i a pdu s = Some s'"
    using am_address_known [OF env(1) x] pdu(3) srv q(1) m(1) ph
    by (simp add: answer_captcha_def am_getInstance_def put_account_def createShareKey_def signMessage_def Let_def)
  then have "am_handlePdu e i a pdu s = Some s'"
    using pdu(1,2) x(1) by (simp add: am_handlePdu_def decrypt_pdu_def am_getInstance_def)
  with s'(2,3) q(1,3,4) show ?thesis by (auto simp: put_account_def put_client_def)
qed

text \<open>A captcha with its fields at their places, and a client whose connection for account 7 is open.\<close>

definition sample_captcha :: im_pdu where
  "sample_captcha = \<lparr>m_buf = \<lparr>m_buffer = replicate 16 0 @ [10, 6] @ [49, 50, 51, 52, 53, 54] @ [18, 20] @ replicate 20 4 @ [26, 16] @ replicate 16 8 @
       [34, 16] @ replicate 16 9 @ [42, 65] @ replicate 65 3, m_alloc_size = 149, m_write_offset = 149\<rparr>,
     m_pdu_header = \<lparr>h_length = 149, h_version = 1, h_flag = 0, h_command_id = 262, h_seq_num = 0, h_reversed = 0\<rparr>\<rparr>"

definition sample_client :: account_client where
  "sample_client = (client_start sample_store)\<lparr>cn_state := ConnectionStateConnected,
     cn_conns := [0 \<mapsto> (new_conn 0 3 7)\<lparr>cl_bOpen := True\<rparr>], cn_fresh := 1, cn_map := [(3, 0)], cn_accounts := [(7, 0)], cn_current := 7,
     ac_accounts := [7 \<mapsto> \<lparr>ca_account = (AccountManager 7)\<lparr>m_entropy := bytes_to_hex (replicate 16 7)\<rparr>, ca_connectionState = ConnectionStateClosed,
       ca_instanceNum = 0, ca_ivHex = [], ca_aadHex = [], ca_sharedKeyHex = []\<rparr>]\<rparr>"

theorem client_answers_captcha_witness:
  "\<exists>s' y sent. am_handlePdu sample_net sample_nio 7 sample_captcha sample_client = Some s' \<and> cn_wire s' = [(0, sent)] \<and>
     ac_accounts s' 7 = Some y \<and> ca_ivHex y = bytes_to_hex (replicate 16 8)"
proof -
  let ?x = "\<lparr>ca_account = (AccountManager 7)\<lparr>m_entropy := bytes_to_hex (replicate 16 7)\<rparr>, ca_connectionState = ConnectionStateClosed,
       ca_instanceNum = 0, ca_ivHex = [], ca_aadHex = [], ca_sharedKeyHex = []\<rparr>"
  let ?d = "replicate 16 (7 :: byte)" and ?c = "(new_conn 0 3 7)\<lparr>cl_bOpen := True\<rparr>" and ?cap = "[49, 50, 51, 52, 53, 54] :: bytes"
  let ?m = "known_address sample_net ?d ?x @ ?cap @ replicate 65 5"
  have env: "env_good (ne_account sample_net)" "list_all send_fn_ok (ni_ks sample_nio)" using Account_Store.sample_ok(1) by (simp_all add: sample_net_def sample_nio_def)
  have x: "ac_accounts sample_client 7 = Some ?x" "m_entropy (ca_account ?x) = bytes_to_hex ?d" "length ?d = 16" by (simp_all add: sample_client_def)
  have pdu: "pdu_GetReversed sample_captcha \<noteq> 1" "pdu_GetCommandId sample_captcha = 262"
    "read_captcha sample_captcha = Some (?cap, replicate 20 4, replicate 16 8, replicate 16 9, replicate 65 3)"
    by (simp_all add: sample_captcha_def read_captcha_def pdu_GetBuffer_def mem_read_def)
  have srv: "ne_recover sample_net (replicate 65 3) (format_sign_msg_data ?cap SignMsgType_ptp) = Some (replicate 33 2, bytes_to_hex (replicate 20 4))"
    "ne_parse sample_net (replicate 33 2)" by (simp_all add: sample_net_def)
  have "known_address sample_net ?d ?x = [48, 120, 49]"
    by (simp add: known_address_def AccountManager_def account_address_def sample_net_def Account_Store.sample_env_def)
  then have m: "ne_login_req sample_net (known_address sample_net ?d ?x) ?cap
      (ne_sign sample_net (account_words (ne_account sample_net) ?d) (format_sign_msg_data ?cap SignMsgType_ptp)) = Some ?m" "length ?m < 2000000000"
    by (simp_all add: sample_net_def)
  have c: "get_conn 7 sample_client = Some 0" "cn_conns sample_client 0 = Some ?c" "conn_out_wf (cl_conn ?c)" "length (sb_contents (m_out_buf (cl_conn ?c))) < 100000000"
    by (simp_all add: sample_client_def get_conn_def new_conn_def conn_out_wf_def CImConn_def sb_contents_def CSimpleBuffer_def sb_wf_def)
  have "cn_wire sample_client = []" by (simp add: sample_client_def client_start_def)
  with client_answers_captcha [OF env x pdu srv m c] show ?thesis by fastforce
qed

text \<open>Nothing is sent, and no key is made, for a server that does not prove its address.\<close>

lemma captcha_unproved:
  assumes "answer_captcha e i a pdu s = Some s'" and "read_captcha pdu = Some (captcha, addr, iv, aad, sig)"
    and "\<nexists>pub. ne_recover e sig (format_sign_msg_data captcha SignMsgType_ptp) = Some (pub, bytes_to_hex addr)"
  shows "cn_wire s' = cn_wire s"
proof -
  have g: "cn_wire s2 = cn_wire s1" if "am_getInstance junk a s1 = (x, s2)" for junk x and s1 s2 :: account_client
    using that by (auto simp: am_getInstance_def Let_def put_account_def split: option.splits)
  from assms(1) obtain address s1 where s1: "am_address e i a s = Some (address, s1)" by (auto simp: answer_captcha_def split: bind_splits)
  then have w: "cn_wire s1 = cn_wire s" by (auto simp: am_address_def put_account_def split: bind_splits prod.splits dest: g)
  obtain x s2 where g2: "am_getInstance (ni_junk i) a s1 = (x, s2)" by (cases "am_getInstance (ni_junk i) a s1")
  let ?s3 = "put_account a (x\<lparr>ca_ivHex := bytes_to_hex iv, ca_aadHex := bytes_to_hex aad\<rparr>) s2"
  from assms s1 g2 have "s' = ?s3 \<or> am_closeSocket (ni_junk i) a ?s3 = Some s'"
    by (auto simp: answer_captcha_def Let_def split: option.splits prod.splits if_splits)
  then have "cn_wire s' = cn_wire ?s3" by (auto simp: am_closeSocket_def split: prod.splits if_splits dest: g)
  with w g [OF g2] show ?thesis by (simp add: put_account_def)
qed

text \<open>The delegate is handed a buffer that already belongs to the pool, or is deleted.\<close>

lemma notified_buffer_free:
  assumes "am_onNotify p s = Some s'" and "ac_delegate s" and "bst_heap (st_pool (ac_store s)) p = Some b" and "\<not> sliced b"
  shows "\<exists>k. p \<in> set (bst_free (st_pool (ac_store s')) k) \<or> bst_heap (st_pool (ac_store s')) p = None"
proof -
  have "\<not> sliced (nb_set_position 0 b)" using assms(4) by (simp add: nb_set_position_def)
  with assms(1-3) show ?thesis
    by (auto simp: am_onNotify_def nb_reuse_def reuseFreeBuffer_def bst_push_def bst_delete_def Let_def split: option.splits if_splits prod.splits)
qed

end
