(* ===== verification/Thread_Pool.thy ===== *)
theory Thread_Pool
  imports Ptp_Prelude
begin

text \<open>
  \<^verbatim>\<open>src/ptp_global/ThreadPool.h\<close> and \<^verbatim>\<open>src/ptp_global/ThreadPool.cpp\<close>: worker threads with a task
  queue each, and the pool that distributes tasks at random.

  Tasks are addresses. Every section under the mutex of a worker is one step; a task runs
  between two such sections, so the state of a worker has the task it runs, if any, and (not in
  the code) the tasks it has run and deleted, in order. The random number is an argument.
\<close>

section \<open>CWorkerThread\<close>

record worker =
  m_thread_idx :: u32
  m_task_cnt :: u32
  m_task_list :: "nat list"
  w_started :: bool
  w_running :: "nat option"
  w_done :: "nat list"

definition CWorkerThread :: worker where
  "CWorkerThread = \<lparr>m_thread_idx = 0, m_task_cnt = 0, m_task_list = [], w_started = False,
     w_running = None, w_done = []\<rparr>"

definition worker_SetThreadIdx :: "u32 \<Rightarrow> worker \<Rightarrow> worker" where
  "worker_SetThreadIdx i w = w\<lparr>m_thread_idx := i\<rparr>"

definition worker_Start :: "worker \<Rightarrow> worker" where
  "worker_Start w = w\<lparr>w_started := True\<rparr>"

definition PushTask :: "nat \<Rightarrow> worker \<Rightarrow> worker" where
  "PushTask t w = w\<lparr>m_task_list := m_task_list w @ [t]\<rparr>"

text \<open>
  One round of the loop of \<open>Execute\<close> has two atomic parts: taking the first task (while the list is
  empty the thread waits: no step), and running and deleting it.
\<close>

definition Execute_take :: "worker \<Rightarrow> worker option" where
  "Execute_take w =
     (if w_started w \<and> w_running w = None then
        (case m_task_list w of [] \<Rightarrow> None | t # ts \<Rightarrow> Some (w\<lparr>m_task_list := ts, w_running := Some t\<rparr>))
      else None)"

definition Execute_run :: "worker \<Rightarrow> worker option" where
  "Execute_run w =
     (case w_running w of
        None \<Rightarrow> None
      | Some t \<Rightarrow> Some (w\<lparr>w_running := None, w_done := w_done w @ [t], m_task_cnt := m_task_cnt w + 1\<rparr>))"

section \<open>CThreadPool\<close>

record thread_pool =
  m_worker_size :: u32
  m_worker_list :: "worker list option"

definition CThreadPool :: thread_pool where
  "CThreadPool = \<lparr>m_worker_size = 0, m_worker_list = None\<rparr>"

definition tp_Init :: "u32 \<Rightarrow> thread_pool \<Rightarrow> int \<times> thread_pool" where
  "tp_Init worker_size p =
     (0, p\<lparr>m_worker_size := worker_size,
          m_worker_list := Some (map (\<lambda>i. worker_Start (worker_SetThreadIdx (of_nat i) CWorkerThread)) [0..<unat worker_size])\<rparr>)"

text \<open>\<open>None\<close> is a division by zero or an access outside the worker array.\<close>

definition AddTask :: "u32 \<Rightarrow> nat \<Rightarrow> thread_pool \<Rightarrow> thread_pool option" where
  "AddTask random t p = do {
     ws \<leftarrow> m_worker_list p;
     if m_worker_size p = 0 then None
     else
       (let thread_idx = unat (random mod m_worker_size p)
        in if thread_idx < length ws
           then Some (p\<lparr>m_worker_list := Some (ws[thread_idx := PushTask t (ws ! thread_idx)])\<rparr>) else None) }"

text \<open>\<open>Destory\<close> deletes the worker objects; their threads are not stopped.\<close>

definition tp_Destory :: "thread_pool \<Rightarrow> thread_pool" where
  "tp_Destory p = p\<lparr>m_worker_list := map_option (\<lambda>_. []) (m_worker_list p)\<rparr>"

section \<open>Steps\<close>

text \<open>The label of \<open>AddTask\<close> names the worker the random number selects.\<close>

datatype tp_label = Add nat nat | Take nat | Run nat

inductive tp_step :: "thread_pool \<Rightarrow> tp_label \<Rightarrow> thread_pool \<Rightarrow> bool" where
  add: "AddTask r t p = Some p' \<Longrightarrow> i = unat (r mod m_worker_size p) \<Longrightarrow> tp_step p (Add i t) p'"
| take_task: "m_worker_list p = Some ws \<Longrightarrow> i < length ws \<Longrightarrow> Execute_take (ws ! i) = Some w \<Longrightarrow>
     tp_step p (Take i) (p\<lparr>m_worker_list := Some (ws[i := w])\<rparr>)"
| run_task: "m_worker_list p = Some ws \<Longrightarrow> i < length ws \<Longrightarrow> Execute_run (ws ! i) = Some w \<Longrightarrow>
     tp_step p (Run i) (p\<lparr>m_worker_list := Some (ws[i := w])\<rparr>)"

inductive tp_steps :: "thread_pool \<Rightarrow> tp_label list \<Rightarrow> thread_pool \<Rightarrow> bool" where
  stop: "tp_steps p [] p"
| go: "tp_steps p ls q \<Longrightarrow> tp_step q l q' \<Longrightarrow> tp_steps p (ls @ [l]) q'"

text \<open>The tasks given to worker \<open>i\<close>, in the order of arrival, and those it has, in that order.\<close>

fun arrivals :: "nat \<Rightarrow> tp_label list \<Rightarrow> nat list" where
  "arrivals i [] = []"
| "arrivals i (Add j t # ls) = (if i = j then [t] else []) @ arrivals i ls"
| "arrivals i (l # ls) = arrivals i ls"

definition w_history :: "worker \<Rightarrow> nat list" where
  "w_history w = w_done w @ (case w_running w of None \<Rightarrow> [] | Some t \<Rightarrow> [t]) @ m_task_list w"

fun is_add :: "tp_label \<Rightarrow> bool" where
  "is_add (Add i t) = True"
| "is_add _ = False"

text \<open>What still has to happen: two steps per waiting task, one per running task.\<close>

definition w_work :: "worker \<Rightarrow> nat" where
  "w_work w = 2 * length (m_task_list w) + (if w_running w = None then 0 else 1)"

definition pool_work :: "thread_pool \<Rightarrow> nat" where
  "pool_work p = (case m_worker_list p of None \<Rightarrow> 0 | Some ws \<Rightarrow> sum_list (map w_work ws))"

definition tp_wf :: "thread_pool \<Rightarrow> bool" where
  "tp_wf p \<longleftrightarrow> (case m_worker_list p of None \<Rightarrow> False
     | Some ws \<Rightarrow> length ws = unat (m_worker_size p) \<and> list_all (\<lambda>w. w_started w) ws)"

definition pool2 :: thread_pool where
  "pool2 = the (AddTask 3 7 (snd (tp_Init 2 CThreadPool)))"

section \<open>Lemmas\<close>

lemma tp_wf_cases:
  assumes "tp_wf p"
  obtains ws where "m_worker_list p = Some ws" "length ws = unat (m_worker_size p)" "\<forall>w \<in> set ws. w_started w"
  using assms by (auto simp: tp_wf_def list_all_iff split: option.splits)

lemma tp_Init_wf: "tp_wf (snd (tp_Init n p))"
  by (auto simp: tp_Init_def tp_wf_def worker_Start_def list_all_iff)

lemma AddTask_Some:
  assumes "tp_wf p" and "m_worker_size p > 0" and "m_worker_list p = Some ws"
  shows "AddTask r t p = Some (p\<lparr>m_worker_list :=
    Some (ws[unat (r mod m_worker_size p) := PushTask t (ws ! unat (r mod m_worker_size p))])\<rparr>)"
proof -
  have "unat (r mod m_worker_size p) < unat (m_worker_size p)"
    using assms(2) by (simp add: unat_mod word_less_nat_alt)
  with assms show ?thesis by (auto simp: AddTask_def tp_wf_def Let_def)
qed

lemma worker_ops_started:
  "w_started (PushTask t w) = w_started w"
  "Execute_take w = Some w' \<Longrightarrow> w_started w' = w_started w"
  "Execute_run w = Some w' \<Longrightarrow> w_started w' = w_started w"
  by (auto simp: PushTask_def Execute_take_def Execute_run_def split: if_splits list.splits option.splits)

lemma worker_ops_history:
  "w_history (PushTask t w) = w_history w @ [t]"
  "Execute_take w = Some w' \<Longrightarrow> w_history w' = w_history w"
  "Execute_run w = Some w' \<Longrightarrow> w_history w' = w_history w"
  by (auto simp: w_history_def PushTask_def Execute_take_def Execute_run_def split: if_splits list.splits option.splits)

lemma worker_ops_work:
  "Execute_take w = Some w' \<Longrightarrow> w_work w = w_work w' + 1"
  "Execute_run w = Some w' \<Longrightarrow> w_work w = w_work w' + 1"
  by (auto simp: w_work_def Execute_take_def Execute_run_def split: if_splits list.splits option.splits)

text \<open>A step replaces one worker: by one with a longer history, or the same history and less work.\<close>

lemma tp_step_cases:
  assumes "tp_step p l p'" and "tp_wf p"
  obtains ws i w where "m_worker_list p = Some ws" "i < length ws" "p' = p\<lparr>m_worker_list := Some (ws[i := w])\<rparr>"
    "w_started w" "w_history w = w_history (ws ! i) @ arrivals i [l]" "\<forall>j. j \<noteq> i \<longrightarrow> arrivals j [l] = []"
    "\<not> is_add l \<Longrightarrow> w_work (ws ! i) = w_work w + 1"
  using assms(1)
proof (cases rule: tp_step.cases)
  case (add r t i)
  from add(2) obtain ws where ws: "m_worker_list p = Some ws" "m_worker_size p \<noteq> 0"
    by (auto simp: AddTask_def split: bind_splits if_splits)
  have i: "i < length ws"
    using add(2) ws by (auto simp: AddTask_def add(3) Let_def split: if_splits)
  with add ws assms(2) show ?thesis
    by (intro that [of ws i "PushTask t (ws ! i)"])
      (auto simp: AddTask_def Let_def worker_ops_started worker_ops_history tp_wf_def list_all_iff split: if_splits)
next
  case (take_task ws i w)
  then show ?thesis using assms(2)
    by (intro that [of ws i w])
      (auto simp: worker_ops_started worker_ops_history worker_ops_work tp_wf_def list_all_iff)
next
  case (run_task ws i w)
  then show ?thesis using assms(2)
    by (intro that [of ws i w])
      (auto simp: worker_ops_started worker_ops_history worker_ops_work tp_wf_def list_all_iff)
qed

lemma tp_step_wf: "tp_step p l p' \<Longrightarrow> tp_wf p \<Longrightarrow> tp_wf p' \<and> m_worker_size p' = m_worker_size p"
  by (erule (1) tp_step_cases) (auto simp: tp_wf_def list_all_iff dest: set_update_subset_insert [THEN subsetD])

lemma arrivals_append: "arrivals i (ls @ ls') = arrivals i ls @ arrivals i ls'"
  by (induction i ls rule: arrivals.induct) auto

lemma sum_work_update:
  "i < length ws \<Longrightarrow> w_work (ws ! i) = w_work w + 1 \<Longrightarrow>
   sum_list (map w_work ws) = sum_list (map w_work (ws[i := w])) + 1"
  by (induction ws arbitrary: i) (auto split: nat.splits)

lemma tp_steps_history:
  assumes "tp_steps p ls q" and "tp_wf p" and "m_worker_list p = Some ws" and "\<forall>w \<in> set ws. w_history w = []"
  shows "tp_wf q \<and> m_worker_size q = m_worker_size p \<and>
     (\<exists>vs. m_worker_list q = Some vs \<and> (\<forall>i < length vs. w_history (vs ! i) = arrivals i ls))"
  using assms
proof (induction rule: tp_steps.induct)
  case (go p ls q l q')
  then obtain vs where q: "tp_wf q" "m_worker_list q = Some vs" "m_worker_size q = m_worker_size p"
    and h: "\<forall>i < length vs. w_history (vs ! i) = arrivals i ls" by auto
  from go(2) q(1) show ?case
  proof (rule tp_step_cases)
    fix us i w
    assume a: "m_worker_list q = Some us" "i < length us" "q' = q\<lparr>m_worker_list := Some (us[i := w])\<rparr>"
      "w_history w = w_history (us ! i) @ arrivals i [l]" "\<forall>j. j \<noteq> i \<longrightarrow> arrivals j [l] = []"
    have "w_history (us[i := w] ! k) = arrivals k (ls @ [l])" if "k < length us" for k
      using a h q(2) that by (auto simp: nth_list_update arrivals_append)
    with tp_step_wf [OF go(2) q(1)] a(3) q(3) show ?thesis by auto
  qed
qed auto

lemma tp_steps_work:
  assumes "tp_steps p ls q" and "tp_wf p" and "\<forall>l \<in> set ls. \<not> is_add l"
  shows "tp_wf q \<and> length ls + pool_work q = pool_work p"
  using assms
proof (induction rule: tp_steps.induct)
  case (go p ls q l q')
  then have q: "tp_wf q" "length ls + pool_work q = pool_work p" "\<not> is_add l" by auto
  from go(2) q(1) have "pool_work q = pool_work q' + 1"
    by (rule tp_step_cases) (use q(3) in \<open>auto simp: pool_work_def dest: sum_work_update\<close>)
  with q tp_step_wf [OF go(2) q(1)] show ?case by simp
qed simp

lemma work_enabled:
  assumes "tp_wf p" and "pool_work p > 0"
  shows "\<exists>l p'. \<not> is_add l \<and> tp_step p l p'"
proof -
  obtain ws where ws: "m_worker_list p = Some ws" "\<forall>w \<in> set ws. w_started w"
    using assms(1) by (auto elim: tp_wf_cases)
  have "\<exists>w \<in> set ws. w_work w > 0"
  proof (rule ccontr)
    assume "\<not> ?thesis"
    then have "sum_list (map w_work ws) = 0" by simp
    with assms(2) ws(1) show False by (simp add: pool_work_def)
  qed
  then obtain w where "w \<in> set ws" "w_work w > 0" by blast
  then obtain i where i: "i < length ws" "w_work (ws ! i) > 0" "w_started (ws ! i)"
    using ws(2) by (metis in_set_conv_nth)
  show ?thesis
  proof (cases "w_running (ws ! i)")
    case None
    with i obtain w' where "Execute_take (ws ! i) = Some w'"
      by (cases "m_task_list (ws ! i)") (auto simp: w_work_def Execute_take_def)
    with tp_step.take_task [OF ws(1) i(1)] show ?thesis by (metis is_add.simps(2))
  next
    case (Some t)
    then obtain w' where "Execute_run (ws ! i) = Some w'" by (simp add: Execute_run_def)
    with tp_step.run_task [OF ws(1) i(1)] show ?thesis by (metis is_add.simps(3))
  qed
qed

lemma tp_Init_history: "m_worker_list (snd (tp_Init n p)) = Some ws \<Longrightarrow> \<forall>w \<in> set ws. w_history w = []"
  by (auto simp: tp_Init_def w_history_def worker_Start_def worker_SetThreadIdx_def CWorkerThread_def)

section \<open>Properties\<close>

text \<open>
  C37. Under any interleaving of \<open>AddTask\<close> and the worker threads, every worker has run, runs or
  still holds exactly the tasks it was given, each once, and runs them in the order of arrival.
\<close>

theorem thread_pool_fifo:
  assumes "tp_steps (snd (tp_Init n CThreadPool)) ls q"
  shows "\<exists>ws. m_worker_list q = Some ws \<and> length ws = unat n \<and>
     (\<forall>i < length ws. w_done (ws ! i) @ (case w_running (ws ! i) of None \<Rightarrow> [] | Some t \<Rightarrow> [t])
        @ m_task_list (ws ! i) = arrivals i ls)"
proof -
  obtain ws where ws: "m_worker_list (snd (tp_Init n CThreadPool)) = Some ws" by (simp add: tp_Init_def)
  from tp_steps_history [OF assms tp_Init_wf ws tp_Init_history [OF ws]] show ?thesis
    by (auto simp: tp_wf_def w_history_def tp_Init_def)
qed


lemma pool2_steps: "tp_steps (snd (tp_Init 2 CThreadPool)) [Add 1 7] pool2"
proof -
  have "AddTask 3 7 (snd (tp_Init 2 CThreadPool)) = Some pool2"
    by (simp add: pool2_def AddTask_def tp_Init_def)
  from tp_step.add [OF this] have "tp_step (snd (tp_Init 2 CThreadPool)) (Add 1 7) pool2"
    by (simp add: tp_Init_def)
  from tp_steps.go [OF tp_steps.stop this] show ?thesis by simp
qed

theorem thread_pool_fifo_witness:
  "\<exists>ws. m_worker_list pool2 = Some ws \<and> length ws = 2 \<and>
     w_done (ws ! 1) @ (case w_running (ws ! 1) of None \<Rightarrow> [] | Some t \<Rightarrow> [t]) @ m_task_list (ws ! 1) = [7]"
  using thread_pool_fifo [OF pool2_steps] by fastforce


text \<open>A pool of no workers divides by zero on its first task.\<close>

lemma AddTask_empty_pool: "AddTask r t (snd (tp_Init 0 CThreadPool)) = None"
  by (simp add: AddTask_def tp_Init_def)

end
