(* ===== verification/Event_Timers.thy ===== *)
theory Event_Timers
  imports Ptp_Prelude
begin

text \<open>
  The timers and loop callbacks of \<open>CEventDispatch\<close> (\<^verbatim>\<open>src/ptp_global/EventDispatch.h\<close> and
  \<^verbatim>\<open>src/ptp_global/EventDispatch.cpp\<close>). A timer is identified by its callback and user data.
  The nodes of \<open>std::list\<close> have identities, because \<open>_CheckTimer\<close> keeps an iterator across
  callbacks that may erase nodes; dereferencing the iterator of an erased node is the result
  \<open>Undef\<close>. What a callback does to the timers is an argument: the list of its calls. The ticks
  \<open>get_tick_count\<close> returns are arguments.
\<close>

section \<open>State\<close>

record timer_item =
  ti_callback :: nat
  ti_user_data :: nat
  ti_interval :: u64
  ti_next_tick :: u64

record timers =
  m_timer_list :: "(nat \<times> timer_item) list"
  tm_next :: nat
  m_loop_list :: "(nat \<times> nat) list"

definition is_timer :: "nat \<Rightarrow> nat \<Rightarrow> timer_item \<Rightarrow> bool" where
  "is_timer cb ud i \<longleftrightarrow> ti_callback i = cb \<and> ti_user_data i = ud"

section \<open>Operations\<close>

fun set_timer :: "nat \<Rightarrow> nat \<Rightarrow> u64 \<Rightarrow> u64 \<Rightarrow> (nat \<times> timer_item) list \<Rightarrow> (nat \<times> timer_item) list option" where
  "set_timer cb ud iv tick [] = None"
| "set_timer cb ud iv tick ((n, i) # l) =
     (if is_timer cb ud i then Some ((n, i\<lparr>ti_interval := iv, ti_next_tick := tick + iv\<rparr>) # l)
      else map_option (Cons (n, i)) (set_timer cb ud iv tick l))"

definition AddTimer :: "u64 \<Rightarrow> nat \<Rightarrow> nat \<Rightarrow> u64 \<Rightarrow> timers \<Rightarrow> timers" where
  "AddTimer tick cb ud iv s =
     (case set_timer cb ud iv tick (m_timer_list s) of
        Some l \<Rightarrow> s\<lparr>m_timer_list := l\<rparr>
      | None \<Rightarrow>
          s\<lparr>m_timer_list := m_timer_list s @
              [(tm_next s, \<lparr>ti_callback = cb, ti_user_data = ud, ti_interval = iv, ti_next_tick = tick + iv\<rparr>)],
            tm_next := tm_next s + 1\<rparr>)"

fun erase_timer :: "nat \<Rightarrow> nat \<Rightarrow> (nat \<times> timer_item) list \<Rightarrow> (nat \<times> timer_item) list" where
  "erase_timer cb ud [] = []"
| "erase_timer cb ud ((n, i) # l) = (if is_timer cb ud i then l else (n, i) # erase_timer cb ud l)"

definition RemoveTimer :: "nat \<Rightarrow> nat \<Rightarrow> timers \<Rightarrow> timers" where
  "RemoveTimer cb ud s = s\<lparr>m_timer_list := erase_timer cb ud (m_timer_list s)\<rparr>"

definition AddLoop :: "nat \<Rightarrow> nat \<Rightarrow> timers \<Rightarrow> timers" where
  "AddLoop cb ud s = s\<lparr>m_loop_list := m_loop_list s @ [(cb, ud)]\<rparr>"

text \<open>The calls a callback makes.\<close>

datatype timer_op = TAdd u64 nat nat u64 | TRemove nat nat | TLoop nat nat

fun timer_op_step :: "timer_op \<Rightarrow> timers \<Rightarrow> timers" where
  "timer_op_step (TAdd tick cb ud iv) s = AddTimer tick cb ud iv s"
| "timer_op_step (TRemove cb ud) s = RemoveTimer cb ud s"
| "timer_op_step (TLoop cb ud) s = AddLoop cb ud s"

definition timer_ops :: "timer_op list \<Rightarrow> timers \<Rightarrow> timers" where
  "timer_ops xs s = fold timer_op_step xs s"

section \<open>CheckTimer and CheckLoop\<close>

text \<open>The iterator is the identity of a node, \<open>None\<close> at the end.\<close>

definition first_node :: "(nat \<times> timer_item) list \<Rightarrow> nat option" where
  "first_node l = (case l of [] \<Rightarrow> None | (n, _) # _ \<Rightarrow> Some n)"

fun next_node :: "nat \<Rightarrow> (nat \<times> timer_item) list \<Rightarrow> nat option" where
  "next_node n [] = None"
| "next_node n ((k, i) # l) = (if k = n then first_node l else next_node n l)"

fun put_node :: "nat \<Rightarrow> timer_item \<Rightarrow> (nat \<times> timer_item) list \<Rightarrow> (nat \<times> timer_item) list" where
  "put_node n i [] = []"
| "put_node n i ((k, j) # l) = (if k = n then (k, i) # l else (k, j) # put_node n i l)"

definition tick_item :: "timer_item \<Rightarrow> timer_item" where
  "tick_item i = i\<lparr>ti_next_tick := ti_next_tick i + ti_interval i\<rparr>"

datatype check_result = Undef | Fuel | Done timers "(nat \<times> nat) list"

text \<open>
  The loop may run forever, when callbacks keep adding timers that are due; the first argument
  bounds its rounds. The last argument collects the callbacks made.
\<close>

fun check_timer_loop ::
  "nat \<Rightarrow> (nat \<Rightarrow> nat \<Rightarrow> timer_op list) \<Rightarrow> u64 \<Rightarrow> nat option \<Rightarrow> timers \<Rightarrow> (nat \<times> nat) list \<Rightarrow> check_result" where
  "check_timer_loop fuel act curr_tick None s called = Done s called"
| "check_timer_loop 0 act curr_tick (Some n) s called = Fuel"
| "check_timer_loop (Suc fuel) act curr_tick (Some n) s called =
     (case map_of (m_timer_list s) n of
        None \<Rightarrow> Undef
      | Some i \<Rightarrow>
          (let it = next_node n (m_timer_list s)
           in if curr_tick \<ge> ti_next_tick i then
                (let s1 = s\<lparr>m_timer_list := put_node n (tick_item i) (m_timer_list s)\<rparr>;
                     s2 = timer_ops (act (ti_callback i) (ti_user_data i)) s1
                 in check_timer_loop fuel act curr_tick it s2 (called @ [(ti_callback i, ti_user_data i)]))
              else check_timer_loop fuel act curr_tick it s called))"

definition CheckTimer :: "nat \<Rightarrow> (nat \<Rightarrow> nat \<Rightarrow> timer_op list) \<Rightarrow> u64 \<Rightarrow> timers \<Rightarrow> check_result" where
  "CheckTimer fuel act curr_tick s =
     check_timer_loop fuel act curr_tick (first_node (m_timer_list s)) s []"

text \<open>Loop callbacks are never removed, so the iterator stays valid; a callback may add some.\<close>

fun check_loop_loop ::
  "nat \<Rightarrow> (nat \<Rightarrow> nat \<Rightarrow> timer_op list) \<Rightarrow> nat \<Rightarrow> timers \<Rightarrow> (nat \<times> nat) list \<Rightarrow> check_result" where
  "check_loop_loop 0 act k s called = (if k < length (m_loop_list s) then Fuel else Done s called)"
| "check_loop_loop (Suc fuel) act k s called =
     (if k < length (m_loop_list s) then
        (let (cb, ud) = m_loop_list s ! k
         in check_loop_loop fuel act (k + 1) (timer_ops (act cb ud) s) (called @ [(cb, ud)]))
      else Done s called)"

definition CheckLoop :: "nat \<Rightarrow> (nat \<Rightarrow> nat \<Rightarrow> timer_op list) \<Rightarrow> timers \<Rightarrow> check_result" where
  "CheckLoop fuel act s = check_loop_loop fuel act 0 s []"

section \<open>Specification\<close>

definition timer_key :: "timer_item \<Rightarrow> nat \<times> nat" where
  "timer_key i = (ti_callback i, ti_user_data i)"

text \<open>One node per timer, one timer per callback and user data.\<close>

definition timers_wf :: "timers \<Rightarrow> bool" where
  "timers_wf s \<longleftrightarrow> distinct (map fst (m_timer_list s)) \<and> distinct (map (timer_key \<circ> snd) (m_timer_list s))
     \<and> list_all (\<lambda>(n, i). n < tm_next s) (m_timer_list s)"

text \<open>The abstract view: interval and next tick of every timer.\<close>

definition timer_map :: "timers \<Rightarrow> (nat \<times> nat \<rightharpoonup> u64 \<times> u64)" where
  "timer_map s = map_of (map (\<lambda>(n, i). (timer_key i, (ti_interval i, ti_next_tick i))) (m_timer_list s))"

fun timer_map_op :: "timer_op \<Rightarrow> (nat \<times> nat \<rightharpoonup> u64 \<times> u64) \<Rightarrow> (nat \<times> nat \<rightharpoonup> u64 \<times> u64)" where
  "timer_map_op (TAdd tick cb ud iv) m = m((cb, ud) \<mapsto> (iv, tick + iv))"
| "timer_map_op (TRemove cb ud) m = m((cb, ud) := None)"
| "timer_map_op (TLoop cb ud) m = m"

definition is_due :: "u64 \<Rightarrow> timer_item \<Rightarrow> bool" where
  "is_due curr_tick i \<longleftrightarrow> ti_next_tick i \<le> curr_tick"

text \<open>What a check leaves of a timer when callbacks at most remove their own timer.\<close>

definition after_check ::
  "(nat \<Rightarrow> nat \<Rightarrow> timer_op list) \<Rightarrow> u64 \<Rightarrow> nat \<times> timer_item \<Rightarrow> (nat \<times> timer_item) list" where
  "after_check act curr_tick ni =
     (let (n, i) = ni
      in if \<not> is_due curr_tick i then [(n, i)]
         else if act (ti_callback i) (ti_user_data i) = [] then [(n, tick_item i)]
         else [])"

abbreviation timer_entry :: "nat \<times> timer_item \<Rightarrow> (nat \<times> nat) \<times> u64 \<times> u64" where
  "timer_entry \<equiv> \<lambda>(n, i). (timer_key i, (ti_interval i, ti_next_tick i))"

definition no_timers :: timers where
  "no_timers = \<lparr>m_timer_list = [], tm_next = 0, m_loop_list = []\<rparr>"

definition once :: "nat \<Rightarrow> nat \<Rightarrow> timer_op list" where
  "once cb ud = (if cb = 1 then [TRemove cb ud] else [])"

section \<open>Lemmas\<close>

lemma is_timer_key: "is_timer cb ud i \<longleftrightarrow> timer_key i = (cb, ud)"
  by (auto simp: is_timer_def timer_key_def)

lemma set_timer_None: "set_timer cb ud iv tick l = None \<longleftrightarrow> (cb, ud) \<notin> (timer_key \<circ> snd) ` set l"
  by (induction cb ud iv tick l rule: set_timer.induct) (auto simp: is_timer_key)

lemma set_timer_Some:
  "set_timer cb ud iv tick l = Some l' \<Longrightarrow> map fst l' = map fst l \<and> map (timer_key \<circ> snd) l' = map (timer_key \<circ> snd) l"
  by (induction cb ud iv tick l arbitrary: l' rule: set_timer.induct)
    (auto simp: is_timer_key timer_key_def split: if_splits)

lemma erase_timer_subset: "set (erase_timer cb ud l) \<subseteq> set l"
  by (induction cb ud l rule: erase_timer.induct) auto

lemma erase_timer_distinct: "distinct (map f l) \<Longrightarrow> distinct (map f (erase_timer cb ud l))"
  by (induction cb ud l rule: erase_timer.induct) (auto dest: erase_timer_subset [THEN subsetD])

lemma nodes_below_iff: "list_all (\<lambda>(n, i). n < k) l \<longleftrightarrow> (\<forall>n \<in> set (map fst l). n < k)"
  by (auto simp: list_all_iff)

lemma AddTimer_wf: "timers_wf s \<Longrightarrow> timers_wf (AddTimer tick cb ud iv s)"
proof (cases "set_timer cb ud iv tick (m_timer_list s)")
  case None
  assume wf: "timers_wf s"
  from None have k: "(cb, ud) \<notin> (timer_key \<circ> snd) ` set (m_timer_list s)"
    by (rule set_timer_None [THEN iffD1])
  have "list_all (\<lambda>(n, i). n < tm_next s + 1) (m_timer_list s)" "tm_next s \<notin> fst ` set (m_timer_list s)"
    using wf by (force simp: timers_wf_def list_all_iff)+
  with None wf k show ?thesis by (simp add: AddTimer_def timers_wf_def timer_key_def comp_def)
next
  case (Some l)
  assume "timers_wf s"
  with Some set_timer_Some [OF Some] show ?thesis by (simp add: AddTimer_def timers_wf_def nodes_below_iff)
qed

lemma RemoveTimer_wf: "timers_wf s \<Longrightarrow> timers_wf (RemoveTimer cb ud s)"
  using erase_timer_subset [of cb ud "m_timer_list s"]
  by (auto simp: RemoveTimer_def timers_wf_def erase_timer_distinct list_all_iff)

lemma timer_op_step_wf: "timers_wf s \<Longrightarrow> timers_wf (timer_op_step x s)"
  by (cases x) (simp_all add: AddTimer_wf RemoveTimer_wf, simp add: AddLoop_def timers_wf_def)

lemma timer_ops_wf: "timers_wf s \<Longrightarrow> timers_wf (timer_ops xs s)"
  unfolding timer_ops_def by (induction xs arbitrary: s) (simp_all add: timer_op_step_wf)

lemma set_timer_map:
  "set_timer cb ud iv tick l = Some l' \<Longrightarrow>
   map_of (map timer_entry l') = (map_of (map timer_entry l))((cb, ud) \<mapsto> (iv, tick + iv))"
  by (induction cb ud iv tick l arbitrary: l' rule: set_timer.induct)
    (auto simp: is_timer_key timer_key_def fun_eq_iff split: if_splits)

lemma map_of_timers_None:
  "k \<notin> (timer_key \<circ> snd) ` set l \<Longrightarrow> map_of (map timer_entry l) k = None"
  by (induction l) auto

lemma AddTimer_map: "timer_map (AddTimer tick cb ud iv s) = (timer_map s)((cb, ud) \<mapsto> (iv, tick + iv))"
proof (cases "set_timer cb ud iv tick (m_timer_list s)")
  case None
  then have "map_of (map timer_entry (m_timer_list s)) (cb, ud) = None"
    by (intro map_of_timers_None) (simp add: set_timer_None)
  with None show ?thesis
    by (auto simp: AddTimer_def timer_map_def timer_key_def fun_eq_iff map_add_def split: option.splits)
next
  case (Some l)
  from set_timer_map [OF Some] Some show ?thesis by (simp add: AddTimer_def timer_map_def)
qed

lemma erase_timer_map:
  "distinct (map (timer_key \<circ> snd) l) \<Longrightarrow>
   map_of (map timer_entry (erase_timer cb ud l)) = (map_of (map timer_entry l))((cb, ud) := None)"
proof (induction cb ud l rule: erase_timer.induct)
  case (2 cb ud n i l)
  then show ?case using map_of_timers_None [of "(cb, ud)" l] by (auto simp: is_timer_key fun_eq_iff)
qed auto

lemma RemoveTimer_map: "timers_wf s \<Longrightarrow> timer_map (RemoveTimer cb ud s) = (timer_map s)((cb, ud) := None)"
  by (simp add: RemoveTimer_def timer_map_def timers_wf_def erase_timer_map)

subsection \<open>Checking\<close>

lemma next_node_append: "n \<notin> fst ` set xs \<Longrightarrow> next_node n (xs @ (n, i) # l) = first_node l"
  by (induction xs) auto

lemma put_node_append: "n \<notin> fst ` set xs \<Longrightarrow> put_node n j (xs @ (n, i) # l) = xs @ (n, j) # l"
  by (induction xs) auto

lemma erase_timer_append:
  "(cb, ud) \<notin> (timer_key \<circ> snd) ` set xs \<Longrightarrow> timer_key i = (cb, ud) \<Longrightarrow>
   erase_timer cb ud (xs @ (n, i) # l) = xs @ l"
  by (induction xs) (auto simp: is_timer_key)

lemma map_of_append_mid: "n \<notin> fst ` set xs \<Longrightarrow> ((map_of l)(n \<mapsto> i) ++ map_of xs) n = Some i"
  using map_of_eq_None_iff [of xs n] by (simp add: map_add_def)

lemma timer_key_tick [simp]: "timer_key (tick_item i) = timer_key i"
  by (simp add: timer_key_def tick_item_def)

text \<open>The loop at a node with \<open>xs\<close> before it and \<open>l\<close> from it on.\<close>

lemma check_timer_rest:
  assumes "\<forall>cb ud. act cb ud = [] \<or> act cb ud = [TRemove cb ud]"
    and "distinct (map fst (xs @ l))" and "distinct (map (timer_key \<circ> snd) (xs @ l))" and "length l \<le> fuel"
  shows "check_timer_loop fuel act curr_tick (first_node l) (s\<lparr>m_timer_list := xs @ l\<rparr>) called =
     Done (s\<lparr>m_timer_list := xs @ concat (map (after_check act curr_tick) l)\<rparr>)
       (called @ map (timer_key \<circ> snd) (filter (is_due curr_tick \<circ> snd) l))"
  using assms(2-4)
proof (induction l arbitrary: fuel xs called)
  case Nil
  then show ?case by (simp add: first_node_def)
next
  case (Cons ni l)
  obtain n i where ni: "ni = (n, i)" by (cases ni)
  from Cons.prems(3) obtain f where f: "fuel = Suc f" "length l \<le> f" by (cases fuel) auto
  let ?cb = "ti_callback i" and ?ud = "ti_user_data i"
  have n: "n \<notin> fst ` set xs" and k: "(?cb, ?ud) \<notin> (timer_key \<circ> snd) ` set xs"
    using Cons.prems(1,2) by (auto simp: ni timer_key_def)
  note look = map_of_append_mid [OF n] next_node_append [OF n] put_node_append [OF n]
  have keep: "check_timer_loop f act curr_tick (first_node l) (s\<lparr>m_timer_list := (xs @ [(n, j)]) @ l\<rparr>) c =
     Done (s\<lparr>m_timer_list := (xs @ [(n, j)]) @ concat (map (after_check act curr_tick) l)\<rparr>)
       (c @ map (timer_key \<circ> snd) (filter (is_due curr_tick \<circ> snd) l))" if "timer_key j = timer_key i" for j c
    using Cons.prems(1,2) f(2) that by (intro Cons.IH) (auto simp: ni)
  have gone: "check_timer_loop f act curr_tick (first_node l) (s\<lparr>m_timer_list := xs @ l\<rparr>) c =
     Done (s\<lparr>m_timer_list := xs @ concat (map (after_check act curr_tick) l)\<rparr>)
       (c @ map (timer_key \<circ> snd) (filter (is_due curr_tick \<circ> snd) l))" for c
    using Cons.prems(1,2) f(2) by (intro Cons.IH) (auto simp: ni)
  have it: "first_node ((n, i) # l) = Some n" by (simp add: first_node_def)
  note step = it ni f look is_due_def [of curr_tick i] after_check_def [of act curr_tick "(n, i)"] comp_def
  consider (idle) "\<not> is_due curr_tick i" | (stay) "is_due curr_tick i" "act ?cb ?ud = []"
    | (remove) "is_due curr_tick i" "act ?cb ?ud = [TRemove ?cb ?ud]" using assms(1) by blast
  then show ?case
  proof cases
    case idle
    then show ?thesis using keep [of i called] by (simp add: step)
  next
    case stay
    then show ?thesis using keep [of "tick_item i" "called @ [(?cb, ?ud)]"]
      by (simp add: step timer_ops_def timer_key_def [of i])
  next
    case remove
    have "erase_timer ?cb ?ud (xs @ (n, tick_item i) # l) = xs @ l"
      by (rule erase_timer_append [OF k]) (simp add: timer_key_def tick_item_def)
    with remove show ?thesis using gone [of "called @ [(?cb, ?ud)]"]
      by (simp add: step timer_ops_def RemoveTimer_def timer_key_def [of i])
  qed
qed

section \<open>Properties\<close>

text \<open>
  When callbacks at most remove their own timer, a check of the timers ends within one round
  per timer, calls exactly the timers that are due, each once and in list order, advances them
  by their interval, drops those that removed themselves and leaves the others as they were.
\<close>

lemma CheckTimer_due:
  assumes "timers_wf s" and "\<forall>cb ud. act cb ud = [] \<or> act cb ud = [TRemove cb ud]"
    and "length (m_timer_list s) \<le> fuel"
  shows "CheckTimer fuel act curr_tick s =
     Done (s\<lparr>m_timer_list := concat (map (after_check act curr_tick) (m_timer_list s))\<rparr>)
       (map (timer_key \<circ> snd) (filter (is_due curr_tick \<circ> snd) (m_timer_list s)))"
  using check_timer_rest [OF assms(2), of "[]" "m_timer_list s" fuel curr_tick s "[]"] assms(1,3)
  by (simp add: CheckTimer_def timers_wf_def)

text \<open>
  A callback that removes the timer after its own erases the node the loop's iterator already
  points to.
\<close>

lemma CheckTimer_removed_next:
  assumes "m_timer_list s = (n, i) # (m, j) # l" and "timers_wf s" and "is_due curr_tick i"
    and "act (ti_callback i) (ti_user_data i) = [TRemove (ti_callback j) (ti_user_data j)]"
  shows "CheckTimer (Suc (Suc fuel)) act curr_tick s = Undef"
proof -
  have d: "n \<noteq> m" "\<not> is_timer (ti_callback j) (ti_user_data j) (tick_item i)" "m \<notin> fst ` set l"
    using assms(1,2) by (auto simp: timers_wf_def is_timer_key timer_key_def [of j])
  then have "map_of ((n, tick_item i) # erase_timer (ti_callback j) (ti_user_data j) ((m, j) # l)) m = None"
    by (simp add: is_timer_def map_of_eq_None_iff)
  with assms(1,3,4) d show ?thesis
    by (simp add: CheckTimer_def first_node_def is_due_def timer_ops_def RemoveTimer_def)
qed

text \<open>
  C39. The timer list implements a map from callback and user data to interval and next tick:
  after any sequence of calls from an empty dispatcher there is one timer per key, \<open>AddTimer\<close> is
  an update of the map (of an existing timer as well) and \<open>RemoveTimer\<close> a deletion.
\<close>

theorem timers_refine_map:
  "timers_wf (timer_ops xs no_timers) \<and> timer_map (timer_ops xs no_timers) = fold timer_map_op xs Map.empty"
proof -
  have "timers_wf (timer_ops xs s) \<and> timer_map (timer_ops xs s) = fold timer_map_op xs (timer_map s)"
    if "timers_wf s" for s
    using that
  proof (induction xs arbitrary: s)
    case (Cons x xs)
    have "timer_map (timer_op_step x s) = timer_map_op x (timer_map s)"
      using Cons.prems by (cases x) (simp_all add: AddTimer_map RemoveTimer_map, simp add: AddLoop_def timer_map_def)
    with Cons.IH [OF timer_op_step_wf [OF Cons.prems, of x]] show ?case by (simp add: timer_ops_def)
  qed (simp add: timer_ops_def)
  from this [of no_timers] show ?thesis by (simp add: no_timers_def timers_wf_def timer_map_def)
qed

end
