(* ===== verification/Net_Sockets.thy ===== *)
theory Net_Sockets
  imports Ptp_Utils
begin

text \<open>
  \<^verbatim>\<open>src/ptp_global/BaseSocket.h\<close>, \<^verbatim>\<open>src/ptp_global/BaseSocket.cpp\<close>,
  \<^verbatim>\<open>src/ptp_global/NetLib.cpp\<close> and the Linux event loop of
  \<^verbatim>\<open>src/ptp_global/EventDispatch.cpp\<close>: reference-counted socket objects, the global map from
  handles to objects, the \<open>netlib_*\<close> calls, and the dispatch of one batch of epoll events.

  Socket objects live in an explicit heap; using an object that is not allocated is \<open>None\<close>. The
  kernel is modelled by the descriptors it has open: a new descriptor is the lowest one not
  open (POSIX), and the results of the other system calls are arguments. A callback is a
  number; what the program does in it is the argument \<open>H\<close>, a list of \<open>netlib_*\<close> calls chosen from
  the callback, its data, the message and the handle. Host name lookup and socket options have
  no effect on this state.
\<close>

section \<open>State\<close>

datatype sock_state = SOCKET_STATE_IDLE | SOCKET_STATE_LISTENING | SOCKET_STATE_CONNECTING
  | SOCKET_STATE_CONNECTED | SOCKET_STATE_CLOSING

datatype netlib_msg = NETLIB_MSG_CONNECT | NETLIB_MSG_CONFIRM | NETLIB_MSG_READ | NETLIB_MSG_WRITE
  | NETLIB_MSG_CLOSE

record base_socket =
  sk_ref :: ref_object
  m_remote_ip :: string
  m_remote_port :: u16
  m_local_ip :: string
  m_local_port :: u16
  m_callback :: nat
  m_callback_data :: nat
  m_state :: sock_state
  m_socket :: int

record net =
  objs :: "nat \<rightharpoonup> base_socket"
  next_obj :: nat
  g_socket_map :: "int \<rightharpoonup> nat"
  epoll_fds :: "int list"
  open_fds :: "int list"

text \<open>Results of the system calls of one operation.\<close>

record sys =
  sys_socket :: bool
  sys_bind :: bool
  sys_listen :: bool
  sys_ret :: int
  sys_errno :: int

abbreviation NETLIB_OK :: int where "NETLIB_OK \<equiv> 0"
abbreviation NETLIB_ERROR :: int where "NETLIB_ERROR \<equiv> -1"

definition IsBlock :: "int \<Rightarrow> bool" where
  "IsBlock error_code \<longleftrightarrow> error_code = 115 \<or> error_code = 11"

text \<open>The lowest descriptor that is not open.\<close>

definition lowest_fd :: "int list \<Rightarrow> int" where
  "lowest_fd xs = hd (filter (\<lambda>k. k \<notin> set xs) (map int [0..<length xs + 1]))"

definition close_fd :: "int \<Rightarrow> net \<Rightarrow> net" where
  "close_fd fd n = n\<lparr>open_fds := removeAll fd (open_fds n)\<rparr>"

definition AddEvent :: "int \<Rightarrow> net \<Rightarrow> net" where
  "AddEvent fd n = n\<lparr>epoll_fds := (if fd \<in> set (epoll_fds n) then epoll_fds n else fd # epoll_fds n)\<rparr>"

definition RemoveEvent :: "int \<Rightarrow> net \<Rightarrow> net" where
  "RemoveEvent fd n = n\<lparr>epoll_fds := removeAll fd (epoll_fds n)\<rparr>"

definition put_obj :: "nat \<Rightarrow> base_socket \<Rightarrow> net \<Rightarrow> net" where
  "put_obj p s n = n\<lparr>objs := (objs n)(p \<mapsto> s)\<rparr>"

definition delete_obj :: "nat \<Rightarrow> net \<Rightarrow> net" where
  "delete_obj p n = n\<lparr>objs := (objs n)(p := None)\<rparr>"

section \<open>Socket objects and the handle map\<close>

definition CBaseSocket :: base_socket where
  "CBaseSocket = \<lparr>sk_ref = CRefObject, m_remote_ip = [], m_remote_port = 0, m_local_ip = [],
     m_local_port = 0, m_callback = 0, m_callback_data = 0, m_state = SOCKET_STATE_IDLE, m_socket = -1\<rparr>"

definition new_socket :: "net \<Rightarrow> nat \<times> net" where
  "new_socket n = (next_obj n, (put_obj (next_obj n) CBaseSocket n)\<lparr>next_obj := next_obj n + 1\<rparr>)"

text \<open>\<open>unordered_map::insert\<close> keeps an existing entry.\<close>

definition AddBaseSocket :: "nat \<Rightarrow> net \<Rightarrow> net option" where
  "AddBaseSocket p n = do {
     s \<leftarrow> objs n p;
     Some (if g_socket_map n (m_socket s) = None
           then n\<lparr>g_socket_map := (g_socket_map n)(m_socket s \<mapsto> p)\<rparr> else n) }"

definition RemoveBaseSocket :: "nat \<Rightarrow> net \<Rightarrow> net option" where
  "RemoveBaseSocket p n = do {
     s \<leftarrow> objs n p;
     Some (n\<lparr>g_socket_map := (g_socket_map n)(m_socket s := None)\<rparr>) }"

definition sock_AddRef :: "nat \<Rightarrow> net \<Rightarrow> net option" where
  "sock_AddRef p n = do {
     s \<leftarrow> objs n p;
     r \<leftarrow> AddRef (sk_ref s);
     Some (put_obj p (s\<lparr>sk_ref := r\<rparr>) n) }"

definition sock_ReleaseRef :: "nat \<Rightarrow> net \<Rightarrow> net option" where
  "sock_ReleaseRef p n = do {
     s \<leftarrow> objs n p;
     (ro, _) \<leftarrow> ReleaseRef (sk_ref s);
     Some (case ro of None \<Rightarrow> delete_obj p n | Some r \<Rightarrow> put_obj p (s\<lparr>sk_ref := r\<rparr>) n) }"

definition FindBaseSocket :: "int \<Rightarrow> net \<Rightarrow> (nat option \<times> net) option" where
  "FindBaseSocket fd n =
     (case g_socket_map n fd of
        None \<Rightarrow> Some (None, n)
      | Some p \<Rightarrow> do { n' \<leftarrow> sock_AddRef p n; Some (Some p, n') })"

definition sock_Listen ::
  "sys \<Rightarrow> string \<Rightarrow> u16 \<Rightarrow> nat \<Rightarrow> nat \<Rightarrow> nat \<Rightarrow> net \<Rightarrow> (int \<times> net) option" where
  "sock_Listen e server_ip port cb data p n = do {
     s0 \<leftarrow> objs n p;
     let fd = (if sys_socket e then lowest_fd (open_fds n) else -1);
     let s = s0\<lparr>m_local_ip := server_ip, m_local_port := port, m_callback := cb,
                m_callback_data := data, m_socket := fd\<rparr>;
     let n1 = put_obj p s n;
     if fd = -1 then Some (NETLIB_ERROR, n1)
     else
       (let n2 = n1\<lparr>open_fds := fd # open_fds n1\<rparr>
        in if \<not> sys_bind e then Some (NETLIB_ERROR, close_fd fd n2)
           else if \<not> sys_listen e then Some (NETLIB_ERROR, close_fd fd n2)
           else do {
             n3 \<leftarrow> AddBaseSocket p (put_obj p (s\<lparr>m_state := SOCKET_STATE_LISTENING\<rparr>) n2);
             Some (NETLIB_OK, AddEvent fd n3) }) }"

definition sock_Connect ::
  "sys \<Rightarrow> string \<Rightarrow> u16 \<Rightarrow> nat \<Rightarrow> nat \<Rightarrow> nat \<Rightarrow> net \<Rightarrow> (int \<times> net) option" where
  "sock_Connect e server_ip port cb data p n = do {
     s0 \<leftarrow> objs n p;
     let fd = (if sys_socket e then lowest_fd (open_fds n) else -1);
     let s = s0\<lparr>m_remote_ip := server_ip, m_remote_port := port, m_callback := cb,
                m_callback_data := data, m_socket := fd\<rparr>;
     let n1 = put_obj p s n;
     if fd = -1 then Some (-1, n1)
     else
       (let n2 = n1\<lparr>open_fds := fd # open_fds n1\<rparr>
        in if sys_ret e = -1 \<and> \<not> IsBlock (sys_errno e) then Some (-1, close_fd fd n2)
           else do {
             n3 \<leftarrow> AddBaseSocket p (put_obj p (s\<lparr>m_state := SOCKET_STATE_CONNECTING\<rparr>) n2);
             Some (fd, AddEvent fd n3) }) }"

definition sock_Send :: "sys \<Rightarrow> nat \<Rightarrow> net \<Rightarrow> int option" where
  "sock_Send e p n = do {
     s \<leftarrow> objs n p;
     Some (if m_state s \<noteq> SOCKET_STATE_CONNECTED then NETLIB_ERROR
           else if sys_ret e = -1 \<and> IsBlock (sys_errno e) then 0 else sys_ret e) }"

definition sock_Recv :: "sys \<Rightarrow> nat \<Rightarrow> net \<Rightarrow> int option" where
  "sock_Recv e p n = do { s \<leftarrow> objs n p; Some (sys_ret e) }"

definition sock_Close :: "nat \<Rightarrow> net \<Rightarrow> (int \<times> net) option" where
  "sock_Close p n = do {
     s \<leftarrow> objs n p;
     n1 \<leftarrow> RemoveBaseSocket p (RemoveEvent (m_socket s) n);
     n2 \<leftarrow> sock_ReleaseRef p (close_fd (m_socket s) n1);
     Some (0, n2) }"

section \<open>The netlib calls\<close>

definition netlib_listen ::
  "sys \<Rightarrow> string \<Rightarrow> u16 \<Rightarrow> nat \<Rightarrow> nat \<Rightarrow> net \<Rightarrow> (int \<times> net) option" where
  "netlib_listen e server_ip port cb data n =
     (let (p, n1) = new_socket n
      in do {
        (ret, n2) \<leftarrow> sock_Listen e server_ip port cb data p n1;
        Some (ret, if ret = NETLIB_ERROR then delete_obj p n2 else n2) })"

definition netlib_connect ::
  "sys \<Rightarrow> string \<Rightarrow> u16 \<Rightarrow> nat \<Rightarrow> nat \<Rightarrow> net \<Rightarrow> (int \<times> net) option" where
  "netlib_connect e server_ip port cb data n =
     (let (p, n1) = new_socket n
      in do {
        (handle, n2) \<leftarrow> sock_Connect e server_ip port cb data p n1;
        Some (handle, if handle = -1 then delete_obj p n2 else n2) })"

definition netlib_send :: "sys \<Rightarrow> int \<Rightarrow> net \<Rightarrow> (int \<times> net) option" where
  "netlib_send e handle n = do {
     (r, n1) \<leftarrow> FindBaseSocket handle n;
     (case r of
        None \<Rightarrow> Some (NETLIB_ERROR, n1)
      | Some p \<Rightarrow> do {
          ret \<leftarrow> sock_Send e p n1;
          n2 \<leftarrow> sock_ReleaseRef p n1;
          Some (ret, n2) }) }"

definition netlib_recv :: "sys \<Rightarrow> int \<Rightarrow> net \<Rightarrow> (int \<times> net) option" where
  "netlib_recv e handle n = do {
     (r, n1) \<leftarrow> FindBaseSocket handle n;
     (case r of
        None \<Rightarrow> Some (NETLIB_ERROR, n1)
      | Some p \<Rightarrow> do {
          ret \<leftarrow> sock_Recv e p n1;
          n2 \<leftarrow> sock_ReleaseRef p n1;
          Some (ret, n2) }) }"

definition netlib_close :: "int \<Rightarrow> net \<Rightarrow> (int \<times> net) option" where
  "netlib_close handle n = do {
     (r, n1) \<leftarrow> FindBaseSocket handle n;
     (case r of
        None \<Rightarrow> Some (NETLIB_ERROR, n1)
      | Some p \<Rightarrow> do {
          (ret, n2) \<leftarrow> sock_Close p n1;
          n3 \<leftarrow> sock_ReleaseRef p n2;
          Some (ret, n3) }) }"

text \<open>\<open>optval\<close>: null, or the number it stands for. Getters return what they store through it.\<close>

datatype opt_out = OutNone | OutIP string | OutPort u16

definition set_option :: "int \<Rightarrow> nat option \<Rightarrow> base_socket \<Rightarrow> base_socket \<times> opt_out" where
  "set_option opt optval s =
     (if opt = 1 then (s\<lparr>m_callback := (case optval of None \<Rightarrow> 0 | Some v \<Rightarrow> v)\<rparr>, OutNone)
      else if opt = 2 then (s\<lparr>m_callback_data := (case optval of None \<Rightarrow> 0 | Some v \<Rightarrow> v)\<rparr>, OutNone)
      else if opt = 3 then (s, OutIP (m_remote_ip s))
      else if opt = 4 then (s, OutPort (m_remote_port s))
      else if opt = 5 then (s, OutIP (m_local_ip s))
      else if opt = 6 then (s, OutPort (m_local_port s))
      else (s, OutNone))"

definition netlib_option :: "int \<Rightarrow> int \<Rightarrow> nat option \<Rightarrow> net \<Rightarrow> (int \<times> opt_out \<times> net) option" where
  "netlib_option handle opt optval n = do {
     (r, n1) \<leftarrow> FindBaseSocket handle n;
     (case r of
        None \<Rightarrow> Some (NETLIB_ERROR, OutNone, n1)
      | Some p \<Rightarrow>
          if opt \<ge> 3 \<and> optval = None then Some (NETLIB_ERROR, OutNone, n1)
          else do {
            s \<leftarrow> objs n1 p;
            let (s', out) = set_option opt optval s;
            n2 \<leftarrow> sock_ReleaseRef p (put_obj p s' n1);
            Some (NETLIB_OK, out, n2) }) }"

section \<open>Callbacks and events\<close>

datatype net_op =
    OpListen sys string u16 nat nat
  | OpConnect sys string u16 nat nat
  | OpSend sys int
  | OpRecv sys int
  | OpClose int
  | OpOption int int "nat option"

fun net_step :: "net_op \<Rightarrow> net \<Rightarrow> net option" where
  "net_step (OpListen e ip port cb data) n = map_option snd (netlib_listen e ip port cb data n)"
| "net_step (OpConnect e ip port cb data) n = map_option snd (netlib_connect e ip port cb data n)"
| "net_step (OpSend e h) n = map_option snd (netlib_send e h n)"
| "net_step (OpRecv e h) n = map_option snd (netlib_recv e h n)"
| "net_step (OpClose h) n = map_option snd (netlib_close h n)"
| "net_step (OpOption h opt v) n = map_option (snd \<circ> snd) (netlib_option h opt v n)"

fun net_run :: "net_op list \<Rightarrow> net \<Rightarrow> net option" where
  "net_run [] n = Some n"
| "net_run (x # xs) n = do { n' \<leftarrow> net_step x n; net_run xs n' }"

type_synonym handler = "nat \<Rightarrow> nat \<Rightarrow> netlib_msg \<Rightarrow> int \<Rightarrow> net_op list"

definition call_back :: "handler \<Rightarrow> nat \<Rightarrow> netlib_msg \<Rightarrow> int \<Rightarrow> net \<Rightarrow> net option" where
  "call_back H p msg handle n = do {
     s \<leftarrow> objs n p;
     net_run (H (m_callback s) (m_callback_data s) msg handle) n }"

text \<open>
  \<open>_AcceptNewSocket\<close>: one entry of the script is the peer of a successful \<open>accept\<close>; the loop ends
  with the script.
\<close>

fun AcceptNewSocket :: "handler \<Rightarrow> (string \<times> u16) list \<Rightarrow> nat \<Rightarrow> net \<Rightarrow> net option" where
  "AcceptNewSocket H [] p n = Some n"
| "AcceptNewSocket H ((ip, port) # peers) p n = do {
     let fd = lowest_fd (open_fds n);
     let (q, n1) = new_socket (n\<lparr>open_fds := fd # open_fds n\<rparr>);
     s \<leftarrow> objs n1 p;
     let s' = CBaseSocket\<lparr>m_socket := fd, m_callback := m_callback s, m_callback_data := m_callback_data s,
                          m_state := SOCKET_STATE_CONNECTED, m_remote_ip := ip, m_remote_port := port\<rparr>;
     n2 \<leftarrow> AddBaseSocket q (put_obj q s' n1);
     n3 \<leftarrow> call_back H p NETLIB_MSG_CONNECT fd (AddEvent fd n2);
     AcceptNewSocket H peers p n3 }"

text \<open>What the kernel reports for one socket: bytes available, pending error, peers to accept.\<close>

record ready =
  rd_ioctl :: bool
  rd_avail :: nat
  rd_error :: int
  rd_peers :: "(string \<times> u16) list"

definition sock_OnRead :: "handler \<Rightarrow> ready \<Rightarrow> nat \<Rightarrow> net \<Rightarrow> net option" where
  "sock_OnRead H k p n = do {
     s \<leftarrow> objs n p;
     if m_state s = SOCKET_STATE_LISTENING then AcceptNewSocket H (rd_peers k) p n
     else if \<not> rd_ioctl k \<or> rd_avail k = 0 then call_back H p NETLIB_MSG_CLOSE (m_socket s) n
     else call_back H p NETLIB_MSG_READ (m_socket s) n }"

definition sock_OnWrite :: "handler \<Rightarrow> ready \<Rightarrow> nat \<Rightarrow> net \<Rightarrow> net option" where
  "sock_OnWrite H k p n = do {
     s \<leftarrow> objs n p;
     if m_state s = SOCKET_STATE_CONNECTING then
       (if rd_error k \<noteq> 0 then call_back H p NETLIB_MSG_CLOSE (m_socket s) n
        else call_back H p NETLIB_MSG_CONFIRM (m_socket s)
               (put_obj p (s\<lparr>m_state := SOCKET_STATE_CONNECTED\<rparr>) n))
     else call_back H p NETLIB_MSG_WRITE (m_socket s) n }"

definition sock_OnClose :: "handler \<Rightarrow> nat \<Rightarrow> net \<Rightarrow> net option" where
  "sock_OnClose H p n = do {
     s \<leftarrow> objs n p;
     call_back H p NETLIB_MSG_CLOSE (m_socket s) (put_obj p (s\<lparr>m_state := SOCKET_STATE_CLOSING\<rparr>) n) }"

record epoll_event =
  ev_fd :: int
  ev_rdhup :: bool
  ev_in :: bool
  ev_out :: bool
  ev_err :: bool
  ev_ready :: ready

definition on_event :: "bool \<Rightarrow> (net \<Rightarrow> net option) \<Rightarrow> net \<Rightarrow> net option" where
  "on_event b f n = (if b then f n else Some n)"

definition dispatch_event :: "handler \<Rightarrow> epoll_event \<Rightarrow> net \<Rightarrow> net option" where
  "dispatch_event H ev n = do {
     (r, n0) \<leftarrow> FindBaseSocket (ev_fd ev) n;
     (case r of
        None \<Rightarrow> Some n0
      | Some p \<Rightarrow> do {
          n1 \<leftarrow> on_event (ev_rdhup ev) (sock_OnClose H p) n0;
          n2 \<leftarrow> on_event (ev_in ev) (sock_OnRead H (ev_ready ev) p) n1;
          n3 \<leftarrow> on_event (ev_out ev) (sock_OnWrite H (ev_ready ev) p) n2;
          n4 \<leftarrow> on_event (ev_err ev) (sock_OnClose H p) n3;
          sock_ReleaseRef p n4 }) }"

fun dispatch_batch :: "handler \<Rightarrow> epoll_event list \<Rightarrow> net \<Rightarrow> net option" where
  "dispatch_batch H [] n = Some n"
| "dispatch_batch H (ev # evs) n = do { n' \<leftarrow> dispatch_event H ev n; dispatch_batch H evs n' }"

section \<open>Invariant\<close>

definition net_init :: "int list \<Rightarrow> net" where
  "net_init fds = \<lparr>objs = Map.empty, next_obj = 0, g_socket_map = Map.empty, epoll_fds = [], open_fds = fds\<rparr>"

definition registered :: "net \<Rightarrow> nat \<Rightarrow> bool" where
  "registered n p \<longleftrightarrow> (case objs n p of None \<Rightarrow> False | Some s \<Rightarrow> g_socket_map n (m_socket s) = Some p)"

text \<open>
  \<open>held p\<close> counts the references to object \<open>p\<close> that are in use outside the map. The count of an
  object is exactly those and the one of its map entry; every map entry leads to an object
  whose descriptor is the key and open.
\<close>

definition net_wf :: "(nat \<Rightarrow> nat) \<Rightarrow> net \<Rightarrow> bool" where
  "net_wf held n \<longleftrightarrow>
     (\<forall>p s. objs n p = Some s \<longrightarrow> p < next_obj n \<and> m_lock (sk_ref s) = None
        \<and> m_refCount (sk_ref s) = int ((if g_socket_map n (m_socket s) = Some p then 1 else 0) + held p)
        \<and> 0 < m_refCount (sk_ref s))
     \<and> (\<forall>fd p. g_socket_map n fd = Some p \<longrightarrow> fd \<in> set (open_fds n) \<and> 0 \<le> fd
          \<and> (\<exists>s. objs n p = Some s \<and> m_socket s = fd))
     \<and> (\<forall>p. 0 < held p \<longrightarrow> objs n p \<noteq> None)"

fun op_leaks :: "net_op \<Rightarrow> bool" where
  "op_leaks (OpOption h opt v) = (opt \<ge> 3 \<and> v = None)"
| "op_leaks _ = False"

definition handler_ok :: "handler \<Rightarrow> bool" where
  "handler_ok H \<longleftrightarrow> (\<forall>cb data msg h. list_all (\<lambda>x. \<not> op_leaks x) (H cb data msg h))"

definition step_ok :: "(nat \<Rightarrow> nat) \<Rightarrow> net option \<Rightarrow> bool" where
  "step_ok held r \<longleftrightarrow> (\<exists>n'. r = Some n' \<and> net_wf held n')"

text \<open>The program alternates calls of its own and batches of the event loop.\<close>

fun net_life :: "handler \<Rightarrow> (net_op list \<times> epoll_event list) list \<Rightarrow> net \<Rightarrow> net option" where
  "net_life H [] n = Some n"
| "net_life H ((xs, evs) # rest) n = do {
     n1 \<leftarrow> net_run xs n;
     n2 \<leftarrow> dispatch_batch H evs n1;
     net_life H rest n2 }"

definition close_handler :: handler where
  "close_handler cb data msg h = (if msg = NETLIB_MSG_CLOSE then [OpClose h] else [])"

section \<open>Descriptors\<close>

lemma lowest_fd_fresh: "lowest_fd xs \<notin> set xs" and lowest_fd_nonneg: "0 \<le> lowest_fd xs"
proof -
  let ?c = "filter (\<lambda>k. k \<notin> set xs) (map int [0..<length xs + 1])"
  have "?c \<noteq> []"
  proof
    assume "?c = []"
    then have "set (map int [0..<length xs + 1]) \<subseteq> set xs" by (fastforce simp: filter_empty_conv simp del: upt_Suc)
    then have "card (set (map int [0..<length xs + 1])) \<le> card (set xs)" by (intro card_mono) simp_all
    also have "card (set xs) \<le> length xs" by (rule card_length)
    finally show False by (simp add: card_image del: upt_Suc)
  qed
  then have "lowest_fd xs \<in> set ?c" unfolding lowest_fd_def by (rule list.set_sel(1))
  then show "lowest_fd xs \<notin> set xs" and "0 \<le> lowest_fd xs" by (auto simp del: upt_Suc)
qed

section \<open>Effects of the primitives on the invariant\<close>

lemma wf_obj:
  assumes "net_wf held n" and "objs n p = Some s"
  shows "p < next_obj n" and "m_lock (sk_ref s) = None"
    and "m_refCount (sk_ref s) = int ((if g_socket_map n (m_socket s) = Some p then 1 else 0) + held p)"
    and "0 < m_refCount (sk_ref s)"
  using assms unfolding net_wf_def by blast+

lemma wf_entry:
  assumes "net_wf held n" and "g_socket_map n fd = Some p"
  obtains s where "objs n p = Some s" "m_socket s = fd" "fd \<in> set (open_fds n)" "0 \<le> fd"
  using assms unfolding net_wf_def by blast

lemma wf_held: "net_wf held n \<Longrightarrow> 0 < held p \<Longrightarrow> \<exists>s. objs n p = Some s"
  unfolding net_wf_def by blast

lemma wf_no_obj: "net_wf held n \<Longrightarrow> objs n p = None \<Longrightarrow> held p = 0"
  unfolding net_wf_def by (metis gr_zeroI)

lemma net_wfI:
  assumes "\<And>p s. objs n p = Some s \<Longrightarrow> p < next_obj n \<and> m_lock (sk_ref s) = None
        \<and> m_refCount (sk_ref s) = int ((if g_socket_map n (m_socket s) = Some p then 1 else 0) + held p)
        \<and> 0 < m_refCount (sk_ref s)"
    and "\<And>fd p. g_socket_map n fd = Some p \<Longrightarrow> fd \<in> set (open_fds n) \<and> 0 \<le> fd
          \<and> (\<exists>s. objs n p = Some s \<and> m_socket s = fd)"
    and "\<And>p. 0 < held p \<Longrightarrow> objs n p \<noteq> None"
  shows "net_wf held n"
  using assms unfolding net_wf_def by blast

lemma wf_put:
  assumes wf: "net_wf held n" and p: "objs n p = Some s" and r: "sk_ref s' = sk_ref s"
    and m: "m_socket s' = m_socket s \<or> (\<forall>fd. g_socket_map n fd \<noteq> Some p)"
  shows "net_wf held (put_obj p s' n)"
proof (rule net_wfI, goal_cases)
  case (1 q s0)
  show ?case
  proof (cases "q = p")
    case True
    with 1 have "s0 = s'" by (simp add: put_obj_def)
    moreover have "g_socket_map n (m_socket s') = Some p \<longleftrightarrow> g_socket_map n (m_socket s) = Some p"
      using m by auto
    ultimately show ?thesis using wf_obj [OF wf p] r True by (simp add: put_obj_def)
  next
    case False
    with 1 have "objs n q = Some s0" by (simp add: put_obj_def)
    from wf_obj [OF wf this] show ?thesis by (simp add: put_obj_def)
  qed
next
  case (2 fd q)
  then have e: "g_socket_map n fd = Some q" by (simp add: put_obj_def)
  obtain s0 where "objs n q = Some s0" "m_socket s0 = fd" "fd \<in> set (open_fds n)" "0 \<le> fd"
    using wf_entry [OF wf e] .
  then show ?case using p m e by (cases "q = p") (auto simp: put_obj_def)
next
  case (3 q)
  then show ?case using wf_held [OF wf] by (auto simp: put_obj_def)
qed

text \<open>Changing the count of an object together with the references held on it.\<close>

lemma wf_recount:
  assumes wf: "net_wf held n" and p: "objs n p = Some s"
    and r: "r = (sk_ref s)\<lparr>m_refCount := m_refCount (sk_ref s) + int k - int (held p)\<rparr>" "0 < m_refCount r"
  shows "net_wf (held(p := k)) (put_obj p (s\<lparr>sk_ref := r\<rparr>) n)"
proof (rule net_wfI, goal_cases)
  case (1 q s0)
  show ?case
  proof (cases "q = p")
    case True
    with 1 have "s0 = s\<lparr>sk_ref := r\<rparr>" by (simp add: put_obj_def)
    then show ?thesis using wf_obj [OF wf p] r True by (simp add: put_obj_def)
  next
    case False
    with 1 have "objs n q = Some s0" by (simp add: put_obj_def)
    from wf_obj [OF wf this] False show ?thesis by (simp add: put_obj_def)
  qed
next
  case (2 fd q)
  then have e: "g_socket_map n fd = Some q" by (simp add: put_obj_def)
  obtain s0 where "objs n q = Some s0" "m_socket s0 = fd" "fd \<in> set (open_fds n)" "0 \<le> fd"
    using wf_entry [OF wf e] .
  then show ?case using p by (cases "q = p") (auto simp: put_obj_def)
next
  case (3 q)
  then show ?case using wf_held [OF wf] by (cases "q = p") (auto simp: put_obj_def)
qed

lemma wf_delete:
  assumes wf: "net_wf held n" and ne: "\<And>fd. g_socket_map n fd \<noteq> Some p"
  shows "net_wf (held(p := 0)) (delete_obj p n)"
proof (rule net_wfI, goal_cases)
  case (1 q s0)
  then have q: "objs n q = Some s0" "q \<noteq> p" by (auto simp: delete_obj_def split: if_splits)
  from wf_obj [OF wf q(1)] q(2) show ?case by (simp add: delete_obj_def)
next
  case (2 fd q)
  then have e: "g_socket_map n fd = Some q" by (simp add: delete_obj_def)
  then have "q \<noteq> p" using ne by auto
  then show ?case using wf_entry [OF wf e] by (auto simp: delete_obj_def)
next
  case (3 q)
  then show ?case using wf_held [OF wf] by (cases "q = p") (auto simp: delete_obj_def)
qed

lemma wf_addref:
  assumes wf: "net_wf held n" and p: "objs n p = Some s"
  shows "\<exists>s'. sock_AddRef p n = Some (put_obj p s' n) \<and> net_wf (held(p := held p + 1)) (put_obj p s' n)
     \<and> m_socket s' = m_socket s"
proof -
  let ?r = "(sk_ref s)\<lparr>m_refCount := m_refCount (sk_ref s) + 1\<rparr>"
  have "sock_AddRef p n = Some (put_obj p (s\<lparr>sk_ref := ?r\<rparr>) n)"
    using p wf_obj(2) [OF wf p] by (simp add: sock_AddRef_def AddRef_def)
  moreover have "net_wf (held(p := held p + 1)) (put_obj p (s\<lparr>sk_ref := ?r\<rparr>) n)"
    using wf_obj(4) [OF wf p] by (intro wf_recount [OF wf p]) simp_all
  ultimately show ?thesis by (intro exI [of _ "s\<lparr>sk_ref := ?r\<rparr>"]) simp
qed

lemma wf_release:
  assumes wf: "net_wf held n" and h: "0 < held p"
  shows "\<exists>n'. sock_ReleaseRef p n = Some n' \<and> net_wf (held(p := held p - 1)) n'
     \<and> g_socket_map n' = g_socket_map n \<and> open_fds n' = open_fds n \<and> next_obj n' = next_obj n"
proof -
  obtain s where p: "objs n p = Some s" using wf_held [OF wf h] by blast
  note o = wf_obj [OF wf p]
  let ?c = "m_refCount (sk_ref s)"
  have r: "ReleaseRef (sk_ref s) = Some (if ?c = 1 then (None, None)
      else (Some ((sk_ref s)\<lparr>m_refCount := ?c - 1\<rparr>), None))"
    using o(2) by (simp add: ReleaseRef_def)
  show ?thesis
  proof (cases "?c = 1")
    case True
    then have un: "g_socket_map n (m_socket s) \<noteq> Some p" "held p = 1" using o(3) h by (auto split: if_splits)
    then have ne: "g_socket_map n fd \<noteq> Some p" for fd using wf_entry [OF wf] p by (metis option.inject)
    have "net_wf (held(p := held p - 1)) (delete_obj p n)"
      using wf_delete [OF wf ne] un(2) by simp
    then show ?thesis using p r True by (simp add: sock_ReleaseRef_def delete_obj_def)
  next
    case False
    have "net_wf (held(p := held p - 1)) (put_obj p (s\<lparr>sk_ref := (sk_ref s)\<lparr>m_refCount := ?c - 1\<rparr>\<rparr>) n)"
      using False o(4) h by (intro wf_recount [OF wf p]) (simp_all add: of_nat_diff)
    then show ?thesis using p r False by (simp add: sock_ReleaseRef_def put_obj_def)
  qed
qed

lemma wf_find:
  assumes wf: "net_wf held n"
  shows "FindBaseSocket fd n = Some (None, n) \<and> g_socket_map n fd = None \<or>
     (\<exists>p n' s. FindBaseSocket fd n = Some (Some p, n') \<and> net_wf (held(p := held p + 1)) n'
        \<and> g_socket_map n fd = Some p \<and> g_socket_map n' = g_socket_map n \<and> objs n' p = Some s \<and> m_socket s = fd)"
proof (cases "g_socket_map n fd")
  case None
  then show ?thesis by (simp add: FindBaseSocket_def)
next
  case (Some p)
  then obtain s where s: "objs n p = Some s" "m_socket s = fd" using wf_entry [OF wf] by metis
  from wf_addref [OF wf s(1)] obtain s' where "sock_AddRef p n = Some (put_obj p s' n)"
    "net_wf (held(p := held p + 1)) (put_obj p s' n)" "m_socket s' = m_socket s" by blast
  with Some s show ?thesis by (auto simp: FindBaseSocket_def put_obj_def)
qed

lemma wf_new:
  assumes wf: "net_wf held n"
  shows "objs n (next_obj n) = None" and "held (next_obj n) = 0" and "g_socket_map n fd \<noteq> Some (next_obj n)"
    and "net_wf (held(next_obj n := 1)) (snd (new_socket n))"
proof -
  show none: "objs n (next_obj n) = None" using wf unfolding net_wf_def by (metis less_irrefl not_None_eq)
  show h: "held (next_obj n) = 0" by (rule wf_no_obj [OF wf none])
  show ne: "g_socket_map n fd \<noteq> Some (next_obj n)" for fd using wf_entry [OF wf] none by (metis option.distinct(1))
  show "net_wf (held(next_obj n := 1)) (snd (new_socket n))"
  proof (rule net_wfI, goal_cases)
    case (1 q s0)
    show ?case
    proof (cases "q = next_obj n")
      case True
      with 1 ne [of "m_socket s0"] show ?thesis
        by (auto simp: new_socket_def put_obj_def CBaseSocket_def CRefObject_def)
    next
      case False
      with 1 wf_obj [OF wf, of q s0] show ?thesis by (auto simp: new_socket_def put_obj_def)
    qed
  next
    case (2 fd q)
    then have e: "g_socket_map n fd = Some q" by (simp add: new_socket_def put_obj_def)
    then have "q \<noteq> next_obj n" using ne by auto
    then show ?case using wf_entry [OF wf e] by (auto simp: new_socket_def put_obj_def)
  next
    case (3 q)
    then show ?case using wf_held [OF wf] by (cases "q = next_obj n") (auto simp: new_socket_def put_obj_def)
  qed
qed

lemma wf_register:
  assumes wf: "net_wf held n" and p: "objs n p = Some s" "0 < held p"
    and fd: "g_socket_map n (m_socket s) = None" "m_socket s \<in> set (open_fds n)" "0 \<le> m_socket s"
    and ne: "\<And>fd. g_socket_map n fd \<noteq> Some p"
  shows "\<exists>n'. AddBaseSocket p n = Some n' \<and> net_wf (held(p := held p - 1)) n' \<and> open_fds n' = open_fds n
     \<and> n' = n\<lparr>g_socket_map := (g_socket_map n)(m_socket s \<mapsto> p)\<rparr>"
proof -
  let ?n = "n\<lparr>g_socket_map := (g_socket_map n)(m_socket s \<mapsto> p)\<rparr>"
  have "net_wf (held(p := held p - 1)) ?n"
  proof (rule net_wfI, goal_cases)
    case (1 q s0)
    then have q: "objs n q = Some s0" by simp
    note o = wf_obj [OF wf q]
    show ?case
    proof (cases "q = p")
      case True
      with q p have "s0 = s" by simp
      with o True p(2) fd(1) show ?thesis by auto
    next
      case False
      have "g_socket_map n (m_socket s) \<noteq> Some q" using fd(1) by simp
      with False o show ?thesis by (auto split: if_splits)
    qed
  next
    case (2 k q)
    then show ?case using p fd wf_entry [OF wf, of k q] by (cases "k = m_socket s") auto
  next
    case (3 q)
    then show ?case using wf_held [OF wf] p by (cases "q = p") auto
  qed
  then show ?thesis using p(1) fd(1) by (simp add: AddBaseSocket_def)
qed

lemma wf_close:
  assumes wf: "net_wf held n" and h: "0 < held p" and p: "objs n p = Some s"
    and m: "g_socket_map n (m_socket s) = Some p"
  shows "\<exists>n'. sock_Close p n = Some (0, n') \<and> net_wf held n'"
proof -
  let ?n1 = "close_fd (m_socket s) ((RemoveEvent (m_socket s) n)\<lparr>g_socket_map := (g_socket_map n)(m_socket s := None)\<rparr>)"
  have "net_wf (held(p := held p + 1)) ?n1"
  proof (rule net_wfI, goal_cases)
    case (1 q s0)
    then have q: "objs n q = Some s0" by (simp add: close_fd_def RemoveEvent_def)
    note o = wf_obj [OF wf q]
    show ?case
    proof (cases "q = p")
      case True
      with q p have "s0 = s" by simp
      with o True m show ?thesis by (auto simp: close_fd_def RemoveEvent_def)
    next
      case False
      then have "g_socket_map n (m_socket s) \<noteq> Some q" using m by simp
      with False o show ?thesis by (auto simp: close_fd_def RemoveEvent_def split: if_splits)
    qed
  next
    case (2 k q)
    then have "g_socket_map n k = Some q" "k \<noteq> m_socket s"
      by (auto simp: close_fd_def RemoveEvent_def split: if_splits)
    then show ?case using wf_entry [OF wf, of k q] by (auto simp: close_fd_def RemoveEvent_def)
  next
    case (3 q)
    then show ?case using wf_held [OF wf] p by (cases "q = p") (auto simp: close_fd_def RemoveEvent_def)
  qed
  from wf_release [OF this, of p] obtain n' where
    "sock_ReleaseRef p ?n1 = Some n'" "net_wf held n'" by auto
  then show ?thesis using p by (simp add: sock_Close_def RemoveBaseSocket_def RemoveEvent_def)
qed

lemma wf_same_objs:
  assumes "net_wf held n" and "objs n' = objs n" "next_obj n' = next_obj n" "g_socket_map n' = g_socket_map n"
    and "\<And>fd. g_socket_map n fd \<noteq> None \<Longrightarrow> fd \<in> set (open_fds n) \<Longrightarrow> fd \<in> set (open_fds n')"
  shows "net_wf held n'"
proof (rule net_wfI, goal_cases)
  case (1 p s)
  then show ?case using wf_obj [OF assms(1), of p s] assms by simp
next
  case (2 fd p)
  then show ?case using wf_entry [OF assms(1), of fd p] assms by fastforce
next
  case (3 p)
  then show ?case using wf_held [OF assms(1), of p] assms by simp
qed

lemma wf_fds:
  "net_wf held n \<Longrightarrow> net_wf held (n\<lparr>open_fds := fd # open_fds n\<rparr>)"
  "net_wf held n \<Longrightarrow> net_wf held (AddEvent fd n)"
  "net_wf held n \<Longrightarrow> g_socket_map n fd = None \<Longrightarrow> net_wf held (close_fd fd n)"
  by (erule wf_same_objs; auto simp: AddEvent_def close_fd_def)+
section \<open>The calls preserve the invariant\<close>

lemma step_okI: "net_wf held n' \<Longrightarrow> step_ok held (Some n')"
  by (simp add: step_ok_def)

lemma step_ok_bind: "step_ok held r \<Longrightarrow> (\<And>n'. net_wf held n' \<Longrightarrow> step_ok held' (f n')) \<Longrightarrow>
    step_ok held' (r \<bind> f)"
  by (auto simp: step_ok_def)

lemma step_ok_release: "net_wf held n \<Longrightarrow> 0 < held p \<Longrightarrow> held' = held(p := held p - 1) \<Longrightarrow>
    step_ok held' (sock_ReleaseRef p n)"
  using wf_release [of held n p] by (auto simp: step_ok_def)

text \<open>A new object, given a fresh descriptor and registered: the path of \<open>Listen\<close>, \<open>Connect\<close> and \<open>accept\<close>.\<close>

lemma register_new:
  assumes wf: "net_wf held n" and fd: "fd = lowest_fd (open_fds n)"
    and s: "sk_ref s = CRefObject" "m_socket s = fd"
    and m: "m = (snd (new_socket n))\<lparr>open_fds := fd # open_fds n\<rparr>" and q: "q = next_obj n"
  shows "\<exists>n'. AddBaseSocket q (put_obj q s m) = Some n' \<and> net_wf held n'"
proof -
  note new = wf_new [OF wf]
  have map: "g_socket_map m = g_socket_map n" by (simp add: m new_socket_def put_obj_def)
  have none: "g_socket_map n fd = None"
    using wf_entry [OF wf, of fd] lowest_fd_fresh [of "open_fds n"] fd by (metis not_None_eq)
  have "net_wf (held(q := 1)) m"
    unfolding m q by (rule wf_same_objs [OF new(4)]) (auto simp: new_socket_def put_obj_def)
  then have "net_wf (held(q := 1)) (put_obj q s m)"
    using new(3) s(1) map
    by (intro wf_put [where s = CBaseSocket]) (auto simp: m q new_socket_def put_obj_def CBaseSocket_def)
  from wf_register [OF this, of q s] obtain n' where
    "AddBaseSocket q (put_obj q s m) = Some n'" "net_wf (held(q := 0)) n'"
    using none s(2) new(3) map lowest_fd_nonneg [of "open_fds n"] fd q by (auto simp: put_obj_def m)
  moreover have "held(q := 0) = held" using new(2) q by auto
  ultimately show ?thesis by auto
qed

lemma drop_new:
  assumes wf: "net_wf held n" and q: "q = next_obj n"
    and m: "objs m = (objs n)(q \<mapsto> s)" "next_obj m = Suc (next_obj n)" "g_socket_map m = g_socket_map n"
      "set (open_fds n) \<subseteq> set (open_fds m)"
  shows "net_wf held (delete_obj q m)"
proof -
  note new = wf_new [OF wf]
  show ?thesis
  proof (rule net_wfI, goal_cases)
    case (1 p s0)
    then have p: "objs n p = Some s0" "p \<noteq> q" using m(1) by (auto simp: delete_obj_def split: if_splits)
    from wf_obj [OF wf p(1)] show ?case using m(2,3) by (simp add: delete_obj_def less_Suc_eq)
  next
    case (2 fd p)
    then have e: "g_socket_map n fd = Some p" using m(3) by (simp add: delete_obj_def)
    then have "p \<noteq> q" using new(3) q by auto
    then show ?case using wf_entry [OF wf e] m(1,4) by (auto simp: delete_obj_def)
  next
    case (3 p)
    then have "p \<noteq> q" using new(2) q by auto
    then show ?case using wf_held [OF wf 3] m(1) by (auto simp: delete_obj_def)
  qed
qed

lemma close_lowest: "set xs \<subseteq> set (removeAll (lowest_fd xs) (lowest_fd xs # xs))"
  using lowest_fd_fresh [of xs] by auto

lemma netlib_listen_ok:
  assumes wf: "net_wf held n"
  shows "step_ok held (map_option snd (netlib_listen e ip port cb data n))"
proof -
  define fd where "fd = lowest_fd (open_fds n)"
  define s where "s = CBaseSocket\<lparr>m_local_ip := ip, m_local_port := port, m_callback := cb,
     m_callback_data := data, m_socket := fd, m_state := SOCKET_STATE_LISTENING\<rparr>"
  obtain n' where n': "AddBaseSocket (next_obj n)
      (put_obj (next_obj n) s ((snd (new_socket n))\<lparr>open_fds := fd # open_fds n\<rparr>)) = Some n'" "net_wf held n'"
    using register_new [OF wf fd_def, of s] by (auto simp: s_def CBaseSocket_def)
  have fd: "fd \<noteq> -1" using lowest_fd_nonneg [of "open_fds n"] fd_def by simp
  note drop = drop_new [OF wf refl] and cl = close_lowest [of "open_fds n", folded fd_def]
  have o: "open_fds (snd (new_socket n)) = open_fds n" by (simp add: new_socket_def put_obj_def)
  show ?thesis
  proof (cases "sys_socket e \<and> sys_bind e \<and> sys_listen e")
    case True
    have "netlib_listen e ip port cb data n = Some (NETLIB_OK, AddEvent fd n')"
      using n'(1) fd True
      by (simp add: netlib_listen_def sock_Listen_def new_socket_def put_obj_def Let_def s_def fd_def CBaseSocket_def)
    then show ?thesis using n'(2) by (simp add: step_ok_def wf_fds)
  next
    case False
    then show ?thesis using cl fd
      by (auto simp: netlib_listen_def sock_Listen_def new_socket_def put_obj_def Let_def step_ok_def
          close_fd_def fd_def [symmetric] intro!: drop)
  qed
qed

lemma netlib_connect_ok:
  assumes wf: "net_wf held n"
  shows "step_ok held (map_option snd (netlib_connect e ip port cb data n))"
proof -
  define fd where "fd = lowest_fd (open_fds n)"
  define s where "s = CBaseSocket\<lparr>m_remote_ip := ip, m_remote_port := port, m_callback := cb,
     m_callback_data := data, m_socket := fd, m_state := SOCKET_STATE_CONNECTING\<rparr>"
  obtain n' where n': "AddBaseSocket (next_obj n)
      (put_obj (next_obj n) s ((snd (new_socket n))\<lparr>open_fds := fd # open_fds n\<rparr>)) = Some n'" "net_wf held n'"
    using register_new [OF wf fd_def, of s] by (auto simp: s_def CBaseSocket_def)
  have fd: "fd \<noteq> -1" using lowest_fd_nonneg [of "open_fds n"] fd_def by simp
  note drop = drop_new [OF wf refl] and cl = close_lowest [of "open_fds n", folded fd_def]
  show ?thesis
  proof (cases "sys_socket e \<and> \<not> (sys_ret e = -1 \<and> \<not> IsBlock (sys_errno e))")
    case True
    have "netlib_connect e ip port cb data n = Some (fd, AddEvent fd n')"
      using n'(1) fd True
      by (auto simp: netlib_connect_def sock_Connect_def new_socket_def put_obj_def Let_def s_def fd_def CBaseSocket_def)
    then show ?thesis using n'(2) by (simp add: step_ok_def wf_fds)
  next
    case False
    then show ?thesis using cl fd
      by (auto simp: netlib_connect_def sock_Connect_def new_socket_def put_obj_def Let_def step_ok_def
          close_fd_def fd_def [symmetric] intro!: drop)
  qed
qed

lemma held_back: "(held(p := held p + 1))(p := (held(p := held p + 1)) p - 1) = (held :: nat \<Rightarrow> nat)"
  by auto

lemma net_step_ok:
  assumes wf: "net_wf held n" and nl: "\<not> op_leaks x"
  shows "step_ok held (net_step x n)"
proof (cases x)
  case (OpListen e ip port cb data)
  then show ?thesis using netlib_listen_ok [OF wf] by simp
next
  case (OpConnect e ip port cb data)
  then show ?thesis using netlib_connect_ok [OF wf] by simp
next
  case (OpSend e h)
  from wf_find [OF wf, of h] show ?thesis
  proof (elim disjE exE conjE)
    fix p n' s
    assume f: "FindBaseSocket h n = Some (Some p, n')" "net_wf (held(p := held p + 1)) n'" "objs n' p = Some s"
    have "step_ok held (sock_ReleaseRef p n')" using f(2) by (rule step_ok_release) auto
    then show ?thesis using f OpSend by (auto simp: netlib_send_def sock_Send_def step_ok_def)
  qed (use wf OpSend in \<open>simp add: netlib_send_def step_ok_def\<close>)
next
  case (OpRecv e h)
  from wf_find [OF wf, of h] show ?thesis
  proof (elim disjE exE conjE)
    fix p n' s
    assume f: "FindBaseSocket h n = Some (Some p, n')" "net_wf (held(p := held p + 1)) n'" "objs n' p = Some s"
    have "step_ok held (sock_ReleaseRef p n')" using f(2) by (rule step_ok_release) auto
    then show ?thesis using f OpRecv by (auto simp: netlib_recv_def sock_Recv_def step_ok_def)
  qed (use wf OpRecv in \<open>simp add: netlib_recv_def step_ok_def\<close>)
next
  case (OpClose h)
  from wf_find [OF wf, of h] show ?thesis
  proof (elim disjE exE conjE)
    fix p n' s
    assume f: "FindBaseSocket h n = Some (Some p, n')" "net_wf (held(p := held p + 1)) n'" "objs n' p = Some s"
      "g_socket_map n h = Some p" "g_socket_map n' = g_socket_map n" "m_socket s = h"
    obtain n2 where n2: "sock_Close p n' = Some (0, n2)" "net_wf (held(p := held p + 1)) n2"
      using wf_close [OF f(2) _ f(3)] f by auto
    have "step_ok held (sock_ReleaseRef p n2)" using n2(2) by (rule step_ok_release) auto
    then show ?thesis using f n2(1) OpClose by (auto simp: netlib_close_def step_ok_def)
  qed (use wf OpClose in \<open>simp add: netlib_close_def step_ok_def\<close>)
next
  case (OpOption h opt v)
  from wf_find [OF wf, of h] show ?thesis
  proof (elim disjE exE conjE)
    fix p n' s
    assume f: "FindBaseSocket h n = Some (Some p, n')" "net_wf (held(p := held p + 1)) n'" "objs n' p = Some s"
    obtain s' out where so: "set_option opt v s = (s', out)" by (cases "set_option opt v s")
    then have s': "sk_ref s' = sk_ref s" "m_socket s' = m_socket s"
      by (auto simp: set_option_def split: if_splits)
    have "net_wf (held(p := held p + 1)) (put_obj p s' n')" using s' by (intro wf_put [OF f(2,3)]) auto
    then have "step_ok held (sock_ReleaseRef p (put_obj p s' n'))" by (rule step_ok_release) auto
    then show ?thesis using f so nl OpOption by (auto simp: netlib_option_def step_ok_def)
  qed (use wf OpOption in \<open>simp add: netlib_option_def step_ok_def\<close>)
qed

lemma net_run_ok: "net_wf held n \<Longrightarrow> list_all (\<lambda>x. \<not> op_leaks x) xs \<Longrightarrow> step_ok held (net_run xs n)"
proof (induction xs arbitrary: n)
  case Nil
  then show ?case by (simp add: step_ok_def)
next
  case (Cons x xs)
  then show ?case using net_step_ok [of held n x] by (auto intro!: step_ok_bind)
qed

lemma call_back_ok:
  assumes "net_wf held n" and "0 < held p" and "handler_ok H"
  shows "step_ok held (call_back H p msg h n)"
  using wf_held [OF assms(1,2)] assms(3) net_run_ok [OF assms(1)] by (auto simp: call_back_def handler_ok_def)

lemma AcceptNewSocket_ok:
  assumes "net_wf held n" and "0 < held p" and "handler_ok H"
  shows "step_ok held (AcceptNewSocket H peers p n)"
  using assms(1)
proof (induction peers arbitrary: n)
  case Nil
  then show ?case by (simp add: step_ok_def)
next
  case (Cons peer peers)
  obtain ip port where peer: "peer = (ip, port)" by (cases peer)
  define fd where "fd = lowest_fd (open_fds n)"
  define n1 where "n1 = (snd (new_socket n))\<lparr>open_fds := fd # open_fds n\<rparr>"
  have ns: "new_socket (n\<lparr>open_fds := fd # open_fds n\<rparr>) = (next_obj n, n1)"
    by (simp add: new_socket_def put_obj_def n1_def)
  obtain s0 where s0: "objs n p = Some s0" using wf_held [OF Cons.prems assms(2)] by blast
  then have "p \<noteq> next_obj n" using wf_new(1) [OF Cons.prems] by auto
  then have s: "objs n1 p = Some s0" using s0 by (simp add: n1_def new_socket_def put_obj_def)
  define s' where "s' = CBaseSocket\<lparr>m_socket := fd, m_callback := m_callback s0, m_callback_data := m_callback_data s0,
      m_state := SOCKET_STATE_CONNECTED, m_remote_ip := ip, m_remote_port := port\<rparr>"
  obtain n2 where n2: "AddBaseSocket (next_obj n) (put_obj (next_obj n) s' n1) = Some n2" "net_wf held n2"
    using register_new [OF Cons.prems fd_def, of s'] by (auto simp: s'_def CBaseSocket_def n1_def)
  have "step_ok held (call_back H p NETLIB_MSG_CONNECT fd (AddEvent fd n2))"
    using n2(2) assms by (intro call_back_ok wf_fds) auto
  then have "step_ok held (call_back H p NETLIB_MSG_CONNECT fd (AddEvent fd n2) \<bind> AcceptNewSocket H peers p)"
    by (rule step_ok_bind) (rule Cons.IH)
  then show ?case by (simp add: peer fd_def [symmetric] ns s s'_def [symmetric] n2(1) Let_def)
qed

lemma sock_events_ok:
  assumes "net_wf held n" and "0 < held p" and "handler_ok H"
  shows "step_ok held (sock_OnRead H k p n)" and "step_ok held (sock_OnWrite H k p n)"
    and "step_ok held (sock_OnClose H p n)"
proof -
  obtain s where s: "objs n p = Some s" using wf_held [OF assms(1,2)] by blast
  have put: "net_wf held (put_obj p (s\<lparr>m_state := st\<rparr>) n)" for st
    by (rule wf_put [OF assms(1) s]) simp_all
  show "step_ok held (sock_OnRead H k p n)"
    using s AcceptNewSocket_ok [OF assms] call_back_ok [OF assms] by (simp add: sock_OnRead_def)
  show "step_ok held (sock_OnWrite H k p n)"
    using s call_back_ok [OF assms] call_back_ok [OF put assms(2,3)] by (simp add: sock_OnWrite_def)
  show "step_ok held (sock_OnClose H p n)"
    using s call_back_ok [OF put assms(2,3)] by (simp add: sock_OnClose_def)
qed

lemma dispatch_event_ok:
  assumes wf: "net_wf held n" and H: "handler_ok H"
  shows "step_ok held (dispatch_event H ev n)"
  using wf_find [OF wf, of "ev_fd ev"]
proof (elim disjE exE conjE)
  fix p n0 s
  assume f: "FindBaseSocket (ev_fd ev) n = Some (Some p, n0)" "net_wf (held(p := held p + 1)) n0"
  let ?h = "held(p := held p + 1)"
  have e: "step_ok ?h (on_event b (sock_OnClose H p) m)" "step_ok ?h (on_event b (sock_OnRead H k p) m)"
    "step_ok ?h (on_event b (sock_OnWrite H k p) m)" if "net_wf ?h m" for b k m
    using sock_events_ok [OF that _ H] that by (auto simp: on_event_def step_ok_def)
  have "step_ok held (do {
      n1 \<leftarrow> on_event (ev_rdhup ev) (sock_OnClose H p) n0;
      n2 \<leftarrow> on_event (ev_in ev) (sock_OnRead H (ev_ready ev) p) n1;
      n3 \<leftarrow> on_event (ev_out ev) (sock_OnWrite H (ev_ready ev) p) n2;
      n4 \<leftarrow> on_event (ev_err ev) (sock_OnClose H p) n3;
      sock_ReleaseRef p n4 })"
    using f(2) by (intro step_ok_bind [where held = ?h] e step_ok_release [where held = ?h]) auto
  then show ?thesis by (simp add: dispatch_event_def f(1))
qed (use wf in \<open>simp add: dispatch_event_def step_ok_def\<close>)

lemma dispatch_batch_ok:
  "net_wf held n \<Longrightarrow> handler_ok H \<Longrightarrow> step_ok held (dispatch_batch H evs n)"
proof (induction evs arbitrary: n)
  case Nil
  then show ?case by (simp add: step_ok_def)
next
  case (Cons ev evs)
  then show ?case using dispatch_event_ok [of held n H ev] by (auto intro!: step_ok_bind)
qed
section \<open>Life of the network layer\<close>

lemma net_init_wf: "net_wf (\<lambda>_. 0) (net_init fds)"
  by (simp add: net_wf_def net_init_def)

lemma net_life_ok:
  "net_wf held n \<Longrightarrow> handler_ok H \<Longrightarrow> list_all (\<lambda>(xs, evs). list_all (\<lambda>x. \<not> op_leaks x) xs) rounds \<Longrightarrow>
   step_ok held (net_life H rounds n)"
proof (induction rounds arbitrary: n)
  case Nil
  then show ?case by (simp add: step_ok_def)
next
  case (Cons r rounds)
  obtain xs evs where r: "r = (xs, evs)" by (cases r)
  have "step_ok held (net_run xs n)" using Cons.prems r by (intro net_run_ok) simp_all
  then show ?case unfolding r net_life.simps
    using Cons by (intro step_ok_bind dispatch_batch_ok) (simp_all add: r)
qed



text \<open>
  The early return of \<open>netlib_option\<close> leaks a reference. Asked for an option that needs a
  value without one, it returns the error with the reference it took still held; when the
  socket is closed afterwards, its handle is gone but the object stays allocated.
\<close>

lemma option_early_return_leaks:
  assumes wf: "net_wf (\<lambda>_. 0) n" and m: "g_socket_map n h = Some p" and opt: "3 \<le> opt"
  shows "\<exists>n1 n2 s. netlib_option h opt None n = Some (NETLIB_ERROR, OutNone, n1)
     \<and> netlib_close h n1 = Some (0, n2)
     \<and> (\<forall>fd. g_socket_map n2 fd \<noteq> Some p) \<and> objs n2 p = Some s \<and> m_refCount (sk_ref s) = 1"
proof -
  let ?h1 = "(\<lambda>_. 0)(p := 1 :: nat)"
  obtain n1 s1 where f1: "FindBaseSocket h n = Some (Some p, n1)" "net_wf ?h1 n1" "g_socket_map n1 = g_socket_map n"
      "objs n1 p = Some s1" "m_socket s1 = h"
    using wf_find [OF wf, of h] m by auto
  let ?h2 = "?h1(p := ?h1 p + 1)"
  obtain n1' s2 where f2: "FindBaseSocket h n1 = Some (Some p, n1')" "net_wf ?h2 n1'" "g_socket_map n1' = g_socket_map n1"
      "objs n1' p = Some s2" "m_socket s2 = h"
    using wf_find [OF f1(2), of h] f1(3) m by auto
  obtain n2 where c: "sock_Close p n1' = Some (0, n2)" "net_wf ?h2 n2"
    using wf_close [OF f2(2) _ f2(4)] f1(3) f2(3,5) m by auto
  have un: "g_socket_map n2 fd \<noteq> Some p" for fd
  proof
    assume e: "g_socket_map n2 fd = Some p"
    then have "fd \<noteq> h \<and> g_socket_map n1' fd = Some p"
      using c(1) f2(4,5)
      by (auto simp: sock_Close_def RemoveBaseSocket_def RemoveEvent_def close_fd_def sock_ReleaseRef_def
          delete_obj_def put_obj_def bind_eq_Some_conv split: option.splits if_splits)
    then show False using wf_entry [OF f2(2), of fd p] f2(4,5) by auto
  qed
  obtain n3 where r: "sock_ReleaseRef p n2 = Some n3" "net_wf (?h2(p := ?h2 p - 1)) n3" "g_socket_map n3 = g_socket_map n2"
    using wf_release [OF c(2), of p] by auto
  obtain s3 where s3: "objs n3 p = Some s3" using wf_held [OF r(2), of p] by auto
  have "m_refCount (sk_ref s3) = 1" using wf_obj(3) [OF r(2) s3] un r(3) by simp
  with f1 f2(1) c(1) r s3 un opt show ?thesis
    by (simp add: netlib_option_def netlib_close_def)
qed

end
